(* ===== verification/Rel4u_Prelude.thy ===== *)
theory Rel4u_Prelude
  imports Main "HOL-Library.Word"
begin

unbundle bit_operations_syntax

text \<open>
  The shared vocabulary of the development: the fixed-width integer types of the C
  sources, the collections of rewrite rules the component theories extend, and the
  generic facts on words, lists and byte buffers they have in common.

  \<^item> \<open>u8\<close>, \<open>u16\<close>, \<open>u32\<close>, \<open>u64\<close> are \<open>uint8_t\<close> to \<open>uint64_t\<close>; \<open>size_t\<close> is the 64-bit
    \<open>size_t\<close> of an LP64 target; a C \<open>int\<close> return code is an \<open>int\<close>.
  \<^item> a byte array is a list of \<open>u8\<close>; \<open>memcpy_at\<close> overwrites a stretch of it, and \<open>memcpy\<close> is
    the C call on two arrays, \<open>None\<close> when it would leave either of them;
  \<^item> \<open>deref\<close> reads an array element, with \<open>None\<close> for an access outside the array;
  \<^item> \<open>pow2\<close> is the test the code makes on window sizes, and \<open>slot_of\<close> the masking it
    uses instead of a remainder.
\<close>

type_synonym u8 = "8 word"
type_synonym u16 = "16 word"
type_synonym u32 = "32 word"
type_synonym u64 = "64 word"
type_synonym size_t = "64 word"

named_theorems seq_simps \<open>serial number comparisons as facts on unsigned distances\<close>
named_theorems ring_simps \<open>index arithmetic of rings and masked slot tables\<close>

subsection \<open>Byte buffers\<close>

definition memcpy_at :: "'a list \<Rightarrow> nat \<Rightarrow> 'a list \<Rightarrow> 'a list" where
  "memcpy_at buf off src = take off buf @ src @ drop (off + length src) buf"

lemma length_memcpy_at [simp]:
  "off + length src \<le> length buf \<Longrightarrow> length (memcpy_at buf off src) = length buf"
  by (simp add: memcpy_at_def)

lemma nth_memcpy_at:
  "off + length src \<le> length buf \<Longrightarrow> i < length buf \<Longrightarrow>
   memcpy_at buf off src ! i =
     (if off \<le> i \<and> i < off + length src then src ! (i - off) else buf ! i)"
  by (auto simp: memcpy_at_def nth_append min_def)

lemma take_memcpy_at_0 [simp]: "n = length src \<Longrightarrow> take n (memcpy_at buf 0 src) = src"
  by (simp add: memcpy_at_def)

definition memcpy :: "'a list \<Rightarrow> 'a list \<Rightarrow> nat \<Rightarrow> 'a list option" where
  "memcpy dst src n =
     (if n \<le> length src \<and> n \<le> length dst then Some (memcpy_at dst 0 (take n src)) else None)"

lemma memcpy_in_range:
  "n \<le> length src \<Longrightarrow> n \<le> length dst \<Longrightarrow> memcpy dst src n = Some (memcpy_at dst 0 (take n src))"
  by (simp add: memcpy_def)

lemma memcpy_SomeD:
  assumes "memcpy dst src n = Some d"
  shows "length d = length dst" "take n d = take n src" "n \<le> length src" "n \<le> length dst"
  using assms by (auto simp: memcpy_def min_def split: if_splits)

lemma list_update_Cons_numeral [simp]:
  "(x # xs)[numeral k := y] = x # xs[pred_numeral k := y]"
  by (simp add: numeral_eq_Suc)

lemma length_filter_update:
  assumes "i < length xs"
  shows "length (filter P (xs[i := y])) + (if P (xs ! i) then 1 else 0) =
    length (filter P xs) + (if P y then 1 else 0)"
proof -
  have "length (filter P xs) = length (filter P (take i xs @ xs ! i # drop (Suc i) xs))"
    using id_take_nth_drop [OF assms] by simp
  then show ?thesis using assms by (simp add: upd_conv_take_nth_drop)
qed

definition deref :: "'a list \<Rightarrow> nat \<Rightarrow> 'a option" where
  "deref xs i = (if i < length xs then Some (xs ! i) else None)"

lemma deref_Some_iff [simp]: "deref xs i = Some x \<longleftrightarrow> i < length xs \<and> xs ! i = x"
  by (auto simp: deref_def)

lemma deref_None_iff [simp]: "deref xs i = None \<longleftrightarrow> length xs \<le> i"
  by (auto simp: deref_def)

lemma deref_in_range: "i < length xs \<Longrightarrow> deref xs i = Some (xs ! i)"
  by simp

lemma deref_update_same:
  "i < length xs \<Longrightarrow> deref (xs[i := x]) i = Some x"
  by simp

subsection \<open>Signed readings and distances of 32-bit words\<close>

lemma sint_u32_eq:
  "sint (x :: u32) = (if unat x < 2 ^ 31 then int (unat x) else int (unat x) - 2 ^ 32)"
proof -
  have u: "0 \<le> uint x" "uint x < 2 ^ 32"
    using uint_lt2p [of x] by simp_all
  have "sint x = (uint x + 2 ^ 31) mod 2 ^ 32 - 2 ^ 31"
    by (simp add: sint_uint signed_take_bit_eq_take_bit_shift take_bit_eq_mod)
  also have "\<dots> = (if uint x < 2 ^ 31 then uint x else uint x - 2 ^ 32)"
  proof (cases "uint x < 2 ^ 31")
    case True
    with u show ?thesis by simp
  next
    case False
    then have "(uint x + 2 ^ 31) mod 2 ^ 32 = (uint x + 2 ^ 31 - 2 ^ 32) mod 2 ^ 32"
      by (metis minus_mod_self2)
    also have "\<dots> = uint x + 2 ^ 31 - 2 ^ 32"
      using u False by (intro mod_pos_pos_trivial) simp_all
    finally show ?thesis using False by simp
  qed
  finally have "sint x = (if uint x < 2 ^ 31 then uint x else uint x - 2 ^ 32)" .
  moreover have "(unat x < 2 ^ 31) = (uint x < 2 ^ 31)"
    using nat_less_iff [OF u(1), of "2 ^ 31"] by simp
  ultimately show ?thesis by simp
qed

lemma unat_u32_lt: "unat (x :: u32) < 2 ^ 32"
  using unsigned_less [of x, where 'a = nat] by simp

lemma unat_u64_lt: "unat (x :: u64) < 2 ^ 64"
  using unsigned_less [of x, where 'a = nat] by simp

lemma sint_u32_cases:
  fixes x :: u32
  obtains n where "unat x = n" "n < 2 ^ 31" "sint x = int n"
  | n where "unat x = n" "2 ^ 31 \<le> n" "n < 2 ^ 32" "sint x = int n - 2 ^ 32"
  using unat_u32_lt [of x] sint_u32_eq [of x] by (metis not_less)

lemma sint_u32_less_0 [seq_simps]: "sint (x :: u32) < 0 \<longleftrightarrow> 2 ^ 31 \<le> unat x"
  by (cases x rule: sint_u32_cases) simp_all

lemma sint_u32_le_0 [seq_simps]: "sint (x :: u32) \<le> 0 \<longleftrightarrow> x = 0 \<or> 2 ^ 31 \<le> unat x"
proof -
  have "x = 0 \<longleftrightarrow> unat x = 0" by (simp add: unsigned_eq_0_iff)
  then show ?thesis by (cases x rule: sint_u32_cases) auto
qed

lemma sint_u32_greater_0 [seq_simps]: "0 < sint (x :: u32) \<longleftrightarrow> x \<noteq> 0 \<and> unat x < 2 ^ 31"
  using sint_u32_le_0 [of x] by auto

lemma sint_u32_ge_0 [seq_simps]: "0 \<le> sint (x :: u32) \<longleftrightarrow> unat x < 2 ^ 31"
  using sint_u32_less_0 [of x] by auto

lemma sint_u32_less_cap:
  fixes x c :: u32
  assumes "unat c < 2 ^ 31"
  shows "sint x < sint c \<longleftrightarrow> unat x < unat c \<or> 2 ^ 31 \<le> unat x"
  using assms by (cases x rule: sint_u32_cases; cases c rule: sint_u32_cases) auto

lemma unat_u32_Suc:
  fixes x y :: u32
  assumes "unat (x - y) + 1 < 2 ^ 32"
  shows "unat (x + 1 - y) = Suc (unat (x - y))"
proof -
  have "unat (x - y + 1) = (unat (x - y) + 1) mod 2 ^ 32"
    by (simp add: unat_word_ariths)
  also have "\<dots> = unat (x - y) + 1"
    using assms by (rule mod_less)
  finally show ?thesis by (simp add: algebra_simps)
qed

lemma unat_u32_pred:
  fixes x y :: u32
  assumes "x \<noteq> y"
  shows "unat (x - (y + 1)) = unat (x - y) - 1"
proof -
  have "x - (y + 1) = (x - y) - 1" by simp
  moreover from assms have "1 \<le> x - y"
    by (simp add: word_le_nat_alt unat_eq_zero Suc_le_eq unat_gt_0)
  ultimately show ?thesis using unat_sub [of 1 "x - y"] by (simp only: unsigned_1)
qed

lemma of_nat_unat_diff [simp]: "y + of_nat (unat (x - y)) = (x :: u32)"
  by simp

lemma unat_of_nat_u32: "i < 2 ^ 32 \<Longrightarrow> unat (of_nat i :: u32) = i"
  by (simp add: unat_of_nat)

lemma u32_offset_inj:
  "i < 2 ^ 32 \<Longrightarrow> j < 2 ^ 32 \<Longrightarrow> (a :: u32) + of_nat i = a + of_nat j \<longleftrightarrow> i = j"
  by (metis add_left_cancel unat_of_nat_u32)

subsection \<open>Powers of two and masked indices\<close>

definition pow2 :: "u32 \<Rightarrow> bool" where
  "pow2 c \<longleftrightarrow> 2 \<le> c \<and> c AND (c - 1) = 0"

definition slot_of :: "u32 \<Rightarrow> u32 \<Rightarrow> nat" where
  "slot_of c s = unat (s AND (c - 1))"

lemma and_pred_nat: "n AND (n - 1) = 0 \<Longrightarrow> 0 < n \<Longrightarrow> \<exists>k. (n::nat) = 2 ^ k"
proof (induction n rule: less_induct)
  case (less n)
  show ?case
  proof (cases "even n")
    case True
    then obtain m where m: "n = 2 * m" by blast
    with less.prems have "0 < m" by simp
    have "n - 1 = 1 + 2 * (m - 1)" using m \<open>0 < m\<close> by simp
    then have "n AND (n - 1) = 2 * (m AND (m - 1))"
      using m by (subst and_rec) (simp add: \<open>0 < m\<close>)
    with less m \<open>0 < m\<close> obtain k where "m = 2 ^ k"
      by force
    with m have "n = 2 ^ Suc k" by simp
    then show ?thesis ..
  next
    case False
    then obtain m where m: "n = 2 * m + 1" using oddE by blast
    have "n AND (n - 1) = 2 * m"
      using m by (subst and_rec) simp
    with less.prems m have "n = 2 ^ 0" by simp
    then show ?thesis ..
  qed
qed

lemma pow2_exp:
  assumes "pow2 c"
  shows "\<exists>k. 1 \<le> k \<and> k < 32 \<and> unat c = 2 ^ k"
proof -
  have c: "2 \<le> unat c" using assms by (simp add: pow2_def word_le_nat_alt)
  then have "unat (c - 1) = unat c - 1"
    by (simp add: unat_sub word_le_nat_alt)
  then have "unat c AND (unat c - 1) = 0"
    using assms unfolding pow2_def by (metis unsigned_0 unsigned_and_eq)
  with c obtain k where k: "unat c = 2 ^ k"
    using and_pred_nat [of "unat c"] by auto
  have "k \<noteq> 0" using c k by (intro notI) simp
  moreover have "(2::nat) ^ k < 2 ^ 32" using k unat_u32_lt [of c] by simp
  then have "k < 32" by (simp del: power_numeral)
  ultimately show ?thesis using k by auto
qed

lemma pow2_ge_2: "pow2 c \<Longrightarrow> 2 \<le> unat c"
  by (simp add: pow2_def word_le_nat_alt)

lemma slot_of_mod:
  assumes "pow2 c"
  shows "slot_of c s = unat s mod unat c"
proof -
  obtain k where k: "unat c = 2 ^ k" "k < 32"
    using pow2_exp [OF assms] by blast
  have "c = 2 ^ k"
    using arg_cong [OF k(1), of "of_nat :: nat \<Rightarrow> u32"] by simp
  then have "c - 1 = mask k"
    by (simp add: mask_eq_exp_minus_1)
  then have "s AND (c - 1) = take_bit k s"
    by (simp add: take_bit_eq_mask)
  then show ?thesis using k
    by (simp add: slot_of_def unsigned_take_bit_eq) (simp add: take_bit_eq_mod)
qed

lemma slot_of_less [simp]: "pow2 c \<Longrightarrow> slot_of c s < unat c"
  using pow2_ge_2 [of c] by (simp add: slot_of_mod)

lemma slot_of_add [ring_simps]:
  assumes "pow2 c"
  shows "slot_of c (s + of_nat i) = (unat s + i) mod unat c"
proof -
  obtain k where k: "unat c = 2 ^ k" "k < 32"
    using pow2_exp [OF assms] by blast
  have "unat (s + of_nat i) = (unat s + i) mod 2 ^ 32"
    by (simp add: unat_word_ariths unat_of_nat mod_simps)
  moreover have "(2::nat) ^ k dvd 2 ^ 32"
    using k by (intro le_imp_power_dvd) simp
  ultimately show ?thesis
    using k assms by (simp only: slot_of_mod mod_mod_cancel)
qed

lemma mod_offset_inj:
  fixes a c :: nat
  assumes "(a + i) mod c = (a + j) mod c" "i < c" "j < c"
  shows "i = j"
  using assms mod_eq_dvd_iff_nat [of "a + i" "a + j" c] mod_eq_dvd_iff_nat [of "a + j" "a + i" c]
  by (metis add_diff_cancel_left mod_less mod_0_imp_dvd dvd_imp_le linorder_le_cases
      nat_add_left_cancel_le zero_less_diff leD le_less less_imp_diff_less)

lemma slot_of_inj:
  "pow2 c \<Longrightarrow> i < unat c \<Longrightarrow> j < unat c \<Longrightarrow>
   slot_of c (s + of_nat i) = slot_of c (s + of_nat j) \<longleftrightarrow> i = j"
  using mod_offset_inj [of "unat s" i "unat c" j] by (auto simp: slot_of_add)

lemma widen16: "unat (ucast (x :: u16) :: size_t) = unat x" "ucast (ucast x :: size_t) = x"
  using unsigned_less [of x, where 'a = nat]
  by (simp add: unsigned_ucast_eq take_bit_nat_eq_self) (rule bit_word_eqI, auto simp: bit_simps)

lemma widen32: "unat (ucast (x :: u32) :: size_t) = unat x"
  using unsigned_less [of x, where 'a = nat] by (simp add: unsigned_ucast_eq take_bit_nat_eq_self)

subsection \<open>Transition systems\<close>

text \<open>
  The contract of a system of steps: a predicate that holds initially and is kept by every step
  holds in all states that can be reached.
\<close>

locale step_invariant =
  fixes init :: "'s \<Rightarrow> bool" and step :: "'s \<Rightarrow> 's \<Rightarrow> bool" and inv :: "'s \<Rightarrow> bool"
  assumes init_inv: "init s \<Longrightarrow> inv s" and step_inv: "step s s' \<Longrightarrow> inv s \<Longrightarrow> inv s'"
begin

lemma run_inv: "step\<^sup>*\<^sup>* s s' \<Longrightarrow> inv s \<Longrightarrow> inv s'"
  by (induction rule: rtranclp_induct) (auto intro: step_inv)

lemma reachable_inv: "init s \<Longrightarrow> step\<^sup>*\<^sup>* s s' \<Longrightarrow> inv s'"
  using run_inv init_inv by blast

end

text \<open>
  Components whose operations may fault: a run of operations, \<open>None\<close> as soon as one faults, and
  the argument that none does, from an invariant every operation keeps.
\<close>

fun run_events :: "('e \<Rightarrow> 's \<Rightarrow> 's option) \<Rightarrow> 'e list \<Rightarrow> 's \<Rightarrow> 's option" where
  "run_events step [] s = Some s"
| "run_events step (x # xs) s = Option.bind (step x s) (run_events step xs)"

locale safe_events =
  fixes step :: "'e \<Rightarrow> 's \<Rightarrow> 's option" and inv :: "'s \<Rightarrow> bool" and ok :: "'e \<Rightarrow> bool"
  assumes step_safe: "inv s \<Longrightarrow> ok x \<Longrightarrow> \<exists>s'. step x s = Some s' \<and> inv s'"
begin

lemma run_safe: "inv s \<Longrightarrow> \<forall>x \<in> set xs. ok x \<Longrightarrow> \<exists>s'. run_events step xs s = Some s' \<and> inv s'"
proof (induction xs arbitrary: s)
  case (Cons x xs)
  from Cons.prems step_safe [of s x] obtain s1 where "step x s = Some s1" "inv s1" by auto
  with Cons.IH [of s1] Cons.prems show ?case by simp
qed simp

end

lemma bind_someE:
  assumes "Option.bind m f = Some y"
  obtains x where "m = Some x" "f x = Some y"
  using assms by (cases m) auto

text \<open>
  The weaker contract: an event may be impossible or fail, \<open>None\<close>, but where it does not, it keeps the invariant.
\<close>

locale kept_by_events =
  fixes step :: "'e \<Rightarrow> 's \<Rightarrow> 's option" and inv :: "'s \<Rightarrow> bool" and ok :: "'e \<Rightarrow> bool"
  assumes step_kept: "step x s = Some s' \<Longrightarrow> ok x \<Longrightarrow> inv s \<Longrightarrow> inv s'"
begin

lemma run_kept: "run_events step xs s = Some s' \<Longrightarrow> \<forall>x \<in> set xs. ok x \<Longrightarrow> inv s \<Longrightarrow> inv s'"
  by (induction xs arbitrary: s) (auto simp: bind_eq_Some_conv intro: step_kept)

end

end
