(* ===== verification/Rel4u_API.thy ===== *)
theory Rel4u_API
  imports Rel4u_Prelude
begin

text \<open>
  The public vocabulary of \<open>include/rel4u.h\<close>: return codes, delivery modes, policies,
  connection states, configuration and statistics.

  Delivery modes travel as a byte on the wire and through the queues, and the code casts
  any byte to the enumeration, so they are byte constants here; an enumeration the code
  only ever compares with its own constants (states, policies, memory modes) is a
  datatype.
\<close>

subsection \<open>Return codes\<close>

definition REL4U_OK :: int where [simp]: "REL4U_OK = 0"
definition REL4U_ERR_INVALID_PARAM :: int where [simp]: "REL4U_ERR_INVALID_PARAM = -1"
definition REL4U_ERR_SOCKET :: int where [simp]: "REL4U_ERR_SOCKET = -3"
definition REL4U_ERR_QUEUE_FULL :: int where [simp]: "REL4U_ERR_QUEUE_FULL = -4"
definition REL4U_ERR_QUEUE_EMPTY :: int where [simp]: "REL4U_ERR_QUEUE_EMPTY = -5"
definition REL4U_ERR_TIMEOUT :: int where [simp]: "REL4U_ERR_TIMEOUT = -6"
definition REL4U_ERR_NOT_CONNECTED :: int where [simp]: "REL4U_ERR_NOT_CONNECTED = -7"
definition REL4U_ERR_MSG_TOO_LARGE :: int where [simp]: "REL4U_ERR_MSG_TOO_LARGE = -8"
definition REL4U_ERR_SERVER_FULL :: int where [simp]: "REL4U_ERR_SERVER_FULL = -9"
definition REL4U_ERR_CLIENT_NOT_FOUND :: int where [simp]: "REL4U_ERR_CLIENT_NOT_FOUND = -10"
definition REL4U_ERR_SYSTEM :: int where [simp]: "REL4U_ERR_SYSTEM = -11"

subsection \<open>Sizes\<close>

definition REL4U_DEFAULT_MTU :: u16 where [simp]: "REL4U_DEFAULT_MTU = 1400"
definition REL4U_HEADER_SIZE :: nat where [simp]: "REL4U_HEADER_SIZE = 24"

text \<open>
  \<open>REL4U_MAX_PAYLOAD(mtu)\<close>: the comparison and the subtraction are done on promoted
  \<open>int\<close>s, so a small MTU gives 0.
\<close>

definition REL4U_MAX_PAYLOAD :: "u16 \<Rightarrow> nat" where
  "REL4U_MAX_PAYLOAD mtu =
     (if unat mtu > REL4U_HEADER_SIZE then unat mtu - REL4U_HEADER_SIZE else 0)"

subsection \<open>Enumerations\<close>

definition REL4U_MODE_UNRELIABLE_UNORDERED :: u8 where [simp]: "REL4U_MODE_UNRELIABLE_UNORDERED = 0"
definition REL4U_MODE_UNRELIABLE_ORDERED :: u8 where [simp]: "REL4U_MODE_UNRELIABLE_ORDERED = 1"
definition REL4U_MODE_RELIABLE_UNORDERED :: u8 where [simp]: "REL4U_MODE_RELIABLE_UNORDERED = 2"
definition REL4U_MODE_RELIABLE_ORDERED :: u8 where [simp]: "REL4U_MODE_RELIABLE_ORDERED = 3"

datatype rel4u_max_clients_policy = REL4U_MAX_CLIENTS_REJECT | REL4U_MAX_CLIENTS_DROP_OLD

datatype rel4u_memory_mode = REL4U_MEM_FIXED | REL4U_MEM_DYNAMIC

datatype rel4u_queue_full_policy = REL4U_QUEUE_FULL_DROP_NEW | REL4U_QUEUE_FULL_DROP_LAST

datatype rel4u_conn_state =
    REL4U_STATE_DISCONNECTED
  | REL4U_STATE_CONNECTING
  | REL4U_STATE_CONNECTED
  | REL4U_STATE_DISCONNECTING

subsection \<open>Configuration\<close>

text \<open>The character pointers of the structs may be NULL and are options.\<close>

record rel4u_server_config =
  sc_bind_address :: "string option"
  sc_bind_port :: u16
  sc_max_clients :: u32
  sc_full_policy :: rel4u_max_clients_policy
  sc_mtu :: u16
  sc_send_queue_capacity :: u32
  sc_recv_queue_capacity :: u32
  sc_window_size :: u32
  sc_heartbeat_interval_ms :: u32
  sc_inactivity_timeout_ms :: u32
  sc_memory_mode :: rel4u_memory_mode
  sc_queue_full_policy :: rel4u_queue_full_policy
  sc_max_send_memory_bytes :: size_t
  sc_max_recv_memory_bytes :: size_t

record rel4u_client_config =
  cc_server_address :: "string option"
  cc_server_port :: u16
  cc_bind_address :: "string option"
  cc_bind_port :: u16
  cc_mtu :: u16
  cc_send_queue_capacity :: u32
  cc_recv_queue_capacity :: u32
  cc_window_size :: u32
  cc_heartbeat_interval_ms :: u32
  cc_inactivity_timeout_ms :: u32
  cc_connect_timeout_ms :: u32
  cc_disable_auto_reconnect :: bool
  cc_reconnect_interval_ms :: u32
  cc_memory_mode :: rel4u_memory_mode
  cc_queue_full_policy :: rel4u_queue_full_policy
  cc_max_send_memory_bytes :: size_t
  cc_max_recv_memory_bytes :: size_t

subsection \<open>Statistics\<close>

record rel4u_stats =
  bytes_sent :: u64
  bytes_recv :: u64
  packets_sent :: u64
  packets_recv :: u64
  packets_lost :: u64
  packets_retransmitted :: u64
  packets_dropped_queue_full :: u64
  current_rtt_ms :: u32
  current_rto_ms :: u32
  active_connections :: u32
  send_queue_occupancy :: u32
  recv_queue_occupancy :: u32
  send_queue_bytes :: u64
  recv_queue_bytes :: u64

definition zero_stats :: rel4u_stats where
  "zero_stats =
     \<lparr>bytes_sent = 0, bytes_recv = 0, packets_sent = 0, packets_recv = 0, packets_lost = 0,
      packets_retransmitted = 0, packets_dropped_queue_full = 0, current_rtt_ms = 0,
      current_rto_ms = 0, active_connections = 0, send_queue_occupancy = 0,
      recv_queue_occupancy = 0, send_queue_bytes = 0, recv_queue_bytes = 0\<rparr>"

end
