(* ===== verification/Mpmc.thy ===== *)
theory Mpmc
  imports Rel4u_API "HOL-Library.Finite_Map"
begin

text \<open>
  The queues between the application's threads and a worker, \<open>src/core/rel4u_mpmc.h\<close> and
  \<open>src/core/rel4u_mpmc.c\<close>.

  \<^item> A queue is the record of the C struct. In fixed mode its messages are in the ring
    \<open>items\<close>; in dynamic mode they are heap nodes linked by \<open>prev\<close> and \<open>next\<close> pointers. The
    nodes are reachable from this queue only, so the part of the C heap that holds them is
    the finite map \<open>nodes\<close> of the record; pointers are numbers and NULL is 0; \<open>free\<close> removes
    the entry. A NULL ring is the empty list.
  \<^item> \<open>malloc\<close> is a parameter \<open>alloc\<close> of the operations that call it: it sees the live nodes
    and the size asked for and returns an address or nothing. \<open>fresh_alloc\<close> is what C
    promises of it: the address is not NULL and not that of a live node.
  \<^item> every operation runs under the queue's mutex, so an operation is one atomic step and a
    concurrent history is a sequence of operations. A wait on the condition variable
    releases the mutex; \<open>rel4u_mpmc_pop_wait\<close> takes the queue states it finds each time it
    is woken, and whether it was signalled, as a list. The condition variable itself is the
    number of notifications it got (\<open>q_cond\<close>).
  \<^item> sizes are 64-bit words; \<open>sizeof\<close> of the node header and of an item are those of an LP64
    target.
\<close>

subsection \<open>Data\<close>

definition REL4U_MAX_MSG_SIZE :: nat where [simp]: "REL4U_MAX_MSG_SIZE = 9216"

type_synonym ptr = nat

record rel4u_mpmc_item =
  it_client_id :: u32
  it_mode :: u8
  it_len :: u16
  it_data :: "u8 list"

record rel4u_mpmc_node =
  nd_client_id :: u32
  nd_mode :: u8
  nd_len :: u16
  nd_allocated_size :: size_t
  nd_prev :: ptr
  nd_next :: ptr
  nd_data :: "u8 list"

type_synonym node_heap = "(ptr, rel4u_mpmc_node) fmap"
type_synonym allocator = "node_heap \<Rightarrow> size_t \<Rightarrow> ptr option"

record rel4u_mpmc_queue =
  q_mode :: rel4u_memory_mode
  q_full_policy :: rel4u_queue_full_policy
  q_max_bytes :: size_t
  q_current_bytes :: size_t
  q_dropped_count :: u64
  q_items :: "rel4u_mpmc_item list"
  q_capacity :: size_t
  q_head :: size_t
  q_tail :: size_t
  q_node_head :: ptr
  q_node_tail :: ptr
  q_count :: size_t
  q_wake_generation :: u32
  q_cond :: nat
  q_nodes :: node_heap

definition sizeof_node :: size_t where [simp]: "sizeof_node = 32"
definition sizeof_item :: size_t where [simp]: "sizeof_item = 9224"

definition fresh_alloc :: "allocator \<Rightarrow> bool" where
  "fresh_alloc alloc \<longleftrightarrow> (\<forall>h n p. alloc h n = Some p \<longrightarrow> p \<noteq> 0 \<and> fmlookup h p = None)"

definition set_prev :: "node_heap \<Rightarrow> ptr \<Rightarrow> ptr \<Rightarrow> node_heap" where
  "set_prev h p v = (case fmlookup h p of None \<Rightarrow> h | Some n \<Rightarrow> fmupd p (n\<lparr>nd_prev := v\<rparr>) h)"

definition set_next :: "node_heap \<Rightarrow> ptr \<Rightarrow> ptr \<Rightarrow> node_heap" where
  "set_next h p v = (case fmlookup h p of None \<Rightarrow> h | Some n \<Rightarrow> fmupd p (n\<lparr>nd_next := v\<rparr>) h)"

subsection \<open>Initialisation and destruction\<close>

definition zero_queue :: rel4u_mpmc_queue where
  "zero_queue =
     \<lparr>q_mode = REL4U_MEM_FIXED, q_full_policy = REL4U_QUEUE_FULL_DROP_NEW, q_max_bytes = 0,
      q_current_bytes = 0, q_dropped_count = 0, q_items = [], q_capacity = 0, q_head = 0,
      q_tail = 0, q_node_head = 0, q_node_tail = 0, q_count = 0, q_wake_generation = 0,
      q_cond = 0, q_nodes = fmempty\<rparr>"

text \<open>
  \<open>ring\<close> is what \<open>malloc\<close> returns for the ring: nothing, or an array of any content. That it has \<open>capacity\<close> items is a hypothesis of
  the theorems: the product with the size of an item does not wrap for the 32-bit capacities client and server pass, and a product that does
  is not modelled.
\<close>

definition rel4u_mpmc_init ::
  "rel4u_mpmc_item list option \<Rightarrow> rel4u_memory_mode \<Rightarrow> rel4u_queue_full_policy \<Rightarrow> size_t \<Rightarrow> size_t \<Rightarrow>
   int \<times> rel4u_mpmc_queue" where
  "rel4u_mpmc_init ring mode full_policy capacity max_bytes =
     (let q = zero_queue\<lparr>q_mode := mode, q_full_policy := full_policy\<rparr>
      in if mode = REL4U_MEM_FIXED then
           if capacity < 2 then (-1, q)
           else
             (let q = q\<lparr>q_capacity := capacity\<rparr>
              in case ring of
                   None \<Rightarrow> (-1, q)
                 | Some xs \<Rightarrow>
                     (0, q\<lparr>q_items := xs, q_max_bytes := sizeof_item * capacity,
                           q_current_bytes := sizeof_item * capacity, q_head := 0, q_tail := 0\<rparr>))
         else
           (let max_bytes = (if max_bytes = 0 then 1024 * 1024 else max_bytes)
            in (0, q\<lparr>q_max_bytes := max_bytes, q_current_bytes := 0, q_node_head := 0,
                     q_node_tail := 0\<rparr>)))"

lemma fcard_live: "fmlookup h p = Some n \<Longrightarrow> 0 < fcard (fmdom h)"
  by (metis bot_nat_0.not_eq_extremum fcard_0_eq fmdomI fempty_iff)

text \<open>The walk of \<open>rel4u_mpmc_destroy\<close> along the \<open>next\<close> pointers, freeing each node.\<close>

function free_nodes :: "node_heap \<Rightarrow> ptr \<Rightarrow> node_heap" where
  "free_nodes h cur =
     (if cur = 0 then h
      else case fmlookup h cur of
             None \<Rightarrow> h
           | Some n \<Rightarrow> free_nodes (fmdrop cur h) (nd_next n))"
  by pat_completeness auto
termination
  by (relation "measure (\<lambda>(h, cur). fcard (fmdom h))")
    (auto simp: fmlookup_dom_iff dest: fcard_live)

declare free_nodes.simps [simp del]

definition rel4u_mpmc_destroy :: "rel4u_mpmc_queue \<Rightarrow> rel4u_mpmc_queue" where
  "rel4u_mpmc_destroy q =
     (let q = q\<lparr>q_wake_generation := q_wake_generation q + 1, q_cond := q_cond q + 1\<rparr>;
          q = (if q_mode q = REL4U_MEM_DYNAMIC then
                 q\<lparr>q_nodes := free_nodes (q_nodes q) (q_node_head q), q_node_head := 0,
                   q_node_tail := 0\<rparr>
               else q\<lparr>q_items := []\<rparr>)
      in q\<lparr>q_capacity := 0, q_count := 0, q_current_bytes := 0\<rparr>)"

subsection \<open>Operations under the lock\<close>

text \<open>Unlinking and freeing the head node, as the eviction loops and the pop do it.\<close>

definition unlink_head :: "rel4u_mpmc_queue \<Rightarrow> rel4u_mpmc_node \<Rightarrow> rel4u_mpmc_queue" where
  "unlink_head q victim =
     (let p = q_node_head q;
          q = q\<lparr>q_node_head := nd_next victim\<rparr>;
          q = (if q_node_head q \<noteq> 0
               then q\<lparr>q_nodes := set_prev (q_nodes q) (q_node_head q) 0\<rparr>
               else q\<lparr>q_node_tail := 0\<rparr>)
      in q\<lparr>q_current_bytes := q_current_bytes q - nd_allocated_size victim,
           q_count := q_count q - 1,
           q_nodes := fmdrop p (q_nodes q)\<rparr>)"

lemma unlink_head_nodes:
  "q_nodes (unlink_head q v) =
     fmdrop (q_node_head q) (if nd_next v = 0 then q_nodes q else set_prev (q_nodes q) (nd_next v) 0)"
  by (simp add: unlink_head_def Let_def)

lemma fmdom_set_prev [simp]: "fmdom (set_prev h p v) = fmdom h"
  by (auto simp: set_prev_def split: option.splits intro: fmdomI)

lemma fmdom_set_next [simp]: "fmdom (set_next h p v) = fmdom h"
  by (auto simp: set_next_def split: option.splits intro: fmdomI)

text \<open>
  The eviction loop of the two dynamic pushes. It returns \<open>False\<close> where the code counts a
  drop and gives up: the policy keeps old messages, or the list is empty (a dangling head
  pointer, excluded by the queue invariant, stops it too).
\<close>

function mpmc_make_room :: "rel4u_mpmc_queue \<Rightarrow> size_t \<Rightarrow> bool \<times> rel4u_mpmc_queue" where
  "mpmc_make_room q needed =
     (if q_current_bytes q + needed > q_max_bytes q then
        (case fmlookup (q_nodes q) (q_node_head q) of
           Some victim \<Rightarrow>
             if q_full_policy q = REL4U_QUEUE_FULL_DROP_LAST \<and> q_node_head q \<noteq> 0 then
               mpmc_make_room
                 ((unlink_head q victim)\<lparr>q_dropped_count := q_dropped_count q + 1\<rparr>) needed
             else (False, q\<lparr>q_dropped_count := q_dropped_count q + 1\<rparr>)
         | None \<Rightarrow> (False, q\<lparr>q_dropped_count := q_dropped_count q + 1\<rparr>))
      else (True, q))"
  by pat_completeness auto
termination
  by (relation "measure (\<lambda>(q, needed). fcard (fmdom (q_nodes q)))")
    (auto simp: unlink_head_nodes fmlookup_dom_iff dest: fcard_live)

declare mpmc_make_room.simps [simp del]

definition count_drop :: "rel4u_mpmc_queue \<Rightarrow> rel4u_mpmc_queue" where
  "count_drop q = q\<lparr>q_dropped_count := q_dropped_count q + 1\<rparr>"

text \<open>The full-ring branch both fixed pushes start with; \<open>None\<close> is the rejecting return.\<close>

definition ring_admit :: "rel4u_mpmc_queue \<Rightarrow> rel4u_mpmc_queue option" where
  "ring_admit q =
     (if q_count q \<ge> q_capacity q then
        if q_full_policy q = REL4U_QUEUE_FULL_DROP_LAST then
          Some (count_drop (q\<lparr>q_head := (q_head q + 1) mod q_capacity q, q_count := q_count q - 1\<rparr>))
        else None
      else Some q)"

definition new_node :: "rel4u_mpmc_item \<Rightarrow> size_t \<Rightarrow> ptr \<Rightarrow> ptr \<Rightarrow> rel4u_mpmc_node" where
  "new_node item needed prv nxt =
     \<lparr>nd_client_id = it_client_id item, nd_mode = it_mode item, nd_len = it_len item,
      nd_allocated_size = needed, nd_prev = prv, nd_next = nxt,
      nd_data = take (unat (it_len item)) (it_data item)\<rparr>"

text \<open>The linking code of the two pushes, after \<open>malloc\<close> returned the address \<open>p\<close>.\<close>

definition link_back :: "rel4u_mpmc_queue \<Rightarrow> rel4u_mpmc_item \<Rightarrow> size_t \<Rightarrow> ptr \<Rightarrow> rel4u_mpmc_queue" where
  "link_back q item needed node =
     (let q = q\<lparr>q_nodes := fmupd node (new_node item needed (q_node_tail q) 0) (q_nodes q)\<rparr>;
          q = (if q_node_tail q \<noteq> 0
               then q\<lparr>q_nodes := set_next (q_nodes q) (q_node_tail q) node\<rparr>
               else q\<lparr>q_node_head := node\<rparr>)
      in q\<lparr>q_node_tail := node, q_count := q_count q + 1,
           q_current_bytes := q_current_bytes q + needed\<rparr>)"

definition link_front :: "rel4u_mpmc_queue \<Rightarrow> rel4u_mpmc_item \<Rightarrow> size_t \<Rightarrow> ptr \<Rightarrow> rel4u_mpmc_queue" where
  "link_front q item needed node =
     (let q = q\<lparr>q_nodes := fmupd node (new_node item needed 0 (q_node_head q)) (q_nodes q)\<rparr>;
          q = (if q_node_head q \<noteq> 0
               then q\<lparr>q_nodes := set_prev (q_nodes q) (q_node_head q) node\<rparr>
               else q\<lparr>q_node_tail := node\<rparr>)
      in q\<lparr>q_node_head := node, q_count := q_count q + 1,
           q_current_bytes := q_current_bytes q + needed\<rparr>)"

definition mpmc_push_back_locked ::
  "allocator \<Rightarrow> rel4u_mpmc_queue \<Rightarrow> rel4u_mpmc_item \<Rightarrow> bool \<times> rel4u_mpmc_queue" where
  "mpmc_push_back_locked alloc q item =
     (if unat (it_len item) > REL4U_MAX_MSG_SIZE then (False, q)
      else if q_mode q = REL4U_MEM_FIXED then
        (case ring_admit q of
           None \<Rightarrow> (False, count_drop q)
         | Some q \<Rightarrow>
             (True, q\<lparr>q_items := (q_items q)[unat (q_tail q) := item],
                      q_tail := (q_tail q + 1) mod q_capacity q,
                      q_count := q_count q + 1\<rparr>))
      else
        (let needed = sizeof_node + ucast (it_len item)
         in if needed > q_max_bytes q then (False, count_drop q)
            else case mpmc_make_room q needed of
                   (False, q) \<Rightarrow> (False, q)
                 | (True, q) \<Rightarrow>
                     (case alloc (q_nodes q) needed of
                        None \<Rightarrow> (False, count_drop q)
                      | Some node \<Rightarrow> (True, link_back q item needed node))))"

definition mpmc_push_front_locked ::
  "allocator \<Rightarrow> rel4u_mpmc_queue \<Rightarrow> rel4u_mpmc_item \<Rightarrow> bool \<times> rel4u_mpmc_queue" where
  "mpmc_push_front_locked alloc q item =
     (if unat (it_len item) > REL4U_MAX_MSG_SIZE then (False, q)
      else if q_mode q = REL4U_MEM_FIXED then
        (case ring_admit q of
           None \<Rightarrow> (False, count_drop q)
         | Some q \<Rightarrow>
             (let q = q\<lparr>q_head := (if q_head q = 0 then q_capacity q - 1 else q_head q - 1)\<rparr>
              in (True, q\<lparr>q_items := (q_items q)[unat (q_head q) := item], q_count := q_count q + 1\<rparr>)))
      else
        (let needed = sizeof_node + ucast (it_len item)
         in if needed > q_max_bytes q then (False, count_drop q)
            else case mpmc_make_room q needed of
                   (False, q) \<Rightarrow> (False, q)
                 | (True, q) \<Rightarrow>
                     (case alloc (q_nodes q) needed of
                        None \<Rightarrow> (False, count_drop q)
                      | Some node \<Rightarrow> (True, link_front q item needed node))))"

definition mpmc_pop_head_locked ::
  "rel4u_mpmc_queue \<Rightarrow> rel4u_mpmc_item \<Rightarrow> bool \<times> rel4u_mpmc_queue \<times> rel4u_mpmc_item" where
  "mpmc_pop_head_locked q out_item =
     (if q_count q = 0 then (False, q, out_item)
      else if q_mode q = REL4U_MEM_FIXED then
        (True, q\<lparr>q_head := (q_head q + 1) mod q_capacity q, q_count := q_count q - 1\<rparr>,
         q_items q ! unat (q_head q))
      else
        (case (if q_node_head q = 0 then None else fmlookup (q_nodes q) (q_node_head q)) of
           None \<Rightarrow> (False, q, out_item)
         | Some node \<Rightarrow>
             (True, unlink_head q node,
              out_item\<lparr>it_client_id := nd_client_id node, it_mode := nd_mode node,
                       it_len := nd_len node,
                       it_data := memcpy_at (it_data out_item) 0 (take (unat (nd_len node)) (nd_data node))\<rparr>)))"

subsection \<open>The public operations\<close>

definition rel4u_mpmc_try_push ::
  "allocator \<Rightarrow> rel4u_mpmc_queue \<Rightarrow> rel4u_mpmc_item option \<Rightarrow> bool \<times> rel4u_mpmc_queue" where
  "rel4u_mpmc_try_push alloc q item =
     (case item of None \<Rightarrow> (False, q) | Some i \<Rightarrow> mpmc_push_back_locked alloc q i)"

definition rel4u_mpmc_try_pop ::
  "rel4u_mpmc_queue \<Rightarrow> rel4u_mpmc_item option \<Rightarrow> bool \<times> rel4u_mpmc_queue \<times> rel4u_mpmc_item option" where
  "rel4u_mpmc_try_pop q out_item =
     (case out_item of
        None \<Rightarrow> (False, q, None)
      | Some out \<Rightarrow> (case mpmc_pop_head_locked q out of (ok, q, out) \<Rightarrow> (ok, q, Some out)))"

definition cond_signal :: "bool \<Rightarrow> rel4u_mpmc_queue \<Rightarrow> rel4u_mpmc_queue" where
  "cond_signal ok q = (if ok then q\<lparr>q_cond := q_cond q + 1\<rparr> else q)"

definition rel4u_mpmc_push_notify ::
  "allocator \<Rightarrow> rel4u_mpmc_queue \<Rightarrow> rel4u_mpmc_item option \<Rightarrow> bool \<times> rel4u_mpmc_queue" where
  "rel4u_mpmc_push_notify alloc q item =
     (case item of
        None \<Rightarrow> (False, q)
      | Some i \<Rightarrow> (case mpmc_push_back_locked alloc q i of (ok, q) \<Rightarrow> (ok, cond_signal ok q)))"

definition rel4u_mpmc_push_front ::
  "allocator \<Rightarrow> rel4u_mpmc_queue \<Rightarrow> rel4u_mpmc_item option \<Rightarrow> bool \<times> rel4u_mpmc_queue" where
  "rel4u_mpmc_push_front alloc q item =
     (case item of
        None \<Rightarrow> (False, q)
      | Some i \<Rightarrow> (case mpmc_push_front_locked alloc q i of (ok, q) \<Rightarrow> (ok, cond_signal ok q)))"

text \<open>
  The waiting loop. \<open>wakes\<close> lists, for each return of the condition wait, whether it was
  signalled (a timed wait may not be) and the queue as it is when the mutex is held
  again. \<open>None\<close> is a thread that is still waiting when the list ends.
\<close>

fun pop_wait_loop ::
  "u32 \<Rightarrow> int \<Rightarrow> (bool \<times> rel4u_mpmc_queue) list \<Rightarrow> rel4u_mpmc_queue \<Rightarrow> rel4u_mpmc_item \<Rightarrow>
   (bool \<times> rel4u_mpmc_queue \<times> rel4u_mpmc_item) option" where
  "pop_wait_loop gen timeout_ms wakes q out_item =
     (if q_count q = 0 then
        if timeout_ms = 0 then Some (False, q, out_item)
        else case wakes of
               [] \<Rightarrow> None
             | (signaled, q') # wakes' \<Rightarrow>
                 if timeout_ms < 0 then
                   if q_count q' = 0 \<and> q_wake_generation q' \<noteq> gen then Some (False, q', out_item)
                   else pop_wait_loop gen timeout_ms wakes' q' out_item
                 else
                   if q_count q' = 0 \<and> (\<not> signaled \<or> q_wake_generation q' \<noteq> gen) then
                     Some (False, q', out_item)
                   else pop_wait_loop gen timeout_ms wakes' q' out_item
      else Some (mpmc_pop_head_locked q out_item))"

declare pop_wait_loop.simps [simp del]

definition rel4u_mpmc_pop_wait ::
  "(bool \<times> rel4u_mpmc_queue) list \<Rightarrow> rel4u_mpmc_queue \<Rightarrow> rel4u_mpmc_item option \<Rightarrow> int \<Rightarrow>
   (bool \<times> rel4u_mpmc_queue \<times> rel4u_mpmc_item option) option" where
  "rel4u_mpmc_pop_wait wakes q out_item timeout_ms =
     (case out_item of
        None \<Rightarrow> Some (False, q, None)
      | Some out \<Rightarrow>
          map_option (\<lambda>(ok, q, out). (ok, q, Some out))
            (pop_wait_loop (q_wake_generation q) timeout_ms wakes q out))"

definition rel4u_mpmc_wake_all :: "rel4u_mpmc_queue \<Rightarrow> rel4u_mpmc_queue" where
  "rel4u_mpmc_wake_all q =
     q\<lparr>q_wake_generation := q_wake_generation q + 1, q_cond := q_cond q + 1\<rparr>"

definition rel4u_mpmc_size :: "rel4u_mpmc_queue option \<Rightarrow> size_t" where
  "rel4u_mpmc_size q = (case q of None \<Rightarrow> 0 | Some q \<Rightarrow> q_count q)"

definition rel4u_mpmc_bytes :: "rel4u_mpmc_queue option \<Rightarrow> size_t" where
  "rel4u_mpmc_bytes q = (case q of None \<Rightarrow> 0 | Some q \<Rightarrow> q_current_bytes q)"

definition rel4u_mpmc_dropped_count :: "rel4u_mpmc_queue option \<Rightarrow> u64" where
  "rel4u_mpmc_dropped_count q = (case q of None \<Rightarrow> 0 | Some q \<Rightarrow> q_dropped_count q)"

end
