(* ===== verification/Mpmc_Ring.thy ===== *)
theory Mpmc_Ring
  imports Mpmc
begin

text \<open>
  The fixed mode of the queue: the ring invariant, the messages a ring holds from head to
  tail, and what admission, the two pushes and the pop do to them.
\<close>

type_synonym message = "u32 \<times> u8 \<times> u8 list"

definition item_msg :: "rel4u_mpmc_item \<Rightarrow> message" where
  "item_msg it = (it_client_id it, it_mode it, take (unat (it_len it)) (it_data it))"

definition valid_item :: "rel4u_mpmc_item \<Rightarrow> bool" where
  "valid_item it \<longleftrightarrow> unat (it_len it) \<le> REL4U_MAX_MSG_SIZE \<and> length (it_data it) = REL4U_MAX_MSG_SIZE"

definition ring_at :: "rel4u_mpmc_queue \<Rightarrow> nat \<Rightarrow> nat" where
  "ring_at q i = (unat (q_head q) + i) mod unat (q_capacity q)"

definition ring_inv :: "rel4u_mpmc_queue \<Rightarrow> bool" where
  "ring_inv q \<longleftrightarrow>
     q_mode q = REL4U_MEM_FIXED \<and> 2 \<le> unat (q_capacity q) \<and>
     length (q_items q) = unat (q_capacity q) \<and> unat (q_head q) < unat (q_capacity q) \<and>
     unat (q_count q) \<le> unat (q_capacity q) \<and> unat (q_tail q) = ring_at q (unat (q_count q)) \<and>
     (\<forall>i < unat (q_count q). valid_item (q_items q ! ring_at q i))"

definition ring_msgs :: "rel4u_mpmc_queue \<Rightarrow> message list" where
  "ring_msgs q = map (\<lambda>i. item_msg (q_items q ! ring_at q i)) [0..<unat (q_count q)]"

lemma length_ring_msgs [simp]: "length (ring_msgs q) = unat (q_count q)"
  by (simp add: ring_msgs_def)

subsection \<open>Index arithmetic on size_t\<close>

lemma unat_next_mod [ring_simps]:
  fixes h c :: size_t
  assumes "unat h < unat c"
  shows "unat ((h + 1) mod c) = (unat h + 1) mod unat c"
proof -
  have "unat h + 1 < 2 ^ 64" using assms unat_u64_lt [of c] by linarith
  then have "unat (h + 1) = unat h + 1" by (simp add: unat_word_ariths)
  then show ?thesis by (simp add: unat_mod)
qed

lemma unat_prev [ring_simps]:
  fixes h c :: size_t
  assumes "unat h < unat c"
  shows "unat (if h = 0 then c - 1 else h - 1) = (unat h + unat c - 1) mod unat c"
proof (cases "h = 0")
  case True
  with assms have "1 \<le> c" by (simp add: word_le_nat_alt)
  with True assms show ?thesis by (simp add: unat_sub)
next
  case False
  then have "1 \<le> h" by (simp add: word_le_nat_alt unat_gt_0 Suc_le_eq)
  then have h: "unat (h - 1) = unat h - 1" "1 \<le> unat h"
    by (simp_all add: unat_sub word_le_nat_alt)
  then have eq: "unat h + unat c - 1 = (unat h - 1) + unat c" by simp
  have "(unat h + unat c - 1) mod unat c = unat h - 1"
    unfolding eq mod_add_self2 using assms by (intro mod_less) simp
  with False h show ?thesis by (simp only: if_False)
qed

lemma unat_dec: "unat (n :: size_t) \<noteq> 0 \<Longrightarrow> unat (n - 1) = unat n - 1"
  by (simp add: unat_sub word_le_nat_alt Suc_le_eq)

lemma unat_inc:
  fixes n c :: size_t
  assumes "unat n < unat c"
  shows "unat (n + 1) = unat n + 1"
  using assms unat_u64_lt [of c] by (simp add: unat_word_ariths)

lemma ring_at_less: "ring_inv q \<Longrightarrow> ring_at q i < unat (q_capacity q)"
  by (simp add: ring_at_def ring_inv_def)

lemma ring_at_inj:
  "ring_inv q \<Longrightarrow> i < unat (q_capacity q) \<Longrightarrow> j < unat (q_capacity q) \<Longrightarrow>
   ring_at q i = ring_at q j \<longleftrightarrow> i = j"
  using mod_offset_inj unfolding ring_at_def by blast

subsection \<open>Operations\<close>

definition ring_drop_head :: "rel4u_mpmc_queue \<Rightarrow> rel4u_mpmc_queue" where
  "ring_drop_head q = q\<lparr>q_head := (q_head q + 1) mod q_capacity q, q_count := q_count q - 1\<rparr>"

lemma ring_at_drop_head:
  assumes "ring_inv q"
  shows "ring_at (ring_drop_head q) i = ring_at q (Suc i)"
proof -
  have "unat ((q_head q + 1) mod q_capacity q) = (unat (q_head q) + 1) mod unat (q_capacity q)"
    using assms by (intro unat_next_mod) (simp add: ring_inv_def)
  then show ?thesis
    by (simp add: ring_at_def ring_drop_head_def mod_simps)
qed

lemma ring_drop_head_inv:
  assumes "ring_inv q" "q_count q \<noteq> 0"
  shows "ring_inv (ring_drop_head q)"
proof -
  have n: "unat (q_count (ring_drop_head q)) = unat (q_count q) - 1" "unat (q_count q) \<noteq> 0"
    using assms(2) unat_dec by (simp_all add: ring_drop_head_def unsigned_eq_0_iff)
  have tail: "unat (q_tail q) = ring_at (ring_drop_head q) (unat (q_count (ring_drop_head q)))"
    using assms n by (simp add: ring_at_drop_head ring_inv_def)
  have head: "unat ((q_head q + 1) mod q_capacity q) < unat (q_capacity q)"
    using assms(1) by (subst unat_next_mod) (auto simp: ring_inv_def)
  show ?thesis
    using assms(1) n tail head ring_at_drop_head [OF assms(1)]
    by (auto simp: ring_inv_def) (auto simp: ring_drop_head_def)
qed

lemma ring_drop_head_msgs:
  assumes "ring_inv q" "q_count q \<noteq> 0"
  shows "ring_msgs q = item_msg (q_items q ! unat (q_head q)) # ring_msgs (ring_drop_head q)"
proof -
  obtain n where n: "unat (q_count q) = Suc n"
    using assms(2) by (metis not0_implies_Suc unsigned_eq_0_iff)
  then have m: "unat (q_count (ring_drop_head q)) = n"
    using unat_dec [of "q_count q"] by (simp add: ring_drop_head_def)
  have hd: "ring_at q 0 = unat (q_head q)"
    using assms(1) by (simp add: ring_at_def ring_inv_def)
  have items: "q_items (ring_drop_head q) = q_items q"
    by (simp add: ring_drop_head_def)
  have "[0..<Suc n] = 0 # map Suc [0..<n]"
    by (simp add: map_Suc_upt upt_conv_Cons)
  then show ?thesis
    unfolding ring_msgs_def n m items
    by (simp add: hd ring_at_drop_head [OF assms(1)])
qed

lemma ring_inv_count_drop [simp]:
  "ring_inv (count_drop q) = ring_inv q" "ring_msgs (count_drop q) = ring_msgs q"
  by (simp_all add: count_drop_def ring_inv_def ring_msgs_def ring_at_def)

lemma ring_admit_full:
  assumes "ring_inv q" "q_count q \<ge> q_capacity q" "q_full_policy q = REL4U_QUEUE_FULL_DROP_LAST"
  shows "\<exists>q'. ring_admit q = Some q' \<and> ring_inv q' \<and> unat (q_count q') < unat (q_capacity q') \<and>
    ring_msgs q' = tl (ring_msgs q) \<and> q_dropped_count q' = q_dropped_count q + 1 \<and> ring_msgs q \<noteq> []"
proof -
  have ne: "q_count q \<noteq> 0"
    using assms(1,2) by (auto simp: ring_inv_def word_le_nat_alt)
  let ?q = "count_drop (ring_drop_head q)"
  have "ring_admit q = Some ?q"
    using assms(2,3) by (simp add: ring_admit_def ring_drop_head_def)
  moreover have "unat (q_count ?q) < unat (q_capacity ?q)"
    using assms(1) ne unat_dec [of "q_count q"]
    by (auto simp: ring_drop_head_def count_drop_def ring_inv_def unsigned_eq_0_iff)
  moreover have "ring_msgs ?q = tl (ring_msgs q)" "ring_msgs q \<noteq> []"
    using ring_drop_head_msgs [OF assms(1) ne] by simp_all
  moreover have "q_dropped_count ?q = q_dropped_count q + 1"
    by (simp add: count_drop_def ring_drop_head_def)
  moreover have "ring_inv ?q" using assms ne ring_drop_head_inv by simp
  ultimately show ?thesis by blast
qed

lemma ring_push_back:
  assumes "ring_inv q" "unat (q_count q) < unat (q_capacity q)" "valid_item item"
  defines "q' \<equiv> q\<lparr>q_items := (q_items q)[unat (q_tail q) := item],
                   q_tail := (q_tail q + 1) mod q_capacity q, q_count := q_count q + 1\<rparr>"
  shows "ring_inv q' \<and> ring_msgs q' = ring_msgs q @ [item_msg item]"
proof -
  let ?c = "unat (q_capacity q)" and ?n = "unat (q_count q)"
  have at: "ring_at q' i = ring_at q i" for i by (simp add: q'_def ring_at_def)
  have n: "unat (q_count q') = Suc ?n"
    using assms(2) unat_inc by (simp add: q'_def)
  have tl: "unat (q_tail q) = ring_at q ?n" and len: "length (q_items q) = ?c"
    using assms(1) by (simp_all add: ring_inv_def)
  have tl': "unat (q_tail q) < ?c" using ring_at_less [OF assms(1)] tl by simp
  have item: "q_items q' ! ring_at q i = (if i = ?n then item else q_items q ! ring_at q i)"
    if "i \<le> ?n" for i
    using that assms(1,2) tl tl' len ring_at_inj [OF assms(1), of i ?n]
    by (auto simp: q'_def nth_list_update)
  have "unat (q_tail q') = ring_at q (Suc ?n)"
    using tl tl' unat_next_mod [of "q_tail q" "q_capacity q"]
    by (simp add: q'_def ring_at_def mod_simps)
  then have "ring_inv q'"
    using assms(1-3) n item at
    by (auto simp: ring_inv_def less_Suc_eq_le) (simp_all add: q'_def)
  moreover have "ring_msgs q' = ring_msgs q @ [item_msg item]"
    unfolding ring_msgs_def n at by (simp add: item)
  ultimately show ?thesis by blast
qed

lemma ring_push_front:
  assumes "ring_inv q" "unat (q_count q) < unat (q_capacity q)" "valid_item item"
  defines "h \<equiv> (if q_head q = 0 then q_capacity q - 1 else q_head q - 1)"
  defines "q' \<equiv> q\<lparr>q_head := h, q_items := (q_items q)[unat h := item], q_count := q_count q + 1\<rparr>"
  shows "ring_inv q' \<and> ring_msgs q' = item_msg item # ring_msgs q"
proof -
  let ?c = "unat (q_capacity q)" and ?n = "unat (q_count q)"
  have c: "unat (q_head q) < ?c" "2 \<le> ?c" and len: "length (q_items q) = ?c"
    using assms(1) by (simp_all add: ring_inv_def)
  have h: "unat h = (unat (q_head q) + ?c - 1) mod ?c"
    unfolding h_def by (rule unat_prev [OF c(1)])
  then have hc: "unat h < ?c" using c by simp
  have at: "ring_at q' (Suc i) = ring_at q i" for i
  proof -
    have "unat (q_head q) + ?c - 1 + Suc i = unat (q_head q) + i + ?c" using c by simp
    then have "(unat h + Suc i) mod ?c = (unat (q_head q) + i) mod ?c"
      unfolding h by (metis mod_add_left_eq mod_add_self2)
    then show ?thesis by (simp add: q'_def ring_at_def)
  qed
  have at0: "ring_at q' 0 = unat h" using hc by (simp add: q'_def ring_at_def)
  have n: "unat (q_count q') = Suc ?n"
    using assms(2) unat_inc by (simp add: q'_def)
  have neq: "ring_at q i \<noteq> unat h" if "i < ?n" for i
  proof
    assume "ring_at q i = unat h"
    then have "(unat h + Suc i) mod ?c = (unat h + 0) mod ?c"
      using at [of i] hc by (simp add: q'_def ring_at_def)
    from mod_offset_inj [OF this] that assms(2) c show False by simp
  qed
  have item0: "q_items q' ! unat h = item" using hc len by (simp add: q'_def)
  have items: "q_items q' ! ring_at q i = q_items q ! ring_at q i" if "i < ?n" for i
    using neq [OF that] by (simp add: q'_def)
  have "valid_item (q_items q' ! ring_at q' i)" if "i < Suc ?n" for i
    using that assms(1,3) at at0 item0 items by (cases i) (simp_all add: ring_inv_def)
  moreover have "unat (q_tail q') = ring_at q' (Suc ?n)"
    using assms(1) by (simp add: at) (simp add: ring_inv_def q'_def)
  ultimately have "ring_inv q'"
    using assms(1,2) n hc len by (simp add: ring_inv_def) (simp add: q'_def)
  moreover have "[0..<Suc ?n] = 0 # map Suc [0..<?n]"
    by (simp add: map_Suc_upt upt_conv_Cons)
  then have "ring_msgs q' = item_msg item # ring_msgs q"
    unfolding ring_msgs_def n by (simp add: at at0 item0 items)
  ultimately show ?thesis by blast
qed

end
