(* ===== verification/Mpmc_List.thy ===== *)
theory Mpmc_List
  imports Mpmc_Ring
begin

text \<open>
  The dynamic mode of the queue: the doubly linked list of heap nodes. \<open>dll\<close> says that the
  pointers of a heap form a well-linked list through given addresses; \<open>list_inv\<close> adds that
  these are all the live nodes (nothing leaks, nothing dangles), that the byte counter is
  the sum of the allocated sizes and that it respects the limit.
\<close>

definition node_msg :: "rel4u_mpmc_node \<Rightarrow> message" where
  "node_msg n = (nd_client_id n, nd_mode n, nd_data n)"

definition node_ok :: "rel4u_mpmc_node \<Rightarrow> bool" where
  "node_ok n \<longleftrightarrow> unat (nd_len n) \<le> REL4U_MAX_MSG_SIZE \<and> length (nd_data n) = unat (nd_len n) \<and>
     nd_allocated_size n = sizeof_node + ucast (nd_len n)"

definition msg_size :: "message \<Rightarrow> nat" where
  "msg_size m = 32 + length (snd (snd m))"

definition total_size :: "message list \<Rightarrow> nat" where
  "total_size ms = sum_list (map msg_size ms)"

lemma total_size_simps [simp]:
  "total_size [] = 0" "total_size (m # ms) = msg_size m + total_size ms"
  "total_size (xs @ ys) = total_size xs + total_size ys"
  by (simp_all add: total_size_def)

fun dll :: "node_heap \<Rightarrow> ptr \<Rightarrow> ptr \<Rightarrow> ptr list \<Rightarrow> ptr \<Rightarrow> bool" where
  "dll h prv p [] lst \<longleftrightarrow> p = 0 \<and> lst = prv"
| "dll h prv p (a # as) lst \<longleftrightarrow>
     p = a \<and> a \<noteq> 0 \<and> (\<exists>n. fmlookup h a = Some n \<and> nd_prev n = prv \<and> dll h a (nd_next n) as lst)"

definition list_msgs :: "node_heap \<Rightarrow> ptr list \<Rightarrow> message list" where
  "list_msgs h ps = map (\<lambda>a. node_msg (the (fmlookup h a))) ps"

definition list_inv :: "rel4u_mpmc_queue \<Rightarrow> ptr list \<Rightarrow> bool" where
  "list_inv q ps \<longleftrightarrow>
     q_mode q = REL4U_MEM_DYNAMIC \<and> dll (q_nodes q) 0 (q_node_head q) ps (q_node_tail q) \<and>
     distinct ps \<and> fset (fmdom (q_nodes q)) = set ps \<and>
     (\<forall>a \<in> set ps. node_ok (the (fmlookup (q_nodes q) a))) \<and>
     unat (q_count q) = length ps \<and>
     unat (q_current_bytes q) = total_size (list_msgs (q_nodes q) ps) \<and>
     unat (q_current_bytes q) \<le> unat (q_max_bytes q) \<and> unat (q_max_bytes q) < 2 ^ 63"

subsection \<open>Linked lists\<close>

lemma dll_frame:
  "(\<And>a. a \<in> set ps \<Longrightarrow> fmlookup h' a = fmlookup h a) \<Longrightarrow> dll h' prv p ps lst = dll h prv p ps lst"
  by (induction ps arbitrary: prv p) auto

lemma dll_live: "dll h prv p ps lst \<Longrightarrow> a \<in> set ps \<Longrightarrow> \<exists>n. fmlookup h a = Some n"
  by (induction ps arbitrary: prv p) auto

lemma dll_zero: "dll h prv p ps lst \<Longrightarrow> 0 \<notin> set ps"
  by (induction ps arbitrary: prv p) auto

lemma dll_head: "dll h prv p ps lst \<Longrightarrow> p = (case ps of [] \<Rightarrow> 0 | a # _ \<Rightarrow> a)"
  by (cases ps) auto

lemma dll_last: "dll h prv p ps lst \<Longrightarrow> lst = (if ps = [] then prv else last ps)"
  by (induction ps arbitrary: prv p) auto

lemma fmlookup_set_prev:
  "fmlookup (set_prev h p v) a =
     (if a = p then map_option (nd_prev_update (\<lambda>_. v)) (fmlookup h a) else fmlookup h a)"
  by (auto simp: set_prev_def split: option.splits)

lemma fmlookup_set_next:
  "fmlookup (set_next h p v) a =
     (if a = p then map_option (nd_next_update (\<lambda>_. v)) (fmlookup h a) else fmlookup h a)"
  by (auto simp: set_next_def split: option.splits)

lemma dll_set_prev:
  assumes "dll h prv b (b # bs) lst" "b \<notin> set bs"
  shows "dll (set_prev h b prv') prv' b (b # bs) lst"
proof -
  have "dll (set_prev h b prv') x y bs lst = dll h x y bs lst" for x y
    using assms(2) by (intro dll_frame) (auto simp: fmlookup_set_prev)
  with assms(1) show ?thesis by (auto simp: fmlookup_set_prev)
qed

lemma dll_snoc:
  assumes "dll h prv p ps lst" "ps \<noteq> []" "distinct ps" "new \<notin> set ps" "new \<noteq> 0"
    and "nd_prev nn = lst" "nd_next nn = 0"
  shows "dll (set_next (fmupd new nn h) lst new) prv p (ps @ [new]) new"
  using assms(1-5)
proof (induction ps arbitrary: prv p)
  case (Cons a as)
  let ?h = "set_next (fmupd new nn h) lst new"
  from Cons.prems obtain n where n: "p = a" "a \<noteq> 0" "fmlookup h a = Some n" "nd_prev n = prv"
      "dll h a (nd_next n) as lst"
    by auto
  have new: "fmlookup ?h new = Some nn" if "lst \<noteq> new" using that by (simp add: fmlookup_set_next)
  show ?case
  proof (cases "as = []")
    case True
    with n Cons.prems have "lst = a" "a \<noteq> new" by auto
    with n new assms(6,7) Cons.prems True show ?thesis
      by (simp add: fmlookup_set_next)
  next
    case False
    then have "lst \<in> set as" using dll_last [OF n(5)] by simp
    then have "lst \<noteq> a" using Cons.prems(3) by auto
    moreover have "dll ?h a (nd_next n) (as @ [new]) new"
      using Cons.IH [OF n(5) False] Cons.prems by simp
    ultimately show ?thesis
      using n Cons.prems by (auto simp: fmlookup_set_next)
  qed
qed simp

lemma list_msgs_cong:
  assumes "\<And>a. a \<in> set ps \<Longrightarrow> \<exists>n n'. fmlookup h a = Some n \<and> fmlookup h' a = Some n' \<and> node_msg n' = node_msg n"
  shows "list_msgs h' ps = list_msgs h ps"
  unfolding list_msgs_def using assms by (intro map_cong refl) fastforce

lemma node_msg_links [simp]:
  "node_msg (n\<lparr>nd_prev := v\<rparr>) = node_msg n" "node_msg (n\<lparr>nd_next := v\<rparr>) = node_msg n"
  "node_ok (n\<lparr>nd_prev := v\<rparr>) = node_ok n" "node_ok (n\<lparr>nd_next := v\<rparr>) = node_ok n"
  by (simp_all add: node_msg_def node_ok_def)

subsection \<open>Unlinking the head\<close>

lemma unat_needed: "unat (sizeof_node + ucast (l :: u16)) = 32 + unat l"
proof -
  have "unat l < 2 ^ 16" using unsigned_less [of l, where 'a = nat] by simp
  then show ?thesis by (simp add: unat_word_ariths unsigned_ucast_eq take_bit_eq_mod)
qed

lemma unlink_head_fields [simp]:
  "q_mode (unlink_head q n) = q_mode q" "q_full_policy (unlink_head q n) = q_full_policy q"
  "q_max_bytes (unlink_head q n) = q_max_bytes q"
  "q_dropped_count (unlink_head q n) = q_dropped_count q"
  "q_node_head (unlink_head q n) = nd_next n"
  "q_count (unlink_head q n) = q_count q - 1"
  "q_current_bytes (unlink_head q n) = q_current_bytes q - nd_allocated_size n"
  "q_node_tail (unlink_head q n) = (if nd_next n = 0 then 0 else q_node_tail q)"
  by (simp_all add: unlink_head_def Let_def)

lemma unlink_head_inv:
  assumes "list_inv q (a # ps)" "fmlookup (q_nodes q) a = Some n"
  shows "list_inv (unlink_head q n) ps \<and>
    list_msgs (q_nodes q) (a # ps) = node_msg n # list_msgs (q_nodes (unlink_head q n)) ps"
proof -
  let ?h = "q_nodes q" and ?h' = "q_nodes (unlink_head q n)"
  have inv: "dll ?h 0 (q_node_head q) (a # ps) (q_node_tail q)" "distinct (a # ps)"
      "fset (fmdom ?h) = set (a # ps)" "node_ok n" "\<forall>a \<in> set ps. node_ok (the (fmlookup ?h a))"
      "unat (q_count q) = Suc (length ps)"
      "unat (q_current_bytes q) = msg_size (node_msg n) + total_size (list_msgs ?h ps)"
      "unat (q_current_bytes q) \<le> unat (q_max_bytes q)" "unat (q_max_bytes q) < 2 ^ 63"
      "q_mode q = REL4U_MEM_DYNAMIC"
    using assms by (auto simp: list_inv_def list_msgs_def)
  have hd: "q_node_head q = a" and rest: "dll ?h a (nd_next n) ps (q_node_tail q)"
    using inv(1) assms(2) by auto
  have nxt: "nd_next n = (case ps of [] \<Rightarrow> 0 | b # _ \<Rightarrow> b)" using dll_head [OF rest] .
  have zero: "0 \<notin> set ps" using dll_zero [OF rest] .
  have h': "?h' = fmdrop a (if ps = [] then ?h else set_prev ?h (hd ps) 0)"
    using nxt zero hd by (cases ps) (auto simp: unlink_head_nodes)
  have look: "fmlookup ?h' x =
      (if ps \<noteq> [] \<and> x = hd ps then map_option (nd_prev_update (\<lambda>_. 0)) (fmlookup ?h x)
       else fmlookup ?h x)" if "x \<in> set ps" for x
    using that inv(2) by (auto simp: h' fmlookup_set_prev)
  have "dll ?h' 0 (nd_next n) ps (q_node_tail (unlink_head q n))"
  proof (cases ps)
    case Nil
    then show ?thesis using nxt by simp
  next
    case (Cons b bs)
    have "dll (set_prev ?h b 0) 0 b (b # bs) (q_node_tail q)"
      using rest inv(2) nxt Cons by (intro dll_set_prev [where prv = a]) auto
    moreover have "dll ?h' 0 b (b # bs) (q_node_tail q) = dll (set_prev ?h b 0) 0 b (b # bs) (q_node_tail q)"
      using inv(2) Cons by (intro dll_frame) (auto simp: h')
    ultimately show ?thesis using Cons nxt zero by simp
  qed
  moreover have "list_msgs ?h' ps = list_msgs ?h ps"
    using dll_live [OF rest] look by (intro list_msgs_cong) fastforce
  moreover have "\<forall>x \<in> set ps. node_ok (the (fmlookup ?h' x))"
    using inv(5) look dll_live [OF rest] by fastforce
  moreover have "fset (fmdom ?h') = set ps"
    using inv(2,3) by (auto simp: h')
  moreover have "unat (q_count q - 1) = length ps"
    using inv(6) unat_dec [of "q_count q"] by simp
  moreover have "unat (q_current_bytes q - nd_allocated_size n) = total_size (list_msgs ?h ps)"
  proof -
    have "unat (nd_allocated_size n) = msg_size (node_msg n)"
      using inv(4) unat_needed by (simp add: node_ok_def msg_size_def node_msg_def)
    then show ?thesis
      using inv(7) by (subst unat_sub) (simp_all add: word_le_nat_alt)
  qed
  ultimately show ?thesis
    using inv assms(2) by (auto simp: list_inv_def) (simp add: list_msgs_def)
qed

subsection \<open>Making room\<close>

text \<open>Eviction from the head until a new node of size \<open>s\<close> fits under the limit \<open>limit\<close>.\<close>

fun evict :: "nat \<Rightarrow> nat \<Rightarrow> message list \<Rightarrow> message list" where
  "evict limit s [] = []"
| "evict limit s (m # ms) = (if total_size (m # ms) + s > limit then evict limit s ms else m # ms)"

lemma evict_drop: "\<exists>k \<le> length ms. evict limit s ms = drop k ms"
proof (induction ms)
  case (Cons m ms)
  then obtain k where "k \<le> length ms" "evict limit s ms = drop k ms" by blast
  then show ?case
    by (cases "total_size (m # ms) + s > limit") (auto intro: exI [of _ "Suc k"] exI [of _ 0])
qed simp

lemma evict_fits: "s \<le> limit \<Longrightarrow> total_size (evict limit s ms) + s \<le> limit"
  by (induction ms) auto

definition list_admit :: "rel4u_queue_full_policy \<Rightarrow> nat \<Rightarrow> nat \<Rightarrow> message list \<Rightarrow> message list option" where
  "list_admit policy limit s ms =
     (if total_size ms + s \<le> limit then Some ms
      else if policy = REL4U_QUEUE_FULL_DROP_LAST then Some (evict limit s ms) else None)"

lemma list_inv_dropped [simp]: "list_inv (q\<lparr>q_dropped_count := d\<rparr>) ps = list_inv q ps"
  by (simp add: list_inv_def)

lemma list_inv_count_drop [simp]: "list_inv (count_drop q) ps = list_inv q ps"
  by (simp add: count_drop_def)

lemma list_inv_fits:
  assumes "list_inv q ps" "unat s \<le> unat (q_max_bytes q)"
  shows "q_current_bytes q + s > q_max_bytes q \<longleftrightarrow>
    unat (q_max_bytes q) < total_size (list_msgs (q_nodes q) ps) + unat s"
proof -
  have "unat (q_current_bytes q) + unat s < 2 ^ 64"
    using assms by (simp add: list_inv_def)
  then have "unat (q_current_bytes q + s) = unat (q_current_bytes q) + unat s"
    by (simp add: unat_word_ariths)
  then show ?thesis
    using assms(1) by (simp add: word_less_nat_alt list_inv_def)
qed

lemma make_room_evicts:
  assumes inv: "list_inv q (a # ps)" and n: "fmlookup (q_nodes q) a = Some n" and lim: "unat s \<le> unat (q_max_bytes q)"
    and full: "unat (q_max_bytes q) < total_size (list_msgs (q_nodes q) (a # ps)) + unat s" "q_full_policy q = REL4U_QUEUE_FULL_DROP_LAST"
  defines "q1 \<equiv> (unlink_head q n)\<lparr>q_dropped_count := q_dropped_count q + 1\<rparr>"
  shows "mpmc_make_room q s = mpmc_make_room q1 s" "list_inv q1 ps"
    "list_msgs (q_nodes q) (a # ps) = node_msg n # list_msgs (q_nodes q1) ps"
    "list_admit (q_full_policy q1) (unat (q_max_bytes q1)) (unat s) (list_msgs (q_nodes q1) ps) =
      list_admit (q_full_policy q) (unat (q_max_bytes q)) (unat s) (list_msgs (q_nodes q) (a # ps))"
proof -
  have h: "q_node_head q = a" "a \<noteq> 0" using inv by (auto simp: list_inv_def)
  show "mpmc_make_room q s = mpmc_make_room q1 s"
    using list_inv_fits [OF inv lim] n h full by (subst mpmc_make_room.simps) (simp add: q1_def)
  show q1: "list_inv q1 ps" "list_msgs (q_nodes q) (a # ps) = node_msg n # list_msgs (q_nodes q1) ps"
    using unlink_head_inv [OF inv n] by (simp_all add: q1_def)
  have "q_full_policy q1 = REL4U_QUEUE_FULL_DROP_LAST" "q_max_bytes q1 = q_max_bytes q" using full by (simp_all add: q1_def)
  then show "list_admit (q_full_policy q1) (unat (q_max_bytes q1)) (unat s) (list_msgs (q_nodes q1) ps) =
      list_admit (q_full_policy q) (unat (q_max_bytes q)) (unat s) (list_msgs (q_nodes q) (a # ps))"
    using full q1(2) by (cases "list_msgs (q_nodes q1) ps") (simp_all add: list_admit_def)
qed

lemma make_room_admit:
  assumes "list_inv q ps" "unat s \<le> unat (q_max_bytes q)"
  shows "case list_admit (q_full_policy q) (unat (q_max_bytes q)) (unat s) (list_msgs (q_nodes q) ps) of
      None \<Rightarrow> mpmc_make_room q s = (False, count_drop q)
    | Some ms \<Rightarrow> \<exists>q' k. mpmc_make_room q s = (True, q') \<and> list_inv q' (drop k ps) \<and> k \<le> length ps \<and>
         list_msgs (q_nodes q') (drop k ps) = ms \<and> ms = drop k (list_msgs (q_nodes q) ps) \<and>
         q_dropped_count q' = q_dropped_count q + of_nat k \<and> q_max_bytes q' = q_max_bytes q \<and>
         q_full_policy q' = q_full_policy q"
  using assms
proof (induction ps arbitrary: q)
  case Nil
  have "list_msgs (q_nodes q) [] = []" by (simp add: list_msgs_def)
  moreover have "\<not> q_current_bytes q + s > q_max_bytes q"
    using list_inv_fits [OF Nil.prems] Nil.prems(2) calculation by simp
  ultimately show ?case
    using Nil.prems by (simp add: list_admit_def mpmc_make_room.simps)
next
  case (Cons a ps)
  let ?ms = "list_msgs (q_nodes q) (a # ps)"
  obtain n where n: "fmlookup (q_nodes q) a = Some n" "q_node_head q = a" "a \<noteq> 0"
    using Cons.prems(1) by (auto simp: list_inv_def)
  note full = list_inv_fits [OF Cons.prems]
  consider (fits) "total_size ?ms + unat s \<le> unat (q_max_bytes q)"
    | (reject) "unat (q_max_bytes q) < total_size ?ms + unat s" "q_full_policy q = REL4U_QUEUE_FULL_DROP_NEW"
    | (evict) "unat (q_max_bytes q) < total_size ?ms + unat s" "q_full_policy q = REL4U_QUEUE_FULL_DROP_LAST"
    by (metis linorder_not_less rel4u_queue_full_policy.exhaust)
  then show ?case
  proof cases
    case fits
    then have "mpmc_make_room q s = (True, q)"
      using full by (subst mpmc_make_room.simps) simp
    with fits Cons.prems show ?thesis
      by (auto simp: list_admit_def intro!: exI [of _ 0])
  next
    case reject
    then have "mpmc_make_room q s = (False, count_drop q)"
      using full n by (subst mpmc_make_room.simps) (simp add: count_drop_def)
    with reject show ?thesis by (simp add: list_admit_def)
  next
    case evict
    note q1 = make_room_evicts [OF Cons.prems(1) n(1) Cons.prems(2) evict]
    let ?q = "(unlink_head q n)\<lparr>q_dropped_count := q_dropped_count q + 1\<rparr>"
    have same: "q_max_bytes ?q = q_max_bytes q" "q_full_policy ?q = q_full_policy q" by simp_all
    obtain ms where ms: "list_admit (q_full_policy q) (unat (q_max_bytes q)) (unat s) ?ms = Some ms"
      using evict by (simp add: list_admit_def)
    have "unat s \<le> unat (q_max_bytes ?q)" using Cons.prems(2) by simp
    from Cons.IH [OF q1(2) this, unfolded q1(4) ms option.case] obtain q' k where
      "mpmc_make_room ?q s = (True, q')" "list_inv q' (drop k ps)" "k \<le> length ps" "list_msgs (q_nodes q') (drop k ps) = ms"
      "ms = drop k (list_msgs (q_nodes ?q) ps)" "q_dropped_count q' = q_dropped_count ?q + of_nat k"
      "q_max_bytes q' = q_max_bytes ?q" "q_full_policy q' = q_full_policy ?q" by (elim exE conjE) (rule that)
    then show ?thesis
      unfolding ms option.case q1(1) using q1(3) same by (intro exI [of _ q'] exI [of _ "Suc k"]) simp
  qed
qed

subsection \<open>Linking new nodes\<close>

lemma new_node_facts:
  assumes "valid_item item"
  shows "node_ok (new_node item (sizeof_node + ucast (it_len item)) x y)"
    "node_msg (new_node item s x y) = item_msg item"
    "msg_size (item_msg item) = 32 + unat (it_len item)"
  using assms by (simp_all add: valid_item_def new_node_def node_ok_def node_msg_def item_msg_def msg_size_def)

lemma link_fields [simp]:
  "q_mode (link_back q i s p) = q_mode q" "q_max_bytes (link_back q i s p) = q_max_bytes q"
  "q_dropped_count (link_back q i s p) = q_dropped_count q"
  "q_full_policy (link_back q i s p) = q_full_policy q"
  "q_count (link_back q i s p) = q_count q + 1"
  "q_current_bytes (link_back q i s p) = q_current_bytes q + s"
  "q_mode (link_front q i s p) = q_mode q" "q_max_bytes (link_front q i s p) = q_max_bytes q"
  "q_dropped_count (link_front q i s p) = q_dropped_count q"
  "q_full_policy (link_front q i s p) = q_full_policy q"
  "q_count (link_front q i s p) = q_count q + 1"
  "q_current_bytes (link_front q i s p) = q_current_bytes q + s"
  by (simp_all add: link_back_def link_front_def Let_def)

text \<open>What both ways of linking have in common: counters and the set of live nodes.\<close>

lemma list_inv_extend:
  assumes "list_inv q ps" "valid_item item" "p \<notin> set ps"
    and fits: "total_size (list_msgs (q_nodes q) ps) + (32 + unat (it_len item)) \<le> unat (q_max_bytes q)"
    and q': "q_mode q' = q_mode q" "q_max_bytes q' = q_max_bytes q" "q_count q' = q_count q + 1"
      "q_current_bytes q' = q_current_bytes q + (sizeof_node + ucast (it_len item))"
    and ps': "set ps' = insert p (set ps)" "distinct ps'" "length ps' = Suc (length ps)"
    and dll': "dll (q_nodes q') 0 (q_node_head q') ps' (q_node_tail q')"
    and dom': "fset (fmdom (q_nodes q')) = insert p (set ps)"
    and ok': "\<And>a. a \<in> set ps' \<Longrightarrow> node_ok (the (fmlookup (q_nodes q') a))"
    and msgs: "total_size (list_msgs (q_nodes q') ps') =
      total_size (list_msgs (q_nodes q) ps) + (32 + unat (it_len item))"
  shows "list_inv q' ps'"
proof -
  have inv: "unat (q_count q) = length ps" "unat (q_current_bytes q) = total_size (list_msgs (q_nodes q) ps)"
      "unat (q_max_bytes q) < 2 ^ 63" "q_mode q = REL4U_MEM_DYNAMIC"
    using assms(1) by (simp_all add: list_inv_def)
  have "unat (q_current_bytes q) + (32 + unat (it_len item)) < 2 ^ 64"
    using fits inv by simp
  then have cur: "unat (q_current_bytes q') = unat (q_current_bytes q) + (32 + unat (it_len item))"
    unfolding q'(4) using unat_needed [of "it_len item"]
    by (simp add: unat_word_ariths del: sizeof_node_def)
  have "32 * length ms \<le> total_size ms" for ms
    by (induction ms) (auto simp: msg_size_def)
  from this [of "list_msgs (q_nodes q) ps"] have "length ps + 1 < 2 ^ 64"
    using fits inv by (simp add: list_msgs_def)
  then have cnt: "unat (q_count q') = Suc (length ps)"
    unfolding q'(3) using inv by (simp add: unat_word_ariths)
  show ?thesis
    unfolding list_inv_def using cur cnt fits inv q' ps' dll' dom' ok' msgs by auto
qed

lemma link_back_inv:
  assumes inv: "list_inv q ps" and item: "valid_item item" and p: "p \<notin> set ps" "p \<noteq> 0"
    and fits: "total_size (list_msgs (q_nodes q) ps) + (32 + unat (it_len item)) \<le> unat (q_max_bytes q)"
  defines "q' \<equiv> link_back q item (sizeof_node + ucast (it_len item)) p"
  shows "list_inv q' (ps @ [p]) \<and>
    list_msgs (q_nodes q') (ps @ [p]) = list_msgs (q_nodes q) ps @ [item_msg item]"
proof -
  let ?h = "q_nodes q" and ?h' = "q_nodes q'"
  define nn where "nn = new_node item (sizeof_node + ucast (it_len item)) (q_node_tail q) 0"
  have dl: "dll ?h 0 (q_node_head q) ps (q_node_tail q)" "distinct ps" "fset (fmdom ?h) = set ps"
    "\<forall>a \<in> set ps. node_ok (the (fmlookup ?h a))"
    using inv by (simp_all add: list_inv_def)
  have tl: "q_node_tail q = (if ps = [] then 0 else last ps)"
    using dll_last [OF dl(1)] .
  have tl0: "q_node_tail q \<noteq> 0 \<longleftrightarrow> ps \<noteq> []"
    using tl dll_zero [OF dl(1)] by (metis last_in_set)
  have h': "?h' = (if ps = [] then fmupd p nn ?h else set_next (fmupd p nn ?h) (q_node_tail q) p)"
    using tl0 by (simp add: q'_def link_back_def Let_def nn_def)
  have tl': "q_node_tail q' = p" "q_node_head q' = (if ps = [] then p else q_node_head q)"
    using tl0 by (simp_all add: q'_def link_back_def Let_def)
  have lookp: "fmlookup ?h' p = Some nn"
    using p tl by (auto simp: h' fmlookup_set_next)
  have look: "\<exists>n n'. fmlookup ?h a = Some n \<and> fmlookup ?h' a = Some n' \<and> node_msg n' = node_msg n \<and>
      node_ok n' = node_ok n" if "a \<in> set ps" for a
    using that p dll_live [OF dl(1) that] by (auto simp: h' fmlookup_set_next)
  have msgs: "list_msgs ?h' (ps @ [p]) = list_msgs ?h ps @ [item_msg item]"
    using list_msgs_cong [of ps ?h ?h'] look lookp new_node_facts(2) [OF item]
    by (fastforce simp: list_msgs_def nn_def)
  have "dll ?h' 0 (q_node_head q') (ps @ [p]) (q_node_tail q')"
  proof (cases "ps = []")
    case True
    then show ?thesis using p tl lookp by (simp add: tl' nn_def new_node_def)
  next
    case False
    then show ?thesis
      using dll_snoc [OF dl(1) False dl(2) p, of nn] by (simp add: tl' h') (simp add: nn_def new_node_def)
  qed
  moreover have "fset (fmdom ?h') = insert p (set ps)"
    using dl(3) by (simp add: h')
  moreover have "node_ok (the (fmlookup ?h' a))" if "a \<in> set (ps @ [p])" for a
    using that look dl(4) lookp new_node_facts(1) [OF item] by (fastforce simp: nn_def)
  ultimately have "list_inv q' (ps @ [p])"
    using list_inv_extend [OF inv item p(1) fits, of q' "ps @ [p]"] msgs p dl(2)
      new_node_facts(3) [OF item] by (simp add: q'_def)
  with msgs show ?thesis by blast
qed

lemma link_front_inv:
  assumes inv: "list_inv q ps" and item: "valid_item item" and p: "p \<notin> set ps" "p \<noteq> 0"
    and fits: "total_size (list_msgs (q_nodes q) ps) + (32 + unat (it_len item)) \<le> unat (q_max_bytes q)"
  defines "q' \<equiv> link_front q item (sizeof_node + ucast (it_len item)) p"
  shows "list_inv q' (p # ps) \<and>
    list_msgs (q_nodes q') (p # ps) = item_msg item # list_msgs (q_nodes q) ps"
proof -
  let ?h = "q_nodes q" and ?h' = "q_nodes q'"
  define nn where "nn = new_node item (sizeof_node + ucast (it_len item)) 0 (q_node_head q)"
  have dl: "dll ?h 0 (q_node_head q) ps (q_node_tail q)" "distinct ps" "fset (fmdom ?h) = set ps"
    "\<forall>a \<in> set ps. node_ok (the (fmlookup ?h a))"
    using inv by (simp_all add: list_inv_def)
  have hd: "q_node_head q = (case ps of [] \<Rightarrow> 0 | a # _ \<Rightarrow> a)"
    using dll_head [OF dl(1)] .
  have hd0: "q_node_head q \<noteq> 0 \<longleftrightarrow> ps \<noteq> []"
    using hd dll_zero [OF dl(1)] by (cases ps) auto
  have h': "?h' = (if ps = [] then fmupd p nn ?h else set_prev (fmupd p nn ?h) (q_node_head q) p)"
    using hd0 by (simp add: q'_def link_front_def Let_def nn_def)
  have hd': "q_node_head q' = p" "q_node_tail q' = (if ps = [] then p else q_node_tail q)"
    using hd0 by (simp_all add: q'_def link_front_def Let_def)
  have lookp: "fmlookup ?h' p = Some nn"
    using p hd by (cases ps) (auto simp: h' fmlookup_set_prev)
  have look: "\<exists>n n'. fmlookup ?h a = Some n \<and> fmlookup ?h' a = Some n' \<and> node_msg n' = node_msg n \<and>
      node_ok n' = node_ok n" if "a \<in> set ps" for a
    using that p dll_live [OF dl(1) that] by (auto simp: h' fmlookup_set_prev)
  have msgs: "list_msgs ?h' (p # ps) = item_msg item # list_msgs ?h ps"
    using list_msgs_cong [of ps ?h ?h'] look lookp new_node_facts(2) [OF item]
    by (fastforce simp: list_msgs_def nn_def)
  have "dll ?h' p (q_node_head q) ps (q_node_tail q')"
  proof (cases ps)
    case Nil
    then show ?thesis using hd by (simp add: hd')
  next
    case (Cons b bs)
    have "dll (fmupd p nn ?h) 0 b (b # bs) (q_node_tail q) = dll ?h 0 b (b # bs) (q_node_tail q)"
      using p Cons by (intro dll_frame) auto
    then have "dll (set_prev (fmupd p nn ?h) b p) p b (b # bs) (q_node_tail q)"
      using dl(1,2) Cons by (intro dll_set_prev [where prv = 0]) auto
    then show ?thesis using Cons hd by (simp add: hd' h')
  qed
  then have "dll ?h' 0 (q_node_head q') (p # ps) (q_node_tail q')"
    using p lookp by (simp add: hd' nn_def new_node_def)
  moreover have "fset (fmdom ?h') = insert p (set ps)"
    using dl(3) by (simp add: h')
  moreover have "node_ok (the (fmlookup ?h' a))" if "a \<in> set (p # ps)" for a
    using that look dl(4) lookp new_node_facts(1) [OF item] by (fastforce simp: nn_def)
  ultimately have "list_inv q' (p # ps)"
    using list_inv_extend [OF inv item p(1) fits, of q' "p # ps"] msgs p dl(2)
      new_node_facts(3) [OF item] by (simp add: q'_def)
  with msgs show ?thesis by blast
qed

end
