(* ===== verification/Mpmc_Correct.thy ===== *)
theory Mpmc_Correct
  imports Mpmc_List "HOL-Library.Sublist"
begin

text \<open>
  Correctness of the queue in both memory modes. \<open>queue_inv\<close> is the invariant and
  \<open>queue_msgs\<close> the messages a queue holds, oldest first. The locale \<open>message_queue\<close> is the
  contract the clients of a queue rely on: pushes may evict from the head or be refused,
  both counted, a pop returns the oldest message. Its lemmas are about whole histories of
  operations; it is interpreted on the code's own operations.
\<close>

subsection \<open>Invariant and abstraction\<close>

fun node_chain :: "nat \<Rightarrow> node_heap \<Rightarrow> ptr \<Rightarrow> rel4u_mpmc_node list" where
  "node_chain 0 h p = []"
| "node_chain (Suc k) h p =
     (case fmlookup h p of None \<Rightarrow> [] | Some n \<Rightarrow> n # node_chain k h (nd_next n))"

definition queue_inv :: "rel4u_mpmc_queue \<Rightarrow> bool" where
  "queue_inv q \<longleftrightarrow> (if q_mode q = REL4U_MEM_FIXED then ring_inv q else (\<exists>ps. list_inv q ps))"

definition queue_msgs :: "rel4u_mpmc_queue \<Rightarrow> message list" where
  "queue_msgs q =
     (if q_mode q = REL4U_MEM_FIXED then ring_msgs q
      else map node_msg (node_chain (unat (q_count q)) (q_nodes q) (q_node_head q)))"

lemma node_chain_dll: "dll h prv p ps lst \<Longrightarrow> map node_msg (node_chain (length ps) h p) = list_msgs h ps"
  by (induction ps arbitrary: prv p) (auto simp: list_msgs_def)

lemma queue_msgs_list: "list_inv q ps \<Longrightarrow> queue_msgs q = list_msgs (q_nodes q) ps"
  using node_chain_dll by (auto simp: queue_msgs_def list_inv_def)

lemma queue_inv_list: "list_inv q ps \<Longrightarrow> queue_inv q"
  by (auto simp: queue_inv_def list_inv_def)

lemma queue_inv_ring: "ring_inv q \<Longrightarrow> queue_inv q"
  by (simp add: queue_inv_def ring_inv_def)

lemma queue_msgs_ring: "ring_inv q \<Longrightarrow> queue_msgs q = ring_msgs q"
  by (simp add: queue_msgs_def ring_inv_def)

lemma queue_inv_cases:
  assumes "queue_inv q"
  obtains (ring) "q_mode q = REL4U_MEM_FIXED" "ring_inv q" "queue_msgs q = ring_msgs q"
  | (dyn) ps where "q_mode q = REL4U_MEM_DYNAMIC" "list_inv q ps" "queue_msgs q = list_msgs (q_nodes q) ps"
  using assms by (metis queue_inv_def queue_msgs_list queue_msgs_ring rel4u_memory_mode.exhaust)

lemma length_queue_msgs: "queue_inv q \<Longrightarrow> length (queue_msgs q) = unat (q_count q)"
  by (cases q rule: queue_inv_cases) (auto simp: list_inv_def list_msgs_def)

lemma queue_count_drop [simp]:
  "queue_inv (count_drop q) = queue_inv q" "queue_msgs (count_drop q) = queue_msgs q"
  by (simp_all add: queue_inv_def queue_msgs_def) (simp_all add: count_drop_def)

lemma queue_cond_signal [simp]:
  "queue_inv (cond_signal b q) = queue_inv q" "queue_msgs (cond_signal b q) = queue_msgs q"
  "q_dropped_count (cond_signal b q) = q_dropped_count q"
  by (simp_all add: cond_signal_def queue_inv_def queue_msgs_def ring_inv_def list_inv_def
      ring_msgs_def ring_at_def)

subsection \<open>The pushes as operations on message lists\<close>

text \<open>
  What a push does to the queued messages before it adds its own, in both modes: \<open>None\<close> if
  the message is refused.
\<close>

definition admit :: "rel4u_mpmc_queue \<Rightarrow> nat \<Rightarrow> message list option" where
  "admit q len =
     (if q_mode q = REL4U_MEM_FIXED then
        if length (queue_msgs q) < unat (q_capacity q) then Some (queue_msgs q)
        else if q_full_policy q = REL4U_QUEUE_FULL_DROP_LAST then Some (tl (queue_msgs q))
        else None
      else if unat (q_max_bytes q) < 32 + len then None
      else list_admit (q_full_policy q) (unat (q_max_bytes q)) (32 + len) (queue_msgs q))"

definition same_config :: "rel4u_mpmc_queue \<Rightarrow> rel4u_mpmc_queue \<Rightarrow> bool" where
  "same_config q q' \<longleftrightarrow>
     q_mode q' = q_mode q \<and> q_full_policy q' = q_full_policy q \<and> q_capacity q' = q_capacity q \<and>
     q_max_bytes q' = q_max_bytes q \<and> q_wake_generation q' = q_wake_generation q"

lemma same_config_unlink [simp]: "same_config q (unlink_head q n)"
  by (simp add: same_config_def unlink_head_def Let_def)

lemma same_config_make_room: "same_config q (snd (mpmc_make_room q s))"
proof (induction q s rule: mpmc_make_room.induct)
  case (1 q needed)
  then show ?case
    by (subst mpmc_make_room.simps)
      (auto simp: same_config_def unlink_head_def Let_def split: option.splits)
qed

lemma same_config_push:
  "same_config q (snd (mpmc_push_back_locked alloc q item))"
  "same_config q (snd (mpmc_push_front_locked alloc q item))"
  unfolding mpmc_push_back_locked_def mpmc_push_front_locked_def Let_def
  using same_config_make_room [of q "sizeof_node + ucast (it_len item)"]
  by (auto simp: same_config_def ring_admit_def count_drop_def link_back_def link_front_def Let_def
      split: option.splits prod.splits bool.splits if_splits)

lemma same_config_pop: "same_config q (fst (snd (mpmc_pop_head_locked q out)))"
  using same_config_unlink by (auto simp: mpmc_pop_head_locked_def same_config_def split: option.splits)

definition push_effect ::
  "(message list \<Rightarrow> message list) \<Rightarrow> allocator \<Rightarrow> rel4u_mpmc_queue \<Rightarrow> rel4u_mpmc_item \<Rightarrow>
   bool \<times> rel4u_mpmc_queue \<Rightarrow> bool" where
  "push_effect add alloc q item r \<longleftrightarrow>
     queue_inv (snd r) \<and>
     (case admit q (unat (it_len item)) of
        None \<Rightarrow> \<not> fst r \<and> queue_msgs (snd r) = queue_msgs q \<and>
                q_dropped_count (snd r) = q_dropped_count q + 1
      | Some ms \<Rightarrow>
          if fst r then
            queue_msgs (snd r) = add ms \<and>
            q_dropped_count (snd r) = q_dropped_count q + of_nat (length (queue_msgs q) - length ms)
          else
            q_mode q = REL4U_MEM_DYNAMIC \<and> (\<exists>h n. alloc h n = None) \<and> queue_msgs (snd r) = ms \<and>
            q_dropped_count (snd r) =
              q_dropped_count q + of_nat (length (queue_msgs q) - length ms) + 1)"

lemma admit_ring:
  assumes "ring_inv q"
  shows "case ring_admit q of
      None \<Rightarrow> admit q len = None
    | Some q' \<Rightarrow> ring_inv q' \<and> unat (q_count q') < unat (q_capacity q') \<and>
        admit q len = Some (ring_msgs q') \<and>
        q_dropped_count q' = q_dropped_count q + of_nat (length (queue_msgs q) - length (ring_msgs q'))"
proof (cases "q_count q \<ge> q_capacity q")
  case full: True
  then have len: "\<not> length (queue_msgs q) < unat (q_capacity q)"
    using assms by (simp add: queue_msgs_ring word_le_nat_alt)
  show ?thesis
  proof (cases "q_full_policy q")
    case REL4U_QUEUE_FULL_DROP_NEW
    with full len assms show ?thesis by (simp add: ring_admit_def admit_def ring_inv_def)
  next
    case REL4U_QUEUE_FULL_DROP_LAST
    from ring_admit_full [OF assms full this] obtain q' where
      q': "ring_admit q = Some q'" "ring_inv q'" "unat (q_count q') < unat (q_capacity q')"
        "ring_msgs q' = tl (ring_msgs q)" "q_dropped_count q' = q_dropped_count q + 1" "ring_msgs q \<noteq> []"
      by blast
    then have "length (ring_msgs q) - length (tl (ring_msgs q)) = 1"
      by (cases "ring_msgs q") simp_all
    with q' len assms REL4U_QUEUE_FULL_DROP_LAST show ?thesis
      by (simp add: admit_def queue_msgs_ring del: length_ring_msgs) (simp add: ring_inv_def)
  qed
next
  case False
  with assms show ?thesis
    by (simp add: ring_admit_def admit_def queue_msgs_ring word_le_nat_alt) (simp add: ring_inv_def)
qed

lemma push_back_ring_effect:
  assumes "ring_inv q" "valid_item item"
  shows "push_effect (\<lambda>ms. ms @ [item_msg item]) alloc q item (mpmc_push_back_locked alloc q item)"
proof -
  have mode: "q_mode q = REL4U_MEM_FIXED" "\<not> unat (it_len item) > REL4U_MAX_MSG_SIZE"
    using assms by (simp_all add: ring_inv_def valid_item_def)
  show ?thesis
  proof (cases "ring_admit q")
    case None
    with admit_ring [OF assms(1), of "unat (it_len item)"] mode assms(1) show ?thesis
      by (simp add: push_effect_def mpmc_push_back_locked_def queue_inv_ring) (simp add: count_drop_def)
  next
    case (Some q1)
    with admit_ring [OF assms(1), of "unat (it_len item)"] have q1:
        "ring_inv q1" "unat (q_count q1) < unat (q_capacity q1)"
        "admit q (unat (it_len item)) = Some (ring_msgs q1)"
        "q_dropped_count q1 = q_dropped_count q + of_nat (length (queue_msgs q) - length (ring_msgs q1))"
      by simp_all
    from ring_push_back [OF q1(1,2) assms(2)] show ?thesis
      using Some mode q1(3,4)
      by (simp add: push_effect_def mpmc_push_back_locked_def queue_inv_ring queue_msgs_ring
          del: length_ring_msgs)
  qed
qed

lemma push_front_ring_effect:
  assumes "ring_inv q" "valid_item item"
  shows "push_effect ((#) (item_msg item)) alloc q item (mpmc_push_front_locked alloc q item)"
proof -
  have mode: "q_mode q = REL4U_MEM_FIXED" "\<not> unat (it_len item) > REL4U_MAX_MSG_SIZE"
    using assms by (simp_all add: ring_inv_def valid_item_def)
  show ?thesis
  proof (cases "ring_admit q")
    case None
    with admit_ring [OF assms(1), of "unat (it_len item)"] mode assms(1) show ?thesis
      by (simp add: push_effect_def mpmc_push_front_locked_def queue_inv_ring) (simp add: count_drop_def)
  next
    case (Some q1)
    with admit_ring [OF assms(1), of "unat (it_len item)"] have q1:
        "ring_inv q1" "unat (q_count q1) < unat (q_capacity q1)"
        "admit q (unat (it_len item)) = Some (ring_msgs q1)"
        "q_dropped_count q1 = q_dropped_count q + of_nat (length (queue_msgs q) - length (ring_msgs q1))"
      by simp_all
    from ring_push_front [OF q1(1,2) assms(2)] show ?thesis
      using Some mode q1(3,4)
      by (simp add: push_effect_def mpmc_push_front_locked_def Let_def queue_inv_ring queue_msgs_ring
          del: length_ring_msgs)
  qed
qed

text \<open>The dynamic pushes, with the linking step abstracted: \<open>link\<close> and what it adds.\<close>

text \<open>What linking a new node must do to a list with room for it, for a push at either end.\<close>

definition links :: "rel4u_mpmc_item \<Rightarrow> (message list \<Rightarrow> message list) \<Rightarrow> (rel4u_mpmc_queue \<Rightarrow> ptr \<Rightarrow> rel4u_mpmc_queue) \<Rightarrow> bool" where
  "links item add link \<longleftrightarrow>
     (\<forall>q ps p. list_inv q ps \<longrightarrow> p \<notin> set ps \<longrightarrow> p \<noteq> 0 \<longrightarrow>
        total_size (list_msgs (q_nodes q) ps) + (32 + unat (it_len item)) \<le> unat (q_max_bytes q) \<longrightarrow>
        q_dropped_count (link q p) = q_dropped_count q \<and>
        (\<exists>ps'. list_inv (link q p) ps' \<and> list_msgs (q_nodes (link q p)) ps' = add (list_msgs (q_nodes q) ps)))"

text \<open>After \<open>k\<close> evictions: the node is allocated and linked, or the message is dropped as well.\<close>

lemma push_list_admitted:
  assumes fresh: "fresh_alloc alloc" and link: "links item add link" and mode: "q_mode q = REL4U_MEM_DYNAMIC"
    and q1: "list_inv q1 qs" "list_msgs (q_nodes q1) qs = ms" "q_dropped_count q1 = q_dropped_count q + of_nat k" "q_max_bytes q1 = q_max_bytes q"
    and ms: "admit q (unat (it_len item)) = Some ms" "length (queue_msgs q) - length ms = k"
      "total_size ms + (32 + unat (it_len item)) \<le> unat (q_max_bytes q)"
  shows "push_effect add alloc q item (case alloc (q_nodes q1) needed of None \<Rightarrow> (False, count_drop q1) | Some p \<Rightarrow> (True, link q1 p))"
proof (cases "alloc (q_nodes q1) needed")
  case None
  then have "\<exists>h n. alloc h n = None" by blast
  with q1 ms(1,2) mode None show ?thesis by (auto simp: push_effect_def queue_inv_list queue_msgs_list) (auto simp: count_drop_def)
next
  case (Some p)
  then have p: "p \<noteq> 0" "fmlookup (q_nodes q1) p = None" using fresh unfolding fresh_alloc_def by blast+
  then have "p \<notin> set qs" using q1(1) by (auto simp: list_inv_def dest!: dll_live)
  with link q1 p(1) ms(3) obtain ps' where
    "list_inv (link q1 p) ps'" "list_msgs (q_nodes (link q1 p)) ps' = add ms" "q_dropped_count (link q1 p) = q_dropped_count q1"
    unfolding links_def by metis
  then show ?thesis using Some q1(3) ms(1,2) by (simp add: push_effect_def queue_inv_list queue_msgs_list)
qed

lemma push_list_effect:
  assumes inv: "list_inv q ps" and fresh: "fresh_alloc alloc" and link: "links item add link"
    and r: "r = (if sizeof_node + ucast (it_len item) > q_max_bytes q then (False, count_drop q)
       else case mpmc_make_room q (sizeof_node + ucast (it_len item)) of
              (False, q) \<Rightarrow> (False, q)
            | (True, q) \<Rightarrow> (case alloc (q_nodes q) (sizeof_node + ucast (it_len item)) of
                             None \<Rightarrow> (False, count_drop q) | Some p \<Rightarrow> (True, link q p)))"
  shows "push_effect add alloc q item r"
proof (cases "sizeof_node + ucast (it_len item) > q_max_bytes q")
  case True
  have "q_mode q = REL4U_MEM_DYNAMIC" using inv by (simp add: list_inv_def)
  then have "admit q (unat (it_len item)) = None"
    using True unat_needed [of "it_len item"] by (simp add: admit_def word_less_nat_alt)
  with True r inv show ?thesis
    by (simp add: push_effect_def queue_inv_list del: sizeof_node_def) (simp add: count_drop_def)
next
  case False
  let ?s = "sizeof_node + ucast (it_len item) :: size_t"
  have s: "unat ?s = 32 + unat (it_len item)" by (rule unat_needed)
  have mode: "q_mode q = REL4U_MEM_DYNAMIC" and qm: "queue_msgs q = list_msgs (q_nodes q) ps"
    using inv queue_msgs_list [OF inv] by (simp_all add: list_inv_def)
  have le: "unat ?s \<le> unat (q_max_bytes q)" using False by (simp only: word_less_nat_alt not_less)
  have admit: "admit q (unat (it_len item)) =
      list_admit (q_full_policy q) (unat (q_max_bytes q)) (unat ?s) (list_msgs (q_nodes q) ps)"
    using mode s le qm by (simp add: admit_def)
  note room = make_room_admit [OF inv le]
  show ?thesis
  proof (cases "list_admit (q_full_policy q) (unat (q_max_bytes q)) (unat ?s) (list_msgs (q_nodes q) ps)")
    case None
    with room have "mpmc_make_room q ?s = (False, count_drop q)" by simp
    with False None admit r inv show ?thesis
      by (simp add: push_effect_def queue_inv_list del: sizeof_node_def) (simp add: count_drop_def)
  next
    case (Some ms)
    with room obtain q1 k where q1: "mpmc_make_room q ?s = (True, q1)" "list_inv q1 (drop k ps)"
        "k \<le> length ps" "list_msgs (q_nodes q1) (drop k ps) = ms" "ms = drop k (list_msgs (q_nodes q) ps)"
        "q_dropped_count q1 = q_dropped_count q + of_nat k" "q_max_bytes q1 = q_max_bytes q"
      by auto
    have len: "length (queue_msgs q) - length ms = k" using q1(3,5) qm by (simp add: list_msgs_def)
    have "total_size ms + (32 + unat (it_len item)) \<le> unat (q_max_bytes q)"
      using Some evict_fits [OF le] s by (auto simp: list_admit_def split: if_splits)
    with push_list_admitted [OF fresh link mode q1(2,4,6,7) admit [unfolded Some] len] False r q1(1) show ?thesis
      by (simp del: sizeof_node_def)
  qed
qed

lemma links_back:
  "valid_item item \<Longrightarrow>
   links item (\<lambda>ms. ms @ [item_msg item]) (\<lambda>q. link_back q item (sizeof_node + ucast (it_len item)))"
  unfolding links_def using link_back_inv link_fields(3) by blast

lemma links_front:
  "valid_item item \<Longrightarrow> links item ((#) (item_msg item)) (\<lambda>q. link_front q item (sizeof_node + ucast (it_len item)))"
  unfolding links_def using link_front_inv link_fields(9) by blast

lemma push_back_effect:
  assumes "queue_inv q" "valid_item item" "fresh_alloc alloc"
  shows "push_effect (\<lambda>ms. ms @ [item_msg item]) alloc q item (mpmc_push_back_locked alloc q item)"
proof (rule queue_inv_cases [OF assms(1)])
  fix ps assume dyn: "q_mode q = REL4U_MEM_DYNAMIC" "list_inv q ps"
  have "\<not> unat (it_len item) > REL4U_MAX_MSG_SIZE"
    using assms(2) by (simp add: valid_item_def)
  with dyn(1) show ?thesis
    by (rule_tac push_list_effect [OF dyn(2) assms(3) links_back [OF assms(2)]])
      (simp_all add: mpmc_push_back_locked_def Let_def del: sizeof_node_def)
qed (use push_back_ring_effect assms in blast)

lemma push_front_effect:
  assumes "queue_inv q" "valid_item item" "fresh_alloc alloc"
  shows "push_effect ((#) (item_msg item)) alloc q item (mpmc_push_front_locked alloc q item)"
proof (rule queue_inv_cases [OF assms(1)])
  fix ps assume dyn: "q_mode q = REL4U_MEM_DYNAMIC" "list_inv q ps"
  have "\<not> unat (it_len item) > REL4U_MAX_MSG_SIZE"
    using assms(2) by (simp add: valid_item_def)
  with dyn(1) show ?thesis
    by (rule_tac push_list_effect [OF dyn(2) assms(3) links_front [OF assms(2)]])
      (simp_all add: mpmc_push_front_locked_def Let_def del: sizeof_node_def)
qed (use push_front_ring_effect assms in blast)

subsection \<open>The pop\<close>

lemma pop_empty:
  assumes "queue_inv q" "queue_msgs q = []"
  shows "mpmc_pop_head_locked q out = (False, q, out)"
  using assms length_queue_msgs [of q] by (simp add: mpmc_pop_head_locked_def unsigned_eq_0_iff)

lemma item_msg_of_node:
  assumes "node_ok n" "length (it_data out) = REL4U_MAX_MSG_SIZE"
  defines "out' \<equiv> out\<lparr>it_client_id := nd_client_id n, it_mode := nd_mode n, it_len := nd_len n,
    it_data := memcpy_at (it_data out) 0 (take (unat (nd_len n)) (nd_data n))\<rparr>"
  shows "valid_item out'" "item_msg out' = node_msg n"
  using assms by (simp_all add: valid_item_def item_msg_def node_msg_def node_ok_def memcpy_at_def)

definition pop_effect ::
  "rel4u_mpmc_queue \<Rightarrow> bool \<times> rel4u_mpmc_queue \<times> rel4u_mpmc_item \<Rightarrow> bool" where
  "pop_effect q r \<longleftrightarrow>
     (case r of (ok, q', out) \<Rightarrow>
        ok \<and> queue_inv q' \<and> queue_msgs q = item_msg out # queue_msgs q' \<and> valid_item out \<and>
        q_dropped_count q' = q_dropped_count q)"

lemma pop_head_effect:
  assumes inv: "queue_inv q" and ne: "queue_msgs q \<noteq> []"
    and out: "length (it_data out) = REL4U_MAX_MSG_SIZE"
  shows "pop_effect q (mpmc_pop_head_locked q out)"
proof -
  have cnt: "q_count q \<noteq> 0" using ne length_queue_msgs [OF inv] by auto
  from inv show ?thesis
  proof (cases rule: queue_inv_cases)
    case ring
    have "valid_item (q_items q ! ring_at q 0)"
      using ring(2) cnt by (simp add: ring_inv_def unat_gt_0)
    moreover have "ring_at q 0 = unat (q_head q)"
      using ring(2) by (simp add: ring_at_def ring_inv_def)
    ultimately show ?thesis
      using cnt ring ring_drop_head_inv [OF ring(2) cnt] ring_drop_head_msgs [OF ring(2) cnt]
        queue_msgs_ring queue_inv_ring
      by (simp add: pop_effect_def mpmc_pop_head_locked_def ring_drop_head_def)
  next
    case (dyn ps)
    with ne obtain a ps' where ps: "ps = a # ps'" by (cases ps) (auto simp: list_msgs_def)
    with dyn obtain n where n: "q_node_head q = a" "a \<noteq> 0" "fmlookup (q_nodes q) a = Some n" "node_ok n"
      by (auto simp: list_inv_def)
    have u: "list_inv (unlink_head q n) ps'"
        "list_msgs (q_nodes q) ps = node_msg n # list_msgs (q_nodes (unlink_head q n)) ps'"
      using unlink_head_inv [of q a ps' n] dyn(2) ps n(3) by simp_all
    from cnt dyn n u queue_msgs_list [OF u(1)] queue_inv_list [OF u(1)] item_msg_of_node [OF n(4) out]
    show ?thesis
      by (simp add: pop_effect_def mpmc_pop_head_locked_def)
  qed
qed

subsection \<open>The contract of a queue\<close>

text \<open>
  A history of pushes, each with the allocator as it is at that moment, and pops into an
  output item; \<open>hist_run\<close> returns the items popped, in order, and the final queue.
\<close>

datatype ('e, 'i) queue_op = Push 'e 'i | Pop 'i

fun offered :: "('e, 'i) queue_op list \<Rightarrow> 'i list" where
  "offered [] = []"
| "offered (Push e i # ops) = i # offered ops"
| "offered (Pop i # ops) = offered ops"

fun hist_run ::
  "('e \<Rightarrow> 'q \<Rightarrow> 'i option \<Rightarrow> bool \<times> 'q) \<Rightarrow> ('q \<Rightarrow> 'i option \<Rightarrow> bool \<times> 'q \<times> 'i option) \<Rightarrow>
   'q \<Rightarrow> ('e, 'i) queue_op list \<Rightarrow> 'i list \<times> 'q" where
  "hist_run push pop q [] = ([], q)"
| "hist_run push pop q (Push e i # ops) = hist_run push pop (snd (push e q (Some i))) ops"
| "hist_run push pop q (Pop out # ops) =
     (case pop q (Some out) of (ok, q', out') \<Rightarrow>
        (case hist_run push pop q' ops of (is, q'') \<Rightarrow> (if ok then the out' # is else is, q'')))"

fun op_ok :: "('e \<Rightarrow> bool) \<Rightarrow> ('i \<Rightarrow> bool) \<Rightarrow> ('i \<Rightarrow> bool) \<Rightarrow> ('e, 'i) queue_op \<Rightarrow> bool" where
  "op_ok env valid room (Push e i) \<longleftrightarrow> env e \<and> valid i"
| "op_ok env valid room (Pop out) \<longleftrightarrow> room out"

locale message_queue =
  fixes env :: "'e \<Rightarrow> bool" and invar :: "'q \<Rightarrow> bool" and msgs :: "'q \<Rightarrow> 'm list"
    and drops :: "'q \<Rightarrow> u64" and valid :: "'i \<Rightarrow> bool" and room :: "'i \<Rightarrow> bool" and msg :: "'i \<Rightarrow> 'm"
    and push :: "'e \<Rightarrow> 'q \<Rightarrow> 'i option \<Rightarrow> bool \<times> 'q"
    and pop :: "'q \<Rightarrow> 'i option \<Rightarrow> bool \<times> 'q \<times> 'i option"
  assumes push_law: "env e \<Longrightarrow> invar q \<Longrightarrow> valid i \<Longrightarrow> push e q (Some i) = (ok, q') \<Longrightarrow>
      invar q' \<and> (\<exists>k \<le> length (msgs q).
        if ok then msgs q' = drop k (msgs q) @ [msg i] \<and> drops q' = drops q + of_nat k
        else msgs q' = drop k (msgs q) \<and> drops q' = drops q + of_nat k + 1)"
    and pop_empty_law: "invar q \<Longrightarrow> msgs q = [] \<Longrightarrow> pop q (Some out) = (False, q, Some out)"
    and pop_head_law: "invar q \<Longrightarrow> msgs q \<noteq> [] \<Longrightarrow> room out \<Longrightarrow>
      \<exists>q' i. pop q (Some out) = (True, q', Some i) \<and> invar q' \<and> msgs q = msg i # msgs q' \<and>
        valid i \<and> drops q' = drops q"
begin

lemma run_law:
  assumes "invar q" "\<forall>x \<in> set ops. op_ok env valid room x" "hist_run push pop q ops = (is, q')"
  shows "invar q' \<and> (\<forall>i \<in> set is. valid i) \<and>
    subseq (map msg is @ msgs q') (msgs q @ map msg (offered ops)) \<and>
    (\<exists>d. length (msgs q) + length (offered ops) = length is + length (msgs q') + d \<and>
      drops q' = drops q + of_nat d)"
  using assms
proof (induction ops arbitrary: q "is")
  case (Cons x ops)
  show ?case
  proof (cases x)
    case (Push e i)
    obtain ok q1 where q1: "push e q (Some i) = (ok, q1)" by fastforce
    from push_law [OF _ Cons.prems(1) _ q1] Cons.prems(2) Push obtain k where
      k: "invar q1" "k \<le> length (msgs q)"
        "if ok then msgs q1 = drop k (msgs q) @ [msg i] \<and> drops q1 = drops q + of_nat k
         else msgs q1 = drop k (msgs q) \<and> drops q1 = drops q + of_nat k + 1"
      by auto
    have run: "hist_run push pop q1 ops = (is, q')" using Cons.prems(3) Push q1 by simp
    have "subseq (drop k (msgs q)) (msgs q)" by (intro suffix_imp_subseq suffix_drop)
    then have sub: "subseq (msgs q1) (msgs q @ [msg i])"
      using k(3) list_emb_append_mono [of "(=)" "drop k (msgs q)" "msgs q" "if ok then [msg i] else []" "[msg i]"]
      by (simp split: if_splits)
    from Cons.IH [OF k(1) _ run] Cons.prems(2) obtain d where
      ih: "invar q'" "\<forall>i \<in> set is. valid i" "subseq (map msg is @ msgs q') (msgs q1 @ map msg (offered ops))"
        "length (msgs q1) + length (offered ops) = length is + length (msgs q') + d"
        "drops q' = drops q1 + of_nat d"
      by auto
    have "subseq (msgs q1 @ map msg (offered ops)) ((msgs q @ [msg i]) @ map msg (offered ops))"
      using sub by (rule list_emb_append_mono) simp
    then have "subseq (map msg is @ msgs q') (msgs q @ map msg (offered (x # ops)))"
      using ih(3) Push subseq_order.trans by fastforce
    moreover have "length (msgs q) + length (offered (x # ops)) =
        length is + length (msgs q') + (d + (if ok then k else k + 1))"
      "drops q' = drops q + of_nat (d + (if ok then k else k + 1))"
      using ih(4,5) k(2,3) Push by (auto split: if_splits simp: algebra_simps)
    ultimately show ?thesis using ih(1,2) by blast
  next
    case (Pop out)
    show ?thesis
    proof (cases "msgs q = []")
      case True
      with Cons.prems(3) Pop pop_empty_law [OF Cons.prems(1)]
      have "hist_run push pop q ops = (is, q')" by (auto split: prod.splits)
      with Cons.IH [OF Cons.prems(1)] Cons.prems(2) Pop show ?thesis by simp
    next
      case False
      from Cons.prems(2) Pop have "room out" by simp
      from pop_head_law [OF Cons.prems(1) False this] obtain q1 i where
        q1: "pop q (Some out) = (True, q1, Some i)" "invar q1" "msgs q = msg i # msgs q1" "valid i"
          "drops q1 = drops q"
        by blast
      then obtain is' where is': "hist_run push pop q1 ops = (is', q')" "is = i # is'"
        using Cons.prems(3) Pop by (auto split: prod.splits)
      from Cons.IH [OF q1(2) _ is'(1)] Cons.prems(2) show ?thesis
        using q1(3,4,5) is'(2) Pop by auto
    qed
  qed
qed simp

lemma run_lossless:
  assumes "invar q" "\<forall>x \<in> set ops. op_ok env valid room x" "hist_run push pop q ops = (is, q')"
    and "drops q' = drops q" "length (msgs q) + length (offered ops) < 2 ^ 64"
  shows "map msg is @ msgs q' = msgs q @ map msg (offered ops)"
proof -
  from run_law [OF assms(1,2,3)] obtain d where
    d: "subseq (map msg is @ msgs q') (msgs q @ map msg (offered ops))"
      "length (msgs q) + length (offered ops) = length is + length (msgs q') + d"
      "drops q' = drops q + of_nat d"
    by blast
  have "d = 0"
    using assms(4,5) d(2,3) unat_of_nat [of d, where 'a = 64] by simp
  with d(1,2) show ?thesis by (intro subseq_same_length) simp_all
qed

end

text \<open>A queue that also takes messages back at its head, for the messages of a window that is given up.\<close>

definition requeue ::
  "('e \<Rightarrow> 'q \<Rightarrow> 'i option \<Rightarrow> bool \<times> 'q) \<Rightarrow> 'e \<Rightarrow> 'i list \<Rightarrow> nat \<times> 'q \<Rightarrow> nat \<times> 'q" where
  "requeue push_front e is =
     foldr (\<lambda>i (n, q). case push_front e q (Some i) of (ok, q') \<Rightarrow> (if ok then n + 1 else n, q')) is"

locale requeue_queue = message_queue +
  fixes push_front :: "'a \<Rightarrow> 'b \<Rightarrow> 'd option \<Rightarrow> bool \<times> 'b" and total :: "'a \<Rightarrow> bool"
    and fits :: "'b \<Rightarrow> 'd list \<Rightarrow> bool"
  assumes push_front_law: "env e \<Longrightarrow> invar q \<Longrightarrow> valid i \<Longrightarrow> push_front e q (Some i) = (ok, q') \<Longrightarrow>
      invar q' \<and> (\<exists>k \<le> length (msgs q).
        if ok then msgs q' = msg i # drop k (msgs q) \<and> drops q' = drops q + of_nat k
        else msgs q' = drop k (msgs q) \<and> drops q' = drops q + of_nat k + 1)"
    and push_front_fits: "env e \<Longrightarrow> total e \<Longrightarrow> invar q \<Longrightarrow> valid i \<Longrightarrow> fits q (is @ [i]) \<Longrightarrow>
      push_front e q (Some i) = (ok, q') \<Longrightarrow>
      ok \<and> msgs q' = msg i # msgs q \<and> drops q' = drops q \<and> fits q' is"
begin

lemma requeue_invar:
  "env e \<Longrightarrow> invar (snd nq) \<Longrightarrow> \<forall>i \<in> set is. valid i \<Longrightarrow> invar (snd (requeue push_front e is nq))"
proof (induction "is")
  case (Cons i "is")
  let ?q = "snd (requeue push_front e is nq)"
  obtain ok q' where p: "push_front e ?q (Some i) = (ok, q')" by fastforce
  have "invar q'" using push_front_law [OF Cons.prems(1) _ _ p] Cons by simp
  with p show ?case by (simp add: requeue_def case_prod_unfold)
qed (simp add: requeue_def)

text \<open>Whatever room there is, the messages that are left keep their order, and every one that is missing is counted.\<close>

lemma requeue_counted:
  assumes "env e" "invar q" "\<forall>i \<in> set is. valid i"
  shows "\<exists>d. subseq (msgs (snd (requeue push_front e is (n, q)))) (map msg is @ msgs q) \<and>
    length (msgs (snd (requeue push_front e is (n, q)))) + d = length is + length (msgs q) \<and>
    drops (snd (requeue push_front e is (n, q))) = drops q + of_nat d"
  using assms(3)
proof (induction "is")
  case Nil
  show ?case by (intro exI [of _ 0]) (simp add: requeue_def)
next
  case (Cons i "is")
  let ?q = "snd (requeue push_front e is (n, q))"
  from Cons obtain d where d: "subseq (msgs ?q) (map msg is @ msgs q)" "length (msgs ?q) + d = length is + length (msgs q)"
    "drops ?q = drops q + of_nat d" by auto
  obtain ok q' where p: "push_front e ?q (Some i) = (ok, q')" by fastforce
  have "invar ?q" using requeue_invar [OF assms(1), of "(n, q)" "is"] assms(2) Cons.prems by simp
  from push_front_law [OF assms(1) this _ p] Cons.prems obtain k where k: "k \<le> length (msgs ?q)"
    "if ok then msgs q' = msg i # drop k (msgs ?q) \<and> drops q' = drops ?q + of_nat k
     else msgs q' = drop k (msgs ?q) \<and> drops q' = drops ?q + of_nat k + 1" by auto
  have sub: "subseq (drop k (msgs ?q)) (map msg is @ msgs q)"
    using d(1) subseq_order.trans suffix_imp_subseq suffix_drop by blast
  have "snd (requeue push_front e (i # is) (n, q)) = q'" using p by (simp add: requeue_def case_prod_unfold)
  then show ?case using k d(2,3) sub
    by (intro exI [of _ "if ok then d + k else d + k + 1"]) (auto simp: algebra_simps)
qed

lemma requeue_msgs:
  "env e \<Longrightarrow> total e \<Longrightarrow> invar q \<Longrightarrow> \<forall>i \<in> set is. valid i \<Longrightarrow> fits q is \<Longrightarrow>
   \<exists>q'. requeue push_front e is (n, q) = (n + length is, q') \<and> msgs q' = map msg is @ msgs q \<and>
     drops q' = drops q"
proof (induction "is" arbitrary: n q rule: rev_induct)
  case (snoc i "is")
  obtain ok q' where q': "push_front e q (Some i) = (ok, q')" by fastforce
  with snoc.prems push_front_fits [of e q i "is" ok q'] push_front_law [of e q i ok q']
  have "ok" "invar q'" "msgs q' = msg i # msgs q" "drops q' = drops q" "fits q' is" by simp_all
  with snoc.IH [of q' "n + 1"] snoc.prems q' show ?case by (simp add: requeue_def)
qed (simp add: requeue_def)

end

subsection \<open>The code's operations meet the contract\<close>

lemma admit_drop:
  assumes "admit q len = Some ms"
  shows "\<exists>k \<le> length (queue_msgs q). ms = drop k (queue_msgs q) \<and> length (queue_msgs q) - length ms = k"
proof -
  have tl: "\<exists>k \<le> length xs. tl xs = drop k xs" for xs :: "message list"
    by (cases xs) (auto intro: exI [of _ "Suc 0"])
  have "\<exists>k \<le> length xs. xs = drop k xs" for xs :: "message list"
    by (rule exI [of _ 0]) simp
  with tl have "\<exists>k \<le> length (queue_msgs q). ms = drop k (queue_msgs q)"
    using assms evict_drop [of "queue_msgs q"]
    unfolding admit_def list_admit_def by (metis option.distinct(1) option.inject)
  then show ?thesis by auto
qed

text \<open>A push effect, whatever was evicted, in the form of the contract.\<close>

lemma push_effect_law:
  assumes "push_effect add alloc q item r"
  shows "queue_inv (snd r) \<and> (\<exists>k \<le> length (queue_msgs q).
    if fst r then queue_msgs (snd r) = add (drop k (queue_msgs q)) \<and>
      q_dropped_count (snd r) = q_dropped_count q + of_nat k
    else queue_msgs (snd r) = drop k (queue_msgs q) \<and>
      q_dropped_count (snd r) = q_dropped_count q + of_nat k + 1)"
proof (cases "admit q (unat (it_len item))")
  case None
  with assms show ?thesis by (auto simp: push_effect_def intro!: exI [of _ 0])
next
  case (Some ms)
  from admit_drop [OF this] obtain k where "k \<le> length (queue_msgs q)" "ms = drop k (queue_msgs q)"
    "length (queue_msgs q) - length ms = k" by blast
  with Some assms show ?thesis
    by (intro conjI exI [of _ k]) (auto simp: push_effect_def split: if_splits)
qed

lemma push_effect_signal:
  "push_effect add alloc q item (ok, q1) \<Longrightarrow> push_effect add alloc q item (ok, cond_signal ok q1)"
  by (simp only: push_effect_def fst_conv snd_conv queue_cond_signal)

definition total_alloc :: "allocator \<Rightarrow> bool" where
  "total_alloc alloc \<longleftrightarrow> (\<forall>h n. alloc h n \<noteq> None)"

definition queue_fits :: "rel4u_mpmc_queue \<Rightarrow> rel4u_mpmc_item list \<Rightarrow> bool" where
  "queue_fits q is \<longleftrightarrow>
     (if q_mode q = REL4U_MEM_FIXED then length (queue_msgs q) + length is \<le> unat (q_capacity q)
      else total_size (queue_msgs q) + total_size (map item_msg is) \<le> unat (q_max_bytes q))"

definition out_room :: "rel4u_mpmc_item \<Rightarrow> bool" where
  "out_room out \<longleftrightarrow> length (it_data out) = REL4U_MAX_MSG_SIZE"

lemma admit_fits:
  assumes "queue_fits q (is @ [i])" "valid_item i"
  shows "admit q (unat (it_len i)) = Some (queue_msgs q)"
  using assms new_node_facts(3) [OF assms(2)] by (cases "q_mode q") (simp_all add: queue_fits_def admit_def list_admit_def)

interpretation try_queue: message_queue fresh_alloc queue_inv queue_msgs q_dropped_count valid_item out_room
  item_msg rel4u_mpmc_try_push rel4u_mpmc_try_pop
proof
  fix alloc q i ok q'
  assume "fresh_alloc alloc" "queue_inv q" "valid_item i" "rel4u_mpmc_try_push alloc q (Some i) = (ok, q')"
  with push_effect_law [OF push_back_effect [of q i alloc]]
  show "queue_inv q' \<and> (\<exists>k \<le> length (queue_msgs q).
      if ok then queue_msgs q' = drop k (queue_msgs q) @ [item_msg i] \<and>
        q_dropped_count q' = q_dropped_count q + of_nat k
      else queue_msgs q' = drop k (queue_msgs q) \<and> q_dropped_count q' = q_dropped_count q + of_nat k + 1)"
    by (simp only: rel4u_mpmc_try_push_def option.case fst_conv snd_conv)
next
  fix q out assume "queue_inv q" "queue_msgs q \<noteq> []" "out_room out"
  from pop_head_effect [of q out] this
  show "\<exists>q' i. rel4u_mpmc_try_pop q (Some out) = (True, q', Some i) \<and> queue_inv q' \<and>
      queue_msgs q = item_msg i # queue_msgs q' \<and> valid_item i \<and> q_dropped_count q' = q_dropped_count q"
    by (auto simp: rel4u_mpmc_try_pop_def pop_effect_def out_room_def split: prod.splits)
qed (simp add: rel4u_mpmc_try_pop_def pop_empty)

interpretation notify_queue: requeue_queue fresh_alloc queue_inv queue_msgs q_dropped_count valid_item out_room
  item_msg rel4u_mpmc_push_notify rel4u_mpmc_try_pop rel4u_mpmc_push_front total_alloc queue_fits
proof
  fix alloc q i ok q'
  assume "fresh_alloc alloc" "queue_inv q" "valid_item i" "rel4u_mpmc_push_notify alloc q (Some i) = (ok, q')"
  with push_effect_law [OF push_back_effect [of q i alloc]]
  show "queue_inv q' \<and> (\<exists>k \<le> length (queue_msgs q).
      if ok then queue_msgs q' = drop k (queue_msgs q) @ [item_msg i] \<and>
        q_dropped_count q' = q_dropped_count q + of_nat k
      else queue_msgs q' = drop k (queue_msgs q) \<and> q_dropped_count q' = q_dropped_count q + of_nat k + 1)"
    by (cases "mpmc_push_back_locked alloc q i") (simp only: rel4u_mpmc_push_notify_def option.case
        prod.case prod.inject queue_cond_signal fst_conv snd_conv flip: ex_simps, metis queue_cond_signal)
next
  fix alloc q i ok q'
  assume a: "fresh_alloc alloc" "queue_inv q" "valid_item i" "rel4u_mpmc_push_front alloc q (Some i) = (ok, q')"
  obtain q1 where q1: "mpmc_push_front_locked alloc q i = (ok, q1)" "q' = cond_signal ok q1"
    using a(4) by (auto simp: rel4u_mpmc_push_front_def split: prod.splits)
  from push_effect_law [OF push_front_effect [OF a(2,3,1)]]
  show "queue_inv q' \<and> (\<exists>k \<le> length (queue_msgs q).
      if ok then queue_msgs q' = item_msg i # drop k (queue_msgs q) \<and> q_dropped_count q' = q_dropped_count q + of_nat k
      else queue_msgs q' = drop k (queue_msgs q) \<and> q_dropped_count q' = q_dropped_count q + of_nat k + 1)"
    unfolding q1 fst_conv snd_conv queue_cond_signal .
next
  fix alloc q i "is" ok q'
  assume a: "fresh_alloc alloc" "total_alloc alloc" "queue_inv q" "valid_item i" "queue_fits q (is @ [i])"
    "rel4u_mpmc_push_front alloc q (Some i) = (ok, q')"
  obtain q1 where q1: "mpmc_push_front_locked alloc q i = (ok, q1)" "q' = cond_signal ok q1"
    using a(6) by (auto simp: rel4u_mpmc_push_front_def split: prod.splits)
  with push_front_effect [OF a(3,4,1)] admit_fits [OF a(5,4)] a(2)
  have "ok" "queue_msgs q1 = item_msg i # queue_msgs q" "q_dropped_count q1 = q_dropped_count q"
    unfolding push_effect_def total_alloc_def by (auto split: if_splits) (metis option.distinct(1))+
  moreover have "same_config q q'"
    using same_config_push(2) [of q alloc i] q1 by (auto simp: same_config_def cond_signal_def)
  ultimately show "ok \<and> queue_msgs q' = item_msg i # queue_msgs q \<and>
      q_dropped_count q' = q_dropped_count q \<and> queue_fits q' is"
    using a(5) q1(2) by (simp add: queue_fits_def same_config_def split: if_splits)
qed (use try_queue.pop_empty_law try_queue.pop_head_law in blast)+

subsection \<open>Creation, destruction and waiting\<close>

lemma init_queue:
  assumes "rel4u_mpmc_init ring mode policy capacity max_bytes = (0, q)"
    and "\<And>xs. ring = Some xs \<Longrightarrow> length xs = unat capacity" "unat max_bytes < 2 ^ 63"
  shows "queue_inv q" "queue_msgs q = []" "q_dropped_count q = 0"
proof -
  have "queue_inv q \<and> queue_msgs q = [] \<and> q_dropped_count q = 0"
  proof (cases mode)
    case REL4U_MEM_FIXED
    with assms obtain xs where xs: "ring = Some xs" "length xs = unat capacity" "\<not> capacity < 2"
        "q = zero_queue\<lparr>q_full_policy := policy, q_capacity := capacity, q_items := xs,
               q_max_bytes := sizeof_item * capacity, q_current_bytes := sizeof_item * capacity\<rparr>"
      by (auto simp: rel4u_mpmc_init_def zero_queue_def Let_def split: if_splits option.splits)
    then show ?thesis
      by (simp add: queue_inv_def queue_msgs_def ring_inv_def ring_msgs_def ring_at_def zero_queue_def
          word_less_nat_alt)
  next
    case REL4U_MEM_DYNAMIC
    with assms(1) have "q = zero_queue\<lparr>q_mode := REL4U_MEM_DYNAMIC, q_full_policy := policy,
        q_max_bytes := (if max_bytes = 0 then 1024 * 1024 else max_bytes)\<rparr>"
      by (auto simp: rel4u_mpmc_init_def zero_queue_def Let_def)
    with assms(3) have "list_inv q []"
      by (simp add: list_inv_def list_msgs_def zero_queue_def)
    then show ?thesis
      using queue_inv_list queue_msgs_list \<open>q = _\<close> by (force simp: list_msgs_def zero_queue_def)
  qed
  then show "queue_inv q" "queue_msgs q = []" "q_dropped_count q = 0" by simp_all
qed

lemma free_nodes_dll:
  "dll h prv p ps lst \<Longrightarrow> distinct ps \<Longrightarrow> free_nodes h p = fmdrop_fset (fset_of_list ps) h"
proof (induction ps arbitrary: h prv p)
  case Nil
  then show ?case by (simp add: free_nodes.simps)
next
  case (Cons a ps)
  then obtain n where n: "p = a" "a \<noteq> 0" "fmlookup h a = Some n" "dll h a (nd_next n) ps lst" by auto
  have "dll (fmdrop a h) a (nd_next n) ps lst"
    using n(4) Cons.prems(2) by (subst dll_frame [where h = h]) auto
  with Cons n show ?case
    by (subst free_nodes.simps) (auto intro!: fmap_ext simp: fset_of_list.rep_eq)
qed

text \<open>A wait returned, and its result is that of a pop on the queue state \<open>q0\<close> it found.\<close>

definition wait_outcome ::
  "rel4u_mpmc_queue \<Rightarrow> rel4u_mpmc_item \<Rightarrow> (bool \<times> rel4u_mpmc_queue \<times> rel4u_mpmc_item) option \<Rightarrow> bool" where
  "wait_outcome q0 out res \<longleftrightarrow>
     (case res of
        None \<Rightarrow> False
      | Some r \<Rightarrow> if queue_msgs q0 = [] then r = (False, q0, out) else pop_effect q0 r)"

lemma pop_wait_loop_returns:
  assumes "queue_inv q" "\<forall>w \<in> set wakes. queue_inv (snd w)" "length (it_data out) = REL4U_MAX_MSG_SIZE"
    and "queue_msgs q \<noteq> [] \<or> timeout_ms = 0 \<or>
      (\<exists>(signaled, q') \<in> set wakes. queue_msgs q' \<noteq> [] \<or> q_wake_generation q' \<noteq> gen \<or>
         (timeout_ms > 0 \<and> \<not> signaled))"
  shows "\<exists>q0 \<in> set (q # map snd wakes).  wait_outcome q0 out (pop_wait_loop gen timeout_ms wakes q out)"
  using assms
proof (induction wakes arbitrary: q)
  case Nil
  have "q_count q = 0 \<longleftrightarrow> queue_msgs q = []"
    using length_queue_msgs [OF Nil.prems(1)] by (metis length_0_conv unsigned_eq_0_iff)
  with Nil pop_head_effect [OF Nil.prems(1) _ Nil.prems(3)] show ?case
    by (auto simp: pop_wait_loop.simps wait_outcome_def)
next
  case (Cons w wakes)
  obtain signaled q' where w: "w = (signaled, q')" by fastforce
  have inv': "queue_inv q'" using Cons.prems(2) w by simp
  have c: "q_count q = 0 \<longleftrightarrow> queue_msgs q = []" "q_count q' = 0 \<longleftrightarrow> queue_msgs q' = []"
    using length_queue_msgs [OF Cons.prems(1)] length_queue_msgs [OF inv']
    by (metis length_0_conv unsigned_eq_0_iff)+
  show ?case
  proof (cases "queue_msgs q \<noteq> [] \<or> timeout_ms = 0 \<or>
      (queue_msgs q' = [] \<and> (q_wake_generation q' \<noteq> gen \<or> (timeout_ms > 0 \<and> \<not> signaled)))")
    case True
    with c w pop_head_effect [OF Cons.prems(1) _ Cons.prems(3)]
    have "wait_outcome q out (pop_wait_loop gen timeout_ms (w # wakes) q out) \<or>
        wait_outcome q' out (pop_wait_loop gen timeout_ms (w # wakes) q out)"
      by (auto simp: pop_wait_loop.simps wait_outcome_def)
    with w show ?thesis by auto
  next
    case False
    then have step: "pop_wait_loop gen timeout_ms (w # wakes) q out = pop_wait_loop gen timeout_ms wakes q' out"
      using c w by (subst pop_wait_loop.simps) auto
    have "\<forall>w \<in> set wakes. queue_inv (snd w)" using Cons.prems(2) by simp
    from Cons.IH [OF inv' this Cons.prems(3)] Cons.prems(4) False w
    have "\<exists>q0 \<in> set (q' # map snd wakes).  wait_outcome q0 out (pop_wait_loop gen timeout_ms wakes q' out)"
      by auto
    then show ?thesis unfolding step using w by auto
  qed
qed

lemma free_nodes_all:
  assumes "list_inv q ps"
  shows "free_nodes (q_nodes q) (q_node_head q) = fmempty"
proof -
  have ps: "dll (q_nodes q) 0 (q_node_head q) ps (q_node_tail q)" "distinct ps"
      "fset (fmdom (q_nodes q)) = set ps"
    using assms by (simp_all add: list_inv_def)
  have "fmlookup (fmdrop_fset (fset_of_list ps) (q_nodes q)) a = None" for a
    using ps(3) by (auto simp: fset_of_list.rep_eq fmlookup_dom_iff)
  then show ?thesis using free_nodes_dll [OF ps(1,2)] by (auto intro: fmap_ext)
qed

lemma queue_memory:
  assumes "queue_inv q"
  shows "rel4u_mpmc_size (Some q) = of_nat (length (queue_msgs q))"
    "q_mode q = REL4U_MEM_FIXED \<Longrightarrow> length (queue_msgs q) \<le> unat (q_capacity q)"
    "q_mode q = REL4U_MEM_DYNAMIC \<Longrightarrow> unat (rel4u_mpmc_bytes (Some q)) = total_size (queue_msgs q)"
    "q_mode q = REL4U_MEM_DYNAMIC \<Longrightarrow> total_size (queue_msgs q) \<le> unat (q_max_bytes q)"
proof -
  show "rel4u_mpmc_size (Some q) = of_nat (length (queue_msgs q))"
    using length_queue_msgs [OF assms] by (simp add: rel4u_mpmc_size_def)
  from assms show "q_mode q = REL4U_MEM_FIXED \<Longrightarrow> length (queue_msgs q) \<le> unat (q_capacity q)"
    by (cases rule: queue_inv_cases) (auto simp: ring_inv_def)
  from assms show "q_mode q = REL4U_MEM_DYNAMIC \<Longrightarrow>
      unat (rel4u_mpmc_bytes (Some q)) = total_size (queue_msgs q)"
    by (cases rule: queue_inv_cases) (auto simp: list_inv_def rel4u_mpmc_bytes_def)
  from assms show "q_mode q = REL4U_MEM_DYNAMIC \<Longrightarrow> total_size (queue_msgs q) \<le> unat (q_max_bytes q)"
    by (cases rule: queue_inv_cases) (auto simp: list_inv_def)
qed

lemma run_config:
  assumes "push = rel4u_mpmc_try_push \<or> push = rel4u_mpmc_push_notify"
  shows "same_config q (snd (hist_run push rel4u_mpmc_try_pop q ops))"
proof (induction ops arbitrary: q)
  case (Cons x ops)
  have trans: "same_config a b \<Longrightarrow> same_config b c \<Longrightarrow> same_config a c" for a b c
    by (simp add: same_config_def)
  show ?case
  proof (cases x)
    case (Push e i)
    have "same_config q (snd (push e q (Some i)))"
      using assms same_config_push(1) [of q e i]
      by (auto simp: rel4u_mpmc_try_push_def rel4u_mpmc_push_notify_def cond_signal_def same_config_def
          split: prod.splits)
    with Cons.IH trans Push show ?thesis by simp
  next
    case (Pop out)
    have "same_config q (fst (snd (rel4u_mpmc_try_pop q (Some out))))"
      using same_config_pop [of q out] by (auto simp: rel4u_mpmc_try_pop_def split: prod.splits)
    with trans [OF this Cons.IH] Pop show ?thesis by (simp add: case_prod_unfold)
  qed
qed (simp add: same_config_def)

subsection \<open>Properties\<close>

text \<open>Concrete items and an allocator, for the witnesses.\<close>

definition ex_item :: "u32 \<Rightarrow> u8 list \<Rightarrow> rel4u_mpmc_item" where
  "ex_item c bs = \<lparr>it_client_id = c, it_mode = 2, it_len = of_nat (length bs),
     it_data = bs @ replicate (9216 - length bs) 0\<rparr>"

definition ex_alloc :: allocator where
  "ex_alloc h n = Some (Suc (Max (insert 0 (fset (fmdom h)))))"

lemma ex_item_facts [simp]:
  "length bs \<le> 9216 \<Longrightarrow> valid_item (ex_item c bs)" "length bs \<le> 9216 \<Longrightarrow> out_room (ex_item c bs)"
  "length bs \<le> 9216 \<Longrightarrow> item_msg (ex_item c bs) = (c, 2, bs)" "it_len (ex_item c bs) = of_nat (length bs)"
  by (simp_all add: ex_item_def valid_item_def out_room_def item_msg_def unat_of_nat)

lemma ex_alloc_facts [simp]: "fresh_alloc ex_alloc" "total_alloc ex_alloc"
proof -
  have "fmlookup h (Suc (Max (insert 0 (fset (fmdom h))))) = None" for h :: node_heap
  proof (rule ccontr)
    assume "fmlookup h (Suc (Max (insert 0 (fset (fmdom h))))) \<noteq> None"
    then have "Suc (Max (insert 0 (fset (fmdom h)))) \<in> insert 0 (fset (fmdom h))"
      by (auto simp: fmlookup_dom_iff)
    then have "Suc (Max (insert 0 (fset (fmdom h)))) \<le> Max (insert 0 (fset (fmdom h)))"
      by (intro Max_ge) simp_all
    then show False by simp
  qed
  then show "fresh_alloc ex_alloc" "total_alloc ex_alloc"
    by (simp_all add: fresh_alloc_def ex_alloc_def total_alloc_def)
qed

definition ex_ring :: rel4u_mpmc_queue where
  "ex_ring = snd (rel4u_mpmc_init (Some [ex_item 0 [], ex_item 0 []]) REL4U_MEM_FIXED
     REL4U_QUEUE_FULL_DROP_LAST 2 0)"

definition ex_list :: rel4u_mpmc_queue where
  "ex_list = snd (rel4u_mpmc_init None REL4U_MEM_DYNAMIC REL4U_QUEUE_FULL_DROP_NEW 0 100)"

lemma ex_queues:
  "rel4u_mpmc_init (Some [ex_item 0 [], ex_item 0 []]) REL4U_MEM_FIXED REL4U_QUEUE_FULL_DROP_LAST 2 0 =
     (0, ex_ring)"
  "rel4u_mpmc_init None REL4U_MEM_DYNAMIC REL4U_QUEUE_FULL_DROP_NEW 0 100 = (0, ex_list)"
  "queue_inv ex_ring" "queue_msgs ex_ring = []" "queue_inv ex_list" "queue_msgs ex_list = []"
proof -
  show r: "rel4u_mpmc_init (Some [ex_item 0 [], ex_item 0 []]) REL4U_MEM_FIXED
      REL4U_QUEUE_FULL_DROP_LAST 2 0 = (0, ex_ring)"
    by (simp add: ex_ring_def rel4u_mpmc_init_def Let_def)
  show l: "rel4u_mpmc_init None REL4U_MEM_DYNAMIC REL4U_QUEUE_FULL_DROP_NEW 0 100 = (0, ex_list)"
    by (simp add: ex_list_def rel4u_mpmc_init_def Let_def)
  show "queue_inv ex_ring" "queue_msgs ex_ring = []" by (rule init_queue [OF r]; simp)+
  show "queue_inv ex_list" "queue_msgs ex_list = []" by (rule init_queue [OF l]; simp)+
qed

text \<open>
  C22. A queue is first-in first-out and loses nothing silently. Start from a queue that
  \<open>rel4u_mpmc_init\<close> returned, in either memory mode and with either full policy, and run any
  sequence of \<open>rel4u_mpmc_try_push\<close> (or \<open>rel4u_mpmc_push_notify\<close>) and \<open>rel4u_mpmc_try_pop\<close> calls,
  \<open>malloc\<close> failing whenever it likes. The messages popped, followed by those still queued, are a
  subsequence of the messages offered; every message missing from it is counted in
  \<open>dropped_count\<close>, so with that counter at 0 the two sequences are equal.
\<close>

theorem mpmc_fifo:
  assumes "rel4u_mpmc_init ring mode policy capacity max_bytes = (0, q)"
    and "\<And>xs. ring = Some xs \<Longrightarrow> length xs = unat capacity" "unat max_bytes < 2 ^ 63"
    and "push = rel4u_mpmc_try_push \<or> push = rel4u_mpmc_push_notify"
    and "\<forall>x \<in> set ops. op_ok fresh_alloc valid_item out_room x"
    and "hist_run push rel4u_mpmc_try_pop q ops = (is, q')"
  shows "subseq (map item_msg is @ queue_msgs q') (map item_msg (offered ops)) \<and>
    (\<exists>d. length (offered ops) = length is + length (queue_msgs q') + d \<and>
      rel4u_mpmc_dropped_count (Some q') = of_nat d) \<and>
    (rel4u_mpmc_dropped_count (Some q') = 0 \<longrightarrow> length (offered ops) < 2 ^ 64 \<longrightarrow>
      map item_msg is @ queue_msgs q' = map item_msg (offered ops))"
  using assms(4)
proof (rule disjE)
  note q = init_queue [OF assms(1,2,3)]
  show ?thesis if "push = rel4u_mpmc_try_push"
    using try_queue.run_law [OF q(1) assms(5), of "is" q'] try_queue.run_lossless [OF q(1) assms(5), of "is" q']
      assms(6) that q(2,3) by (simp add: rel4u_mpmc_dropped_count_def)
  show ?thesis if "push = rel4u_mpmc_push_notify"
    using notify_queue.run_law [OF q(1) assms(5), of "is" q'] notify_queue.run_lossless [OF q(1) assms(5), of "is" q']
      assms(6) that q(2,3) by (simp add: rel4u_mpmc_dropped_count_def)
qed

lemma ex_ring_run:
  "hist_run rel4u_mpmc_push_notify rel4u_mpmc_try_pop ex_ring
     [Push ex_alloc (ex_item 1 [7]), Push ex_alloc (ex_item 2 [8]), Push ex_alloc (ex_item 3 [9]),
      Pop (ex_item 0 []), Pop (ex_item 0 [])] =
   ([ex_item 2 [8], ex_item 3 [9]],
    ex_ring\<lparr>q_items := [ex_item 3 [9], ex_item 2 [8]], q_head := 1, q_tail := 1, q_dropped_count := 1, q_cond := 3\<rparr>)"
  by (simp add: ex_ring_def rel4u_mpmc_init_def zero_queue_def Let_def rel4u_mpmc_push_notify_def
      mpmc_push_back_locked_def ring_admit_def count_drop_def cond_signal_def rel4u_mpmc_try_pop_def
      mpmc_pop_head_locked_def word_le_nat_alt)

lemma mpmc_fifo_witness:
  "subseq (map item_msg [ex_item 2 [8], ex_item 3 [9]] @ queue_msgs (ex_ring\<lparr>q_items := [ex_item 3 [9], ex_item 2 [8]],
       q_head := 1, q_tail := 1, q_dropped_count := 1, q_cond := 3\<rparr>))
     (map item_msg [ex_item 1 [7], ex_item 2 [8], ex_item 3 [9]])"
  using mpmc_fifo [OF ex_queues(1) _ _ _ _ ex_ring_run] by simp

text \<open>
  \<open>rel4u_mpmc_try_push\<close>, exactly. An item that fits is appended to the queued messages. If
  it does not fit, then in fixed mode with \<open>DROP_LAST\<close> the oldest message makes way, in dynamic
  mode with \<open>DROP_LAST\<close> just as many of the oldest messages as the byte limit asks for do, and
  otherwise the item is refused and the queue keeps its messages. Evicted and refused messages
  are counted; a refusal with room made happens only when \<open>malloc\<close> fails.
\<close>

theorem mpmc_try_push_exact:
  assumes "queue_inv q" "valid_item item" "fresh_alloc alloc"
  shows "push_effect (\<lambda>ms. ms @ [item_msg item]) alloc q item (rel4u_mpmc_try_push alloc q (Some item))"
  using push_back_effect [OF assms] by (simp add: rel4u_mpmc_try_push_def)

lemma mpmc_try_push_exact_witness:
  "push_effect (\<lambda>ms. ms @ [(1, 2, [7, 8])]) ex_alloc ex_list (ex_item 1 [7, 8])
     (rel4u_mpmc_try_push ex_alloc ex_list (Some (ex_item 1 [7, 8])))"
  using mpmc_try_push_exact [OF ex_queues(5) _ ex_alloc_facts(1), of "ex_item 1 [7, 8]"] by simp

text \<open>
  \<open>rel4u_mpmc_push_front\<close> does the same at the other end: the item becomes the next message
  to be popped, with the same admission rule as a push at the back.
\<close>

theorem mpmc_push_front_exact:
  assumes "queue_inv q" "valid_item item" "fresh_alloc alloc"
  shows "push_effect ((#) (item_msg item)) alloc q item (rel4u_mpmc_push_front alloc q (Some item))"
  using push_front_effect [OF assms] push_effect_signal
  by (cases "mpmc_push_front_locked alloc q item") (simp add: rel4u_mpmc_push_front_def)

lemma mpmc_push_front_exact_witness:
  "push_effect ((#) (1, 2, [7])) ex_alloc ex_ring (ex_item 1 [7])
     (rel4u_mpmc_push_front ex_alloc ex_ring (Some (ex_item 1 [7])))"
  using mpmc_push_front_exact [OF ex_queues(3) _ ex_alloc_facts(1), of "ex_item 1 [7]"] by simp

text \<open>
  C30. Memory stays bounded. After any history of pushes and pops on a queue made by
  \<open>rel4u_mpmc_init\<close>, \<open>rel4u_mpmc_size\<close> is the number of queued messages; in fixed mode it is at
  most the capacity; in dynamic mode \<open>rel4u_mpmc_bytes\<close> is the sum of the node sizes of the queued
  messages and never above the configured limit (1 MiB when 0 is asked for).
\<close>

theorem mpmc_memory_bounded:
  assumes "rel4u_mpmc_init ring mode policy capacity max_bytes = (0, q)"
    and "\<And>xs. ring = Some xs \<Longrightarrow> length xs = unat capacity" "unat max_bytes < 2 ^ 63"
    and "\<forall>x \<in> set ops. op_ok fresh_alloc valid_item out_room x"
    and "hist_run rel4u_mpmc_push_notify rel4u_mpmc_try_pop q ops = (is, q')"
  shows "rel4u_mpmc_size (Some q') = of_nat (length (queue_msgs q')) \<and>
    (mode = REL4U_MEM_FIXED \<longrightarrow> length (queue_msgs q') \<le> unat capacity) \<and>
    (mode = REL4U_MEM_DYNAMIC \<longrightarrow>
      unat (rel4u_mpmc_bytes (Some q')) = total_size (queue_msgs q') \<and>
      rel4u_mpmc_bytes (Some q') \<le> (if max_bytes = 0 then 1048576 else max_bytes))"
proof -
  have inv: "queue_inv q'"
    using notify_queue.run_law [OF init_queue(1) [OF assms(1,2,3)] assms(4,5)] by blast
  have "same_config q q'"
    using run_config [of rel4u_mpmc_push_notify q ops] assms(5) by simp
  moreover have "q_mode q = mode" "mode = REL4U_MEM_FIXED \<Longrightarrow> q_capacity q = capacity"
    "mode = REL4U_MEM_DYNAMIC \<Longrightarrow> q_max_bytes q = (if max_bytes = 0 then 1048576 else max_bytes)"
    using assms(1) by (auto simp: rel4u_mpmc_init_def zero_queue_def Let_def split: if_splits option.splits)
  ultimately have "q_mode q' = mode" "mode = REL4U_MEM_FIXED \<Longrightarrow> q_capacity q' = capacity"
    "mode = REL4U_MEM_DYNAMIC \<Longrightarrow> q_max_bytes q' = (if max_bytes = 0 then 1048576 else max_bytes)"
    by (simp_all add: same_config_def)
  with queue_memory [OF inv] show ?thesis
    unfolding word_le_nat_alt by (cases mode) (simp_all only:, simp_all)
qed

lemma mpmc_memory_bounded_witness:
  "rel4u_mpmc_size (Some (snd (hist_run rel4u_mpmc_push_notify rel4u_mpmc_try_pop ex_list
       [Push ex_alloc (ex_item 1 [7])]))) =
     of_nat (length (queue_msgs (snd (hist_run rel4u_mpmc_push_notify rel4u_mpmc_try_pop ex_list
       [Push ex_alloc (ex_item 1 [7])])))) \<and>
   rel4u_mpmc_bytes (Some (snd (hist_run rel4u_mpmc_push_notify rel4u_mpmc_try_pop ex_list
       [Push ex_alloc (ex_item 1 [7])]))) \<le> 100"
  using mpmc_memory_bounded [OF ex_queues(2), of "[Push ex_alloc (ex_item 1 [7])]"] by simp

text \<open>
  C31. \<open>rel4u_mpmc_destroy\<close> frees every node of a dynamic queue and leaves no pointer to any: the
  walk reaches all live nodes. It releases the ring of a fixed queue, and empties both.
\<close>

theorem mpmc_destroy_frees:
  assumes "queue_inv q"
  shows "(q_mode q = REL4U_MEM_DYNAMIC \<longrightarrow>
      q_nodes (rel4u_mpmc_destroy q) = fmempty \<and> q_node_head (rel4u_mpmc_destroy q) = 0 \<and>
      q_node_tail (rel4u_mpmc_destroy q) = 0) \<and>
    (q_mode q = REL4U_MEM_FIXED \<longrightarrow> q_items (rel4u_mpmc_destroy q) = []) \<and>
    rel4u_mpmc_size (Some (rel4u_mpmc_destroy q)) = 0 \<and> rel4u_mpmc_bytes (Some (rel4u_mpmc_destroy q)) = 0"
  using assms free_nodes_all
  by (cases rule: queue_inv_cases)
    (auto simp: rel4u_mpmc_destroy_def Let_def rel4u_mpmc_size_def rel4u_mpmc_bytes_def)

lemma mpmc_destroy_frees_witness:
  "q_nodes (rel4u_mpmc_destroy (snd (rel4u_mpmc_try_push ex_alloc ex_list (Some (ex_item 1 [7]))))) = fmempty"
  using mpmc_destroy_frees [of "snd (rel4u_mpmc_try_push ex_alloc ex_list (Some (ex_item 1 [7])))"]
    try_queue.push_law [OF ex_alloc_facts(1) ex_queues(5), of "ex_item 1 [7]"]
    same_config_push(1) [of ex_list ex_alloc "ex_item 1 [7]"]
  by (cases "rel4u_mpmc_try_push ex_alloc ex_list (Some (ex_item 1 [7]))")
    (simp add: same_config_def rel4u_mpmc_try_push_def, simp add: ex_list_def rel4u_mpmc_init_def Let_def)

text \<open>
  \<open>rel4u_mpmc_pop_wait\<close> returns as soon as it may, with the right answer. If a message is
  queued, or the timeout is 0, or one of the wake-ups finds a message, finds the wake generation
  changed (\<open>rel4u_mpmc_wake_all\<close> or destruction) or is the expiry of a timed wait, the call
  returns. Its result is that of a pop on a queue state \<open>q0\<close> it saw with the mutex held: the
  oldest message, removed, if \<open>q0\<close> has one, and \<open>false\<close> with nothing changed only if \<open>q0\<close> is empty.
\<close>

theorem mpmc_pop_wait_returns:
  assumes "queue_inv q" "\<forall>w \<in> set wakes. queue_inv (snd w)" "out_room out"
    and "queue_msgs q \<noteq> [] \<or> timeout_ms = 0 \<or>
      (\<exists>(signaled, q') \<in> set wakes. queue_msgs q' \<noteq> [] \<or> q_wake_generation q' \<noteq> q_wake_generation q \<or>
         (timeout_ms > 0 \<and> \<not> signaled))"
  shows "\<exists>q0 \<in> set (q # map snd wakes). \<exists>r. rel4u_mpmc_pop_wait wakes q (Some out) timeout_ms =
      Some (fst r, fst (snd r), Some (snd (snd r))) \<and> wait_outcome q0 out (Some r)"
proof -
  from assms(3) have "length (it_data out) = REL4U_MAX_MSG_SIZE" by (simp add: out_room_def)
  from pop_wait_loop_returns [OF assms(1,2) this assms(4)] obtain q0 where
    "q0 \<in> set (q # map snd wakes)"
    "wait_outcome q0 out (pop_wait_loop (q_wake_generation q) timeout_ms wakes q out)"
    by blast
  moreover from this(2) obtain r where "pop_wait_loop (q_wake_generation q) timeout_ms wakes q out = Some r"
    by (auto simp: wait_outcome_def split: option.splits)
  ultimately show ?thesis
    by (intro bexI [of _ q0] exI [of _ r]) (simp_all add: rel4u_mpmc_pop_wait_def case_prod_unfold)
qed

lemma mpmc_pop_wait_returns_witness:
  "\<exists>q0 \<in> {ex_ring, rel4u_mpmc_wake_all ex_ring}. \<exists>r.
     rel4u_mpmc_pop_wait [(True, rel4u_mpmc_wake_all ex_ring)] ex_ring (Some (ex_item 0 [])) (-1) =
       Some (fst r, fst (snd r), Some (snd (snd r))) \<and> wait_outcome q0 (ex_item 0 []) (Some r)"
proof -
  have "queue_inv (rel4u_mpmc_wake_all ex_ring)"
    using ex_queues(3)
    by (simp add: ex_ring_def rel4u_mpmc_init_def zero_queue_def rel4u_mpmc_wake_all_def queue_inv_def
        ring_inv_def ring_at_def)
  then show ?thesis
    using mpmc_pop_wait_returns [OF ex_queues(3), of "[(True, rel4u_mpmc_wake_all ex_ring)]" "ex_item 0 []" "-1"]
    by (simp add: rel4u_mpmc_wake_all_def)
qed

end
