(* ===== verification/Mpmc_Reference.thy ===== *)
theory Mpmc_Reference
  imports Mpmc_Correct
begin

text \<open>
  The message queue against a reference: an unbounded list with messages appended at one end and taken from the other. As long as
  nothing is dropped, both memory modes return what the reference returns, and so are interchangeable.
\<close>

fun fifo_run :: "('i \<Rightarrow> 'm) \<Rightarrow> 'm list \<Rightarrow> ('e, 'i) queue_op list \<Rightarrow> 'm list \<times> 'm list" where
  "fifo_run msg ms [] = ([], ms)"
| "fifo_run msg ms (Push e i # ops) = fifo_run msg (ms @ [msg i]) ops"
| "fifo_run msg [] (Pop out # ops) = fifo_run msg [] ops"
| "fifo_run msg (m # ms) (Pop out # ops) = map_prod (Cons m) id (fifo_run msg ms ops)"

context message_queue
begin

text \<open>A step that drops nothing, in a history that drops nothing and is too short for the counter to wrap.\<close>

lemma push_kept:
  assumes "env e" "invar q" "valid i" "\<forall>x \<in> set ops. op_ok env valid room x" "hist_run push pop q (Push e i # ops) = (is, q')"
    and "drops q' = drops q" "length (msgs q) + length (offered (Push e i # ops)) < 2 ^ 64"
  obtains q1 where "push e q (Some i) = (True, q1)" "invar q1" "msgs q1 = msgs q @ [msg i]" "drops q1 = drops q"
proof -
  obtain ok q1 where q1: "push e q (Some i) = (ok, q1)" by fastforce
  from push_law [OF assms(1-3) q1] obtain k where
    k: "invar q1" "k \<le> length (msgs q)"
      "if ok then msgs q1 = drop k (msgs q) @ [msg i] \<and> drops q1 = drops q + of_nat k
       else msgs q1 = drop k (msgs q) \<and> drops q1 = drops q + of_nat k + 1"
    by auto
  have "hist_run push pop q1 ops = (is, q')" using assms(5) q1 by simp
  from run_law [OF k(1) assms(4) this] obtain d where
    d: "length (msgs q1) + length (offered ops) = length is + length (msgs q') + d" "drops q' = drops q1 + of_nat d" by blast
  let ?lost = "d + (if ok then k else k + 1)"
  have "?lost < 2 ^ 64" using assms(7) d(1) k(2,3) by (auto split: if_splits)
  moreover have "of_nat ?lost = (0 :: u64)" using assms(6) d(2) k(3) by (auto split: if_splits simp: algebra_simps)
  ultimately have "?lost = 0" using unat_of_nat [of ?lost, where 'a = 64] by simp
  then have "ok" "k = 0" by (auto split: if_splits)
  with that [OF _ k(1)] q1 k(3) show thesis by simp
qed

lemma run_reference:
  assumes "invar q" "\<forall>x \<in> set ops. op_ok env valid room x" "hist_run push pop q ops = (is, q')"
    and "drops q' = drops q" "length (msgs q) + length (offered ops) < 2 ^ 64"
  shows "fifo_run msg (msgs q) ops = (map msg is, msgs q')"
  using assms
proof (induction ops arbitrary: q "is")
  case (Cons x ops)
  show ?case
  proof (cases x)
    case (Push e i)
    from Cons.prems Push obtain q1 where q1: "push e q (Some i) = (True, q1)" "invar q1" "msgs q1 = msgs q @ [msg i]" "drops q1 = drops q"
      by (auto elim!: push_kept [of e q i ops "is" q'])
    with Cons.IH [OF q1(2), of "is"] Cons.prems Push show ?thesis by simp
  next
    case (Pop out)
    show ?thesis
    proof (cases "msgs q = []")
      case True
      with pop_empty_law [OF Cons.prems(1) True, of out] Cons.IH [OF Cons.prems(1), of "is"] Cons.prems Pop
      show ?thesis by (auto split: prod.splits)
    next
      case False
      from Cons.prems(2) Pop have "room out" by simp
      from pop_head_law [OF Cons.prems(1) False this] obtain q1 i where
        q1: "pop q (Some out) = (True, q1, Some i)" "invar q1" "msgs q = msg i # msgs q1" "drops q1 = drops q" by blast
      then obtain is' where is': "hist_run push pop q1 ops = (is', q')" "is = i # is'"
        using Cons.prems(3) Pop by (auto split: prod.splits)
      from Cons.IH [OF q1(2) _ is'(1)] Cons.prems q1(3,4) is'(2) Pop show ?thesis by simp
    qed
  qed
qed simp

end

text \<open>
  C23. The two memory modes of a queue are interchangeable. The same calls on a queue of fixed capacity and on a queue that allocates
  its nodes, each as \<open>rel4u_mpmc_init\<close> returns it, deliver the same messages in the same order and leave the same messages queued, as long
  as neither counts a dropped message; and both do what an unbounded first-in first-out list does.
\<close>

theorem mpmc_modes_agree:
  assumes "rel4u_mpmc_init ring REL4U_MEM_FIXED policy capacity max_bytes = (0, q)" "\<And>xs. ring = Some xs \<Longrightarrow> length xs = unat capacity"
      "unat max_bytes < 2 ^ 63"
    and "rel4u_mpmc_init None REL4U_MEM_DYNAMIC policy2 capacity2 max_bytes2 = (0, p)" "unat max_bytes2 < 2 ^ 63"
    and ops: "\<forall>x \<in> set ops. op_ok fresh_alloc valid_item out_room x" "length (offered ops) < 2 ^ 64"
    and runs: "hist_run rel4u_mpmc_try_push rel4u_mpmc_try_pop q ops = (is, q')"
      "hist_run rel4u_mpmc_try_push rel4u_mpmc_try_pop p ops = (js, p')"
    and kept: "rel4u_mpmc_dropped_count (Some q') = 0" "rel4u_mpmc_dropped_count (Some p') = 0"
  shows "map item_msg is = map item_msg js \<and> queue_msgs q' = queue_msgs p' \<and> (map item_msg is, queue_msgs q') = fifo_run item_msg [] ops"
proof -
  note q = init_queue [OF assms(1-3)] and p = init_queue [OF assms(4) _ assms(5)]
  have "fifo_run item_msg (queue_msgs q) ops = (map item_msg is, queue_msgs q')"
    by (rule try_queue.run_reference [OF q(1) ops(1) runs(1)]) (use q(2,3) kept(1) ops(2) in \<open>simp_all add: rel4u_mpmc_dropped_count_def\<close>)
  moreover have "fifo_run item_msg (queue_msgs p) ops = (map item_msg js, queue_msgs p')"
    by (rule try_queue.run_reference [OF p(1) ops(1) runs(2)]) (use p(2,3) kept(2) ops(2) in \<open>simp_all add: rel4u_mpmc_dropped_count_def\<close>)
  ultimately show ?thesis using q(2) p(2) by simp
qed

text \<open>A history that fills neither queue.\<close>

definition ex_ops :: "(allocator, rel4u_mpmc_item) queue_op list" where
  "ex_ops = [Push ex_alloc (ex_item 1 [7]), Pop (ex_item 0 []), Pop (ex_item 0 [])]"

lemma ex_run:
  assumes "queue_inv q" "queue_msgs q = []" "q_dropped_count q = 0" "admit q 1 = Some []"
  obtains "is" q' where "hist_run rel4u_mpmc_try_push rel4u_mpmc_try_pop q ex_ops = (is, q')" "rel4u_mpmc_dropped_count (Some q') = 0"
proof -
  obtain ok q1 where p: "rel4u_mpmc_try_push ex_alloc q (Some (ex_item 1 [7])) = (ok, q1)" by fastforce
  have "push_effect (\<lambda>ms. ms @ [item_msg (ex_item 1 [7])]) ex_alloc q (ex_item 1 [7]) (ok, q1)"
    using push_back_effect [of q "ex_item 1 [7]" ex_alloc] p assms(1) by (simp add: rel4u_mpmc_try_push_def)
  then have q1: "queue_inv q1" "queue_msgs q1 = [(1, 2, [7])]" "q_dropped_count q1 = 0"
    using assms by (simp_all add: push_effect_def ex_alloc_def split: if_splits)
  from try_queue.pop_head_law [OF q1(1), of "ex_item 0 []"] q1(2,3) obtain q2 i where
    q2: "rel4u_mpmc_try_pop q1 (Some (ex_item 0 [])) = (True, q2, Some i)" "queue_inv q2" "queue_msgs q2 = []" "q_dropped_count q2 = 0" by auto
  from p q2 try_queue.pop_empty_law [OF q2(2,3), of "ex_item 0 []"] that show thesis
    by (simp add: ex_ops_def rel4u_mpmc_dropped_count_def)
qed

lemma mpmc_modes_agree_witness:
  "map item_msg (fst (hist_run rel4u_mpmc_try_push rel4u_mpmc_try_pop ex_ring ex_ops)) =
     map item_msg (fst (hist_run rel4u_mpmc_try_push rel4u_mpmc_try_pop ex_list ex_ops))"
proof -
  have d: "q_dropped_count ex_ring = 0" "q_dropped_count ex_list = 0"
    by (rule init_queue [OF ex_queues(1)] init_queue [OF ex_queues(2)]; simp)+
  have "admit ex_ring 1 = Some []" "admit ex_list 1 = Some []"
    using ex_queues(4,6) by (simp_all add: admit_def ex_ring_def ex_list_def rel4u_mpmc_init_def zero_queue_def Let_def list_admit_def)
  then obtain "is" q js p where r: "hist_run rel4u_mpmc_try_push rel4u_mpmc_try_pop ex_ring ex_ops = (is, q)" "rel4u_mpmc_dropped_count (Some q) = 0"
    "hist_run rel4u_mpmc_try_push rel4u_mpmc_try_pop ex_list ex_ops = (js, p)" "rel4u_mpmc_dropped_count (Some p) = 0"
    using ex_run [OF ex_queues(3,4) d(1)] ex_run [OF ex_queues(5,6) d(2)] by metis
  have "\<forall>x \<in> set ex_ops. op_ok fresh_alloc valid_item out_room x" "length (offered ex_ops) < 2 ^ 64" by (simp_all add: ex_ops_def)
  from mpmc_modes_agree [OF ex_queues(1) _ _ ex_queues(2) _ this r(1,3,2,4)] r(1,3) show ?thesis by simp
qed

end
