(* ===== verification/Seq.thy ===== *)
theory Seq
  imports Rel4u_API
begin

text \<open>
  Sequence numbers, the inline functions at the top of \<open>src/core/rel4u_window.h\<close>: 32-bit
  serial numbers compared by the sign of their difference. \<open>seq_order\<close> shows that this is the
  order of positions for all numbers within half the number space of a common base,
  wherever the base is and however the numbers wrap.
\<close>

definition REL4U_MAX_PAYLOAD_SIZE :: nat where [simp]: "REL4U_MAX_PAYLOAD_SIZE = 9216"

definition rel4u_seq_lt :: "u32 \<Rightarrow> u32 \<Rightarrow> bool" where
  "rel4u_seq_lt a b \<longleftrightarrow> sint (a - b) < 0"

definition rel4u_seq_lte :: "u32 \<Rightarrow> u32 \<Rightarrow> bool" where
  "rel4u_seq_lte a b \<longleftrightarrow> sint (a - b) \<le> 0"

definition rel4u_seq_gt :: "u32 \<Rightarrow> u32 \<Rightarrow> bool" where
  "rel4u_seq_gt a b \<longleftrightarrow> sint (a - b) > 0"

definition rel4u_seq_gte :: "u32 \<Rightarrow> u32 \<Rightarrow> bool" where
  "rel4u_seq_gte a b \<longleftrightarrow> sint (a - b) \<ge> 0"

definition rel4u_seq_diff :: "u32 \<Rightarrow> u32 \<Rightarrow> int" where
  "rel4u_seq_diff a b = sint (a - b)"

lemmas seq_defs = rel4u_seq_lt_def rel4u_seq_lte_def rel4u_seq_gt_def rel4u_seq_gte_def rel4u_seq_diff_def

lemma unat_of_nat_diff:
  assumes "j < 2 ^ 32" "k < 2 ^ 32"
  shows "unat (of_nat j - of_nat k :: u32) = (if k \<le> j then j - k else 2 ^ 32 + j - k)"
proof (cases "k \<le> j")
  case True
  then have "(of_nat j - of_nat k :: u32) = of_nat (j - k)" by simp
  with True assms show ?thesis by (simp only: unat_of_nat_u32 if_True)
next
  case False
  then have "(of_nat j - of_nat k :: u32) = of_nat (2 ^ 32 + j - k)"
    using assms by (simp add: of_nat_diff)
  moreover have "2 ^ 32 + j - k < 2 ^ 32" using False by simp
  ultimately show ?thesis using False by (simp only: unat_of_nat_u32 if_False)
qed

lemma seq_diff_offset:
  fixes h :: u32
  assumes "j < 2 ^ 31" "k < 2 ^ 31"
  shows "rel4u_seq_diff (h + of_nat j) (h + of_nat k) = int j - int k"
proof -
  have eq: "(h + of_nat j) - (h + of_nat k) = (of_nat j - of_nat k :: u32)" by simp
  have "unat (of_nat j - of_nat k :: u32) = (if k \<le> j then j - k else 2 ^ 32 + j - k)"
    using assms by (intro unat_of_nat_diff) simp_all
  with assms show ?thesis
    unfolding rel4u_seq_diff_def eq by (simp add: sint_u32_eq split: if_splits)
qed

lemma seq_offset [seq_simps]:
  fixes h :: u32
  assumes "j < 2 ^ 31" "k < 2 ^ 31"
  shows "rel4u_seq_lt (h + of_nat j) (h + of_nat k) \<longleftrightarrow> j < k"
    "rel4u_seq_lte (h + of_nat j) (h + of_nat k) \<longleftrightarrow> j \<le> k"
    "rel4u_seq_gt (h + of_nat j) (h + of_nat k) \<longleftrightarrow> j > k"
    "rel4u_seq_gte (h + of_nat j) (h + of_nat k) \<longleftrightarrow> j \<ge> k"
  using seq_diff_offset [OF assms, of h] by (simp_all add: seq_defs)

text \<open>The comparisons as facts on the unsigned distance from one argument.\<close>

lemma seq_lte_unat [seq_simps]:
  "rel4u_seq_lte h a \<longleftrightarrow> unat (a - h) \<le> 2 ^ 31"
proof -
  have "h - a = of_nat (2 ^ 32 - unat (a - h))"
    using unat_u32_lt [of "a - h"] by (simp add: of_nat_diff)
  then have "unat (h - a) = (2 ^ 32 - unat (a - h)) mod 2 ^ 32"
    by (simp only: unat_of_nat) simp
  moreover have "unat (a - h) > 0" if "a \<noteq> h" using that by (simp add: unat_gt_0)
  ultimately have "unat (h - a) = (if a = h then 0 else 2 ^ 32 - unat (a - h))"
    by simp
  with unat_u32_lt [of "a - h"] show ?thesis
    by (auto simp: rel4u_seq_lte_def sint_u32_le_0)
qed

lemma seq_gte_unat [seq_simps]: "rel4u_seq_gte a h \<longleftrightarrow> unat (a - h) < 2 ^ 31"
  by (simp add: rel4u_seq_gte_def sint_u32_ge_0)

lemma seq_lt_unat [seq_simps]: "rel4u_seq_lt a h \<longleftrightarrow> 2 ^ 31 \<le> unat (a - h)"
  by (simp add: rel4u_seq_lt_def sint_u32_less_0)

lemma seq_gt_unat [seq_simps]: "rel4u_seq_gt a h \<longleftrightarrow> a \<noteq> h \<and> unat (a - h) < 2 ^ 31"
  by (simp add: rel4u_seq_gt_def sint_u32_greater_0)

text \<open>
  Within half of the number space the comparison functions are the order of positions.
  For two sequence numbers at distances \<open>j\<close> and \<open>k\<close> below $2^{31}$ from a base \<open>h\<close>,
  \<open>rel4u_seq_lt\<close>, \<open>rel4u_seq_lte\<close>, \<open>rel4u_seq_gt\<close> and \<open>rel4u_seq_gte\<close> compare \<open>j\<close> and \<open>k\<close>, and
  \<open>rel4u_seq_diff\<close> is their signed difference, for every base and across the wrap at $2^{32}$.
\<close>

theorem seq_order:
  fixes h :: u32
  assumes "j < 2 ^ 31" "k < 2 ^ 31"
  shows "rel4u_seq_diff (h + of_nat j) (h + of_nat k) = int j - int k \<and>
    (rel4u_seq_lt (h + of_nat j) (h + of_nat k) \<longleftrightarrow> j < k) \<and>
    (rel4u_seq_lte (h + of_nat j) (h + of_nat k) \<longleftrightarrow> j \<le> k) \<and>
    (rel4u_seq_gt (h + of_nat j) (h + of_nat k) \<longleftrightarrow> j > k) \<and>
    (rel4u_seq_gte (h + of_nat j) (h + of_nat k) \<longleftrightarrow> j \<ge> k)"
  using seq_diff_offset [OF assms] seq_offset [OF assms] by simp

lemma seq_order_witness:
  "rel4u_seq_diff 2 0xFFFFFFFE = 4 \<and> rel4u_seq_gt 2 0xFFFFFFFE"
proof -
  have "(0xFFFFFFFE :: u32) + of_nat 4 = 2" by simp
  with seq_order [of 4 0 "0xFFFFFFFE"] show ?thesis by (simp del: of_nat_numeral)
qed

end
