(* ===== verification/Rtt.thy ===== *)
theory Rtt
  imports Rel4u_API
begin

text \<open>
  The retransmission timer, \<open>src/core/rel4u_rtt.h\<close> and \<open>src/core/rel4u_rtt.c\<close>: the
  estimator's state, its initialisation, the Jacobson-Karels update and the exponential
  backoff, on 32-bit words as in the code.

  \<open>(int32_t)srtt - (int32_t)sample\<close> is the exact difference of the two signed readings; C
  defines it whenever both are below \<open>2 ^ 31\<close>, which \<open>rtt_run_small\<close> guarantees.
  A void operation does nothing on a NULL estimator, so it takes the record.

  The lemmas: the timeout always stays in its configured range, the word arithmetic is
  the integer recurrence of the algorithm as long as samples are below \<open>2 ^ 28\<close> ms, and
  \<open>n\<close> timeouts multiply the timeout by \<open>2 ^ n\<close> up to the maximum.
\<close>

definition REL4U_RTT_DEFAULT_RTO_MS :: u32 where [simp]: "REL4U_RTT_DEFAULT_RTO_MS = 200"
definition REL4U_RTT_MIN_RTO_MS :: u32 where [simp]: "REL4U_RTT_MIN_RTO_MS = 20"
definition REL4U_RTT_MAX_RTO_MS :: u32 where [simp]: "REL4U_RTT_MAX_RTO_MS = 2000"

record rel4u_rtt =
  srtt_ms :: u32
  rttvar_ms :: u32
  rto_ms :: u32
  min_rto_ms :: u32
  max_rto_ms :: u32
  has_sample :: bool

definition clamp_rto :: "rel4u_rtt \<Rightarrow> rel4u_rtt" where
  "clamp_rto r =
     (let r = (if rto_ms r < min_rto_ms r then r\<lparr>rto_ms := min_rto_ms r\<rparr> else r)
      in if rto_ms r > max_rto_ms r then r\<lparr>rto_ms := max_rto_ms r\<rparr> else r)"

definition rel4u_rtt_init :: "u32 \<Rightarrow> u32 \<Rightarrow> u32 \<Rightarrow> rel4u_rtt" where
  "rel4u_rtt_init initial_rto min_rto max_rto =
     (let lo = (if min_rto > 0 then min_rto else REL4U_RTT_MIN_RTO_MS);
          hi = (if max_rto > 0 then max_rto else REL4U_RTT_MAX_RTO_MS);
          rto = (if initial_rto > 0 then initial_rto else REL4U_RTT_DEFAULT_RTO_MS)
      in clamp_rto \<lparr>srtt_ms = 0, rttvar_ms = 0, rto_ms = rto, min_rto_ms = lo, max_rto_ms = hi,
                    has_sample = False\<rparr>)"

text \<open>The two branches of the update that set the smoothed RTT and its variation.\<close>

definition rtt_smooth :: "rel4u_rtt \<Rightarrow> u32 \<Rightarrow> rel4u_rtt" where
  "rtt_smooth rtt sample =
     (if \<not> has_sample rtt then
        (let v = sample div 2; v = (if v < 1 then 1 else v)
         in rtt\<lparr>srtt_ms := sample, rttvar_ms := v, has_sample := True\<rparr>)
      else
        (let diff = sint (srtt_ms rtt) - sint sample;
             diff = (if diff < 0 then - diff else diff);
             v = (3 * rttvar_ms rtt + word_of_int diff) div 4;
             v = (if v < 1 then 1 else v)
         in rtt\<lparr>rttvar_ms := v, srtt_ms := (7 * srtt_ms rtt + sample) div 8\<rparr>))"

definition rel4u_rtt_update_sample :: "rel4u_rtt \<Rightarrow> u32 \<Rightarrow> rel4u_rtt" where
  "rel4u_rtt_update_sample rtt sample =
     (let rtt = rtt_smooth rtt sample;
          k_var = 4 * rttvar_ms rtt;
          k_var = (if k_var < 1 then 1 else k_var)
      in clamp_rto (rtt\<lparr>rto_ms := srtt_ms rtt + k_var\<rparr>))"

definition rel4u_rtt_on_timeout :: "rel4u_rtt \<Rightarrow> rel4u_rtt" where
  "rel4u_rtt_on_timeout rtt =
     (let rtt = rtt\<lparr>rto_ms := rto_ms rtt * 2\<rparr>
      in if rto_ms rtt > max_rto_ms rtt then rtt\<lparr>rto_ms := max_rto_ms rtt\<rparr> else rtt)"

definition rel4u_rtt_get_rto :: "rel4u_rtt option \<Rightarrow> u32" where
  "rel4u_rtt_get_rto rtt = (case rtt of Some r \<Rightarrow> rto_ms r | None \<Rightarrow> REL4U_RTT_DEFAULT_RTO_MS)"

text \<open>The initialisation every session and client makes.\<close>

abbreviation default_rtt :: rel4u_rtt where
  "default_rtt \<equiv>
     rel4u_rtt_init REL4U_RTT_DEFAULT_RTO_MS REL4U_RTT_MIN_RTO_MS REL4U_RTT_MAX_RTO_MS"

subsection \<open>Histories\<close>

datatype rtt_event = Sample u32 | Timeout

fun rtt_step :: "rel4u_rtt \<Rightarrow> rtt_event \<Rightarrow> rel4u_rtt" where
  "rtt_step r (Sample m) = rel4u_rtt_update_sample r m"
| "rtt_step r Timeout = rel4u_rtt_on_timeout r"

definition rtt_run :: "rel4u_rtt \<Rightarrow> rtt_event list \<Rightarrow> rel4u_rtt" where
  "rtt_run = foldl rtt_step"

subsection \<open>The timeout stays in its range\<close>

definition rtt_inv :: "rel4u_rtt \<Rightarrow> bool" where
  "rtt_inv r \<longleftrightarrow> min_rto_ms r \<le> rto_ms r \<and> rto_ms r \<le> max_rto_ms r \<and> unat (max_rto_ms r) < 2 ^ 31"

lemma clamp_rto_fields [simp]:
  "srtt_ms (clamp_rto r) = srtt_ms r" "rttvar_ms (clamp_rto r) = rttvar_ms r"
  "min_rto_ms (clamp_rto r) = min_rto_ms r" "max_rto_ms (clamp_rto r) = max_rto_ms r"
  "has_sample (clamp_rto r) = has_sample r"
  by (simp_all add: clamp_rto_def Let_def)

lemma clamp_rto_value:
  "min_rto_ms r \<le> max_rto_ms r \<Longrightarrow>
   rto_ms (clamp_rto r) = max (min_rto_ms r) (min (max_rto_ms r) (rto_ms r))"
  by (auto simp: clamp_rto_def Let_def max_def min_def)

lemma clamp_rto_inv:
  "min_rto_ms r \<le> max_rto_ms r \<Longrightarrow> unat (max_rto_ms r) < 2 ^ 31 \<Longrightarrow> rtt_inv (clamp_rto r)"
  by (simp add: rtt_inv_def clamp_rto_value)

lemma rtt_smooth_range [simp]:
  "min_rto_ms (rtt_smooth r m) = min_rto_ms r" "max_rto_ms (rtt_smooth r m) = max_rto_ms r"
  "has_sample (rtt_smooth r m)"
  by (simp_all add: rtt_smooth_def Let_def)

lemma update_sample_fields [simp]:
  "min_rto_ms (rel4u_rtt_update_sample r m) = min_rto_ms r"
  "max_rto_ms (rel4u_rtt_update_sample r m) = max_rto_ms r"
  "has_sample (rel4u_rtt_update_sample r m)"
  "srtt_ms (rel4u_rtt_update_sample r m) = srtt_ms (rtt_smooth r m)"
  "rttvar_ms (rel4u_rtt_update_sample r m) = rttvar_ms (rtt_smooth r m)"
  by (simp_all add: rel4u_rtt_update_sample_def Let_def)

lemma on_timeout_fields [simp]:
  "min_rto_ms (rel4u_rtt_on_timeout r) = min_rto_ms r"
  "max_rto_ms (rel4u_rtt_on_timeout r) = max_rto_ms r"
  "srtt_ms (rel4u_rtt_on_timeout r) = srtt_ms r"
  "rttvar_ms (rel4u_rtt_on_timeout r) = rttvar_ms r"
  "has_sample (rel4u_rtt_on_timeout r) = has_sample r"
  by (simp_all add: rel4u_rtt_on_timeout_def Let_def)

lemma rtt_init_inv:
  assumes "min_rto_ms (rel4u_rtt_init i lo hi) \<le> max_rto_ms (rel4u_rtt_init i lo hi)"
    "unat (max_rto_ms (rel4u_rtt_init i lo hi)) < 2 ^ 31"
  shows "rtt_inv (rel4u_rtt_init i lo hi)"
  using assms clamp_rto_inv by (simp add: rel4u_rtt_init_def Let_def)

lemma update_sample_inv:
  assumes "rtt_inv r"
  shows "rtt_inv (rel4u_rtt_update_sample r m)"
proof -
  have "min_rto_ms r \<le> max_rto_ms r" "unat (max_rto_ms r) < 2 ^ 31"
    using assms by (auto simp: rtt_inv_def)
  then show ?thesis
    unfolding rel4u_rtt_update_sample_def Let_def by (intro clamp_rto_inv) simp_all
qed

lemma on_timeout_value:
  assumes "rtt_inv r"
  shows "unat (rto_ms (rel4u_rtt_on_timeout r)) = min (unat (max_rto_ms r)) (2 * unat (rto_ms r))"
proof -
  have "unat (rto_ms r) < 2 ^ 31"
    using assms by (auto simp: rtt_inv_def word_le_nat_alt)
  then have "unat (rto_ms r * 2) = 2 * unat (rto_ms r)"
    by (simp add: unat_word_ariths)
  then show ?thesis
    by (auto simp: rel4u_rtt_on_timeout_def Let_def word_less_nat_alt min_def)
qed

lemma on_timeout_inv:
  assumes "rtt_inv r"
  shows "rtt_inv (rel4u_rtt_on_timeout r)"
  using assms on_timeout_value [OF assms] by (auto simp: rtt_inv_def word_le_nat_alt)

lemma rtt_step_inv: "rtt_inv r \<Longrightarrow> rtt_inv (rtt_step r e)"
  by (cases e) (simp_all add: update_sample_inv on_timeout_inv)

lemma rtt_step_range [simp]:
  "min_rto_ms (rtt_step r e) = min_rto_ms r" "max_rto_ms (rtt_step r e) = max_rto_ms r"
  by (cases e; simp)+

lemma rtt_run_inv: "rtt_inv r \<Longrightarrow> rtt_inv (rtt_run r es)"
  by (induction es arbitrary: r) (simp_all add: rtt_run_def rtt_step_inv)

lemma rtt_run_range [simp]:
  "min_rto_ms (rtt_run r es) = min_rto_ms r" "max_rto_ms (rtt_run r es) = max_rto_ms r"
  by (induction es arbitrary: r) (simp_all add: rtt_run_def)

lemma default_rtt_values:
  "default_rtt = \<lparr>srtt_ms = 0, rttvar_ms = 0, rto_ms = 200, min_rto_ms = 20, max_rto_ms = 2000,
                  has_sample = False\<rparr>"
  by (simp add: rel4u_rtt_init_def clamp_rto_def Let_def)

lemma default_rtt_inv: "rtt_inv default_rtt"
  unfolding default_rtt_values by (simp add: rtt_inv_def)

subsection \<open>The word arithmetic is the integer algorithm\<close>

text \<open>
  The reference: RFC 6298 style smoothing on natural numbers, with the code's integer
  divisions and its floor of 1 on the variation. A state is (smoothed RTT, variation),
  or nothing before the first sample.
\<close>

definition jk_update :: "(nat \<times> nat) option \<Rightarrow> nat \<Rightarrow> nat \<times> nat" where
  "jk_update st m =
     (case st of
        None \<Rightarrow> (m, max 1 (m div 2))
      | Some (srtt, var) \<Rightarrow>
          ((7 * srtt + m) div 8,
           max 1 ((3 * var + (if m \<le> srtt then srtt - m else m - srtt)) div 4)))"

definition jk_rto :: "nat \<Rightarrow> nat \<Rightarrow> nat \<times> nat \<Rightarrow> nat" where
  "jk_rto lo hi = (\<lambda>(srtt, var). max lo (min hi (srtt + 4 * var)))"

definition rtt_abs :: "rel4u_rtt \<Rightarrow> (nat \<times> nat) option" where
  "rtt_abs r = (if has_sample r then Some (unat (srtt_ms r), unat (rttvar_ms r)) else None)"

definition rtt_small :: "nat \<Rightarrow> rel4u_rtt \<Rightarrow> bool" where
  "rtt_small b r \<longleftrightarrow> unat (srtt_ms r) \<le> b \<and> unat (rttvar_ms r) \<le> b"

lemma unat_small_add:
  "unat (x::u32) + unat y < 2 ^ 32 \<Longrightarrow> unat (x + y) = unat x + unat y"
  by (simp add: unat_word_ariths)

lemma unat_small_mult:
  "unat (c::u32) * unat x < 2 ^ 32 \<Longrightarrow> unat (c * x) = unat c * unat x"
  by (simp add: unat_word_ariths)

lemma unat_floor_1: "unat (if (x::u32) < 1 then 1 else x) = max 1 (unat x)"
  by (auto simp: word_less_nat_alt max_def)

lemma abs_diff_word:
  fixes s m :: u32
  assumes "unat s < 2 ^ 31" "unat m < 2 ^ 31"
  defines "d \<equiv> sint s - sint m"
  shows "unat (word_of_int (if d < 0 then - d else d) :: u32) =
           (if unat m \<le> unat s then unat s - unat m else unat m - unat s)"
proof -
  define i j where "i = unat s" and "j = unat m"
  have "d = int i - int j"
    using assms by (simp only: d_def sint_u32_eq i_def j_def if_True)
  then have "(if d < 0 then - d else d) = int (if j \<le> i then i - j else j - i)"
    by auto
  then have "unat (word_of_int (if d < 0 then - d else d) :: u32) =
      unat (of_nat (if j \<le> i then i - j else j - i) :: u32)"
    by (simp only: of_int_of_nat_eq)
  also have "\<dots> = (if j \<le> i then i - j else j - i)"
    using assms by (intro unat_of_nat_u32) (auto simp: i_def j_def)
  finally show ?thesis by (simp only: i_def j_def)
qed

lemma rtt_smooth_next:
  assumes "has_sample r" "rtt_small b r" "unat m \<le> b" "b \<le> 2 ^ 28"
  shows "unat (srtt_ms (rtt_smooth r m)) = (7 * unat (srtt_ms r) + unat m) div 8"
    "unat (rttvar_ms (rtt_smooth r m)) =
       max 1 ((3 * unat (rttvar_ms r) +
         (if unat m \<le> unat (srtt_ms r) then unat (srtt_ms r) - unat m
          else unat m - unat (srtt_ms r))) div 4)"
proof -
  have b: "unat (srtt_ms r) \<le> b" "unat (rttvar_ms r) \<le> b"
    using assms(2) by (simp_all add: rtt_small_def)
  have 7: "unat (7 * srtt_ms r) = 7 * unat (srtt_ms r)"
    using b assms(4) by (subst unat_small_mult) simp_all
  then have "unat (7 * srtt_ms r + m) = 7 * unat (srtt_ms r) + unat m"
    using b assms(3,4) by (subst unat_small_add) simp_all
  then show "unat (srtt_ms (rtt_smooth r m)) = (7 * unat (srtt_ms r) + unat m) div 8"
    using assms(1) by (simp add: rtt_smooth_def Let_def unat_div)
  define d :: u32 where
    "d = (let d = sint (srtt_ms r) - sint m in word_of_int (if d < 0 then - d else d))"
  have d: "unat d = (if unat m \<le> unat (srtt_ms r) then unat (srtt_ms r) - unat m
          else unat m - unat (srtt_ms r))"
    unfolding d_def Let_def using b assms(3,4) by (intro abs_diff_word) simp_all
  have 3: "unat (3 * rttvar_ms r) = 3 * unat (rttvar_ms r)"
    using b assms(4) by (subst unat_small_mult) simp_all
  then have "unat (3 * rttvar_ms r + d) = 3 * unat (rttvar_ms r) + unat d"
    using b assms(3,4) d by (subst unat_small_add) (auto split: if_splits)
  then have "unat ((3 * rttvar_ms r + d) div 4) = (3 * unat (rttvar_ms r) + unat d) div 4"
    by (simp add: unat_div)
  moreover have "rttvar_ms (rtt_smooth r m) =
      (let v = (3 * rttvar_ms r + d) div 4 in if v < 1 then 1 else v)"
    using assms(1) by (simp add: rtt_smooth_def Let_def d_def)
  ultimately show "unat (rttvar_ms (rtt_smooth r m)) =
       max 1 ((3 * unat (rttvar_ms r) +
         (if unat m \<le> unat (srtt_ms r) then unat (srtt_ms r) - unat m
          else unat m - unat (srtt_ms r))) div 4)"
    using d by (simp only: Let_def unat_floor_1)
qed

lemma rtt_smooth_first:
  assumes "\<not> has_sample r"
  shows "unat (srtt_ms (rtt_smooth r m)) = unat m"
    "unat (rttvar_ms (rtt_smooth r m)) = max 1 (unat m div 2)"
proof -
  show "unat (srtt_ms (rtt_smooth r m)) = unat m"
    using assms by (simp add: rtt_smooth_def Let_def)
  have "rttvar_ms (rtt_smooth r m) = (if m div 2 < 1 then 1 else m div 2)"
    using assms by (simp add: rtt_smooth_def Let_def)
  then show "unat (rttvar_ms (rtt_smooth r m)) = max 1 (unat m div 2)"
    by (simp only: unat_floor_1) (simp add: unat_div)
qed

lemma update_sample_abs:
  assumes "rtt_small b r" "unat m \<le> b" "b \<le> 2 ^ 28"
  shows "rtt_abs (rel4u_rtt_update_sample r m) = Some (jk_update (rtt_abs r) (unat m))"
  using rtt_smooth_first [of r m] rtt_smooth_next [OF _ assms]
  by (cases "has_sample r") (simp_all add: rtt_abs_def jk_update_def)

lemma jk_update_small:
  assumes "\<And>s v. st = Some (s, v) \<Longrightarrow> s \<le> b \<and> v \<le> b" "m \<le> b" "1 \<le> b"
  shows "fst (jk_update st m) \<le> b" "snd (jk_update st m) \<le> b"
  using assms by (auto simp: jk_update_def split: option.splits)

lemma update_sample_small:
  assumes "rtt_small b r" "unat m \<le> b" "1 \<le> b" "b \<le> 2 ^ 28"
  shows "rtt_small b (rel4u_rtt_update_sample r m)"
proof -
  have "fst (jk_update (rtt_abs r) (unat m)) \<le> b" "snd (jk_update (rtt_abs r) (unat m)) \<le> b"
    using assms by (intro jk_update_small; auto simp: rtt_abs_def rtt_small_def split: if_splits)+
  moreover have "jk_update (rtt_abs r) (unat m) =
      (unat (srtt_ms (rel4u_rtt_update_sample r m)), unat (rttvar_ms (rel4u_rtt_update_sample r m)))"
    using update_sample_abs [OF assms(1,2,4)] by (simp add: rtt_abs_def)
  ultimately show ?thesis by (simp add: rtt_small_def)
qed

lemma update_sample_rto:
  assumes "rtt_inv r" "rtt_small b r" "unat m \<le> b" "1 \<le> b" "b \<le> 2 ^ 28"
  shows "unat (rto_ms (rel4u_rtt_update_sample r m)) =
     jk_rto (unat (min_rto_ms r)) (unat (max_rto_ms r)) (jk_update (rtt_abs r) (unat m))"
proof -
  let ?r = "rtt_smooth r m"
  have small: "unat (srtt_ms ?r) \<le> b" "unat (rttvar_ms ?r) \<le> b"
    using update_sample_small [OF assms(2-5)] by (simp_all add: rtt_small_def)
  have var: "1 \<le> unat (rttvar_ms ?r)"
    using rtt_smooth_first [of r m] rtt_smooth_next [OF _ assms(2,3,5)]
    by (cases "has_sample r") simp_all
  have 4: "unat (4 * rttvar_ms ?r) = 4 * unat (rttvar_ms ?r)"
    using small assms(5) by (subst unat_small_mult) simp_all
  then have k: "(if 4 * rttvar_ms ?r < 1 then 1 else 4 * rttvar_ms ?r) = 4 * rttvar_ms ?r"
    using var by (auto simp: word_less_nat_alt)
  have sum: "unat (srtt_ms ?r + 4 * rttvar_ms ?r) = unat (srtt_ms ?r) + 4 * unat (rttvar_ms ?r)"
    using small assms(5) 4 by (subst unat_small_add) simp_all
  have "rto_ms (rel4u_rtt_update_sample r m) = rto_ms (clamp_rto (?r\<lparr>rto_ms := srtt_ms ?r +
      (if 4 * rttvar_ms ?r < 1 then 1 else 4 * rttvar_ms ?r)\<rparr>))"
    by (simp only: rel4u_rtt_update_sample_def Let_def)
  also have "\<dots> = max (min_rto_ms r) (min (max_rto_ms r) (srtt_ms ?r + 4 * rttvar_ms ?r))"
    unfolding k using assms(1) by (subst clamp_rto_value) (auto simp: rtt_inv_def)
  finally have "unat (rto_ms (rel4u_rtt_update_sample r m)) = max (unat (min_rto_ms r))
      (min (unat (max_rto_ms r)) (unat (srtt_ms ?r) + 4 * unat (rttvar_ms ?r)))"
    by (simp add: max_def min_def word_le_nat_alt sum)
  moreover have "jk_update (rtt_abs r) (unat m) = (unat (srtt_ms ?r), unat (rttvar_ms ?r))"
    using update_sample_abs [OF assms(2,3,5)] by (simp add: rtt_abs_def)
  ultimately show ?thesis by (simp add: jk_rto_def)
qed

subsection \<open>Properties\<close>

fun samples_of :: "rtt_event list \<Rightarrow> nat list" where
  "samples_of [] = []"
| "samples_of (Sample m # es) = unat m # samples_of es"
| "samples_of (Timeout # es) = samples_of es"

definition jk_run :: "(nat \<times> nat) option \<Rightarrow> nat list \<Rightarrow> (nat \<times> nat) option" where
  "jk_run = foldl (\<lambda>st m. Some (jk_update st m))"

lemma on_timeout_abs [simp]: "rtt_abs (rel4u_rtt_on_timeout r) = rtt_abs r"
  by (simp add: rtt_abs_def)

lemma on_timeout_small [simp]: "rtt_small b (rel4u_rtt_on_timeout r) = rtt_small b r"
  by (simp add: rtt_small_def)

lemma rtt_run_small:
  assumes "rtt_small b r" "list_all (\<lambda>m. m \<le> b) (samples_of es)" "1 \<le> b" "b \<le> 2 ^ 28"
  shows "rtt_small b (rtt_run r es) \<and> rtt_abs (rtt_run r es) = jk_run (rtt_abs r) (samples_of es)"
  using assms
proof (induction es arbitrary: r rule: samples_of.induct)
  case (2 m es)
  then show ?case
    by (simp add: rtt_run_def jk_run_def update_sample_small update_sample_abs)
qed (simp_all add: rtt_run_def jk_run_def)

text \<open>
  For any configured range with \<open>0 < lo \<le> hi < 2 ^ 31\<close>, the retransmission timeout
  returned by \<open>rel4u_rtt_get_rto\<close> stays between \<open>lo\<close> and \<open>hi\<close> after any sequence of RTT
  samples (of any size) and timeouts.
\<close>

theorem rtt_rto_in_range:
  assumes "0 < lo" "lo \<le> hi" "unat hi < 2 ^ 31"
  shows "lo \<le> rel4u_rtt_get_rto (Some (rtt_run (rel4u_rtt_init i lo hi) es)) \<and>
         rel4u_rtt_get_rto (Some (rtt_run (rel4u_rtt_init i lo hi) es)) \<le> hi"
proof -
  have range: "min_rto_ms (rel4u_rtt_init i lo hi) = lo" "max_rto_ms (rel4u_rtt_init i lo hi) = hi"
    using assms by (auto simp: rel4u_rtt_init_def Let_def)
  then have "rtt_inv (rtt_run (rel4u_rtt_init i lo hi) es)"
    using assms by (intro rtt_run_inv rtt_init_inv) simp_all
  then show ?thesis
    by (simp add: rtt_inv_def rel4u_rtt_get_rto_def range)
qed

theorem rtt_rto_in_range_witness:
  "20 \<le> rel4u_rtt_get_rto (Some (rtt_run (rel4u_rtt_init 200 20 2000) [Sample 50, Timeout, Sample 4000000000])) \<and>
   rel4u_rtt_get_rto (Some (rtt_run (rel4u_rtt_init 200 20 2000) [Sample 50, Timeout, Sample 4000000000])) \<le> 2000"
  using rtt_rto_in_range [of 20 2000 200 "[Sample 50, Timeout, Sample 4000000000]"] by simp

text \<open>
  C29. The estimator refines the Jacobson-Karels algorithm on unbounded integers: if every
  sample is at most \<open>b \<le> 2 ^ 28\<close> ms, the smoothed RTT and the variation are those of the
  reference recurrence, no 32-bit operation wraps, and after a sample the timeout is the
  clamped \<open>SRTT + 4 * RTTVAR\<close> of the reference, whatever timeouts came between.
\<close>

theorem rtt_refines_jacobson_karels:
  assumes "list_all (\<lambda>m. m \<le> b) (samples_of (es @ [Sample m]))" "1 \<le> b" "b \<le> 2 ^ 28"
  shows "rtt_abs (rtt_run default_rtt (es @ [Sample m])) =
           jk_run None (samples_of (es @ [Sample m])) \<and>
         unat (rto_ms (rtt_run default_rtt (es @ [Sample m]))) =
           jk_rto 20 2000 (the (jk_run None (samples_of (es @ [Sample m]))))"
proof -
  have split: "samples_of (es @ [Sample m]) = samples_of es @ [unat m]"
    by (induction es rule: samples_of.induct) simp_all
  have start: "rtt_small b default_rtt" "rtt_abs default_rtt = None"
    unfolding default_rtt_values by (simp_all add: rtt_small_def rtt_abs_def)
  have small: "rtt_small b (rtt_run default_rtt es)"
      and abs: "rtt_abs (rtt_run default_rtt es) = jk_run None (samples_of es)"
    using rtt_run_small [OF start(1), of es] start(2) assms by (simp_all add: split)
  have m: "unat m \<le> b" using assms(1) by (simp add: split)
  have run: "rtt_run default_rtt (es @ [Sample m]) =
      rel4u_rtt_update_sample (rtt_run default_rtt es) m"
    by (simp add: rtt_run_def)
  have jk: "jk_run None (samples_of (es @ [Sample m])) =
      Some (jk_update (rtt_abs (rtt_run default_rtt es)) (unat m))"
    unfolding split abs by (simp add: jk_run_def)
  have lo: "min_rto_ms default_rtt = 20" "max_rto_ms default_rtt = 2000"
    unfolding default_rtt_values by simp_all
  show ?thesis
    using update_sample_abs [OF small m assms(3)]
      update_sample_rto [OF rtt_run_inv [OF default_rtt_inv] small m assms(2,3)]
    unfolding run jk rtt_run_range lo by simp
qed

theorem rtt_refines_jacobson_karels_witness:
  "rtt_abs (rtt_run default_rtt ([Sample 50, Timeout, Sample 50] @ [Sample 90])) = Some (55, 23) \<and>
   rto_ms (rtt_run default_rtt ([Sample 50, Timeout, Sample 50] @ [Sample 90])) = 147"
proof -
  have h: "list_all (\<lambda>m. m \<le> 100) (samples_of ([Sample 50, Timeout, Sample 50] @ [Sample 90]))"
    by simp
  show ?thesis
    using rtt_refines_jacobson_karels [OF h]
    by (simp add: jk_run_def jk_update_def jk_rto_def word_unat_eq_iff)
qed

text \<open>
  Exponential backoff: \<open>n\<close> consecutive timeouts turn a timeout \<open>rto\<close> into
  \<open>min max_rto (2 ^ n * rto)\<close>; the doubling never wraps around.
\<close>

theorem rtt_backoff:
  assumes "rtt_inv r"
  shows "unat (rto_ms (rtt_run r (replicate n Timeout))) =
           min (unat (max_rto_ms r)) (2 ^ n * unat (rto_ms r))"
  using assms
proof (induction n arbitrary: r)
  case 0
  then show ?case by (simp add: rtt_run_def rtt_inv_def word_le_nat_alt)
next
  case (Suc n)
  have "rtt_run r (replicate (Suc n) Timeout) =
      rtt_run (rel4u_rtt_on_timeout r) (replicate n Timeout)"
    by (simp add: rtt_run_def)
  moreover have "min M (2 ^ n * min M (2 * x)) = min M (2 ^ Suc n * x)" for M x :: nat
    by (simp add: min_def) (metis le_trans mult_le_mono2 nat_mult_1 one_le_numeral one_le_power mult_le_mono1 nat_le_linear mult.assoc mult.commute)
  ultimately show ?case
    using Suc.IH [OF on_timeout_inv [OF Suc.prems]] on_timeout_value [OF Suc.prems] by simp
qed

theorem rtt_backoff_witness:
  "rto_ms (rtt_run default_rtt (replicate 4 Timeout)) = 2000"
  using rtt_backoff [OF default_rtt_inv, of 4] unfolding default_rtt_values
  by (simp add: word_unat_eq_iff)

end
