(* ===== verification/Send_Window.thy ===== *)
theory Send_Window
  imports Seq Rtt Mpmc
begin

text \<open>
  The send window, the first half of \<open>src/core/rel4u_window.c\<close>.

  \<^item> The window and its slots are the C structs. A slot table that was never allocated or was
    freed is the empty list, and every access to a slot is checked: \<open>None\<close> is an access
    outside the table, or a \<open>memcpy\<close> that leaves an array. That the operations never return
    \<open>None\<close> on a well-formed window is part of what is proved.
  \<^item> \<open>calloc_ok\<close> says whether the allocation of the table succeeds. \<open>rtt\<close> and \<open>stats\<close> of
    \<open>rel4u_send_window_on_ack\<close> may be NULL and are options; the sequence number an operation
    stores through \<open>out_seq\<close> is returned, \<open>None\<close> if it stores none; the slot pointers of
    \<open>rel4u_send_window_get_expired\<close> are slot indices.
\<close>

subsection \<open>Data\<close>

record rel4u_send_slot =
  ss_seq_num :: u32
  ss_first_sent_time_ns :: u64
  ss_last_sent_time_ns :: u64
  ss_payload_len :: u16
  ss_retransmit_count :: u8
  ss_delivery_mode :: u8
  ss_in_use :: bool
  ss_acked :: bool
  ss_payload :: "u8 list"

record rel4u_send_window =
  sw_slots :: "rel4u_send_slot list"
  sw_capacity :: u32
  sw_head_seq :: u32
  sw_next_seq :: u32
  sw_next_unrel_seq :: u32
  sw_in_flight :: u32

definition zero_payload :: "u8 list" where
  "zero_payload = replicate REL4U_MAX_PAYLOAD_SIZE 0"

definition zero_send_slot :: rel4u_send_slot where
  "zero_send_slot =
     \<lparr>ss_seq_num = 0, ss_first_sent_time_ns = 0, ss_last_sent_time_ns = 0, ss_payload_len = 0,
      ss_retransmit_count = 0, ss_delivery_mode = 0, ss_in_use = False, ss_acked = False,
      ss_payload = zero_payload\<rparr>"

definition zero_send_window :: rel4u_send_window where
  "zero_send_window =
     \<lparr>sw_slots = [], sw_capacity = 0, sw_head_seq = 0, sw_next_seq = 0, sw_next_unrel_seq = 0,
      sw_in_flight = 0\<rparr>"

subsection \<open>Operations\<close>

definition rel4u_send_window_init ::
  "bool \<Rightarrow> rel4u_send_window \<Rightarrow> u32 \<Rightarrow> u32 \<Rightarrow> int \<times> rel4u_send_window" where
  "rel4u_send_window_init calloc_ok win capacity initial_seq =
     (if capacity < 2 \<or> capacity AND (capacity - 1) \<noteq> 0 then (-1, win)
      else if \<not> calloc_ok then (-1, win\<lparr>sw_slots := []\<rparr>)
      else
        (0, win\<lparr>sw_slots := replicate (unat capacity) zero_send_slot, sw_capacity := capacity,
                sw_head_seq := initial_seq, sw_next_seq := initial_seq,
                sw_next_unrel_seq := initial_seq, sw_in_flight := 0\<rparr>))"

definition rel4u_send_window_destroy :: "rel4u_send_window \<Rightarrow> rel4u_send_window" where
  "rel4u_send_window_destroy win = win\<lparr>sw_slots := [], sw_capacity := 0, sw_in_flight := 0\<rparr>"

definition rel4u_send_window_can_send :: "rel4u_send_window \<Rightarrow> bool" where
  "rel4u_send_window_can_send win \<longleftrightarrow>
     sw_in_flight win < sw_capacity win \<and>
     rel4u_seq_diff (sw_next_seq win) (sw_head_seq win) < sint (sw_capacity win)"

definition rel4u_send_window_push ::
  "rel4u_send_window \<Rightarrow> u8 \<Rightarrow> u8 list option \<Rightarrow> size_t \<Rightarrow> u64 \<Rightarrow>
   (int \<times> rel4u_send_window \<times> u32 option) option" where
  "rel4u_send_window_push win mode data len now_ns =
     (case data of
        None \<Rightarrow> Some (-1, win, None)
      | Some bytes \<Rightarrow>
          if unat len > REL4U_MAX_PAYLOAD_SIZE then Some (-1, win, None)
          else if mode = REL4U_MODE_RELIABLE_ORDERED \<or> mode = REL4U_MODE_RELIABLE_UNORDERED then
            if sw_in_flight win \<ge> sw_capacity win \<or>
               rel4u_seq_diff (sw_next_seq win) (sw_head_seq win) \<ge> sint (sw_capacity win)
            then Some (-2, win, None)
            else
              (let seq = sw_next_seq win;
                   slot_idx = slot_of (sw_capacity win) seq
               in case deref (sw_slots win) slot_idx of
                    None \<Rightarrow> None
                  | Some slot \<Rightarrow>
                      (case memcpy (ss_payload slot) bytes (unat len) of
                         None \<Rightarrow> None
                       | Some payload \<Rightarrow>
                           Some (0,
                             win\<lparr>sw_next_seq := sw_next_seq win + 1,
                                 sw_slots := (sw_slots win)[slot_idx :=
                                   slot\<lparr>ss_seq_num := seq, ss_first_sent_time_ns := now_ns,
                                        ss_last_sent_time_ns := now_ns, ss_payload_len := ucast len,
                                        ss_retransmit_count := 0, ss_delivery_mode := mode,
                                        ss_in_use := True, ss_acked := False,
                                        ss_payload := payload\<rparr>],
                                 sw_in_flight := sw_in_flight win + 1\<rparr>,
                             Some seq)))
          else
            Some (0, win\<lparr>sw_next_unrel_seq := sw_next_unrel_seq win + 1\<rparr>,
                  Some (sw_next_unrel_seq win)))"

text \<open>
  The bookkeeping of a slot that is acknowledged for the first time, the same code in the
  cumulative and the selective part: the flight counter, and a round-trip sample unless the
  slot was retransmitted.
\<close>

definition ack_sample ::
  "u64 \<Rightarrow> rel4u_send_slot \<Rightarrow> rel4u_rtt option \<times> rel4u_stats option \<Rightarrow>
   rel4u_rtt option \<times> rel4u_stats option" where
  "ack_sample now_ns slot = (\<lambda>(rtt, stats).
     (case rtt of
        None \<Rightarrow> (None, stats)
      | Some r \<Rightarrow>
          if ss_retransmit_count slot = 0 \<and> now_ns \<ge> ss_first_sent_time_ns slot then
            (let rtt_sample_ns = now_ns - ss_first_sent_time_ns slot;
                 rtt_sample_ms = ucast (rtt_sample_ns div 1000000);
                 r' = rel4u_rtt_update_sample r rtt_sample_ms
             in (Some r',
                 map_option (\<lambda>s. s\<lparr>current_rtt_ms := srtt_ms r', current_rto_ms := rto_ms r'\<rparr>) stats))
          else (Some r, stats)))"

definition flight_dec :: "rel4u_send_window \<Rightarrow> rel4u_send_window" where
  "flight_dec win =
     (if sw_in_flight win > 0 then win\<lparr>sw_in_flight := sw_in_flight win - 1\<rparr> else win)"

lemma flight_dec_fields [simp]:
  "sw_slots (flight_dec w) = sw_slots w" "sw_capacity (flight_dec w) = sw_capacity w"
  "sw_head_seq (flight_dec w) = sw_head_seq w" "sw_next_seq (flight_dec w) = sw_next_seq w"
  "sw_next_unrel_seq (flight_dec w) = sw_next_unrel_seq w"
  by (simp_all add: flight_dec_def)

function cumulative_ack ::
  "u32 \<Rightarrow> u64 \<Rightarrow> rel4u_send_window \<Rightarrow> rel4u_rtt option \<times> rel4u_stats option \<Rightarrow>
   (rel4u_send_window \<times> rel4u_rtt option \<times> rel4u_stats option) option" where
  "cumulative_ack ack_num now_ns win rs =
     (if rel4u_seq_lte (sw_head_seq win) ack_num \<and> sw_head_seq win \<noteq> sw_next_seq win then
        (let slot_idx = slot_of (sw_capacity win) (sw_head_seq win)
         in case deref (sw_slots win) slot_idx of
              None \<Rightarrow> None
            | Some slot \<Rightarrow>
                if ss_in_use slot \<and> ss_seq_num slot = sw_head_seq win then
                  if \<not> ss_acked slot then
                    cumulative_ack ack_num now_ns
                      ((flight_dec win)
                         \<lparr>sw_slots := (sw_slots win)[slot_idx := slot\<lparr>ss_acked := True, ss_in_use := False\<rparr>],
                          sw_head_seq := sw_head_seq win + 1\<rparr>)
                      (ack_sample now_ns slot rs)
                  else
                    cumulative_ack ack_num now_ns
                      (win\<lparr>sw_slots := (sw_slots win)[slot_idx := slot\<lparr>ss_in_use := False\<rparr>],
                           sw_head_seq := sw_head_seq win + 1\<rparr>) rs
                else cumulative_ack ack_num now_ns (win\<lparr>sw_head_seq := sw_head_seq win + 1\<rparr>) rs)
      else Some (win, rs))"
  by pat_completeness auto

lemma seq_distance_decreases:
  fixes x y :: u32
  assumes "x \<noteq> y"
  shows "unat (y - (x + 1)) < unat (y - x)"
  using assms unat_u32_pred [of y x] by (simp add: unat_gt_0)

termination cumulative_ack
  by (relation "measure (\<lambda>(ack, now, win, rs). unat (sw_next_seq win - sw_head_seq win))")
    (auto intro: seq_distance_decreases)

declare cumulative_ack.simps [simp del]

definition sack_one ::
  "u32 \<Rightarrow> u32 \<Rightarrow> u64 \<Rightarrow> nat \<Rightarrow> rel4u_send_window \<times> rel4u_rtt option \<times> rel4u_stats option \<Rightarrow>
   (rel4u_send_window \<times> rel4u_rtt option \<times> rel4u_stats option) option" where
  "sack_one ack_num sack_mask now_ns i = (\<lambda>(win, rs).
     (let sack_seq = ack_num + 1 + of_nat i
      in if bit sack_mask i \<and> rel4u_seq_lt sack_seq (sw_next_seq win) \<and>
            rel4u_seq_gte sack_seq (sw_head_seq win) then
           (let slot_idx = slot_of (sw_capacity win) sack_seq
            in case deref (sw_slots win) slot_idx of
                 None \<Rightarrow> None
               | Some slot \<Rightarrow>
                   if ss_in_use slot \<and> ss_seq_num slot = sack_seq \<and> \<not> ss_acked slot then
                     Some ((flight_dec win)\<lparr>sw_slots := (sw_slots win)[slot_idx := slot\<lparr>ss_acked := True\<rparr>]\<rparr>,
                           ack_sample now_ns slot rs)
                   else Some (win, rs))
         else Some (win, rs)))"

fun sack_loop ::
  "u32 \<Rightarrow> u32 \<Rightarrow> u64 \<Rightarrow> nat list \<Rightarrow> rel4u_send_window \<times> rel4u_rtt option \<times> rel4u_stats option \<Rightarrow>
   (rel4u_send_window \<times> rel4u_rtt option \<times> rel4u_stats option) option" where
  "sack_loop ack_num sack_mask now_ns [] st = Some st"
| "sack_loop ack_num sack_mask now_ns (i # is) st =
     Option.bind (sack_one ack_num sack_mask now_ns i st) (sack_loop ack_num sack_mask now_ns is)"

definition rel4u_send_window_on_ack ::
  "rel4u_send_window \<Rightarrow> u32 \<Rightarrow> u32 \<Rightarrow> u64 \<Rightarrow> rel4u_rtt option \<Rightarrow> rel4u_stats option \<Rightarrow>
   (rel4u_send_window \<times> rel4u_rtt option \<times> rel4u_stats option) option" where
  "rel4u_send_window_on_ack win ack_num sack_mask now_ns rtt stats =
     Option.bind (cumulative_ack ack_num now_ns win (rtt, stats))
       (\<lambda>st. if sack_mask \<noteq> 0 then sack_loop ack_num sack_mask now_ns [0..<32] st else Some st)"

function expired_loop ::
  "rel4u_send_window \<Rightarrow> u64 \<Rightarrow> u64 \<Rightarrow> nat \<Rightarrow> u32 \<Rightarrow> nat list \<Rightarrow> nat list option" where
  "expired_loop win now_ns rto_ns max_slots seq out =
     (if rel4u_seq_lt seq (sw_next_seq win) then
        (let slot_idx = slot_of (sw_capacity win) seq
         in case deref (sw_slots win) slot_idx of
              None \<Rightarrow> None
            | Some slot \<Rightarrow>
                if ss_in_use slot \<and> ss_seq_num slot = seq \<and> \<not> ss_acked slot \<and>
                   now_ns \<ge> ss_last_sent_time_ns slot \<and> now_ns - ss_last_sent_time_ns slot \<ge> rto_ns then
                  if length out + 1 \<ge> max_slots then Some (out @ [slot_idx])
                  else expired_loop win now_ns rto_ns max_slots (seq + 1) (out @ [slot_idx])
                else expired_loop win now_ns rto_ns max_slots (seq + 1) out)
      else Some out)"
  by pat_completeness auto

termination expired_loop
  by (relation "measure (\<lambda>(win, now, rto, mx, seq, out). unat (sw_next_seq win - seq))")
    (auto intro!: seq_distance_decreases simp: rel4u_seq_lt_def)

declare expired_loop.simps [simp del]

definition rel4u_send_window_get_expired ::
  "rel4u_send_window \<Rightarrow> u64 \<Rightarrow> u32 \<Rightarrow> size_t \<Rightarrow> nat list option" where
  "rel4u_send_window_get_expired win now_ns rto max_slots =
     (if max_slots = 0 then Some []
      else expired_loop win now_ns (ucast rto * 1000000) (unat max_slots) (sw_head_seq win) [])"

definition rel4u_send_window_reset ::
  "rel4u_send_window \<Rightarrow> u32 \<Rightarrow> int \<times> rel4u_send_window" where
  "rel4u_send_window_reset win initial_seq =
     (if sw_slots win = [] \<or> sw_capacity win = 0 then (-1, win)
      else
        (0, win\<lparr>sw_slots := replicate (unat (sw_capacity win)) zero_send_slot,
                sw_head_seq := initial_seq, sw_next_seq := initial_seq,
                sw_next_unrel_seq := initial_seq, sw_in_flight := 0\<rparr>))"

text \<open>
  Reclaiming walks from the newest sequence number down to the head, so that pushing at the
  front of the queue restores the order. The allocator is the queue's.
\<close>

definition slot_item :: "rel4u_send_slot \<Rightarrow> rel4u_mpmc_item option" where
  "slot_item slot =
     map_option
       (\<lambda>data. \<lparr>it_client_id = 0, it_mode = ss_delivery_mode slot, it_len = ss_payload_len slot,
                it_data = data\<rparr>)
       (memcpy zero_payload (ss_payload slot) (unat (ss_payload_len slot)))"

function reclaim_loop ::
  "allocator \<Rightarrow> rel4u_send_window \<Rightarrow> u32 \<Rightarrow> rel4u_mpmc_queue \<Rightarrow> nat \<Rightarrow> (nat \<times> rel4u_mpmc_queue) option" where
  "reclaim_loop alloc win seq queue reclaimed =
     (if rel4u_seq_gt seq (sw_head_seq win) then
        (case deref (sw_slots win) (slot_of (sw_capacity win) (seq - 1)) of
              None \<Rightarrow> None
            | Some slot \<Rightarrow>
                if ss_in_use slot \<and> ss_seq_num slot = seq - 1 \<and> \<not> ss_acked slot \<and>
                   (ss_delivery_mode slot = REL4U_MODE_RELIABLE_ORDERED \<or>
                    ss_delivery_mode slot = REL4U_MODE_RELIABLE_UNORDERED) then
                  (case slot_item slot of
                     None \<Rightarrow> None
                   | Some item \<Rightarrow>
                       (let r = rel4u_mpmc_push_front alloc queue (Some item)
                        in reclaim_loop alloc win (seq - 1) (snd r) (if fst r then reclaimed + 1 else reclaimed)))
                else reclaim_loop alloc win (seq - 1) queue reclaimed)
      else Some (reclaimed, queue))"
  by pat_completeness auto

lemma seq_distance_pred:
  fixes x y :: u32
  assumes "x \<noteq> y"
  shows "unat (x - 1 - y) < unat (x - y)"
proof -
  have "x - 1 - y = x - (y + 1)" by simp
  with unat_u32_pred [OF assms] assms show ?thesis by (simp only:) (simp add: unat_gt_0)
qed

termination reclaim_loop
  by (relation "measure (\<lambda>(alloc, win, seq, queue, n). unat (seq - sw_head_seq win))")
    (auto intro!: seq_distance_pred simp: rel4u_seq_gt_def)

declare reclaim_loop.simps [simp del]

definition rel4u_send_window_reclaim_unacked ::
  "allocator \<Rightarrow> rel4u_send_window \<Rightarrow> rel4u_mpmc_queue option \<Rightarrow> (nat \<times> rel4u_mpmc_queue option) option" where
  "rel4u_send_window_reclaim_unacked alloc win queue =
     (case queue of
        None \<Rightarrow> Some (0, None)
      | Some q \<Rightarrow>
          if sw_slots win = [] then Some (0, Some q)
          else if rel4u_seq_gt (sw_next_seq win) (sw_head_seq win) then
            map_option (map_prod id Some) (reclaim_loop alloc win (sw_next_seq win) q 0)
          else Some (0, Some q))"

end
