(* ===== verification/Packet.thy ===== *)
theory Packet
  imports Rel4u_API
begin

unbundle bit_operations_syntax

text \<open>
  The wire header, \<open>src/core/rel4u_packet.h\<close> and \<open>src/core/rel4u_packet.c\<close>.

  \<open>htons\<close>/\<open>htonl\<close> followed by \<open>memcpy\<close> writes a word most significant byte first on every
  host, and \<open>memcpy\<close> followed by \<open>ntohs\<close>/\<open>ntohl\<close> reads it back: \<open>be16\<close>, \<open>be32\<close> and
  \<open>rd16\<close>, \<open>rd32\<close> are those pairs. A pointer the code tests for NULL is an option. The
  lemmas show that encoding and decoding are inverse in both directions, which return
  code each malformed input gets, and that an accepted header never announces more
  payload than the datagram holds.
\<close>

definition REL4U_MAGIC :: u16 where [simp]: "REL4U_MAGIC = 0x3455"
definition REL4U_VERSION :: u8 where [simp]: "REL4U_VERSION = 1"
definition REL4U_HEADER_LEN :: nat where [simp]: "REL4U_HEADER_LEN = 24"

definition REL4U_PKT_CONNECT_REQ :: u8 where [simp]: "REL4U_PKT_CONNECT_REQ = 0x01"
definition REL4U_PKT_CONNECT_RESP :: u8 where [simp]: "REL4U_PKT_CONNECT_RESP = 0x02"
definition REL4U_PKT_CONNECT_ACK :: u8 where [simp]: "REL4U_PKT_CONNECT_ACK = 0x03"
definition REL4U_PKT_DATA :: u8 where [simp]: "REL4U_PKT_DATA = 0x04"
definition REL4U_PKT_ACK :: u8 where [simp]: "REL4U_PKT_ACK = 0x05"
definition REL4U_PKT_HEARTBEAT :: u8 where [simp]: "REL4U_PKT_HEARTBEAT = 0x06"
definition REL4U_PKT_HEARTBEAT_ACK :: u8 where [simp]: "REL4U_PKT_HEARTBEAT_ACK = 0x07"
definition REL4U_PKT_DISCONNECT :: u8 where [simp]: "REL4U_PKT_DISCONNECT = 0x08"
definition REL4U_PKT_REJECT :: u8 where [simp]: "REL4U_PKT_REJECT = 0x09"
definition REL4U_PKT_RESET :: u8 where [simp]: "REL4U_PKT_RESET = 0x0A"

record rel4u_header =
  magic :: u16
  version :: u8
  packet_type :: u8
  delivery_mode :: u8
  flags :: u8
  payload_len :: u16
  session_id :: u32
  seq_num :: u32
  ack_num :: u32
  sack_mask :: u32

text \<open>\<open>memset(&hdr, 0, sizeof(hdr))\<close>\<close>

definition zero_header :: rel4u_header where
  "zero_header =
     \<lparr>magic = 0, version = 0, packet_type = 0, delivery_mode = 0, flags = 0, payload_len = 0,
      session_id = 0, seq_num = 0, ack_num = 0, sack_mask = 0\<rparr>"

subsection \<open>Network byte order\<close>

definition be16 :: "u16 \<Rightarrow> u8 list" where
  "be16 x = [ucast (drop_bit 8 x), ucast x]"

definition be32 :: "u32 \<Rightarrow> u8 list" where
  "be32 x = [ucast (drop_bit 24 x), ucast (drop_bit 16 x), ucast (drop_bit 8 x), ucast x]"

definition rd16 :: "u8 list \<Rightarrow> nat \<Rightarrow> u16" where
  "rd16 bs i = push_bit 8 (ucast (bs ! i)) OR ucast (bs ! (i + 1))"

definition rd32 :: "u8 list \<Rightarrow> nat \<Rightarrow> u32" where
  "rd32 bs i =
     push_bit 24 (ucast (bs ! i)) OR push_bit 16 (ucast (bs ! (i + 1))) OR
     push_bit 8 (ucast (bs ! (i + 2))) OR ucast (bs ! (i + 3))"

lemma length_be [simp]: "length (be16 x) = 2" "length (be32 y) = 4"
  by (simp_all add: be16_def be32_def)

lemma join16: "push_bit 8 (ucast (ucast (drop_bit 8 x) :: u8)) OR ucast (ucast x :: u8) = (x :: u16)"
  by (rule bit_word_eqI) (auto simp: bit_simps)

lemma split16:
  "ucast (drop_bit 8 (push_bit 8 (ucast a) OR ucast b :: u16)) = (a :: u8)"
  "ucast (push_bit 8 (ucast a) OR ucast b :: u16) = (b :: u8)"
  by (rule bit_word_eqI; auto simp: bit_simps dest: bit_imp_le_length)+

lemma join32:
  "push_bit 24 (ucast (ucast (drop_bit 24 x) :: u8)) OR push_bit 16 (ucast (ucast (drop_bit 16 x) :: u8)) OR
   push_bit 8 (ucast (ucast (drop_bit 8 x) :: u8)) OR ucast (ucast x :: u8) = (x :: u32)" (is "?l = x")
proof (rule bit_word_eqI)
  fix n assume "n < LENGTH(32)"
  then consider "n < 8" | "8 \<le> n" "n < 16" | "16 \<le> n" "n < 24" | "24 \<le> n" "n < 32" by force
  then show "bit ?l n \<longleftrightarrow> bit x n"
    by cases (auto simp: bit_simps)
qed

lemma split32:
  "ucast (drop_bit 24 (push_bit 24 (ucast a) OR push_bit 16 (ucast b) OR push_bit 8 (ucast c) OR ucast d :: u32)) = (a :: u8)"
  "ucast (drop_bit 16 (push_bit 24 (ucast a) OR push_bit 16 (ucast b) OR push_bit 8 (ucast c) OR ucast d :: u32)) = (b :: u8)"
  "ucast (drop_bit 8 (push_bit 24 (ucast a) OR push_bit 16 (ucast b) OR push_bit 8 (ucast c) OR ucast d :: u32)) = (c :: u8)"
  "ucast (push_bit 24 (ucast a) OR push_bit 16 (ucast b) OR push_bit 8 (ucast c) OR ucast d :: u32) = (d :: u8)"
  by (rule bit_word_eqI; auto simp: bit_simps dest: bit_imp_le_length)+

lemma be16_rd16: "be16 (rd16 bs i) = [bs ! i, bs ! (i + 1)]"
  by (simp only: be16_def rd16_def split16)

lemma be32_rd32: "be32 (rd32 bs i) = [bs ! i, bs ! (i + 1), bs ! (i + 2), bs ! (i + 3)]"
  by (simp only: be32_def rd32_def split32)

lemma rd16_magic: "rd16 bs 0 = 0x3455 \<longleftrightarrow> bs ! 0 = 0x34 \<and> bs ! 1 = 0x55"
proof
  assume "rd16 bs 0 = 0x3455"
  then have "be16 (rd16 bs 0) = be16 0x3455" by simp
  then show "bs ! 0 = 0x34 \<and> bs ! 1 = 0x55"
    by (simp only: be16_rd16) (simp add: be16_def)
qed (simp add: rd16_def)

lemma unat_rd16: "unat (rd16 bs i) = 256 * unat (bs ! i) + unat (bs ! (i + 1))"
proof -
  have bound: "unat (bs ! i) < 256" "unat (bs ! (i + 1)) < 256"
    using unsigned_less [of "bs ! i", where 'a = nat] unsigned_less [of "bs ! (i + 1)", where 'a = nat]
    by simp_all
  have "rd16 bs i = push_bit 8 (ucast (bs ! i)) + ucast (bs ! (i + 1))"
    unfolding rd16_def
    by (rule disjunctive_add [symmetric]) (auto simp: bit_simps dest: bit_imp_le_length)
  also have "\<dots> = of_nat (256 * unat (bs ! i) + unat (bs ! (i + 1)))"
    by (simp add: push_bit_eq_mult mult.commute)
  finally show ?thesis
    using bound by (simp only:) (subst unat_of_nat, simp)
qed

subsection \<open>Encoding and decoding\<close>

definition rel4u_packet_encode_header ::
  "rel4u_header option \<Rightarrow> u8 list option \<Rightarrow> size_t \<Rightarrow> int \<times> u8 list option" where
  "rel4u_packet_encode_header hdr out_buf buf_size =
     (case (hdr, out_buf) of
        (Some h, Some buf) \<Rightarrow>
          if unat buf_size < REL4U_HEADER_LEN then (-1, out_buf)
          else
            (let buf = memcpy_at buf 0 (be16 (magic h));
                 buf = buf[2 := version h];
                 buf = buf[3 := packet_type h];
                 buf = buf[4 := delivery_mode h];
                 buf = buf[5 := flags h];
                 buf = memcpy_at buf 6 (be16 (payload_len h));
                 buf = memcpy_at buf 8 (be32 (session_id h));
                 buf = memcpy_at buf 12 (be32 (seq_num h));
                 buf = memcpy_at buf 16 (be32 (ack_num h));
                 buf = memcpy_at buf 20 (be32 (sack_mask h))
             in (int REL4U_HEADER_LEN, Some buf))
      | _ \<Rightarrow> (-1, out_buf))"

definition rel4u_packet_decode_header ::
  "u8 list option \<Rightarrow> size_t \<Rightarrow> rel4u_header option \<Rightarrow> int \<times> rel4u_header option" where
  "rel4u_packet_decode_header in_buf buf_len out_hdr =
     (case (in_buf, out_hdr) of
        (Some bs, Some h) \<Rightarrow>
          if unat buf_len < REL4U_HEADER_LEN then (-1, out_hdr)
          else
            (let h = h\<lparr>version := bs ! 2, packet_type := bs ! 3, delivery_mode := bs ! 4,
                       flags := bs ! 5\<rparr>;
                 h = h\<lparr>magic := rd16 bs 0, payload_len := rd16 bs 6, session_id := rd32 bs 8,
                       seq_num := rd32 bs 12, ack_num := rd32 bs 16, sack_mask := rd32 bs 20\<rparr>
             in if magic h \<noteq> REL4U_MAGIC then (-2, Some h)
                else if version h \<noteq> REL4U_VERSION then (-3, Some h)
                else if unat buf_len < REL4U_HEADER_LEN + unat (payload_len h) then (-4, Some h)
                else (0, Some h))
      | _ \<Rightarrow> (-1, out_hdr))"

text \<open>The byte layout of a header, as docs/protocol.md draws it.\<close>

definition header_bytes :: "rel4u_header \<Rightarrow> u8 list" where
  "header_bytes h =
     be16 (magic h) @ [version h, packet_type h, delivery_mode h, flags h] @
     be16 (payload_len h) @ be32 (session_id h) @ be32 (seq_num h) @ be32 (ack_num h) @
     be32 (sack_mask h)"

lemma length_header_bytes [simp]: "length (header_bytes h) = 24"
  by (simp add: header_bytes_def)

lemma explode24:
  assumes "24 \<le> length bs"
  obtains b0 b1 b2 b3 b4 b5 b6 b7 b8 b9 b10 b11 b12 b13 b14 b15 b16 b17 b18 b19 b20 b21 b22 b23 rest
  where "bs = b0 # b1 # b2 # b3 # b4 # b5 # b6 # b7 # b8 # b9 # b10 # b11 # b12 # b13 # b14 # b15 #
         b16 # b17 # b18 # b19 # b20 # b21 # b22 # b23 # rest"
proof -
  have "Suc (Suc (Suc (Suc (Suc (Suc (Suc (Suc (Suc (Suc (Suc (Suc (Suc (Suc (Suc (Suc
          (Suc (Suc (Suc (Suc (Suc (Suc (Suc (Suc 0))))))))))))))))))))))) \<le> length bs"
    using assms by simp
  then show ?thesis
    unfolding Suc_le_length_iff by (elim exE conjE) (rule that, simp)
qed

lemma encode_header_layout:
  assumes "24 \<le> unat buf_size" "24 \<le> length buf"
  shows "rel4u_packet_encode_header (Some h) (Some buf) buf_size =
           (24, Some (header_bytes h @ drop 24 buf))"
proof -
  obtain b0 b1 b2 b3 b4 b5 b6 b7 b8 b9 b10 b11 b12 b13 b14 b15 b16 b17 b18 b19 b20 b21 b22 b23 rest
    where buf: "buf = b0 # b1 # b2 # b3 # b4 # b5 # b6 # b7 # b8 # b9 # b10 # b11 # b12 # b13 #
      b14 # b15 # b16 # b17 # b18 # b19 # b20 # b21 # b22 # b23 # rest"
    using explode24 [OF assms(2)] .
  obtain m0 m1 where m: "be16 (magic h) = [m0, m1]" by (simp add: be16_def)
  obtain l0 l1 where l: "be16 (payload_len h) = [l0, l1]" by (simp add: be16_def)
  obtain s0 s1 s2 s3 where s: "be32 (session_id h) = [s0, s1, s2, s3]" by (simp add: be32_def)
  obtain q0 q1 q2 q3 where q: "be32 (seq_num h) = [q0, q1, q2, q3]" by (simp add: be32_def)
  obtain a0 a1 a2 a3 where a: "be32 (ack_num h) = [a0, a1, a2, a3]" by (simp add: be32_def)
  obtain k0 k1 k2 k3 where k: "be32 (sack_mask h) = [k0, k1, k2, k3]" by (simp add: be32_def)
  show ?thesis
    using assms(1) unfolding rel4u_packet_encode_header_def Let_def buf m l s q a k
    by (simp add: header_bytes_def memcpy_at_def m l s q a k)
qed

lemma decode_header_bytes:
  assumes "24 \<le> unat buf_len"
  shows "rel4u_packet_decode_header (Some (header_bytes h @ rest)) buf_len (Some g) =
           ((if magic h \<noteq> REL4U_MAGIC then -2
             else if version h \<noteq> REL4U_VERSION then -3
             else if unat buf_len < 24 + unat (payload_len h) then -4 else 0), Some h)"
  using assms
  by (simp add: rel4u_packet_decode_header_def header_bytes_def be16_def be32_def rd16_def rd32_def
      join16 join32 Let_def)

text \<open>Every buffer of 24 bytes is the layout of exactly one header.\<close>

definition parse_header :: "u8 list \<Rightarrow> rel4u_header" where
  "parse_header bs =
     \<lparr>magic = rd16 bs 0, version = bs ! 2, packet_type = bs ! 3, delivery_mode = bs ! 4,
      flags = bs ! 5, payload_len = rd16 bs 6, session_id = rd32 bs 8, seq_num = rd32 bs 12,
      ack_num = rd32 bs 16, sack_mask = rd32 bs 20\<rparr>"

lemma header_bytes_parse:
  assumes "24 \<le> length bs"
  shows "header_bytes (parse_header bs) = take 24 bs"
  by (rule explode24 [OF assms]) (simp add: header_bytes_def parse_header_def be16_rd16 be32_rd32)

lemma decode_header_parse:
  assumes "24 \<le> unat buf_len"
  shows "rel4u_packet_decode_header (Some bs) buf_len (Some g) =
           ((if magic (parse_header bs) \<noteq> REL4U_MAGIC then -2
             else if version (parse_header bs) \<noteq> REL4U_VERSION then -3
             else if unat buf_len < 24 + unat (payload_len (parse_header bs)) then -4 else 0),
            Some (parse_header bs))"
  using assms by (simp add: rel4u_packet_decode_header_def parse_header_def Let_def)

subsection \<open>Properties\<close>

text \<open>
  C27. Round trip: a header with the protocol's magic and version, encoded into any buffer of
  at least 24 bytes, is written to the first 24 bytes and nothing else of the buffer
  changes; followed by its payload, it is decoded to the same header with return code 0.
\<close>

theorem packet_roundtrip:
  assumes "magic h = REL4U_MAGIC" "version h = REL4U_VERSION" "length ps = unat (payload_len h)"
    and "24 \<le> unat buf_size" "24 \<le> length buf"
  shows "\<exists>buf'. rel4u_packet_encode_header (Some h) (Some buf) buf_size = (24, Some buf') \<and>
           length buf' = length buf \<and> drop 24 buf' = drop 24 buf \<and>
           rel4u_packet_decode_header (Some (take 24 buf' @ ps)) (of_nat (24 + length ps)) (Some g) =
             (0, Some h)"
proof (intro exI conjI)
  show "rel4u_packet_encode_header (Some h) (Some buf) buf_size =
      (24, Some (header_bytes h @ drop 24 buf))"
    using assms(4,5) by (rule encode_header_layout)
  show "length (header_bytes h @ drop 24 buf) = length buf"
    "drop 24 (header_bytes h @ drop 24 buf) = drop 24 buf"
    using assms(5) by simp_all
  have "unat (payload_len h) < 2 ^ 16"
    using unsigned_less [of "payload_len h", where 'a = nat] by simp
  then have "unat (of_nat (24 + length ps) :: size_t) = 24 + length ps"
    using assms(3) by (subst unat_of_nat) simp
  then show "rel4u_packet_decode_header (Some (take 24 (header_bytes h @ drop 24 buf) @ ps))
      (of_nat (24 + length ps)) (Some g) = (0, Some h)"
    using assms(1-3) by (simp add: decode_header_bytes del: of_nat_add)
qed

theorem packet_roundtrip_witness:
  "\<exists>buf'. rel4u_packet_encode_header
      (Some (zero_header\<lparr>magic := REL4U_MAGIC, version := REL4U_VERSION, payload_len := 2,
                         seq_num := 0xFFFFFFFE\<rparr>))
      (Some (replicate 30 7)) 30 = (24, Some buf') \<and>
    rel4u_packet_decode_header (Some (take 24 buf' @ [10, 20])) 26 (Some zero_header) =
      (0, Some (zero_header\<lparr>magic := REL4U_MAGIC, version := REL4U_VERSION, payload_len := 2,
                            seq_num := 0xFFFFFFFE\<rparr>))"
proof -
  let ?h = "zero_header\<lparr>magic := REL4U_MAGIC, version := REL4U_VERSION, payload_len := 2,
                         seq_num := 0xFFFFFFFE\<rparr>"
  have h: "magic ?h = REL4U_MAGIC" "version ?h = REL4U_VERSION"
    "length [10, 20 :: u8] = unat (payload_len ?h)"
    "24 \<le> unat (30 :: size_t)" "24 \<le> length (replicate 30 (7 :: u8))"
    by simp_all
  show ?thesis
    using packet_roundtrip [OF h, of zero_header] by auto
qed

text \<open>
  C28. Decoding succeeds with header \<open>h\<close> exactly when the datagram starts with the 24-byte
  layout of \<open>h\<close>, \<open>h\<close> has the protocol's magic and version, and the datagram holds at least
  the payload the header announces. A header is thus read from one byte sequence only.
\<close>

theorem packet_decode_accepts_iff:
  assumes "unat buf_len = length bs"
  shows "rel4u_packet_decode_header (Some bs) buf_len (Some g) = (0, Some h) \<longleftrightarrow>
     24 \<le> length bs \<and> take 24 bs = header_bytes h \<and> magic h = REL4U_MAGIC \<and>
     version h = REL4U_VERSION \<and> 24 + unat (payload_len h) \<le> length bs"
proof (cases "24 \<le> length bs")
  case True
  have "parse_header bs = h \<longleftrightarrow> take 24 bs = header_bytes h"
  proof
    assume "take 24 bs = header_bytes h"
    then have "bs = header_bytes h @ drop 24 bs"
      by (metis append_take_drop_id)
    then show "parse_header bs = h"
      using decode_header_bytes [of buf_len h "drop 24 bs" g] decode_header_parse [of buf_len bs g]
        assms True by auto
  qed (use True header_bytes_parse in auto)
  then show ?thesis
    using decode_header_parse [of buf_len bs g] assms True by auto
next
  case False
  then show ?thesis using assms by (simp add: rel4u_packet_decode_header_def)
qed

theorem packet_decode_accepts_iff_witness:
  "rel4u_packet_decode_header
     (Some (header_bytes (zero_header\<lparr>magic := REL4U_MAGIC, version := REL4U_VERSION, payload_len := 1\<rparr>) @ [9]))
     25 (Some zero_header) =
   (0, Some (zero_header\<lparr>magic := REL4U_MAGIC, version := REL4U_VERSION, payload_len := 1\<rparr>))"
proof -
  let ?h = "zero_header\<lparr>magic := REL4U_MAGIC, version := REL4U_VERSION, payload_len := 1\<rparr>"
  have "unat (25 :: size_t) = length (header_bytes ?h @ [9])" by simp
  from packet_decode_accepts_iff [OF this, of zero_header ?h] show ?thesis by simp
qed

text \<open>
  The return code of decoding, from the bytes alone, in the order the code tests them:
  -1 below 24 bytes, -2 for a wrong magic, -3 for a wrong version, -4 when fewer payload
  bytes follow than the big-endian length field says, and 0 otherwise.
\<close>

theorem packet_decode_return_code:
  assumes "unat buf_len = length bs"
  shows "fst (rel4u_packet_decode_header (Some bs) buf_len (Some g)) =
    (if length bs < 24 then -1
     else if bs ! 0 \<noteq> 0x34 \<or> bs ! 1 \<noteq> 0x55 then -2
     else if bs ! 2 \<noteq> 1 then -3
     else if length bs < 24 + (256 * unat (bs ! 6) + unat (bs ! 7)) then -4
     else 0)"
proof (cases "length bs < 24")
  case True
  then show ?thesis using assms by (simp add: rel4u_packet_decode_header_def)
next
  case False
  then show ?thesis
    using decode_header_parse [of buf_len bs g] assms
    by (simp add: parse_header_def rd16_magic unat_rd16)
qed

theorem packet_decode_return_code_witness:
  "fst (rel4u_packet_decode_header (Some (replicate 24 0x34)) 24 (Some zero_header)) = -2"
proof -
  have "unat (24 :: size_t) = length (replicate 24 (0x34 :: u8))" by simp
  from packet_decode_return_code [OF this, of zero_header] show ?thesis by simp
qed

end
