(* ===== verification/Recv_Window.thy ===== *)
theory Recv_Window
  imports Seq Packet
begin

text \<open>
  The receive window, the second half of \<open>src/core/rel4u_window.c\<close>.

  \<^item> As in the send window, slots are read and written with bounds checks and \<open>None\<close> is a memory
    fault: an access outside the slot table or the output array, or a \<open>memcpy\<close> that leaves its
    buffers.
  \<^item> The output array \<open>out_ready_slots\<close> is passed in and returned updated; the number stored
    through \<open>out_ready_count\<close> is returned as an option, \<open>None\<close> where the code stores none. The
    callers pass the addresses of their own header, array and counter, so only the payload
    pointer may be NULL.
\<close>

subsection \<open>Data\<close>

record rel4u_recv_slot =
  rs_seq_num :: u32
  rs_payload_len :: u16
  rs_delivery_mode :: u8
  rs_received :: bool
  rs_payload :: "u8 list"

record rel4u_recv_window =
  rw_slots :: "rel4u_recv_slot list"
  rw_capacity :: u32
  rw_expected_seq :: u32
  rw_highest_unrel_seq :: u32
  rw_has_highest_unrel :: bool

definition zero_recv_slot :: rel4u_recv_slot where
  "zero_recv_slot =
     \<lparr>rs_seq_num = 0, rs_payload_len = 0, rs_delivery_mode = 0, rs_received = False,
      rs_payload = replicate REL4U_MAX_PAYLOAD_SIZE 0\<rparr>"

definition zero_recv_window :: rel4u_recv_window where
  "zero_recv_window =
     \<lparr>rw_slots = [], rw_capacity = 0, rw_expected_seq = 0, rw_highest_unrel_seq = 0,
      rw_has_highest_unrel = False\<rparr>"

type_synonym recv_result = "int \<times> rel4u_recv_window \<times> rel4u_recv_slot list \<times> nat option"

subsection \<open>Operations\<close>

definition rel4u_recv_window_init ::
  "bool \<Rightarrow> rel4u_recv_window \<Rightarrow> u32 \<Rightarrow> u32 \<Rightarrow> int \<times> rel4u_recv_window" where
  "rel4u_recv_window_init calloc_ok win capacity initial_seq =
     (if capacity < 2 \<or> capacity AND (capacity - 1) \<noteq> 0 then (-1, win)
      else if \<not> calloc_ok then (-1, win\<lparr>rw_slots := []\<rparr>)
      else
        (0, win\<lparr>rw_slots := replicate (unat capacity) zero_recv_slot, rw_capacity := capacity,
                rw_expected_seq := initial_seq, rw_highest_unrel_seq := 0,
                rw_has_highest_unrel := False\<rparr>))"

definition rel4u_recv_window_destroy :: "rel4u_recv_window \<Rightarrow> rel4u_recv_window" where
  "rel4u_recv_window_destroy win = win\<lparr>rw_slots := [], rw_capacity := 0\<rparr>"

definition rel4u_recv_window_reset ::
  "rel4u_recv_window \<Rightarrow> u32 \<Rightarrow> int \<times> rel4u_recv_window" where
  "rel4u_recv_window_reset win initial_seq =
     (if rw_slots win = [] \<or> rw_capacity win = 0 then (-1, win)
      else
        (0, win\<lparr>rw_slots := replicate (unat (rw_capacity win)) zero_recv_slot,
                rw_expected_seq := initial_seq, rw_highest_unrel_seq := 0,
                rw_has_highest_unrel := False\<rparr>))"

text \<open>Clearing a received slot leaves fewer received ones; both drain loops end by that measure.\<close>

definition received_count :: "rel4u_recv_window \<Rightarrow> nat" where
  "received_count win = length (filter rs_received (rw_slots win))"

lemma received_count_clear:
  assumes "deref (rw_slots win) i = Some s" "rs_received s"
  shows "received_count (win\<lparr>rw_slots := (rw_slots win)[i := s\<lparr>rs_received := False\<rparr>], rw_expected_seq := e\<rparr>)
    < received_count win"
proof -
  have i: "i < length (rw_slots win)" "s = rw_slots win ! i" using assms(1) by auto
  let ?l = "take i (rw_slots win)" and ?r = "drop (Suc i) (rw_slots win)"
  have "received_count win = length (filter rs_received (?l @ rw_slots win ! i # ?r))"
    unfolding received_count_def using id_take_nth_drop [OF i(1)] by simp
  then show ?thesis
    using assms(2) i by (simp add: received_count_def upd_conv_take_nth_drop)
qed

function pop_ready_loop ::
  "rel4u_recv_window \<Rightarrow> rel4u_recv_slot list \<Rightarrow> nat \<Rightarrow> nat \<Rightarrow>
   (rel4u_recv_window \<times> rel4u_recv_slot list \<times> nat) option" where
  "pop_ready_loop win out max_ready ready_count =
     (if ready_count < max_ready then
        (let exp_idx = slot_of (rw_capacity win) (rw_expected_seq win)
         in case deref (rw_slots win) exp_idx of
              None \<Rightarrow> None
            | Some exp_slot \<Rightarrow>
                if rs_received exp_slot \<and> rs_seq_num exp_slot = rw_expected_seq win then
                  (let win' = win\<lparr>rw_slots := (rw_slots win)[exp_idx := exp_slot\<lparr>rs_received := False\<rparr>],
                                  rw_expected_seq := rw_expected_seq win + 1\<rparr>
                   in if rs_delivery_mode exp_slot = REL4U_MODE_RELIABLE_ORDERED then
                        if ready_count < length out
                        then pop_ready_loop win' (out[ready_count := exp_slot]) max_ready (ready_count + 1)
                        else None
                      else pop_ready_loop win' out max_ready ready_count)
                else Some (win, out, ready_count))
      else Some (win, out, ready_count))"
  by pat_completeness auto

termination pop_ready_loop
  by (relation "measure (\<lambda>(win, out, mx, n). received_count win)") (simp_all add: received_count_clear)

declare pop_ready_loop.simps [simp del]

definition rel4u_recv_window_pop_ready ::
  "rel4u_recv_window \<Rightarrow> rel4u_recv_slot list \<Rightarrow> nat \<Rightarrow> recv_result option" where
  "rel4u_recv_window_pop_ready win out_ready_slots max_ready =
     (if max_ready = 0 then Some (-1, win, out_ready_slots, None)
      else map_option (\<lambda>(win, out, n). (0, win, out, Some n))
             (pop_ready_loop win out_ready_slots max_ready 0))"

text \<open>The \<open>while (1)\<close> loop of the reliable unordered mode.\<close>

function advance_loop ::
  "rel4u_recv_window \<Rightarrow> rel4u_recv_slot list \<Rightarrow> nat \<Rightarrow> nat \<Rightarrow>
   (rel4u_recv_window \<times> rel4u_recv_slot list \<times> nat) option" where
  "advance_loop win out max_ready ready_count =
     (let exp_idx = slot_of (rw_capacity win) (rw_expected_seq win)
      in case deref (rw_slots win) exp_idx of
           None \<Rightarrow> None
         | Some exp_slot \<Rightarrow>
             if rs_received exp_slot \<and> rs_seq_num exp_slot = rw_expected_seq win then
               (let win' = win\<lparr>rw_slots := (rw_slots win)[exp_idx := exp_slot\<lparr>rs_received := False\<rparr>],
                               rw_expected_seq := rw_expected_seq win + 1\<rparr>
                in if rs_delivery_mode exp_slot = REL4U_MODE_RELIABLE_UNORDERED then
                     advance_loop win' out max_ready ready_count
                   else if rs_delivery_mode exp_slot = REL4U_MODE_RELIABLE_ORDERED then
                     if ready_count < max_ready then
                       if ready_count < length out
                       then advance_loop win' (out[ready_count := exp_slot]) max_ready (ready_count + 1)
                       else None
                     else Some (win, out, ready_count)
                   else Some (win, out, ready_count))
             else Some (win, out, ready_count))"
  by pat_completeness auto

termination advance_loop
  by (relation "measure (\<lambda>(win, out, mx, n). received_count win)") (simp_all add: received_count_clear)

declare advance_loop.simps [simp del]

text \<open>
  The copy of the payload, skipped for an empty or NULL payload, and the filling of
  \<open>out_ready_slots[0]\<close>, which three of the modes share.
\<close>

definition copy_payload :: "u8 list \<Rightarrow> rel4u_header \<Rightarrow> u8 list option \<Rightarrow> u8 list option" where
  "copy_payload dst hdr payload =
     (case payload of
        None \<Rightarrow> Some dst
      | Some bytes \<Rightarrow>
          if payload_len hdr > 0 then memcpy dst bytes (unat (payload_len hdr)) else Some dst)"

definition fill_first ::
  "rel4u_recv_slot list \<Rightarrow> rel4u_header \<Rightarrow> u8 list option \<Rightarrow> rel4u_recv_slot list option" where
  "fill_first out hdr payload =
     (case deref out 0 of
        None \<Rightarrow> None
      | Some o0 \<Rightarrow>
          map_option
            (\<lambda>bytes. out[0 := o0\<lparr>rs_seq_num := seq_num hdr, rs_delivery_mode := delivery_mode hdr,
                                 rs_payload_len := payload_len hdr, rs_received := True,
                                 rs_payload := bytes\<rparr>])
            (copy_payload (rs_payload o0) hdr payload))"

definition on_unreliable_unordered ::
  "rel4u_recv_window \<Rightarrow> rel4u_header \<Rightarrow> u8 list option \<Rightarrow> rel4u_recv_slot list \<Rightarrow> recv_result option" where
  "on_unreliable_unordered win hdr payload out =
     map_option (\<lambda>out. (0, win, out, Some 1)) (fill_first out hdr payload)"

definition on_unreliable_ordered ::
  "rel4u_recv_window \<Rightarrow> rel4u_header \<Rightarrow> u8 list option \<Rightarrow> rel4u_recv_slot list \<Rightarrow> recv_result option" where
  "on_unreliable_ordered win hdr payload out =
     (if \<not> rw_has_highest_unrel win \<or> rel4u_seq_gt (seq_num hdr) (rw_highest_unrel_seq win) then
        map_option
          (\<lambda>out. (0, win\<lparr>rw_highest_unrel_seq := seq_num hdr, rw_has_highest_unrel := True\<rparr>, out, Some 1))
          (fill_first out hdr payload)
      else Some (1, win, out, Some 0))"

definition on_reliable_unordered ::
  "rel4u_recv_window \<Rightarrow> rel4u_header \<Rightarrow> u8 list option \<Rightarrow> rel4u_recv_slot list \<Rightarrow> nat \<Rightarrow>
   recv_result option" where
  "on_reliable_unordered win hdr payload out max_ready =
     (if rel4u_seq_lt (seq_num hdr) (rw_expected_seq win) then Some (1, win, out, Some 0)
      else if rel4u_seq_diff (seq_num hdr) (rw_expected_seq win) \<ge> sint (rw_capacity win) then
        Some (-2, win, out, Some 0)
      else
        (let slot_idx = slot_of (rw_capacity win) (seq_num hdr)
         in case deref (rw_slots win) slot_idx of
              None \<Rightarrow> None
            | Some slot \<Rightarrow>
                if rs_received slot \<and> rs_seq_num slot = seq_num hdr then Some (1, win, out, Some 0)
                else
                  (let win = win\<lparr>rw_slots := (rw_slots win)[slot_idx :=
                               slot\<lparr>rs_received := True, rs_seq_num := seq_num hdr,
                                    rs_payload_len := payload_len hdr,
                                    rs_delivery_mode := delivery_mode hdr\<rparr>]\<rparr>
                   in case fill_first out hdr payload of
                        None \<Rightarrow> None
                      | Some out \<Rightarrow>
                          map_option (\<lambda>(win, out, n). (0, win, out, Some n))
                            (advance_loop win out max_ready 1))))"

definition on_reliable_ordered ::
  "rel4u_recv_window \<Rightarrow> rel4u_header \<Rightarrow> u8 list option \<Rightarrow> rel4u_recv_slot list \<Rightarrow> nat \<Rightarrow>
   recv_result option" where
  "on_reliable_ordered win hdr payload out max_ready =
     (if rel4u_seq_lt (seq_num hdr) (rw_expected_seq win) then Some (1, win, out, Some 0)
      else if rel4u_seq_diff (seq_num hdr) (rw_expected_seq win) \<ge> sint (rw_capacity win) then
        Some (-2, win, out, Some 0)
      else
        (let slot_idx = slot_of (rw_capacity win) (seq_num hdr)
         in case deref (rw_slots win) slot_idx of
              None \<Rightarrow> None
            | Some slot \<Rightarrow>
                if rs_received slot \<and> rs_seq_num slot = seq_num hdr then Some (1, win, out, Some 0)
                else
                  (case copy_payload (rs_payload slot) hdr payload of
                     None \<Rightarrow> None
                   | Some bytes \<Rightarrow>
                       rel4u_recv_window_pop_ready
                         (win\<lparr>rw_slots := (rw_slots win)[slot_idx :=
                            slot\<lparr>rs_seq_num := seq_num hdr, rs_payload_len := payload_len hdr,
                                 rs_delivery_mode := delivery_mode hdr, rs_received := True,
                                 rs_payload := bytes\<rparr>]\<rparr>)
                         out max_ready)))"

definition rel4u_recv_window_on_packet ::
  "rel4u_recv_window \<Rightarrow> rel4u_header \<Rightarrow> u8 list option \<Rightarrow> rel4u_recv_slot list \<Rightarrow> nat \<Rightarrow>
   recv_result option" where
  "rel4u_recv_window_on_packet win hdr payload out_ready_slots max_ready =
     (if max_ready = 0 then Some (-1, win, out_ready_slots, None)
      else if delivery_mode hdr = REL4U_MODE_UNRELIABLE_UNORDERED then
        on_unreliable_unordered win hdr payload out_ready_slots
      else if delivery_mode hdr = REL4U_MODE_UNRELIABLE_ORDERED then
        on_unreliable_ordered win hdr payload out_ready_slots
      else if delivery_mode hdr = REL4U_MODE_RELIABLE_UNORDERED then
        on_reliable_unordered win hdr payload out_ready_slots max_ready
      else if delivery_mode hdr = REL4U_MODE_RELIABLE_ORDERED then
        on_reliable_ordered win hdr payload out_ready_slots max_ready
      else Some (-1, win, out_ready_slots, Some 0))"

fun sack_mask_loop :: "rel4u_recv_window \<Rightarrow> nat list \<Rightarrow> u32 \<Rightarrow> u32 option" where
  "sack_mask_loop win [] m = Some m"
| "sack_mask_loop win (i # is) m =
     (let target_seq = rw_expected_seq win + of_nat i
      in case deref (rw_slots win) (slot_of (rw_capacity win) target_seq) of
           None \<Rightarrow> None
         | Some slot \<Rightarrow>
             sack_mask_loop win is
               (if rs_received slot \<and> rs_seq_num slot = target_seq then m OR push_bit i 1 else m))"

definition rel4u_recv_window_get_ack_info :: "rel4u_recv_window \<Rightarrow> (u32 \<times> u32) option" where
  "rel4u_recv_window_get_ack_info win =
     map_option (\<lambda>m. (rw_expected_seq win - 1, m)) (sack_mask_loop win [0..<32] 0)"

end
