(* ===== verification/Session.thy ===== *)
theory Session
  imports Send_Window Recv_Window
begin

text \<open>
  The server's session table, \<open>src/core/rel4u_session.h\<close> and \<open>src/core/rel4u_session.c\<close>, and the
  address comparison of \<open>src/platform/rel4u_net.c\<close> it uses.

  \<^item> A \<open>sockaddr_storage\<close> is a value of the address family it holds; the fields of an IPv6 address
    that \<open>rel4u_net_addr_equal\<close> does not look at are kept.
  \<^item> A pointer to a session is its index in the array, and NULL is \<open>None\<close>. An array that was not
    allocated or was freed is the empty list. The operations take the table itself, so their
    NULL checks on it are left out. Table sizes are below $2^{31}$, the range of the \<open>int32_t\<close> the
    code keeps an index in.
  \<^item> \<open>calloc_ok k\<close> says whether the \<open>k\<close>-th \<open>calloc\<close> of an operation succeeds.
\<close>

subsection \<open>Addresses\<close>

datatype sockaddr =
    AF_INET (sin_port: u16) (sin_addr: u32)
  | AF_INET6 (sin6_port: u16) (sin6_addr: "u8 list") (sin6_flowinfo: u32) (sin6_scope_id: u32)
  | AF_OTHER (ss_family: u16)

record rel4u_net_addr =
  na_addr :: sockaddr
  na_len :: u32

definition rel4u_net_addr_equal :: "rel4u_net_addr option \<Rightarrow> rel4u_net_addr option \<Rightarrow> bool" where
  "rel4u_net_addr_equal a b =
     (case (a, b) of
        (Some x, Some y) \<Rightarrow>
          (case (na_addr x, na_addr y) of
             (AF_INET p i, AF_INET q j) \<Rightarrow> p = q \<and> i = j
           | (AF_INET6 p i f s, AF_INET6 q j g t) \<Rightarrow> p = q \<and> i = j
           | _ \<Rightarrow> False)
      | _ \<Rightarrow> False)"

subsection \<open>Data\<close>

record rel4u_client_session =
  cs_client_id :: u32
  cs_session_id :: u32
  cs_addr :: rel4u_net_addr
  cs_state :: rel4u_conn_state
  cs_send_win :: rel4u_send_window
  cs_recv_win :: rel4u_recv_window
  cs_rtt :: rel4u_rtt
  cs_stats :: rel4u_stats
  cs_last_activity_ns :: u64
  cs_last_heartbeat_sent_ns :: u64
  cs_last_ack_sent_ns :: u64
  cs_ack_pending :: bool

record rel4u_session_table =
  st_sessions :: "rel4u_client_session list"
  st_max_clients :: u32
  st_active_count :: u32
  st_full_policy :: rel4u_max_clients_policy

definition zero_addr :: rel4u_net_addr where
  "zero_addr = \<lparr>na_addr = AF_OTHER 0, na_len = 0\<rparr>"

definition zero_rtt :: rel4u_rtt where
  "zero_rtt = \<lparr>srtt_ms = 0, rttvar_ms = 0, rto_ms = 0, min_rto_ms = 0, max_rto_ms = 0, has_sample = False\<rparr>"

text \<open>A session as \<open>calloc\<close> leaves it.\<close>

definition zero_session :: rel4u_client_session where
  "zero_session =
     \<lparr>cs_client_id = 0, cs_session_id = 0, cs_addr = zero_addr, cs_state = REL4U_STATE_DISCONNECTED,
      cs_send_win = zero_send_window, cs_recv_win = zero_recv_window, cs_rtt = zero_rtt,
      cs_stats = zero_stats, cs_last_activity_ns = 0, cs_last_heartbeat_sent_ns = 0,
      cs_last_ack_sent_ns = 0, cs_ack_pending = False\<rparr>"

subsection \<open>Operations\<close>

definition rel4u_session_table_destroy :: "rel4u_session_table \<Rightarrow> rel4u_session_table" where
  "rel4u_session_table_destroy table =
     table\<lparr>st_sessions := [], st_max_clients := 0, st_active_count := 0\<rparr>"

text \<open>
  One round of the loop of \<open>rel4u_session_table_init\<close>; \<open>None\<close> where a window cannot be made. The
  two windows use \<open>calloc\<close> number \<open>2 * i + 1\<close> and \<open>2 * i + 2\<close>, the array itself number 0.
\<close>

definition init_session :: "(nat \<Rightarrow> bool) \<Rightarrow> u32 \<Rightarrow> nat \<Rightarrow> rel4u_client_session \<Rightarrow> rel4u_client_session option" where
  "init_session calloc_ok window_size i s =
     (let s = s\<lparr>cs_client_id := of_nat i, cs_state := REL4U_STATE_DISCONNECTED\<rparr>
      in case rel4u_send_window_init (calloc_ok (2 * i + 1)) (cs_send_win s) window_size 1 of
           (r1, sw) \<Rightarrow>
             if r1 \<noteq> 0 then None
             else
               (case rel4u_recv_window_init (calloc_ok (2 * i + 2)) (cs_recv_win s) window_size 1 of
                  (r2, rw) \<Rightarrow>
                    if r2 \<noteq> 0 then None
                    else
                      Some (s\<lparr>cs_send_win := sw, cs_recv_win := rw,
                              cs_rtt := rel4u_rtt_init REL4U_RTT_DEFAULT_RTO_MS REL4U_RTT_MIN_RTO_MS
                                REL4U_RTT_MAX_RTO_MS\<rparr>)))"

fun init_sessions :: "(nat \<Rightarrow> bool) \<Rightarrow> u32 \<Rightarrow> nat list \<Rightarrow> rel4u_session_table \<Rightarrow> rel4u_session_table option" where
  "init_sessions calloc_ok window_size [] table = Some table"
| "init_sessions calloc_ok window_size (i # is) table =
     (case init_session calloc_ok window_size i (st_sessions table ! i) of
        None \<Rightarrow> None
      | Some s \<Rightarrow>
          init_sessions calloc_ok window_size is (table\<lparr>st_sessions := (st_sessions table)[i := s]\<rparr>))"

definition rel4u_session_table_init ::
  "(nat \<Rightarrow> bool) \<Rightarrow> rel4u_session_table \<Rightarrow> u32 \<Rightarrow> rel4u_max_clients_policy \<Rightarrow> u32 \<Rightarrow> int \<times> rel4u_session_table" where
  "rel4u_session_table_init calloc_ok table max_clients policy window_size =
     (if max_clients = 0 \<or> window_size < 2 \<or> window_size AND (window_size - 1) \<noteq> 0 then (-1, table)
      else
        (let table = table\<lparr>st_max_clients := max_clients, st_active_count := 0, st_full_policy := policy\<rparr>
         in if \<not> calloc_ok 0 then (-1, table\<lparr>st_sessions := []\<rparr>)
            else
              (let table = table\<lparr>st_sessions := replicate (unat max_clients) zero_session\<rparr>
               in case init_sessions calloc_ok window_size [0..<unat max_clients] table of
                    None \<Rightarrow> (-1, rel4u_session_table_destroy table)
                  | Some table \<Rightarrow> (0, table))))"

definition session_active :: "rel4u_client_session \<Rightarrow> bool" where
  "session_active s \<longleftrightarrow> cs_state s \<noteq> REL4U_STATE_DISCONNECTED"

definition rel4u_session_find_by_addr :: "rel4u_session_table \<Rightarrow> rel4u_net_addr option \<Rightarrow> nat option" where
  "rel4u_session_find_by_addr table addr =
     (if addr = None \<or> st_sessions table = [] then None
      else
        find (\<lambda>i. session_active (st_sessions table ! i) \<and>
                  rel4u_net_addr_equal (Some (cs_addr (st_sessions table ! i))) addr)
          [0..<unat (st_max_clients table)])"

definition rel4u_session_find_by_id :: "rel4u_session_table \<Rightarrow> u32 \<Rightarrow> nat option" where
  "rel4u_session_find_by_id table client_id =
     (if st_sessions table = [] \<or> client_id \<ge> st_max_clients table then None
      else if session_active (st_sessions table ! unat client_id) then Some (unat client_id) else None)"

text \<open>
  The search for the least recently active session: the oldest time so far, and where it was. An index is
  stored as an \<open>int32_t\<close>, with -1 for none.
\<close>

fun lru_loop :: "rel4u_client_session list \<Rightarrow> u32 \<Rightarrow> u64 \<times> int \<Rightarrow> u64 \<times> int" where
  "lru_loop [] i best = best"
| "lru_loop (s # ss) i (oldest_time, slot_idx) =
     lru_loop ss (i + 1)
       (if session_active s \<and> cs_last_activity_ns s < oldest_time then (cs_last_activity_ns s, sint i)
        else (oldest_time, slot_idx))"

definition choose_slot :: "rel4u_session_table \<Rightarrow> int \<times> rel4u_session_table \<times> bool" where
  "choose_slot table =
     (if st_active_count table < st_max_clients table then
        (case find (\<lambda>i. \<not> session_active (st_sessions table ! i)) [0..<unat (st_max_clients table)] of
           None \<Rightarrow> (-1, table, False)
         | Some i \<Rightarrow> (sint (of_nat i :: u32), table, False))
      else if st_full_policy table = REL4U_MAX_CLIENTS_REJECT then (-1, table, False)
      else
        (let slot_idx = snd (lru_loop (st_sessions table) 0 (-1, -1))
         in if slot_idx \<noteq> -1 then (slot_idx, table\<lparr>st_active_count := st_active_count table - 1\<rparr>, True)
            else (-1, table, False)))"

text \<open>
  Setting up the chosen session. The results of the two window initialisations, whose \<open>calloc\<close>
  may fail, are not looked at.
\<close>

definition fresh_session ::
  "bool \<Rightarrow> bool \<Rightarrow> rel4u_net_addr \<Rightarrow> u32 \<Rightarrow> rel4u_client_session \<Rightarrow> rel4u_client_session" where
  "fresh_session send_ok recv_ok addr sid s =
     (let s = s\<lparr>cs_session_id := sid, cs_addr := addr, cs_state := REL4U_STATE_CONNECTING,
                cs_ack_pending := False, cs_stats := zero_stats\<rparr>;
          win_cap = (if sw_capacity (cs_send_win s) \<noteq> 0 then sw_capacity (cs_send_win s) else 64);
          sw = rel4u_send_window_destroy (cs_send_win s);
          rw = rel4u_recv_window_destroy (cs_recv_win s)
      in s\<lparr>cs_send_win := snd (rel4u_send_window_init send_ok sw win_cap 1),
           cs_recv_win := snd (rel4u_recv_window_init recv_ok rw win_cap 1),
           cs_rtt := rel4u_rtt_init REL4U_RTT_DEFAULT_RTO_MS REL4U_RTT_MIN_RTO_MS REL4U_RTT_MAX_RTO_MS\<rparr>)"

text \<open>The result is \<open>None\<close> when \<open>sessions[slot_idx]\<close> is outside the array, as it is for a negative index.\<close>

definition rel4u_session_allocate ::
  "(nat \<Rightarrow> bool) \<Rightarrow> rel4u_session_table \<Rightarrow> rel4u_net_addr option \<Rightarrow> u32 \<Rightarrow>
   (nat option \<times> rel4u_session_table \<times> bool) option" where
  "rel4u_session_allocate calloc_ok table addr sid =
     (case addr of
        None \<Rightarrow> Some (None, table, False)
      | Some a \<Rightarrow>
          if st_sessions table = [] then Some (None, table, False)
          else
            (case choose_slot table of
               (slot_idx, table, evicted) \<Rightarrow>
                 if slot_idx = -1 then Some (None, table, evicted)
                 else if slot_idx < 0 then None
                 else
                   (case deref (st_sessions table) (nat slot_idx) of
                      None \<Rightarrow> None
                    | Some s \<Rightarrow>
                        Some (Some (nat slot_idx),
                          table\<lparr>st_sessions := (st_sessions table)[nat slot_idx :=
                                  fresh_session (calloc_ok 0) (calloc_ok 1) a sid s],
                                st_active_count := st_active_count table + 1\<rparr>,
                          evicted))))"

definition rel4u_session_touch_lru ::
  "rel4u_session_table \<Rightarrow> nat option \<Rightarrow> u64 \<Rightarrow> rel4u_session_table" where
  "rel4u_session_touch_lru table session now_ns =
     (case session of
        None \<Rightarrow> table
      | Some i \<Rightarrow>
          table\<lparr>st_sessions := (st_sessions table)[i :=
            (st_sessions table ! i)\<lparr>cs_last_activity_ns := now_ns\<rparr>]\<rparr>)"

definition rel4u_session_free :: "rel4u_session_table \<Rightarrow> nat option \<Rightarrow> rel4u_session_table" where
  "rel4u_session_free table session =
     (case session of
        None \<Rightarrow> table
      | Some i \<Rightarrow>
          if \<not> session_active (st_sessions table ! i) then table
          else
            table\<lparr>st_sessions := (st_sessions table)[i :=
                    (st_sessions table ! i)\<lparr>cs_state := REL4U_STATE_DISCONNECTED, cs_session_id := 0\<rparr>],
                  st_active_count :=
                    (if st_active_count table > 0 then st_active_count table - 1 else st_active_count table)\<rparr>)"

end
