(* ===== verification/Platform.thy ===== *)
theory Platform
  imports Session
begin

text \<open>
  What the code gets from the system, \<open>src/platform\<close>, on a POSIX host.

  \<^item> \<open>env\<close> holds the results of the system calls: the clock at its \<open>n\<close>-th reading, the result of the
    \<open>n\<close>-th \<open>sendto\<close>, \<open>malloc\<close> at the \<open>n\<close>-th push, whether the \<open>k\<close>-th \<open>calloc\<close> of an operation succeeds that
    runs after the \<open>n\<close>-th reading of the clock, the address of the local variable \<open>src_addr\<close> of the
    server's worker, and the content of the uninitialised local buffers.
    \<open>world\<close> counts the readings and the pushes, and keeps the datagrams handed to \<open>sendto\<close> with
    their destination, in order. \<open>env_ok\<close> is what C and POSIX promise of them.
  \<^item> A socket or a file descriptor is an \<open>int\<close>, and -1 is none.
\<close>

subsection \<open>The environment\<close>

record timespec =
  tv_sec :: u64
  tv_nsec :: u64

record env =
  env_clock :: "nat \<Rightarrow> timespec"
  env_sendto :: "nat \<Rightarrow> int"
  env_alloc :: "nat \<Rightarrow> allocator"
  env_calloc :: "nat \<Rightarrow> nat \<Rightarrow> bool"
  env_src_ptr :: u64
  env_raw_buf :: "u8 list"
  env_item :: rel4u_mpmc_item

record world =
  wd_clock :: nat
  wd_pushes :: nat
  wd_sent :: "(rel4u_net_addr \<times> u8 list) list"

definition env_ok :: "env \<Rightarrow> bool" where
  "env_ok e \<longleftrightarrow>
     (\<forall>n. fresh_alloc (env_alloc e n)) \<and> length (env_raw_buf e) = 9240 \<and>
     length (it_data (env_item e)) = REL4U_MAX_MSG_SIZE"

subsection \<open>Time\<close>

definition rel4u_time_now_ns :: "env \<Rightarrow> world \<Rightarrow> u64 \<times> world" where
  "rel4u_time_now_ns e w =
     (let ts = env_clock e (wd_clock w)
      in (tv_sec ts * 1000000000 + tv_nsec ts, w\<lparr>wd_clock := wd_clock w + 1\<rparr>))"

definition rel4u_time_now_ms :: "env \<Rightarrow> world \<Rightarrow> u64 \<times> world" where
  "rel4u_time_now_ms e w = (case rel4u_time_now_ns e w of (ns, w) \<Rightarrow> (ns div 1000000, w))"

text \<open>The interval \<open>rel4u_time_sleep_ms\<close> passes to \<open>nanosleep\<close>.\<close>

definition sleep_interval :: "u32 \<Rightarrow> timespec" where
  "sleep_interval ms = \<lparr>tv_sec = ucast (ms div 1000), tv_nsec = ucast (ms mod 1000) * 1000000\<rparr>"

text \<open>
  The deadline \<open>rel4u_cond_timedwait_ms\<close> passes to \<open>pthread_cond_timedwait\<close>, from the seconds and
  microseconds \<open>gettimeofday\<close> returns.
\<close>

definition timedwait_deadline :: "u64 \<Rightarrow> u64 \<Rightarrow> u32 \<Rightarrow> timespec" where
  "timedwait_deadline now_sec now_usec timeout_ms =
     (let ns = now_usec * 1000 + ucast timeout_ms * 1000000
      in \<lparr>tv_sec = now_sec + ns div 1000000000, tv_nsec = ns mod 1000000000\<rparr>)"

lemma sleep_ms_exact:
  "unat (tv_sec (sleep_interval ms)) * 1000000000 + unat (tv_nsec (sleep_interval ms)) = unat ms * 1000000"
  "unat (tv_nsec (sleep_interval ms)) < 1000000000"
proof -
  have d: "unat (ms div 1000) = unat ms div 1000" "unat (ms mod 1000) = unat ms mod 1000"
    by (simp_all add: unat_div unat_mod)
  have sec: "unat (tv_sec (sleep_interval ms)) = unat ms div 1000"
    using unat_u32_lt [of ms] d by (simp add: sleep_interval_def unsigned_ucast_eq take_bit_nat_eq_self)
  have "unat (ucast (ms mod 1000) :: u64) = unat ms mod 1000"
    using unat_u32_lt [of ms] d by (simp add: unsigned_ucast_eq take_bit_nat_eq_self)
  moreover have "unat ms mod 1000 < 1000" by simp
  ultimately have nsec: "unat (tv_nsec (sleep_interval ms)) = unat ms mod 1000 * 1000000"
    by (simp add: sleep_interval_def unat_word_ariths)
  have "unat ms div 1000 * 1000 + unat ms mod 1000 = unat ms" by simp
  with sec nsec show "unat (tv_sec (sleep_interval ms)) * 1000000000 + unat (tv_nsec (sleep_interval ms)) = unat ms * 1000000"
    by linarith
  show "unat (tv_nsec (sleep_interval ms)) < 1000000000" using nsec \<open>unat ms mod 1000 < 1000\<close> by linarith
qed

lemma timedwait_deadline_exact:
  fixes timeout_ms :: u32
  assumes "unat now_sec < 2 ^ 62" "unat now_usec < 1000000"
  defines "ts \<equiv> timedwait_deadline now_sec now_usec timeout_ms"
  shows "unat (tv_sec ts) * 1000000000 + unat (tv_nsec ts) =
      unat now_sec * 1000000000 + unat now_usec * 1000 + unat timeout_ms * 1000000"
    "unat (tv_nsec ts) < 1000000000"
proof -
  let ?ns = "now_usec * 1000 + ucast timeout_ms * 1000000 :: u64"
  have t: "unat timeout_ms < 2 ^ 32" by (rule unat_u32_lt)
  have m: "unat (now_usec * 1000) = unat now_usec * 1000" "unat (ucast timeout_ms * 1000000 :: u64) = unat timeout_ms * 1000000"
    using assms(2) t by (simp_all add: unat_word_ariths widen32)
  have ns: "unat ?ns = unat now_usec * 1000 + unat timeout_ms * 1000000"
    using m assms(2) t by (subst unat_word_ariths(1)) simp
  have sec: "unat (tv_sec ts) = unat now_sec + unat ?ns div 1000000000"
  proof -
    have "tv_sec ts = now_sec + ?ns div 1000000000" by (simp add: ts_def timedwait_deadline_def Let_def)
    moreover have "unat (?ns div 1000000000) = unat ?ns div 1000000000" by (simp add: unat_div)
    moreover have "unat ?ns div 1000000000 \<le> unat ?ns" by simp
    then have "unat now_sec + unat ?ns div 1000000000 < 2 ^ 64" using assms(1,2) ns t by simp
    ultimately show ?thesis by (simp add: unat_word_ariths(1) del: unat_div)
  qed
  have nsec: "unat (tv_nsec ts) = unat ?ns mod 1000000000"
    by (simp add: ts_def timedwait_deadline_def Let_def unat_mod)
  then show "unat (tv_nsec ts) < 1000000000" by simp
  have "unat ?ns div 1000000000 * 1000000000 + unat ?ns mod 1000000000 = unat ?ns" by simp
  with sec nsec ns show "unat (tv_sec ts) * 1000000000 + unat (tv_nsec ts) =
      unat now_sec * 1000000000 + unat now_usec * 1000 + unat timeout_ms * 1000000"
    by (simp add: distrib_right)
qed

subsection \<open>Sockets and pipes\<close>

definition REL4U_INVALID_SOCKET :: int where [simp]: "REL4U_INVALID_SOCKET = -1"

record rel4u_wakeup_pipe =
  read_fd :: int
  write_fd :: int

text \<open>
  What the calls that set up an endpoint return: \<open>getaddrinfo\<close> its error and the first address, if
  there is one; \<open>socket\<close> the descriptor, for IPv6 or not; \<open>pipe\<close> its result and the descriptors.
\<close>

record sys =
  sys_getaddrinfo :: "string \<Rightarrow> u16 \<Rightarrow> int \<times> rel4u_net_addr option"
  sys_socket :: "bool \<Rightarrow> int"
  sys_bind :: "int \<Rightarrow> rel4u_net_addr \<Rightarrow> int"
  sys_pipe :: "int \<times> int \<times> int"
  sys_thread_create :: int

definition rel4u_net_addr_from_string :: "sys \<Rightarrow> string \<Rightarrow> u16 \<Rightarrow> int \<times> rel4u_net_addr" where
  "rel4u_net_addr_from_string sys host port =
     (case sys_getaddrinfo sys host port of
        (err, None) \<Rightarrow> (-1, zero_addr)
      | (err, Some a) \<Rightarrow> if err \<noteq> 0 then (-1, zero_addr) else (0, a))"

definition rel4u_net_socket_create_udp :: "sys \<Rightarrow> bool \<Rightarrow> int" where
  "rel4u_net_socket_create_udp sys ipv6 = sys_socket sys ipv6"

definition rel4u_net_socket_bind :: "sys \<Rightarrow> int \<Rightarrow> rel4u_net_addr option \<Rightarrow> int" where
  "rel4u_net_socket_bind sys sock addr =
     (case addr of
        None \<Rightarrow> -1
      | Some a \<Rightarrow> if sock = REL4U_INVALID_SOCKET then -1 else sys_bind sys sock a)"

definition rel4u_net_sendto :: "env \<Rightarrow> int \<Rightarrow> u8 list \<Rightarrow> rel4u_net_addr \<Rightarrow> world \<Rightarrow> int \<times> world" where
  "rel4u_net_sendto e sock buf dest w =
     (if sock = REL4U_INVALID_SOCKET then (-1, w)
      else (env_sendto e (length (wd_sent w)), w\<lparr>wd_sent := wd_sent w @ [(dest, buf)]\<rparr>))"

text \<open>
  \<open>arrived\<close> is the datagram the system has next, if any: its bytes, of which only as many as the
  buffer holds are read, and its source. The result is the number of bytes, negative if there
  is nothing, and the buffer's new content.
\<close>

definition rel4u_net_recvfrom ::
  "(u8 list \<times> rel4u_net_addr) option \<Rightarrow> int \<Rightarrow> nat \<Rightarrow> int \<times> (u8 list \<times> rel4u_net_addr) option" where
  "rel4u_net_recvfrom arrived sock max_len =
     (if sock = REL4U_INVALID_SOCKET then (-1, None)
      else
        (case arrived of
           None \<Rightarrow> (-1, None)
         | Some (bytes, src) \<Rightarrow> (int (length (take max_len bytes)), Some (take max_len bytes, src))))"

definition rel4u_wakeup_pipe_create :: "sys \<Rightarrow> rel4u_wakeup_pipe \<Rightarrow> int \<times> rel4u_wakeup_pipe" where
  "rel4u_wakeup_pipe_create sys p =
     (case sys_pipe sys of (r, fd0, fd1) \<Rightarrow> if r \<noteq> 0 then (-1, p) else (0, p\<lparr>read_fd := fd0, write_fd := fd1\<rparr>))"

definition rel4u_wakeup_pipe_close :: "rel4u_wakeup_pipe \<Rightarrow> rel4u_wakeup_pipe" where
  "rel4u_wakeup_pipe_close p =
     (let p = (if write_fd p \<noteq> -1 then p\<lparr>write_fd := -1\<rparr> else p)
      in if read_fd p \<noteq> -1 then p\<lparr>read_fd := -1\<rparr> else p)"

text \<open>
  \<open>poll\<close> is given the socket and the read end of the pipe, those that exist, in this order; \<open>ret\<close>
  and \<open>revents\<close> are its result and, per descriptor, whether it is readable.
\<close>

definition rel4u_net_poll :: "int \<Rightarrow> rel4u_wakeup_pipe option \<Rightarrow> int \<Rightarrow> bool list \<Rightarrow> int \<times> bool \<times> bool" where
  "rel4u_net_poll sock pipe ret revents =
     (let s = sock \<noteq> REL4U_INVALID_SOCKET;
          p = (case pipe of None \<Rightarrow> False | Some q \<Rightarrow> read_fd q \<noteq> -1)
      in if \<not> s \<and> \<not> p then (0, False, False)
         else if ret > 0 then
           (ret, s \<and> revents ! 0, p \<and> revents ! (if s then 1 else 0))
         else (ret, False, False))"

end
