(* ===== verification/Threads.thy ===== *)
theory Threads
  imports Platform
begin

text \<open>
  Mutexes and condition variables, \<open>src/platform/rel4u_threads.c\<close>.

  \<^item> Threads are numbers. A mutex has at most one owner; \<open>rel4u_mutex_lock\<close> is \<open>None\<close> as long as there is one, which is a thread
    that has to wait.
  \<^item> A condition variable has the threads that wait for it, and those that were woken but have not got the mutex back, each with
    whether it was woken by a notification. Which waiter a signal wakes is an argument, as the system is free to choose. A
    wait may also end without a notification, with its timeout, and also without any reason.
\<close>

subsection \<open>Mutexes\<close>

type_synonym tid = nat

record rel4u_mutex =
  mu_owner :: "tid option"

definition rel4u_mutex_init :: rel4u_mutex where
  "rel4u_mutex_init = \<lparr>mu_owner = None\<rparr>"

definition rel4u_mutex_lock :: "tid \<Rightarrow> rel4u_mutex \<Rightarrow> rel4u_mutex option" where
  "rel4u_mutex_lock t m = (if mu_owner m = None then Some (m\<lparr>mu_owner := Some t\<rparr>) else None)"

definition rel4u_mutex_unlock :: "rel4u_mutex \<Rightarrow> rel4u_mutex" where
  "rel4u_mutex_unlock m = m\<lparr>mu_owner := None\<rparr>"

subsection \<open>Condition variables\<close>

record rel4u_cond =
  co_waiting :: "tid list"
  co_woken :: "(tid \<times> bool) list"

definition rel4u_cond_init :: rel4u_cond where
  "rel4u_cond_init = \<lparr>co_waiting = [], co_woken = []\<rparr>"

text \<open>The beginning of a wait, with a timeout or not: the mutex is released in the same step.\<close>

definition rel4u_cond_wait :: "tid \<Rightarrow> rel4u_cond \<Rightarrow> rel4u_mutex \<Rightarrow> rel4u_cond \<times> rel4u_mutex" where
  "rel4u_cond_wait t c m = (c\<lparr>co_waiting := co_waiting c @ [t]\<rparr>, rel4u_mutex_unlock m)"

definition cond_wake :: "tid \<Rightarrow> bool \<Rightarrow> rel4u_cond \<Rightarrow> rel4u_cond" where
  "cond_wake t signaled c = c\<lparr>co_waiting := remove1 t (co_waiting c), co_woken := co_woken c @ [(t, signaled)]\<rparr>"

definition rel4u_cond_signal :: "nat \<Rightarrow> rel4u_cond \<Rightarrow> rel4u_cond" where
  "rel4u_cond_signal i c =
     (if co_waiting c = [] then c else cond_wake (co_waiting c ! (i mod length (co_waiting c))) True c)"

definition rel4u_cond_broadcast :: "rel4u_cond \<Rightarrow> rel4u_cond" where
  "rel4u_cond_broadcast c = c\<lparr>co_waiting := [], co_woken := co_woken c @ map (\<lambda>t. (t, True)) (co_waiting c)\<rparr>"

text \<open>
  The end of a wait: a woken thread that gets the mutex. The first component is what \<open>rel4u_cond_timedwait_ms\<close> returns.
\<close>

definition cond_return :: "tid \<Rightarrow> rel4u_cond \<Rightarrow> rel4u_mutex \<Rightarrow> (bool \<times> rel4u_cond \<times> rel4u_mutex) option" where
  "cond_return t c m =
     (case map_of (co_woken c) t of
        None \<Rightarrow> None
      | Some signaled \<Rightarrow>
          map_option (\<lambda>m. (signaled, c\<lparr>co_woken := remove1 (t, signaled) (co_woken c)\<rparr>, m)) (rel4u_mutex_lock t m))"

subsection \<open>Who waits\<close>

text \<open>Every thread is at most once in a wait.\<close>

definition waits_once :: "rel4u_cond \<Rightarrow> bool" where
  "waits_once c \<longleftrightarrow> distinct (co_waiting c @ map fst (co_woken c))"

definition in_wait :: "rel4u_cond \<Rightarrow> tid set" where
  "in_wait c = set (co_waiting c) \<union> fst ` set (co_woken c)"

lemma cond_init_wait [simp]: "waits_once rel4u_cond_init" "in_wait rel4u_cond_init = {}"
  by (simp_all add: rel4u_cond_init_def waits_once_def in_wait_def)

lemma cond_wait_law:
  assumes "waits_once c" "t \<notin> in_wait c" "rel4u_cond_wait t c m = (c', m')"
  shows "waits_once c'" "in_wait c' = insert t (in_wait c)" "mu_owner m' = None" "co_woken c' = co_woken c"
  using assms by (force simp: rel4u_cond_wait_def rel4u_mutex_unlock_def waits_once_def in_wait_def)+

lemma cond_wake_law:
  assumes "waits_once c" "t \<in> set (co_waiting c)"
  shows "waits_once (cond_wake t b c)" "in_wait (cond_wake t b c) = in_wait c"
    "length (co_woken (cond_wake t b c)) = Suc (length (co_woken c))"
  using assms by (auto simp: cond_wake_def waits_once_def in_wait_def image_iff)

lemma cond_signal_law:
  assumes "waits_once c"
  shows "waits_once (rel4u_cond_signal i c)" "in_wait (rel4u_cond_signal i c) = in_wait c"
    "if co_waiting c = [] then rel4u_cond_signal i c = c
     else length (co_woken (rel4u_cond_signal i c)) = Suc (length (co_woken c))"
proof -
  have "co_waiting c \<noteq> [] \<Longrightarrow> co_waiting c ! (i mod length (co_waiting c)) \<in> set (co_waiting c)" by simp
  with cond_wake_law [OF assms] assms show "waits_once (rel4u_cond_signal i c)" "in_wait (rel4u_cond_signal i c) = in_wait c"
    "if co_waiting c = [] then rel4u_cond_signal i c = c
     else length (co_woken (rel4u_cond_signal i c)) = Suc (length (co_woken c))"
    by (auto simp: rel4u_cond_signal_def)
qed

lemma cond_broadcast_law:
  "waits_once c \<Longrightarrow> waits_once (rel4u_cond_broadcast c)" "in_wait (rel4u_cond_broadcast c) = in_wait c"
  "co_waiting (rel4u_cond_broadcast c) = []"
  by (auto simp: rel4u_cond_broadcast_def waits_once_def in_wait_def comp_def image_Un image_image)

lemma cond_return_law:
  assumes "waits_once c" "cond_return t c m = Some (b, c', m')"
  shows "waits_once c'" "in_wait c' = in_wait c - {t}" "t \<in> in_wait c" "mu_owner m = None" "mu_owner m' = Some t"
    "length (co_woken c) = Suc (length (co_woken c'))" "co_waiting c' = co_waiting c"
proof -
  from assms(2) have r: "map_of (co_woken c) t = Some b" "c' = c\<lparr>co_woken := remove1 (t, b) (co_woken c)\<rparr>" "mu_owner m = None"
      "mu_owner m' = Some t"
    by (auto simp: cond_return_def rel4u_mutex_lock_def split: option.splits if_splits)
  then have t: "(t, b) \<in> set (co_woken c)" by (simp add: map_of_SomeD)
  then obtain xs ys where xy: "co_woken c = xs @ (t, b) # ys" "(t, b) \<notin> set xs" by (meson split_list_first)
  then have c': "co_woken c' = xs @ ys" "co_waiting c' = co_waiting c" using r(2) by (simp_all add: remove1_append)
  show "waits_once c'" "in_wait c' = in_wait c - {t}" using assms(1) c' xy by (auto simp: waits_once_def in_wait_def)
  show "t \<in> in_wait c" using t by (force simp: in_wait_def)
  show "mu_owner m = None" "mu_owner m' = Some t" "length (co_woken c) = Suc (length (co_woken c'))" "co_waiting c' = co_waiting c"
    using r c' xy by simp_all
qed

lemma cond_return_enabled:
  assumes "(t, b) \<in> set (co_woken c)" "mu_owner m = None"
  shows "\<exists>b c' m'. cond_return t c m = Some (b, c', m')"
proof -
  from assms(1) obtain b' where "map_of (co_woken c) t = Some b'" by (metis map_of_eq_None_iff not_None_eq fst_conv imageI)
  with assms(2) show ?thesis by (simp add: cond_return_def rel4u_mutex_lock_def)
qed

end
