(* ===== verification/Mpmc_Threads.thy ===== *)
theory Mpmc_Threads
  imports Threads Mpmc_Correct
begin

text \<open>
  The message queue between threads: any number of threads call the operations of \<open>src/core/rel4u_mpmc.c\<close> on one queue,
  and their steps interleave. A step is what happens between two calls of the thread library: taking the mutex, the
  body of a critical section up to a notification, the notification, the parts of the waiting loop, and releasing the mutex.

  \<^item> \<open>mt_pc\<close> is where each thread is, \<open>mt_done\<close> the calls that have returned, with their results, in the order in which they released the mutex.
  \<^item> \<open>run_call\<close> is a call as one step, by the definitions of theory Mpmc. \<open>threads_linearizable\<close> shows that every schedule has the
    results of these, one after the other in the order of \<open>mt_done\<close>; that justifies them as steps of the client and the server.
  \<^item> \<open>threads_no_lost_wakeup\<close> is about the waiting loop: no message stays in the queue while all its readers sleep.
\<close>

subsection \<open>Calls and threads\<close>

datatype queue_call =
    Try_Push allocator rel4u_mpmc_item
  | Try_Pop rel4u_mpmc_item
  | Push_Notify allocator rel4u_mpmc_item
  | Push_Front allocator rel4u_mpmc_item
  | Pop_Wait rel4u_mpmc_item int
  | Wake_All
  | Get_Size
  | Get_Bytes
  | Get_Dropped

datatype call_result = Pushed bool | Popped bool rel4u_mpmc_item | Counted u64 | Woken

text \<open>
  Where a thread is: outside; before the mutex; with the mutex and about to run the body; about to notify; at the head of the waiting loop, in
  the wait, and after it; about to release the mutex.
\<close>

datatype pc =
    Idle
  | Calling queue_call
  | Locked queue_call
  | Signalling queue_call bool
  | Broadcasting
  | Looping u32 rel4u_mpmc_item int
  | Waiting u32 rel4u_mpmc_item int
  | Checking bool u32 rel4u_mpmc_item int
  | Leaving queue_call call_result

record mpmc_threads =
  mt_queue :: rel4u_mpmc_queue
  mt_mutex :: rel4u_mutex
  mt_cond :: rel4u_cond
  mt_pc :: "tid \<Rightarrow> pc"
  mt_done :: "(tid \<times> queue_call \<times> call_result) list"

subsection \<open>Steps\<close>

text \<open>The body of a critical section, up to its notification or its waiting loop.\<close>

fun enter_body :: "queue_call \<Rightarrow> rel4u_mpmc_queue \<Rightarrow> pc \<times> rel4u_mpmc_queue" where
  "enter_body (Try_Push alloc i) q = (case mpmc_push_back_locked alloc q i of (ok, q) \<Rightarrow> (Leaving (Try_Push alloc i) (Pushed ok), q))"
| "enter_body (Try_Pop out) q = (case mpmc_pop_head_locked q out of (ok, q, i) \<Rightarrow> (Leaving (Try_Pop out) (Popped ok i), q))"
| "enter_body (Push_Notify alloc i) q = (case mpmc_push_back_locked alloc q i of (ok, q) \<Rightarrow> (Signalling (Push_Notify alloc i) ok, q))"
| "enter_body (Push_Front alloc i) q = (case mpmc_push_front_locked alloc q i of (ok, q) \<Rightarrow> (Signalling (Push_Front alloc i) ok, q))"
| "enter_body (Pop_Wait out timeout_ms) q = (Looping (q_wake_generation q) out timeout_ms, q)"
| "enter_body Wake_All q = (Broadcasting, q\<lparr>q_wake_generation := q_wake_generation q + 1\<rparr>)"
| "enter_body Get_Size q = (Leaving Get_Size (Counted (q_count q)), q)"
| "enter_body Get_Bytes q = (Leaving Get_Bytes (Counted (q_current_bytes q)), q)"
| "enter_body Get_Dropped q = (Leaving Get_Dropped (Counted (q_dropped_count q)), q)"

definition set_pc :: "tid \<Rightarrow> pc \<Rightarrow> mpmc_threads \<Rightarrow> mpmc_threads" where
  "set_pc t p s = s\<lparr>mt_pc := (mt_pc s)(t := p)\<rparr>"

text \<open>The waiting loop of \<open>rel4u_mpmc_pop_wait\<close>, from its head to the wait, and after a wait.\<close>

definition loop_head :: "tid \<Rightarrow> u32 \<Rightarrow> rel4u_mpmc_item \<Rightarrow> int \<Rightarrow> mpmc_threads \<Rightarrow> mpmc_threads" where
  "loop_head t gen out timeout_ms s =
     (if q_count (mt_queue s) = 0 then
        if timeout_ms = 0 then set_pc t (Leaving (Pop_Wait out timeout_ms) (Popped False out)) s
        else
          (case rel4u_cond_wait t (mt_cond s) (mt_mutex s) of
             (c, m) \<Rightarrow> set_pc t (Waiting gen out timeout_ms) (s\<lparr>mt_cond := c, mt_mutex := m\<rparr>))
      else
        (case mpmc_pop_head_locked (mt_queue s) out of
           (ok, q, i) \<Rightarrow> set_pc t (Leaving (Pop_Wait out timeout_ms) (Popped ok i)) (s\<lparr>mt_queue := q\<rparr>)))"

definition gives_up :: "bool \<Rightarrow> u32 \<Rightarrow> int \<Rightarrow> rel4u_mpmc_queue \<Rightarrow> bool" where
  "gives_up signaled gen timeout_ms q \<longleftrightarrow>
     q_count q = 0 \<and> (timeout_ms > 0 \<and> \<not> signaled \<or> q_wake_generation q \<noteq> gen)"

text \<open>
  What a thread does next; \<open>i\<close> is the system's choice of a waiter to wake. \<open>None\<close> if the thread is outside, or has to wait.
\<close>

definition run_thread :: "tid \<Rightarrow> nat \<Rightarrow> mpmc_threads \<Rightarrow> mpmc_threads option" where
  "run_thread t i s =
     (case mt_pc s t of
        Idle \<Rightarrow> None
      | Calling call \<Rightarrow> map_option (\<lambda>m. set_pc t (Locked call) (s\<lparr>mt_mutex := m\<rparr>)) (rel4u_mutex_lock t (mt_mutex s))
      | Locked call \<Rightarrow> (case enter_body call (mt_queue s) of (p, q) \<Rightarrow> Some (set_pc t p (s\<lparr>mt_queue := q\<rparr>)))
      | Signalling call ok \<Rightarrow>
          Some (set_pc t (Leaving call (Pushed ok))
            (s\<lparr>mt_queue := cond_signal ok (mt_queue s), mt_cond := (if ok then rel4u_cond_signal i (mt_cond s) else mt_cond s)\<rparr>))
      | Broadcasting \<Rightarrow>
          Some (set_pc t (Leaving Wake_All Woken)
            (s\<lparr>mt_queue := (mt_queue s)\<lparr>q_cond := q_cond (mt_queue s) + 1\<rparr>, mt_cond := rel4u_cond_broadcast (mt_cond s)\<rparr>))
      | Looping gen out timeout_ms \<Rightarrow> Some (loop_head t gen out timeout_ms s)
      | Waiting gen out timeout_ms \<Rightarrow>
          map_option (\<lambda>(signaled, c, m). set_pc t (Checking signaled gen out timeout_ms) (s\<lparr>mt_cond := c, mt_mutex := m\<rparr>))
            (cond_return t (mt_cond s) (mt_mutex s))
      | Checking signaled gen out timeout_ms \<Rightarrow>
          Some (set_pc t (if gives_up signaled gen timeout_ms (mt_queue s) then Leaving (Pop_Wait out timeout_ms) (Popped False out)
                          else Looping gen out timeout_ms) s)
      | Leaving call r \<Rightarrow>
          Some (set_pc t Idle (s\<lparr>mt_mutex := rel4u_mutex_unlock (mt_mutex s), mt_done := mt_done s @ [(t, call, r)]\<rparr>)))"

text \<open>
  Events: a thread outside begins a call; a thread goes on; the wait of a thread ends on its own, by its timeout (\<open>False\<close>, only if it has one) or spuriously.
\<close>

datatype thread_event = Begin tid queue_call | Run tid nat | Wake tid bool

fun timed :: "pc \<Rightarrow> bool" where
  "timed (Waiting gen out timeout_ms) = (timeout_ms > 0)"
| "timed _ = False"

fun threads_step :: "thread_event \<Rightarrow> mpmc_threads \<Rightarrow> mpmc_threads option" where
  "threads_step (Begin t call) s = (if mt_pc s t = Idle then Some (set_pc t (Calling call) s) else None)"
| "threads_step (Run t i) s = run_thread t i s"
| "threads_step (Wake t signaled) s =
     (if t \<in> set (co_waiting (mt_cond s)) \<and> (signaled \<or> timed (mt_pc s t)) then Some (s\<lparr>mt_cond := cond_wake t signaled (mt_cond s)\<rparr>)
      else None)"

definition threads_init :: "rel4u_mpmc_queue \<Rightarrow> mpmc_threads" where
  "threads_init q = \<lparr>mt_queue = q, mt_mutex = rel4u_mutex_init, mt_cond = rel4u_cond_init, mt_pc = (\<lambda>_. Idle), mt_done = []\<rparr>"

subsection \<open>Calls as single steps\<close>

fun run_call :: "queue_call \<Rightarrow> rel4u_mpmc_queue \<Rightarrow> call_result \<times> rel4u_mpmc_queue" where
  "run_call (Try_Push alloc i) q = map_prod Pushed id (rel4u_mpmc_try_push alloc q (Some i))"
| "run_call (Try_Pop out) q = (case rel4u_mpmc_try_pop q (Some out) of (ok, q, i) \<Rightarrow> (Popped ok (the i), q))"
| "run_call (Push_Notify alloc i) q = map_prod Pushed id (rel4u_mpmc_push_notify alloc q (Some i))"
| "run_call (Push_Front alloc i) q = map_prod Pushed id (rel4u_mpmc_push_front alloc q (Some i))"
| "run_call (Pop_Wait out timeout_ms) q = (case rel4u_mpmc_try_pop q (Some out) of (ok, q, i) \<Rightarrow> (Popped ok (the i), q))"
| "run_call Wake_All q = (Woken, rel4u_mpmc_wake_all q)"
| "run_call Get_Size q = (Counted (rel4u_mpmc_size (Some q)), q)"
| "run_call Get_Bytes q = (Counted (rel4u_mpmc_bytes (Some q)), q)"
| "run_call Get_Dropped q = (Counted (rel4u_mpmc_dropped_count (Some q)), q)"

text \<open>A sequence of calls from \<open>q\<close> with exactly these results; \<open>None\<close> if one of them differs.\<close>

fun replay :: "rel4u_mpmc_queue \<Rightarrow> (tid \<times> queue_call \<times> call_result) list \<Rightarrow> rel4u_mpmc_queue option" where
  "replay q [] = Some q"
| "replay q ((t, call, r) # xs) = (case run_call call q of (r', q') \<Rightarrow> if r' = r then replay q' xs else None)"

lemma replay_append: "replay q (xs @ ys) = Option.bind (replay q xs) (\<lambda>q. replay q ys)"
  by (induction q xs rule: replay.induct) (auto split: prod.splits)

subsection \<open>Mutual exclusion\<close>

fun inside :: "pc \<Rightarrow> bool" where
  "inside Idle = False"
| "inside (Calling call) = False"
| "inside (Waiting gen out timeout_ms) = False"
| "inside _ = True"

fun sleeping :: "pc \<Rightarrow> bool" where
  "sleeping (Waiting gen out timeout_ms) = True"
| "sleeping _ = False"

definition mutex_inv :: "mpmc_threads \<Rightarrow> bool" where
  "mutex_inv s \<longleftrightarrow>
     (\<forall>t. inside (mt_pc s t) \<longleftrightarrow> mu_owner (mt_mutex s) = Some t) \<and> waits_once (mt_cond s) \<and>
     in_wait (mt_cond s) = {t. sleeping (mt_pc s t)}"

lemma enter_body_inside: "inside (fst (enter_body call q))" "\<not> sleeping (fst (enter_body call q))"
  by (cases call; simp split: prod.splits)+

lemma mutex_invD:
  assumes "mutex_inv s"
  shows "inside (mt_pc s t) \<longleftrightarrow> mu_owner (mt_mutex s) = Some t" "waits_once (mt_cond s)" "t \<in> in_wait (mt_cond s) \<longleftrightarrow> sleeping (mt_pc s t)"
  using assms by (auto simp: mutex_inv_def)

lemma mutex_inv_same:
  assumes "mutex_inv s" "mt_pc s' = (mt_pc s)(t := p)" "inside p = inside (mt_pc s t)" "sleeping p = sleeping (mt_pc s t)"
    and "mt_mutex s' = mt_mutex s" "waits_once (mt_cond s')" "in_wait (mt_cond s') = in_wait (mt_cond s)"
  shows "mutex_inv s'"
  using assms by (auto simp: mutex_inv_def)

text \<open>A step of a thread that changes its own position and nothing else of the threads.\<close>

lemma run_other: "run_thread t i s = Some s' \<Longrightarrow> u \<noteq> t \<Longrightarrow> mt_pc s' u = mt_pc s u"
  by (auto simp: run_thread_def loop_head_def set_pc_def split: pc.splits prod.splits if_splits)

lemma mutex_inv_loop_head:
  assumes "mutex_inv s" "mt_pc s t = Looping gen out timeout_ms"
  shows "mutex_inv (loop_head t gen out timeout_ms s)"
proof (cases "q_count (mt_queue s) = 0 \<and> timeout_ms \<noteq> 0")
  case True
  have owner: "mu_owner (mt_mutex s) = Some t" and outside: "t \<notin> in_wait (mt_cond s)"
    using mutex_invD(1,3) [OF assms(1), of t] assms(2) by simp_all
  obtain c m where cm: "rel4u_cond_wait t (mt_cond s) (mt_mutex s) = (c, m)" by fastforce
  note c = cond_wait_law [OF mutex_invD(2) [OF assms(1)] outside cm]
  have "mutex_inv (set_pc t (Waiting gen out timeout_ms) (s\<lparr>mt_cond := c, mt_mutex := m\<rparr>))"
    using assms(1) c owner by (auto simp: mutex_inv_def set_pc_def)
  with True cm show ?thesis by (simp add: loop_head_def)
next
  case False
  then obtain call r q where "loop_head t gen out timeout_ms s = set_pc t (Leaving call r) (s\<lparr>mt_queue := q\<rparr>)"
  proof (cases "q_count (mt_queue s) = 0")
    case True
    with False show ?thesis by (intro that [of "Pop_Wait out timeout_ms" "Popped False out" "mt_queue s"]) (simp add: loop_head_def)
  next
    case pop: False
    obtain ok q i where "mpmc_pop_head_locked (mt_queue s) out = (ok, q, i)" by (metis prod.exhaust)
    with pop show ?thesis by (intro that [of "Pop_Wait out timeout_ms" "Popped ok i" q]) (simp add: loop_head_def)
  qed
  then show ?thesis using assms mutex_invD(2) [OF assms(1)] 
    by (intro mutex_inv_same [OF assms(1), where t = t and p = "Leaving call r"]) (simp_all add: set_pc_def)
qed

text \<open>The steps by the position of the thread.\<close>

lemma run_thread_simps:
  "mt_pc s t = Idle \<Longrightarrow> run_thread t i s = None"
  "mt_pc s t = Calling call \<Longrightarrow>
     run_thread t i s = map_option (\<lambda>m. set_pc t (Locked call) (s\<lparr>mt_mutex := m\<rparr>)) (rel4u_mutex_lock t (mt_mutex s))"
  "mt_pc s t = Locked call \<Longrightarrow> run_thread t i s =
     Some (set_pc t (fst (enter_body call (mt_queue s))) (s\<lparr>mt_queue := snd (enter_body call (mt_queue s))\<rparr>))"
  "mt_pc s t = Signalling call ok \<Longrightarrow> run_thread t i s = Some (set_pc t (Leaving call (Pushed ok))
     (s\<lparr>mt_queue := cond_signal ok (mt_queue s), mt_cond := (if ok then rel4u_cond_signal i (mt_cond s) else mt_cond s)\<rparr>))"
  "mt_pc s t = Broadcasting \<Longrightarrow> run_thread t i s = Some (set_pc t (Leaving Wake_All Woken)
     (s\<lparr>mt_queue := (mt_queue s)\<lparr>q_cond := q_cond (mt_queue s) + 1\<rparr>, mt_cond := rel4u_cond_broadcast (mt_cond s)\<rparr>))"
  "mt_pc s t = Looping gen out timeout_ms \<Longrightarrow> run_thread t i s = Some (loop_head t gen out timeout_ms s)"
  "mt_pc s t = Waiting gen out timeout_ms \<Longrightarrow> run_thread t i s =
     map_option (\<lambda>(signaled, c, m). set_pc t (Checking signaled gen out timeout_ms) (s\<lparr>mt_cond := c, mt_mutex := m\<rparr>))
       (cond_return t (mt_cond s) (mt_mutex s))"
  "mt_pc s t = Checking signaled gen out timeout_ms \<Longrightarrow> run_thread t i s =
     Some (set_pc t (if gives_up signaled gen timeout_ms (mt_queue s) then Leaving (Pop_Wait out timeout_ms) (Popped False out)
                     else Looping gen out timeout_ms) s)"
  "mt_pc s t = Leaving call r \<Longrightarrow> run_thread t i s =
     Some (set_pc t Idle (s\<lparr>mt_mutex := rel4u_mutex_unlock (mt_mutex s), mt_done := mt_done s @ [(t, call, r)]\<rparr>))"
  by (simp_all add: run_thread_def case_prod_unfold)

lemma set_pc_fields [simp]:
  "mt_queue (set_pc t p s) = mt_queue s" "mt_mutex (set_pc t p s) = mt_mutex s" "mt_cond (set_pc t p s) = mt_cond s"
  "mt_done (set_pc t p s) = mt_done s" "mt_pc (set_pc t p s) = (mt_pc s)(t := p)"
  by (simp_all add: set_pc_def)

lemma mutex_inv_run:
  assumes "mutex_inv s" "run_thread t i s = Some s'"
  shows "mutex_inv s'"
proof -
  note w = mutex_invD(2) [OF assms(1)] and same = mutex_inv_same [OF assms(1)]
  show ?thesis
  proof (cases "mt_pc s t")
    case (Calling call)
    then obtain m where "rel4u_mutex_lock t (mt_mutex s) = Some m" "s' = set_pc t (Locked call) (s\<lparr>mt_mutex := m\<rparr>)"
      using assms(2) by (auto simp: run_thread_simps(2))
    with Calling assms(1) show ?thesis by (auto simp: rel4u_mutex_lock_def mutex_inv_def split: if_splits)
  next
    case (Locked call)
    then have s': "s' = set_pc t (fst (enter_body call (mt_queue s))) (s\<lparr>mt_queue := snd (enter_body call (mt_queue s))\<rparr>)"
      using assms(2) by (simp add: run_thread_simps(3))
    show ?thesis by (rule same [where t = t and p = "mt_pc s' t"]) (use Locked enter_body_inside w in \<open>simp_all add: s'\<close>)
  next
    case (Signalling call ok)
    then have s': "s' = set_pc t (Leaving call (Pushed ok)) (s\<lparr>mt_queue := cond_signal ok (mt_queue s),
        mt_cond := (if ok then rel4u_cond_signal i (mt_cond s) else mt_cond s)\<rparr>)" using assms(2) by (simp add: run_thread_simps(4))
    show ?thesis by (rule same [where t = t and p = "mt_pc s' t"]) (use Signalling cond_signal_law(1,2) [OF w, of i] w in \<open>simp_all add: s'\<close>)
  next
    case Broadcasting
    then have s': "s' = set_pc t (Leaving Wake_All Woken) (s\<lparr>mt_queue := (mt_queue s)\<lparr>q_cond := q_cond (mt_queue s) + 1\<rparr>,
        mt_cond := rel4u_cond_broadcast (mt_cond s)\<rparr>)" using assms(2) by (simp add: run_thread_simps(5))
    show ?thesis by (rule same [where t = t and p = "mt_pc s' t"]) (use Broadcasting cond_broadcast_law [of "mt_cond s"] w in \<open>simp_all add: s'\<close>)
  next
    case (Looping gen out timeout_ms)
    with assms mutex_inv_loop_head show ?thesis by (auto simp: run_thread_simps(6))
  next
    case (Waiting gen out timeout_ms)
    then obtain b c m where r: "cond_return t (mt_cond s) (mt_mutex s) = Some (b, c, m)"
        "s' = set_pc t (Checking b gen out timeout_ms) (s\<lparr>mt_cond := c, mt_mutex := m\<rparr>)"
      using assms(2) by (auto simp: run_thread_simps(7))
    from cond_return_law [OF w r(1)] assms(1) r(2) show ?thesis by (auto simp: mutex_inv_def)
  next
    case (Checking b gen out timeout_ms)
    then have s': "s' = set_pc t (if gives_up b gen timeout_ms (mt_queue s) then Leaving (Pop_Wait out timeout_ms) (Popped False out)
        else Looping gen out timeout_ms) s" using assms(2) by (simp add: run_thread_simps(8))
    show ?thesis by (rule same [where t = t and p = "mt_pc s' t"]) (use Checking w in \<open>simp_all add: s'\<close>)
  next
    case (Leaving call r)
    then have s': "s' = set_pc t Idle (s\<lparr>mt_mutex := rel4u_mutex_unlock (mt_mutex s), mt_done := mt_done s @ [(t, call, r)]\<rparr>)"
      using assms(2) by (simp add: run_thread_simps(9))
    show ?thesis using Leaving mutex_invD(1) [OF assms(1), of t] assms(1) by (auto simp: s' mutex_inv_def rel4u_mutex_unlock_def)
  qed (use assms in \<open>simp add: run_thread_simps(1)\<close>)
qed

lemma mutex_inv_step:
  assumes "threads_step x s = Some s'" "mutex_inv s"
  shows "mutex_inv s'"
proof (cases x)
  case (Begin t call)
  with assms mutex_invD(2) [OF assms(2)] show ?thesis
    by (intro mutex_inv_same [OF assms(2), where t = t and p = "Calling call"]) (auto split: if_splits)
next
  case (Run t i)
  with assms mutex_inv_run show ?thesis by simp
next
  case (Wake t b)
  have w: "waits_once (mt_cond s)" using assms(2) by (simp add: mutex_inv_def)
  from Wake assms cond_wake_law [OF w, of t b] show ?thesis by (auto simp: mutex_inv_def split: if_splits)
qed

lemma owner_unique: "mutex_inv s \<Longrightarrow> inside (mt_pc s t) \<Longrightarrow> inside (mt_pc s u) \<Longrightarrow> u = t"
  by (auto simp: mutex_inv_def)

subsection \<open>Linearization\<close>

text \<open>
  How the queue \<open>q'\<close> a thread in its critical section has left differs from the queue \<open>q\<close> after all calls that have returned.
\<close>

fun pending :: "pc \<Rightarrow> rel4u_mpmc_queue \<Rightarrow> rel4u_mpmc_queue \<Rightarrow> bool" where
  "pending (Signalling call ok) q q' \<longleftrightarrow> run_call call q = (Pushed ok, cond_signal ok q')"
| "pending Broadcasting q q' \<longleftrightarrow> q' = q\<lparr>q_wake_generation := q_wake_generation q + 1\<rparr>"
| "pending (Leaving call r) q q' \<longleftrightarrow> run_call call q = (r, q')"
| "pending _ q q' \<longleftrightarrow> q' = q"

definition linear_inv :: "rel4u_mpmc_queue \<Rightarrow> mpmc_threads \<Rightarrow> bool" where
  "linear_inv q0 s \<longleftrightarrow> mutex_inv s \<and>
     (\<exists>q. replay q0 (mt_done s) = Some q \<and>
       (case mu_owner (mt_mutex s) of None \<Rightarrow> mt_queue s = q | Some t \<Rightarrow> pending (mt_pc s t) q (mt_queue s)))"

lemma pending_body: "case enter_body call q of (p, q') \<Rightarrow> pending p q q'"
  by (cases call) (auto simp: rel4u_mpmc_try_push_def rel4u_mpmc_push_notify_def rel4u_mpmc_push_front_def rel4u_mpmc_try_pop_def
    rel4u_mpmc_size_def rel4u_mpmc_bytes_def rel4u_mpmc_dropped_count_def split: prod.splits)

lemma pending_not_inside: "\<not> inside p \<Longrightarrow> pending p q q' \<longleftrightarrow> q' = q"
  by (cases p) simp_all

text \<open>The owner's step, and what it may do to the calls that have returned.\<close>

lemma pop_nothing: "q_count q = 0 \<Longrightarrow> run_call (Pop_Wait out timeout_ms) q = (Popped False out, q)"
  by (simp add: rel4u_mpmc_try_pop_def mpmc_pop_head_locked_def)

lemma loop_head_pending:
  "mt_done (loop_head t gen out timeout_ms s) = mt_done s \<and>
   pending (mt_pc (loop_head t gen out timeout_ms s) t) (mt_queue s) (mt_queue (loop_head t gen out timeout_ms s))"
proof (cases "q_count (mt_queue s) = 0")
  case True
  with pop_nothing [OF True] show ?thesis by (simp add: loop_head_def rel4u_cond_wait_def)
next
  case False
  then show ?thesis by (cases "mpmc_pop_head_locked (mt_queue s) out") (simp add: loop_head_def rel4u_mpmc_try_pop_def)
qed

lemma pending_run:
  assumes "run_thread t i s = Some s'" "replay q0 (mt_done s) = Some q" "pending (mt_pc s t) q (mt_queue s)"
  shows "\<exists>q'. replay q0 (mt_done s') = Some q' \<and> pending (mt_pc s' t) q' (mt_queue s')"
proof (cases "mt_pc s t")
  case (Calling call)
  with assms show ?thesis by (auto simp: run_thread_simps(2))
next
  case (Locked call)
  with assms pending_body [where call = call and q = "mt_queue s"] show ?thesis by (auto simp: run_thread_simps(3))
next
  case (Signalling call ok)
  with assms show ?thesis by (auto simp: run_thread_simps(4))
next
  case Broadcasting
  with assms show ?thesis by (auto simp: run_thread_simps(5) rel4u_mpmc_wake_all_def)
next
  case (Looping gen out timeout_ms)
  with assms loop_head_pending [of t gen out timeout_ms s] show ?thesis by (auto simp: run_thread_simps(6))
next
  case (Waiting gen out timeout_ms)
  with assms show ?thesis by (auto simp: run_thread_simps(7))
next
  case (Checking b gen out timeout_ms)
  with assms pop_nothing [of "mt_queue s" out timeout_ms] show ?thesis by (auto simp: run_thread_simps(8) gives_up_def)
next
  case (Leaving call r)
  with assms show ?thesis by (auto simp: run_thread_simps(9) replay_append)
qed (use assms in \<open>simp add: run_thread_simps(1)\<close>)

text \<open>The steps that leave the queue and the returned calls alone are those of threads that were not inside.\<close>

lemma outside_run:
  assumes "run_thread t i s = Some s'" "\<not> inside (mt_pc s t)"
  shows "mt_queue s' = mt_queue s \<and> mt_done s' = mt_done s \<and> mu_owner (mt_mutex s) = None \<and> mu_owner (mt_mutex s') = Some t \<and>
    pending (mt_pc s' t) (mt_queue s) (mt_queue s)"
proof (cases "mt_pc s t")
  case (Calling call)
  with assms show ?thesis by (auto simp: run_thread_simps(2) rel4u_mutex_lock_def split: if_splits)
next
  case (Waiting gen out timeout_ms)
  with assms show ?thesis
    by (auto simp: run_thread_simps(7) rel4u_mutex_lock_def cond_return_def split: option.splits if_splits)
qed (use assms in \<open>simp_all add: run_thread_simps(1)\<close>)

lemma linear_inv_run:
  assumes "linear_inv q0 s" "run_thread t i s = Some s'"
  shows "linear_inv q0 s'"
proof -
  have m: "mutex_inv s" "mutex_inv s'" using assms mutex_inv_run by (auto simp: linear_inv_def)
  from assms(1) obtain q where q: "replay q0 (mt_done s) = Some q"
      "case mu_owner (mt_mutex s) of None \<Rightarrow> mt_queue s = q | Some t \<Rightarrow> pending (mt_pc s t) q (mt_queue s)"
    by (auto simp: linear_inv_def)
  show ?thesis
  proof (cases "inside (mt_pc s t)")
    case True
    then have "mu_owner (mt_mutex s) = Some t" using m(1) by (simp add: mutex_inv_def)
    with q pending_run [OF assms(2) q(1)] obtain q' where
      q': "replay q0 (mt_done s') = Some q'" "pending (mt_pc s' t) q' (mt_queue s')" by auto
    have "u = t" if "mu_owner (mt_mutex s') = Some u" for u
      using that mutex_invD(1) [OF m(2), of u] run_other [OF assms(2), of u] owner_unique [OF m(1) True, of u] by fastforce
    then have "mu_owner (mt_mutex s') = (if inside (mt_pc s' t) then Some t else None)"
      using mutex_invD(1) [OF m(2), of t] by (cases "mu_owner (mt_mutex s')") auto
    with q' m(2) pending_not_inside show ?thesis by (auto simp: linear_inv_def)
  next
    case False
    note o = outside_run [OF assms(2) False]
    with q m(2) show ?thesis by (auto simp: linear_inv_def)
  qed
qed

lemma linear_inv_step:
  assumes "threads_step x s = Some s'" "linear_inv q0 s"
  shows "linear_inv q0 s'"
proof (cases x)
  case (Begin t call)
  have "mutex_inv s'" using mutex_inv_step [OF assms(1)] assms(2) by (simp add: linear_inv_def)
  moreover have "mu_owner (mt_mutex s) \<noteq> Some t"
    using assms Begin mutex_invD(1) [of s t] by (auto simp: linear_inv_def split: if_splits)
  ultimately show ?thesis using assms Begin by (auto simp: linear_inv_def set_pc_def split: if_splits option.splits)
next
  case (Run t i)
  with assms linear_inv_run show ?thesis by simp
next
  case (Wake t b)
  have "mutex_inv s'" using mutex_inv_step [OF assms(1)] assms(2) by (simp add: linear_inv_def)
  with assms Wake show ?thesis by (auto simp: linear_inv_def split: if_splits option.splits)
qed

lemma linear_inv_init: "linear_inv q (threads_init q)"
  by (simp add: linear_inv_def mutex_inv_def threads_init_def rel4u_mutex_init_def)

interpretation linear_threads: kept_by_events threads_step "linear_inv q0" "\<lambda>_. True" for q0
  by unfold_locales (rule linear_inv_step)

subsection \<open>No lost wake-up\<close>

text \<open>
  Calls that may be made of a queue with sleeping readers: valid messages, enough room for what is read, and every push notifies. That is how client and
  server fill the queue the application reads.
\<close>

fun notifying :: "queue_call \<Rightarrow> bool" where
  "notifying (Try_Push alloc i) = False"
| "notifying (Push_Notify alloc i) = (fresh_alloc alloc \<and> valid_item i)"
| "notifying (Push_Front alloc i) = (fresh_alloc alloc \<and> valid_item i)"
| "notifying (Try_Pop out) = out_room out"
| "notifying (Pop_Wait out timeout_ms) = out_room out"
| "notifying _ = True"

fun call_at :: "pc \<Rightarrow> queue_call option" where
  "call_at (Calling call) = Some call"
| "call_at (Locked call) = Some call"
| "call_at (Looping gen out timeout_ms) = Some (Pop_Wait out timeout_ms)"
| "call_at (Waiting gen out timeout_ms) = Some (Pop_Wait out timeout_ms)"
| "call_at (Checking b gen out timeout_ms) = Some (Pop_Wait out timeout_ms)"
| "call_at _ = None"

fun event_notifying :: "thread_event \<Rightarrow> bool" where
  "event_notifying (Begin t call) = notifying call"
| "event_notifying _ = True"

text \<open>
  A reader on its way to a message: woken and not yet at the head of the loop, at the head of the loop, or about to be woken.
\<close>

fun credit :: "pc \<Rightarrow> nat" where
  "credit (Signalling call ok) = (if ok then 1 else 0)"
| "credit (Looping gen out timeout_ms) = 1"
| "credit (Checking b gen out timeout_ms) = 1"
| "credit _ = 0"

definition on_their_way :: "mpmc_threads \<Rightarrow> nat" where
  "on_their_way s = length (co_woken (mt_cond s)) + (case mu_owner (mt_mutex s) of None \<Rightarrow> 0 | Some t \<Rightarrow> credit (mt_pc s t))"

definition wake_inv :: "mpmc_threads \<Rightarrow> bool" where
  "wake_inv s \<longleftrightarrow> mutex_inv s \<and> queue_inv (mt_queue s) \<and> (\<forall>t call. call_at (mt_pc s t) = Some call \<longrightarrow> notifying call) \<and>
     (co_waiting (mt_cond s) = [] \<or> length (queue_msgs (mt_queue s)) \<le> on_their_way s)"

lemma queue_generation [simp]:
  "queue_inv (q\<lparr>q_wake_generation := g\<rparr>) = queue_inv q" "queue_msgs (q\<lparr>q_wake_generation := g\<rparr>) = queue_msgs q"
  "queue_inv (q\<lparr>q_cond := n\<rparr>) = queue_inv q" "queue_msgs (q\<lparr>q_cond := n\<rparr>) = queue_msgs q"
proof -
  have "list_inv (q\<lparr>q_wake_generation := g\<rparr>) = list_inv q" "list_inv (q\<lparr>q_cond := n\<rparr>) = list_inv q"
    by (rule ext, simp add: list_inv_def)+
  then show "queue_inv (q\<lparr>q_wake_generation := g\<rparr>) = queue_inv q" "queue_msgs (q\<lparr>q_wake_generation := g\<rparr>) = queue_msgs q"
    "queue_inv (q\<lparr>q_cond := n\<rparr>) = queue_inv q" "queue_msgs (q\<lparr>q_cond := n\<rparr>) = queue_msgs q"
    by (simp_all add: queue_inv_def queue_msgs_def ring_inv_def ring_msgs_def ring_at_def)
qed

text \<open>What a body does to the number of messages, and the readers it brings on their way.\<close>

lemma push_length:
  assumes "push_effect add alloc q i (ok, q')" "\<And>ms. length (add ms) = Suc (length ms)"
  shows "queue_inv q'" "length (queue_msgs q') \<le> length (queue_msgs q) + (if ok then 1 else 0)"
  using push_effect_law [OF assms(1)] assms(2) by auto

lemma pop_length:
  assumes "queue_inv q" "out_room out" "mpmc_pop_head_locked q out = (ok, q', i)"
  shows "queue_inv q'" "length (queue_msgs q') = length (queue_msgs q) - 1" "ok \<longleftrightarrow> queue_msgs q \<noteq> []"
    "queue_msgs q \<noteq> [] \<Longrightarrow> queue_msgs q = item_msg i # queue_msgs q'"
proof -
  have p: "rel4u_mpmc_try_pop q (Some out) = (ok, q', Some i)" using assms(3) by (simp add: rel4u_mpmc_try_pop_def)
  consider "queue_msgs q = []" | "queue_msgs q \<noteq> []" by blast
  then have "queue_inv q' \<and> length (queue_msgs q') = length (queue_msgs q) - 1 \<and> (ok \<longleftrightarrow> queue_msgs q \<noteq> []) \<and>
      (queue_msgs q \<noteq> [] \<longrightarrow> queue_msgs q = item_msg i # queue_msgs q')"
  proof cases
    case 1
    with try_queue.pop_empty_law [OF assms(1) 1, of out] p assms(1) show ?thesis by simp
  next
    case 2
    with try_queue.pop_head_law [OF assms(1) 2 assms(2)] p show ?thesis by auto
  qed
  then show "queue_inv q'" "length (queue_msgs q') = length (queue_msgs q) - 1" "ok \<longleftrightarrow> queue_msgs q \<noteq> []"
    "queue_msgs q \<noteq> [] \<Longrightarrow> queue_msgs q = item_msg i # queue_msgs q'" by blast+
qed

lemma body_length:
  assumes "queue_inv q" "notifying call" "enter_body call q = (p, q')"
  shows "queue_inv q'" "length (queue_msgs q') \<le> length (queue_msgs q) + credit p" "call_at p = None \<or> call_at p = Some call"
proof -
  have "queue_inv q' \<and> length (queue_msgs q') \<le> length (queue_msgs q) + credit p \<and> (call_at p = None \<or> call_at p = Some call)"
  proof (cases call)
    case (Push_Notify alloc i)
    obtain ok q1 where 1: "mpmc_push_back_locked alloc q i = (ok, q1)" by (metis prod.exhaust)
    with push_back_effect [OF assms(1)] Push_Notify assms(2) have "push_effect (\<lambda>ms. ms @ [item_msg i]) alloc q i (ok, q1)" by fastforce
    from push_length [OF this] 1 Push_Notify assms(3) show ?thesis by auto
  next
    case (Push_Front alloc i)
    obtain ok q1 where 1: "mpmc_push_front_locked alloc q i = (ok, q1)" by (metis prod.exhaust)
    with push_front_effect [OF assms(1)] Push_Front assms(2) have "push_effect ((#) (item_msg i)) alloc q i (ok, q1)" by fastforce
    from push_length [OF this] 1 Push_Front assms(3) show ?thesis by auto
  next
    case (Try_Pop out)
    obtain ok q1 i where 1: "mpmc_pop_head_locked q out = (ok, q1, i)" by (metis prod.exhaust)
    from pop_length [OF assms(1) _ 1] 1 Try_Pop assms(2,3) show ?thesis by auto
  qed (use assms in auto)
  then show "queue_inv q'" "length (queue_msgs q') \<le> length (queue_msgs q) + credit p" "call_at p = None \<or> call_at p = Some call"
    by blast+
qed

lemma no_messages: "queue_inv q \<Longrightarrow> q_count q = 0 \<longleftrightarrow> queue_msgs q = []"
  using length_queue_msgs [of q] by (metis length_0_conv unsigned_eq_0_iff)

text \<open>One thread's view of the readers on their way, while no other thread has the mutex.\<close>

definition served :: "tid \<Rightarrow> mpmc_threads \<Rightarrow> bool" where
  "served t s \<longleftrightarrow> queue_inv (mt_queue s) \<and> (\<forall>call. call_at (mt_pc s t) = Some call \<longrightarrow> notifying call) \<and>
     (co_waiting (mt_cond s) = [] \<or> length (queue_msgs (mt_queue s)) \<le> length (co_woken (mt_cond s)) + credit (mt_pc s t))"

lemma credit_outside: "\<not> inside p \<Longrightarrow> credit p = 0"
  by (cases p) simp_all

lemma on_their_way_of:
  assumes "mutex_inv s" "mu_owner (mt_mutex s) = None \<or> mu_owner (mt_mutex s) = Some t"
  shows "on_their_way s = length (co_woken (mt_cond s)) + credit (mt_pc s t)"
  using assms mutex_invD(1) [OF assms(1), of t] credit_outside by (auto simp: on_their_way_def)

lemma served_loop_head:
  assumes "served t s" "mt_pc s t = Looping gen out timeout_ms"
  shows "served t (loop_head t gen out timeout_ms s)"
proof -
  have q: "queue_inv (mt_queue s)" "out_room out" using assms by (simp_all add: served_def)
  show ?thesis
  proof (cases "q_count (mt_queue s) = 0")
    case True
    with no_messages [OF q(1)] q show ?thesis by (auto simp: loop_head_def served_def rel4u_cond_wait_def)
  next
    case False
    obtain ok q' i where p: "mpmc_pop_head_locked (mt_queue s) out = (ok, q', i)" by (metis prod.exhaust)
    from pop_length(1,2) [OF q p] False p assms no_messages [OF q(1)] show ?thesis
      by (auto simp: loop_head_def served_def)
  qed
qed

lemma served_run:
  assumes "run_thread t i s = Some s'" "served t s" "waits_once (mt_cond s)"
  shows "served t s'"
proof (cases "mt_pc s t")
  case (Calling call)
  with assms(1,2) show ?thesis by (auto simp: run_thread_simps(2) served_def)
next
  case (Locked call)
  have c: "queue_inv (mt_queue s)" "notifying call" using assms(2) Locked by (simp_all add: served_def)
  obtain p q where b: "enter_body call (mt_queue s) = (p, q)" by fastforce
  from body_length [OF c b] c Locked assms(1,2) b show ?thesis by (auto simp: run_thread_simps(3) served_def)
next
  case (Signalling call ok)
  with assms(1,2) cond_signal_law(3) [OF assms(3), of i] show ?thesis
    by (cases "co_waiting (mt_cond s) = []"; cases ok) (auto simp: run_thread_simps(4) served_def)
next
  case Broadcasting
  with assms(1,2) cond_broadcast_law(3) show ?thesis by (auto simp: run_thread_simps(5) served_def)
next
  case (Looping gen out timeout_ms)
  with assms(1,2) served_loop_head show ?thesis by (auto simp: run_thread_simps(6))
next
  case (Waiting gen out timeout_ms)
  then obtain b c m where r: "cond_return t (mt_cond s) (mt_mutex s) = Some (b, c, m)"
      "s' = set_pc t (Checking b gen out timeout_ms) (s\<lparr>mt_cond := c, mt_mutex := m\<rparr>)"
    using assms(1) by (auto simp: run_thread_simps(7))
  from cond_return_law(6,7) [OF assms(3) r(1)] r(2) Waiting assms(2) show ?thesis by (auto simp: served_def)
next
  case (Checking b gen out timeout_ms)
  with assms(1,2) no_messages [of "mt_queue s"] show ?thesis
    by (cases "gives_up b gen timeout_ms (mt_queue s)") (auto simp: run_thread_simps(8) served_def, auto simp: gives_up_def)
next
  case (Leaving call r)
  with assms(1,2) show ?thesis by (auto simp: run_thread_simps(9) served_def)
qed (use assms in \<open>simp add: run_thread_simps(1)\<close>)

lemma owner_run:
  assumes "mutex_inv s" "run_thread t i s = Some s'"
  shows "mu_owner (mt_mutex s) = None \<or> mu_owner (mt_mutex s) = Some t" "mu_owner (mt_mutex s') = None \<or> mu_owner (mt_mutex s') = Some t"
proof -
  show before: "mu_owner (mt_mutex s) = None \<or> mu_owner (mt_mutex s) = Some t"
    using outside_run [OF assms(2)] mutex_invD(1) [OF assms(1), of t] by auto
  have "u = t" if "mu_owner (mt_mutex s') = Some u" for u
  proof (rule ccontr)
    assume "u \<noteq> t"
    with that run_other [OF assms(2)] mutex_invD(1) [OF mutex_inv_run [OF assms], of u] have "inside (mt_pc s u)" by simp
    with before mutex_invD(1) [OF assms(1), of u] \<open>u \<noteq> t\<close> show False by auto
  qed
  then show "mu_owner (mt_mutex s') = None \<or> mu_owner (mt_mutex s') = Some t" by (cases "mu_owner (mt_mutex s')") auto
qed

lemma wake_inv_run:
  assumes "wake_inv s" "run_thread t i s = Some s'"
  shows "wake_inv s'"
proof -
  have m: "mutex_inv s" "mutex_inv s'" using assms mutex_inv_run by (auto simp: wake_inv_def)
  have "served t s" using assms(1) on_their_way_of [OF m(1) owner_run(1) [OF m(1) assms(2)]] by (simp add: wake_inv_def served_def)
  then have "served t s'" using served_run [OF assms(2) _ mutex_invD(2) [OF m(1)]] by simp
  moreover have "call_at (mt_pc s' u) = Some call \<longrightarrow> notifying call" for u call
    using calculation assms(1) run_other [OF assms(2), of u] by (cases "u = t") (auto simp: served_def wake_inv_def)
  ultimately show ?thesis
    using m(2) on_their_way_of [OF m(2) owner_run(2) [OF m(1) assms(2)]] by (simp add: wake_inv_def served_def)
qed

lemma wake_inv_step:
  assumes "threads_step x s = Some s'" "event_notifying x" "wake_inv s"
  shows "wake_inv s'"
proof -
  have m: "mutex_inv s" "mutex_inv s'" using assms mutex_inv_step by (auto simp: wake_inv_def)
  show ?thesis
  proof (cases x)
    case (Begin t call)
    then have "mu_owner (mt_mutex s) \<noteq> Some t" using assms(1) mutex_invD(1) [OF m(1), of t] by (auto split: if_splits)
    then have "on_their_way s' = on_their_way s" using assms(1) Begin by (auto simp: on_their_way_def split: if_splits option.splits)
    with assms Begin m(2) show ?thesis by (auto simp: wake_inv_def split: if_splits)
  next
    case (Run t i)
    with assms wake_inv_run show ?thesis by simp
  next
    case (Wake t b)
    then have s': "s' = s\<lparr>mt_cond := cond_wake t b (mt_cond s)\<rparr>" "t \<in> set (co_waiting (mt_cond s))" using assms(1) by (auto split: if_splits)
    then have "on_their_way s' = Suc (on_their_way s)"
      using cond_wake_law(3) [OF mutex_invD(2) [OF m(1)] s'(2), of b] by (simp add: on_their_way_def split: option.splits)
    with assms(3) m(2) s' show ?thesis by (auto simp: wake_inv_def)
  qed
qed

lemma wake_inv_init: "queue_inv q \<Longrightarrow> wake_inv (threads_init q)"
  by (simp add: wake_inv_def mutex_inv_def threads_init_def rel4u_mutex_init_def rel4u_cond_init_def waits_once_def in_wait_def)

interpretation wake_threads: kept_by_events threads_step wake_inv event_notifying
  by unfold_locales (rule wake_inv_step)

text \<open>A woken thread that gets the free mutex of a queue with messages returns the oldest.\<close>

lemma woken_pops:
  assumes inv: "wake_inv s" and free: "mu_owner (mt_mutex s) = None" and msgs: "queue_msgs (mt_queue s) \<noteq> []"
    and t: "(t, b) \<in> set (co_woken (mt_cond s))"
  shows "\<exists>s' out timeout_ms i. run_events threads_step (replicate 4 (Run t 0)) s = Some s' \<and>
    mt_done s' = mt_done s @ [(t, Pop_Wait out timeout_ms, Popped True i)] \<and> mu_owner (mt_mutex s') = None \<and>
    queue_msgs (mt_queue s) = item_msg i # queue_msgs (mt_queue s')"
proof -
  have m: "mutex_inv s" and q: "queue_inv (mt_queue s)" using inv by (simp_all add: wake_inv_def)
  have "t \<in> in_wait (mt_cond s)" using t by (force simp: in_wait_def)
  then obtain gen out timeout_ms where w: "mt_pc s t = Waiting gen out timeout_ms"
    using mutex_invD(3) [OF m, of t] by (cases "mt_pc s t") auto
  then have room: "out_room out" using inv by (auto simp: wake_inv_def dest: spec [of _ t])
  obtain b' c m' where r: "cond_return t (mt_cond s) (mt_mutex s) = Some (b', c, m')" using cond_return_enabled [OF t free] by blast
  obtain ok q' i where p: "mpmc_pop_head_locked (mt_queue s) out = (ok, q', i)" by (metis prod.exhaust)
  note pop = pop_length(3,4) [OF q room p]
  have n: "q_count (mt_queue s) \<noteq> 0" using no_messages [OF q] msgs by simp
  let ?s1 = "set_pc t (Checking b' gen out timeout_ms) (s\<lparr>mt_cond := c, mt_mutex := m'\<rparr>)"
  let ?s2 = "set_pc t (Looping gen out timeout_ms) ?s1"
  let ?s3 = "set_pc t (Leaving (Pop_Wait out timeout_ms) (Popped ok i)) (?s2\<lparr>mt_queue := q'\<rparr>)"
  let ?s4 = "set_pc t Idle (?s3\<lparr>mt_mutex := rel4u_mutex_unlock (mt_mutex ?s3), mt_done := mt_done ?s3 @ [(t, Pop_Wait out timeout_ms, Popped ok i)]\<rparr>)"
  have "run_thread t 0 s = Some ?s1" using w r by (simp add: run_thread_simps(7))
  moreover have "run_thread t 0 ?s1 = Some ?s2" using n by (subst run_thread_simps(8)) (simp_all add: gives_up_def)
  moreover have "run_thread t 0 ?s2 = Some ?s3" 
    by (subst run_thread_simps(6) [where gen = gen and out = out and timeout_ms = timeout_ms]) (simp_all add: loop_head_def n p)
  moreover have "run_thread t 0 ?s3 = Some ?s4" by (subst run_thread_simps(9)) simp_all
  ultimately have "run_events threads_step (replicate 4 (Run t 0)) s = Some ?s4" by (simp add: numeral_eq_Suc)
  with pop msgs show ?thesis
    by (intro exI [of _ ?s4] exI [of _ out] exI [of _ timeout_ms] exI [of _ i]) (simp add: rel4u_mutex_unlock_def)
qed

subsection \<open>Properties\<close>

text \<open>
  C6. Any number of threads on one queue behave like one after the other. Whatever the schedule, at most one thread is in a critical section, and
  the calls that have returned have exactly the results, and whenever the mutex is free leave exactly the queue, of the same calls made as single steps in
  the order in which they released the mutex. A waiting pop counts as a pop at the moment it returns.
\<close>

theorem threads_linearizable:
  assumes "run_events threads_step xs (threads_init q) = Some s"
  shows "\<exists>q'. replay q (mt_done s) = Some q' \<and> (mu_owner (mt_mutex s) = None \<longrightarrow> mt_queue s = q') \<and>
    (\<forall>t u. inside (mt_pc s t) \<and> inside (mt_pc s u) \<longrightarrow> t = u)"
proof -
  from linear_threads.run_kept [OF assms _ linear_inv_init] have inv: "linear_inv q s" by simp
  then obtain q' where "replay q (mt_done s) = Some q'"
    "case mu_owner (mt_mutex s) of None \<Rightarrow> mt_queue s = q' | Some t \<Rightarrow> pending (mt_pc s t) q' (mt_queue s)"
    by (auto simp: linear_inv_def)
  with inv owner_unique [of s] show ?thesis by (auto simp: linear_inv_def)
qed

text \<open>
  C7. No wake-up is lost. On a queue to which every push notifies, with waits that may also time out or end spuriously: whenever the mutex is free, messages are
  queued and a reader sleeps, at least as many readers are already woken as there are messages; and every one of them, as soon as it gets the
  mutex, returns the oldest message. So no message stays in the queue because its readers sleep.
\<close>

theorem threads_no_lost_wakeup:
  assumes "queue_inv q" "\<forall>x \<in> set xs. event_notifying x" "run_events threads_step xs (threads_init q) = Some s"
    and "mu_owner (mt_mutex s) = None" "queue_msgs (mt_queue s) \<noteq> []" "co_waiting (mt_cond s) \<noteq> []"
  shows "length (queue_msgs (mt_queue s)) \<le> length (co_woken (mt_cond s)) \<and>
    (\<forall>(t, b) \<in> set (co_woken (mt_cond s)). \<exists>s' out timeout_ms i. run_events threads_step (replicate 4 (Run t 0)) s = Some s' \<and>
       mt_done s' = mt_done s @ [(t, Pop_Wait out timeout_ms, Popped True i)] \<and> mu_owner (mt_mutex s') = None \<and>
       queue_msgs (mt_queue s) = item_msg i # queue_msgs (mt_queue s'))"
proof -
  have inv: "wake_inv s" by (rule wake_threads.run_kept [OF assms(3,2) wake_inv_init [OF assms(1)]])
  then have "length (queue_msgs (mt_queue s)) \<le> length (co_woken (mt_cond s))" using assms(4,6) by (simp add: wake_inv_def on_their_way_def)
  with woken_pops [OF inv assms(4,5)] show ?thesis by blast
qed

text \<open>Two readers go to sleep, and a writer pushes a message.\<close>

definition ex_schedule :: "thread_event list" where
  "ex_schedule = [Begin 1 (Pop_Wait (ex_item 0 []) (-1)), Begin 2 (Pop_Wait (ex_item 0 []) 100), Run 1 0, Run 1 0, Run 1 0, Run 2 0, Run 2 0, Run 2 0,
     Begin 3 (Push_Notify ex_alloc (ex_item 1 [7])), Run 3 0, Run 3 0, Run 3 1, Run 3 0]"

lemma ex_ring_eval: "ex_ring = \<lparr>q_mode = REL4U_MEM_FIXED, q_full_policy = REL4U_QUEUE_FULL_DROP_LAST, q_max_bytes = 18448, q_current_bytes = 18448,
    q_dropped_count = 0, q_items = [ex_item 0 [], ex_item 0 []], q_capacity = 2, q_head = 0, q_tail = 0, q_node_head = 0, q_node_tail = 0,
    q_count = 0, q_wake_generation = 0, q_cond = 0, q_nodes = fmempty\<rparr>"
  by (simp add: ex_ring_def rel4u_mpmc_init_def zero_queue_def Let_def)

lemma ex_schedule_run:
  "\<exists>s. run_events threads_step ex_schedule (threads_init ex_ring) = Some s \<and> mu_owner (mt_mutex s) = None \<and>
     q_count (mt_queue s) = 1 \<and> co_waiting (mt_cond s) = [1] \<and> co_woken (mt_cond s) = [(2, True)] \<and>
     map fst (mt_done s) = [3]"
  by (simp add: ex_schedule_def threads_init_def run_thread_def set_pc_def loop_head_def ex_ring_eval rel4u_mutex_init_def rel4u_mutex_lock_def
    rel4u_mutex_unlock_def rel4u_cond_init_def rel4u_cond_wait_def rel4u_cond_signal_def cond_wake_def cond_signal_def
    mpmc_push_back_locked_def ring_admit_def)

lemma threads_linearizable_witness:
  "\<exists>s. run_events threads_step ex_schedule (threads_init ex_ring) = Some s \<and> map fst (mt_done s) = [3] \<and>
     replay ex_ring (mt_done s) = Some (mt_queue s)"
proof -
  from ex_schedule_run obtain s where s: "run_events threads_step ex_schedule (threads_init ex_ring) = Some s" "mu_owner (mt_mutex s) = None"
      "q_count (mt_queue s) = 1" "co_waiting (mt_cond s) = [1]" "co_woken (mt_cond s) = [(2, True)]" "map fst (mt_done s) = [3]"
    by (elim exE conjE) (rule that)
  from threads_linearizable [OF s(1)] obtain q' where
    "replay ex_ring (mt_done s) = Some q'" "mu_owner (mt_mutex s) = None \<longrightarrow> mt_queue s = q'" by (elim exE conjE) (rule that)
  with s(2) have "replay ex_ring (mt_done s) = Some (mt_queue s)" by (simp only: simp_thms)
  with s(1,6) show ?thesis by (intro exI [of _ s] conjI)
qed

lemma threads_no_lost_wakeup_witness:
  "\<exists>s s' out i. run_events threads_step ex_schedule (threads_init ex_ring) = Some s \<and> co_waiting (mt_cond s) = [1] \<and>
     run_events threads_step (replicate 4 (Run 2 0)) s = Some s' \<and> mt_done s' = mt_done s @ [(2, out, Popped True i)]"
proof -
  from ex_schedule_run obtain s where s: "run_events threads_step ex_schedule (threads_init ex_ring) = Some s" "mu_owner (mt_mutex s) = None"
      "q_count (mt_queue s) = 1" "co_waiting (mt_cond s) = [1]" "co_woken (mt_cond s) = [(2, True)]" "map fst (mt_done s) = [3]"
    by (elim exE conjE) (rule that)
  have ok: "\<forall>x \<in> set ex_schedule. event_notifying x" by (simp add: ex_schedule_def)
  have "wake_inv s" by (rule wake_threads.run_kept [OF s(1) ok wake_inv_init [OF ex_queues(3)]])
  then have "queue_inv (mt_queue s)" by (simp add: wake_inv_def)
  from no_messages [OF this] s(3) have msgs: "queue_msgs (mt_queue s) \<noteq> []" by simp
  have "co_waiting (mt_cond s) \<noteq> []" "(2, True) \<in> set (co_woken (mt_cond s))" using s(4,5) by simp_all
  note law = threads_no_lost_wakeup [OF ex_queues(3) ok s(1,2) msgs this(1)]
  from bspec [OF conjunct2 [OF law] \<open>(2, True) \<in> _\<close>] obtain s' out tm i where
    "run_events threads_step (replicate 4 (Run 2 0)) s = Some s'" "mt_done s' = mt_done s @ [(2, Pop_Wait out tm, Popped True i)]"
    unfolding case_prod_conv by (elim exE conjE) (rule that)
  then show ?thesis using s(1,4) by (intro exI [of _ s] exI [of _ s'] exI [of _ "Pop_Wait out tm"] exI [of _ i] conjI)
qed

end
