(* ===== verification/Endpoint.thy ===== *)
theory Endpoint
  imports Platform "HOL-Library.Monad_Syntax"
begin

text \<open>
  What the workers of \<open>src/core/rel4u_client.c\<close> and \<open>src/core/rel4u_server.c\<close> have in common:
  building a datagram, handing received messages to the application's queue, and marking a
  slot as retransmitted. The two files contain this code twice, word for word but for the
  client id.

  \<^item> \<open>None\<close> is a memory fault, as in the windows.
\<close>

subsection \<open>The application\<close>

definition push_to_app :: "env \<Rightarrow> rel4u_mpmc_item \<Rightarrow> rel4u_mpmc_queue \<times> world \<Rightarrow> rel4u_mpmc_queue \<times> world" where
  "push_to_app e item = (\<lambda>(q, w).
     (snd (rel4u_mpmc_push_notify (env_alloc e (wd_pushes w)) q (Some item)), w\<lparr>wd_pushes := wd_pushes w + 1\<rparr>))"

text \<open>A pop takes a message out of the queue, the measure of the loops that empty one.\<close>

lemma try_pop_count:
  assumes "rel4u_mpmc_try_pop q (Some out) = (True, q', item)"
  shows "unat (q_count q') < unat (q_count q)"
proof -
  have c: "q_count q' = q_count q - 1" "q_count q \<noteq> 0"
    using assms by (auto simp: rel4u_mpmc_try_pop_def mpmc_pop_head_locked_def unlink_head_def Let_def
      split: if_splits option.splits prod.splits)
  from c(2) have "unat (q_count q - 1) = unat (q_count q) - 1" "0 < unat (q_count q)"
    by (simp_all add: unat_minus_one unat_gt_0)
  then show ?thesis unfolding c(1) by linarith
qed

text \<open>The sum the statistics report.\<close>

definition dropped_total :: "rel4u_mpmc_queue \<Rightarrow> rel4u_mpmc_queue \<Rightarrow> u64" where
  "dropped_total sq rq = rel4u_mpmc_dropped_count (Some sq) + rel4u_mpmc_dropped_count (Some rq)"

subsection \<open>Datagrams\<close>

text \<open>
  The first part of \<open>client_send_packet\<close> and \<open>server_send_packet\<close>: the length of the encoded
  header, not positive if it could not be encoded, and the bytes handed to \<open>sendto\<close>.
\<close>

definition build_datagram ::
  "env \<Rightarrow> rel4u_recv_window \<Rightarrow> u32 \<Rightarrow> u8 \<Rightarrow> u8 \<Rightarrow> u32 \<Rightarrow> u8 list option \<Rightarrow> size_t \<Rightarrow> (int \<times> u8 list) option" where
  "build_datagram e win sid type mode seq payload len =
     do {
       (ack, sack) \<leftarrow> rel4u_recv_window_get_ack_info win;
       let hdr = zero_header\<lparr>magic := REL4U_MAGIC, version := REL4U_VERSION, packet_type := type,
                   delivery_mode := mode, payload_len := ucast len, session_id := sid, seq_num := seq,
                   ack_num := ack, sack_mask := sack\<rparr>;
       case rel4u_packet_encode_header (Some hdr) (Some (env_raw_buf e))
              (of_nat (REL4U_MAX_PAYLOAD_SIZE + REL4U_HEADER_LEN)) of
         (hdr_len, Some raw_buf) \<Rightarrow>
           if hdr_len \<le> 0 then Some (hdr_len, [])
           else do {
             raw_buf \<leftarrow>
               (if len > 0 \<and> payload \<noteq> None then
                  map_option (\<lambda>body. take (nat hdr_len) raw_buf @ body)
                    (memcpy (drop (nat hdr_len) raw_buf) (the payload) (unat len))
                else Some raw_buf);
             if nat hdr_len + unat len \<le> length raw_buf
             then Some (hdr_len, take (nat hdr_len + unat len) raw_buf) else None
           }
       | (hdr_len, None) \<Rightarrow> Some (hdr_len, [])
     }"

text \<open>A header without payload or acknowledgement: \<open>DISCONNECT\<close>, \<open>REJECT\<close> and \<open>RESET\<close> packets.\<close>

definition control_datagram :: "u8 list \<Rightarrow> u8 \<Rightarrow> u32 \<Rightarrow> u32 \<Rightarrow> u8 list" where
  "control_datagram buf type sid seq =
     (case rel4u_packet_encode_header
             (Some (zero_header\<lparr>magic := REL4U_MAGIC, version := REL4U_VERSION, packet_type := type,
                session_id := sid, seq_num := seq\<rparr>))
             (Some buf) (of_nat REL4U_HEADER_LEN) of
        (_, Some b) \<Rightarrow> b
      | (_, None) \<Rightarrow> buf)"

text \<open>The two assignments to an expired slot before it is sent again; the count is a byte and wraps.\<close>

definition mark_retransmit :: "rel4u_send_window \<Rightarrow> nat \<Rightarrow> u64 \<Rightarrow> rel4u_send_window option" where
  "mark_retransmit win i now_ns =
     map_option
       (\<lambda>slot. win\<lparr>sw_slots := (sw_slots win)[i :=
          slot\<lparr>ss_last_sent_time_ns := now_ns, ss_retransmit_count := ss_retransmit_count slot + 1\<rparr>]\<rparr>)
       (deref (sw_slots win) i)"

subsection \<open>Received messages\<close>

definition ready_item :: "env \<Rightarrow> u32 \<Rightarrow> rel4u_recv_slot \<Rightarrow> rel4u_mpmc_item option" where
  "ready_item e cid slot =
     map_option
       (\<lambda>data. (env_item e)\<lparr>it_client_id := cid, it_mode := rs_delivery_mode slot, it_len := rs_payload_len slot,
          it_data := data\<rparr>)
       (memcpy (it_data (env_item e)) (rs_payload slot) (unat (rs_payload_len slot)))"

text \<open>The loop over the ready slots.\<close>

fun deliver_ready ::
  "env \<Rightarrow> u32 \<Rightarrow> rel4u_recv_slot list \<Rightarrow> rel4u_mpmc_queue \<times> world \<Rightarrow> (rel4u_mpmc_queue \<times> world) option" where
  "deliver_ready e cid [] qw = Some qw"
| "deliver_ready e cid (slot # slots) qw =
     (case ready_item e cid slot of
        None \<Rightarrow> None
      | Some item \<Rightarrow> deliver_ready e cid slots (push_to_app e item qw))"

lemma pop_ready_loop_count:
  "pop_ready_loop win out mx n = Some (win', out', n') \<Longrightarrow> n \<le> n' \<and> received_count win' + (n' - n) \<le> received_count win"
proof (induction win out mx n rule: pop_ready_loop.induct)
  case (1 win out mx n)
  show ?case
  proof (cases "n < mx")
    case True
    let ?i = "slot_of (rw_capacity win) (rw_expected_seq win)"
    obtain s where s: "deref (rw_slots win) ?i = Some s"
      using "1.prems" True by (subst (asm) pop_ready_loop.simps) (auto simp: Let_def split: option.splits)
    let ?w = "win\<lparr>rw_slots := (rw_slots win)[?i := s\<lparr>rs_received := False\<rparr>], rw_expected_seq := rw_expected_seq win + 1\<rparr>"
    show ?thesis
    proof (cases "rs_received s \<and> rs_seq_num s = rw_expected_seq win")
      case rcv: True
      have less: "received_count ?w < received_count win" using received_count_clear [OF s] rcv by blast
      show ?thesis
      proof (cases "rs_delivery_mode s = REL4U_MODE_RELIABLE_ORDERED")
        case ord: True
        then have len: "n < length out" and r: "pop_ready_loop ?w (out[n := s]) mx (n + 1) = Some (win', out', n')"
          using "1.prems" True s rcv
          by (subst (asm) pop_ready_loop.simps; simp add: Let_def split: if_splits)+
        from "1.IH"(1) [OF True refl s rcv refl ord len r] less show ?thesis by linarith
      next
        case ord: False
        then have r: "pop_ready_loop ?w out mx n = Some (win', out', n')"
          using "1.prems" True s rcv by (subst (asm) pop_ready_loop.simps) (simp add: Let_def)
        from "1.IH"(2) [OF True refl s rcv refl ord r] less show ?thesis by linarith
      qed
    next
      case False
      then show ?thesis
        using "1.prems" True s by (subst (asm) pop_ready_loop.simps) (auto simp: Let_def)
    qed
  next
    case False
    then show ?thesis using "1.prems" by (subst (asm) pop_ready_loop.simps) simp
  qed
qed

text \<open>
  The two \<open>while\<close> loops that pop further batches: after an accepted packet only while the last
  batch was full (\<open>only_full\<close>), after a duplicate always. Each round takes slots out of the
  window, which is why they end.
\<close>

function drain_ready ::
  "env \<Rightarrow> u32 \<Rightarrow> bool \<Rightarrow> nat \<Rightarrow> rel4u_recv_window \<Rightarrow> rel4u_recv_slot list \<Rightarrow> rel4u_mpmc_queue \<times> world \<Rightarrow>
   (rel4u_recv_window \<times> rel4u_recv_slot list \<times> rel4u_mpmc_queue \<times> world) option" where
  "drain_ready e cid only_full ready_count win ready_slots qw =
     (if only_full \<and> ready_count \<noteq> 64 then Some (win, ready_slots, qw)
      else
        case rel4u_recv_window_pop_ready win ready_slots 64 of
          None \<Rightarrow> None
        | Some (res, win', slots, None) \<Rightarrow> Some (win', slots, qw)
        | Some (res, win', slots, Some n) \<Rightarrow>
            if res = 0 \<and> n > 0 then
              (case deliver_ready e cid (take n slots) qw of
                 None \<Rightarrow> None
               | Some qw \<Rightarrow> drain_ready e cid only_full n win' slots qw)
            else Some (win', slots, qw))"
  by pat_completeness auto

termination
proof (relation "measure (\<lambda>(e, cid, f, n, win, s, qw). received_count win)", simp)
  fix e :: env and cid :: u32 and f :: bool and c n :: nat and win win' :: rel4u_recv_window
    and rs slots :: "rel4u_recv_slot list" and qw qw' :: "rel4u_mpmc_queue \<times> world"
    and a b d x y z r
  assume "rel4u_recv_window_pop_ready win rs 64 = Some a" "(r, b) = a" "(win', d) = b" "(slots, x) = d"
    "x = Some n" "r = 0 \<and> 0 < n"
  then have "pop_ready_loop win rs 64 0 = Some (win', slots, n)" "0 < n"
    by (auto simp: rel4u_recv_window_pop_ready_def)
  from pop_ready_loop_count [OF this(1)] this(2)
  show "((e, cid, f, n, win', slots, qw'), e, cid, f, c, win, rs, qw) \<in> measure (\<lambda>(e, cid, f, n, win, s, qw). received_count win)"
    by simp
qed

declare drain_ready.simps [simp del]

text \<open>
  The handling of a data packet: the new window, scratch slots, queue and world, and whether an
  acknowledgement is now pending.
\<close>

definition on_data ::
  "env \<Rightarrow> u32 \<Rightarrow> rel4u_recv_window \<Rightarrow> rel4u_recv_slot list \<Rightarrow> rel4u_header \<Rightarrow> u8 list \<Rightarrow> rel4u_mpmc_queue \<times> world \<Rightarrow>
   (rel4u_recv_window \<times> rel4u_recv_slot list \<times> (rel4u_mpmc_queue \<times> world) \<times> bool) option" where
  "on_data e cid win ready_slots hdr payload qw =
     do {
       (res, win, slots, cnt) \<leftarrow> rel4u_recv_window_on_packet win hdr (Some payload) ready_slots 64;
       let ready_count = (case cnt of None \<Rightarrow> 0 | Some n \<Rightarrow> n);
       if res = 0 then do {
         qw \<leftarrow> deliver_ready e cid (take ready_count slots) qw;
         (win, slots, qw) \<leftarrow> drain_ready e cid True ready_count win slots qw;
         Some (win, slots, qw, True)
       }
       else if res = 1 then do {
         (win, slots, qw) \<leftarrow> drain_ready e cid False ready_count win slots qw;
         Some (win, slots, qw, True)
       }
       else Some (win, slots, qw, False)
     }"

end
