(* ===== verification/Send_Window_Correct.thy ===== *)
theory Send_Window_Correct
  imports Send_Window Mpmc_Correct
begin

text \<open>
  Correctness of the send window. \<open>send_inv\<close> is its invariant; \<open>sw_entries\<close> reads the window as
  the list of its slots from \<open>head_seq\<close> to \<open>next_seq\<close>, oldest first, and the operations are shown
  to be operations on that list: a push appends, a cumulative acknowledgement drops a prefix,
  a selective one marks entries, a reclaim hands the unacknowledged entries to the queue.
\<close>

subsection \<open>The window as a list of entries\<close>

definition sw_len :: "rel4u_send_window \<Rightarrow> nat" where
  "sw_len w = unat (sw_next_seq w - sw_head_seq w)"

definition sw_at :: "rel4u_send_window \<Rightarrow> nat \<Rightarrow> nat" where
  "sw_at w k = slot_of (sw_capacity w) (sw_head_seq w + of_nat k)"

definition sw_entries :: "rel4u_send_window \<Rightarrow> rel4u_send_slot list" where
  "sw_entries w = map (\<lambda>k. sw_slots w ! sw_at w k) [0..<sw_len w]"

definition unacked :: "rel4u_send_slot list \<Rightarrow> rel4u_send_slot list" where
  "unacked es = filter (\<lambda>s. \<not> ss_acked s) es"

definition send_slot_ok :: "rel4u_send_slot \<Rightarrow> bool" where
  "send_slot_ok s \<longleftrightarrow>
     ss_in_use s \<and> unat (ss_payload_len s) \<le> REL4U_MAX_PAYLOAD_SIZE \<and>
     (ss_delivery_mode s = REL4U_MODE_RELIABLE_ORDERED \<or> ss_delivery_mode s = REL4U_MODE_RELIABLE_UNORDERED)"

definition send_inv :: "rel4u_send_window \<Rightarrow> bool" where
  "send_inv w \<longleftrightarrow>
     pow2 (sw_capacity w) \<and> unat (sw_capacity w) < 2 ^ 31 \<and>
     length (sw_slots w) = unat (sw_capacity w) \<and>
     (\<forall>s \<in> set (sw_slots w). length (ss_payload s) = REL4U_MAX_PAYLOAD_SIZE) \<and>
     sw_len w \<le> unat (sw_capacity w) \<and>
     (\<forall>k < sw_len w. send_slot_ok (sw_entries w ! k) \<and>
        ss_seq_num (sw_entries w ! k) = sw_head_seq w + of_nat k) \<and>
     unat (sw_in_flight w) = length (unacked (sw_entries w))"

lemma length_sw_entries [simp]: "length (sw_entries w) = sw_len w"
  by (simp add: sw_entries_def)

lemma nth_sw_entries [simp]: "k < sw_len w \<Longrightarrow> sw_entries w ! k = sw_slots w ! sw_at w k"
  by (simp add: sw_entries_def)

lemma unacked_simps [simp]:
  "unacked [] = []" "unacked (xs @ ys) = unacked xs @ unacked ys"
  "unacked (s # xs) = (if ss_acked s then unacked xs else s # unacked xs)"
  by (simp_all add: unacked_def)

lemma send_invD:
  assumes "send_inv w"
  shows "pow2 (sw_capacity w)" "unat (sw_capacity w) < 2 ^ 31"
    "length (sw_slots w) = unat (sw_capacity w)"
    "\<And>s. s \<in> set (sw_slots w) \<Longrightarrow> length (ss_payload s) = REL4U_MAX_PAYLOAD_SIZE"
    "sw_len w \<le> unat (sw_capacity w)"
    "\<And>k. k < sw_len w \<Longrightarrow> send_slot_ok (sw_slots w ! sw_at w k)"
    "\<And>k. k < sw_len w \<Longrightarrow> ss_seq_num (sw_slots w ! sw_at w k) = sw_head_seq w + of_nat k"
    "unat (sw_in_flight w) = length (unacked (sw_entries w))"
  using assms by (auto simp: send_inv_def)

lemma sw_at_less [simp]: "send_inv w \<Longrightarrow> sw_at w k < length (sw_slots w)"
  by (simp add: sw_at_def send_inv_def)

lemma sw_at_inj:
  "send_inv w \<Longrightarrow> j < unat (sw_capacity w) \<Longrightarrow> k < unat (sw_capacity w) \<Longrightarrow> sw_at w j = sw_at w k \<longleftrightarrow> j = k"
  unfolding sw_at_def by (rule slot_of_inj) (simp add: send_invD)

lemma sw_next_eq: "sw_next_seq w = sw_head_seq w + of_nat (sw_len w)"
  by (simp add: sw_len_def)

lemma deref_sw_at [simp]: "send_inv w \<Longrightarrow> deref (sw_slots w) (sw_at w k) = Some (sw_slots w ! sw_at w k)"
  by simp

lemma sw_head_at: "slot_of (sw_capacity w) (sw_head_seq w) = sw_at w 0"
  by (simp add: sw_at_def)

lemma in_flight_le: "send_inv w \<Longrightarrow> unat (sw_in_flight w) \<le> sw_len w"
  using send_invD(8) [of w] length_filter_le [of "\<lambda>s. \<not> ss_acked s" "sw_entries w"] by (simp add: unacked_def)

lemma seq_diff_len: "send_inv w \<Longrightarrow> rel4u_seq_diff (sw_next_seq w) (sw_head_seq w) = int (sw_len w)"
  using send_invD(2,5) [of w] seq_diff_offset [of "sw_len w" 0 "sw_head_seq w"]
  by (simp add: sw_next_eq)

lemma sint_capacity: "send_inv w \<Longrightarrow> sint (sw_capacity w) = int (unat (sw_capacity w))"
  using send_invD(2) [of w] by (simp only: sint_u32_eq if_True)

lemma seq_diff_capacity:
  assumes "send_inv w"
  shows "rel4u_seq_diff (sw_next_seq w) (sw_head_seq w) < sint (sw_capacity w) \<longleftrightarrow> sw_len w < unat (sw_capacity w)"
  using seq_diff_len [OF assms] sint_capacity [OF assms] by (simp only: of_nat_less_iff)

lemma payloads_update:
  assumes "send_inv w" "length (ss_payload x) = REL4U_MAX_PAYLOAD_SIZE"
  shows "\<forall>s \<in> set ((sw_slots w)[i := x]). length (ss_payload s) = REL4U_MAX_PAYLOAD_SIZE"
proof
  fix s assume "s \<in> set ((sw_slots w)[i := x])"
  then have "s = x \<or> s \<in> set (sw_slots w)"
    using set_update_subset_insert by fastforce
  then show "length (ss_payload s) = REL4U_MAX_PAYLOAD_SIZE"
    using assms send_invD(4) by blast
qed

lemma payload_at: "send_inv w \<Longrightarrow> length (ss_payload (sw_slots w ! sw_at w k)) = REL4U_MAX_PAYLOAD_SIZE"
  using send_invD(4) sw_at_less by (meson nth_mem)

subsection \<open>Creation\<close>

lemma send_window_empty_inv:
  assumes "pow2 c" "unat c < 2 ^ 31"
  shows "send_inv (w\<lparr>sw_slots := replicate (unat c) zero_send_slot, sw_capacity := c, sw_head_seq := s,
      sw_next_seq := s, sw_next_unrel_seq := s, sw_in_flight := 0\<rparr>)" (is "send_inv ?w")
    and "sw_entries (w\<lparr>sw_slots := replicate (unat c) zero_send_slot, sw_capacity := c, sw_head_seq := s,
      sw_next_seq := s, sw_next_unrel_seq := s, sw_in_flight := 0\<rparr>) = []"
proof -
  have e: "sw_len ?w = 0" by (simp add: sw_len_def)
  then show "sw_entries ?w = []" by (simp add: sw_entries_def)
  with e assms show "send_inv ?w"
    by (simp add: send_inv_def zero_send_slot_def zero_payload_def)
qed

lemma send_init_inv:
  assumes "rel4u_send_window_init ok w c s = (0, w')" "unat c < 2 ^ 31"
  shows "send_inv w' \<and> sw_entries w' = [] \<and> sw_capacity w' = c \<and> sw_head_seq w' = s"
proof -
  have c: "pow2 c" and w': "w' = w\<lparr>sw_slots := replicate (unat c) zero_send_slot, sw_capacity := c,
      sw_head_seq := s, sw_next_seq := s, sw_next_unrel_seq := s, sw_in_flight := 0\<rparr>"
    using assms(1) by (auto simp: rel4u_send_window_init_def pow2_def not_less split: if_splits)
  show ?thesis unfolding w' using send_window_empty_inv [OF c assms(2)] by simp
qed

lemma send_reset_inv:
  assumes "send_inv w"
  shows "\<exists>w'. rel4u_send_window_reset w s = (0, w') \<and> send_inv w' \<and> sw_entries w' = [] \<and>
    sw_capacity w' = sw_capacity w \<and> sw_head_seq w' = s"
proof -
  have ne: "sw_capacity w \<noteq> 0" "sw_slots w \<noteq> []"
    using pow2_ge_2 [OF send_invD(1) [OF assms]] send_invD(3) [OF assms] by auto
  then have "rel4u_send_window_reset w s =
      (0, w\<lparr>sw_slots := replicate (unat (sw_capacity w)) zero_send_slot, sw_capacity := sw_capacity w,
        sw_head_seq := s, sw_next_seq := s, sw_next_unrel_seq := s, sw_in_flight := 0\<rparr>)"
    by (simp add: rel4u_send_window_reset_def)
  then show ?thesis
    using send_window_empty_inv [OF send_invD(1,2) [OF assms], where w = w and s = s] by simp
qed

subsection \<open>Pushing\<close>

lemma send_can_send_iff:
  assumes "send_inv w"
  shows "rel4u_send_window_can_send w \<longleftrightarrow> sw_len w < unat (sw_capacity w)"
  using in_flight_le [OF assms] seq_diff_capacity [OF assms]
  by (auto simp: rel4u_send_window_can_send_def word_less_nat_alt)

definition new_slot :: "u8 \<Rightarrow> u8 list \<Rightarrow> nat \<Rightarrow> u64 \<Rightarrow> u32 \<Rightarrow> rel4u_send_slot \<Rightarrow> bool" where
  "new_slot mode bytes len now seq s \<longleftrightarrow>
     ss_seq_num s = seq \<and> ss_first_sent_time_ns s = now \<and> ss_last_sent_time_ns s = now \<and>
     unat (ss_payload_len s) = len \<and> ss_retransmit_count s = 0 \<and> ss_delivery_mode s = mode \<and>
     ss_in_use s \<and> \<not> ss_acked s \<and> take len (ss_payload s) = take len bytes \<and>
     length (ss_payload s) = REL4U_MAX_PAYLOAD_SIZE"

lemma send_append_inv:
  assumes inv: "send_inv w" and room: "sw_len w < unat (sw_capacity w)"
    and s: "send_slot_ok s" "ss_seq_num s = sw_next_seq w" "\<not> ss_acked s"
      "length (ss_payload s) = REL4U_MAX_PAYLOAD_SIZE"
  defines "w' \<equiv> w\<lparr>sw_next_seq := sw_next_seq w + 1,
      sw_slots := (sw_slots w)[sw_at w (sw_len w) := s], sw_in_flight := sw_in_flight w + 1\<rparr>"
  shows "send_inv w' \<and> sw_entries w' = sw_entries w @ [s]"
proof -
  let ?n = "sw_len w"
  have cap: "unat (sw_capacity w) < 2 ^ 31" using inv by (rule send_invD)
  have len: "sw_len w' = Suc ?n"
    using unat_u32_Suc [of "sw_next_seq w" "sw_head_seq w"] room cap
    by (simp add: w'_def sw_len_def)
  have at: "sw_at w' k = sw_at w k" for k by (simp add: w'_def sw_at_def)
  have other: "sw_slots w' ! sw_at w k = sw_slots w ! sw_at w k" if "k < ?n" for k
    using sw_at_inj [OF inv, of ?n k] that room by (simp add: w'_def)
  have new: "sw_slots w' ! sw_at w ?n = s" using inv by (simp add: w'_def)
  have ent: "sw_entries w' = sw_entries w @ [s]"
    using other new at len by (simp add: sw_entries_def)
  have pl: "\<forall>s \<in> set (sw_slots w'). length (ss_payload s) = REL4U_MAX_PAYLOAD_SIZE"
    using payloads_update [OF inv s(4)] by (simp add: w'_def)
  have fl: "unat (sw_in_flight w') = length (unacked (sw_entries w'))"
    using in_flight_le [OF inv] send_invD(8) [OF inv] room cap unat_u32_Suc [of "sw_in_flight w" 0] s(3)
    by (simp add: ent) (simp add: w'_def)
  have ok: "send_slot_ok (sw_entries w' ! k) \<and> ss_seq_num (sw_entries w' ! k) = sw_head_seq w' + of_nat k"
    if "k < sw_len w'" for k
  proof (cases "k < ?n")
    case True
    then show ?thesis using send_invD(6,7) [OF inv] ent by (simp add: nth_append w'_def)
  next
    case False
    then have "k = ?n" using that len by simp
    then show ?thesis using ent s(1,2) by (simp add: nth_append sw_next_eq w'_def)
  qed
  have "send_inv w'"
    unfolding send_inv_def using ok fl pl len room send_invD(1,2,3) [OF inv]
    by (simp add: w'_def)
  with ent show ?thesis by simp
qed

lemma send_push_reliable:
  assumes inv: "send_inv w" and len: "unat len \<le> REL4U_MAX_PAYLOAD_SIZE" "unat len \<le> length bytes"
    and mode: "mode = REL4U_MODE_RELIABLE_ORDERED \<or> mode = REL4U_MODE_RELIABLE_UNORDERED"
  shows "if sw_len w < unat (sw_capacity w) then
      \<exists>w' s. rel4u_send_window_push w mode (Some bytes) len now = Some (0, w', Some (sw_next_seq w)) \<and>
        send_inv w' \<and> sw_entries w' = sw_entries w @ [s] \<and> sw_head_seq w' = sw_head_seq w \<and>
        sw_next_seq w' = sw_next_seq w + 1 \<and> sw_capacity w' = sw_capacity w \<and>
        sw_next_unrel_seq w' = sw_next_unrel_seq w \<and>
        new_slot mode bytes (unat len) now (sw_next_seq w) s
    else rel4u_send_window_push w mode (Some bytes) len now = Some (-2, w, None)"
proof (cases "sw_len w < unat (sw_capacity w)")
  case True
  let ?slot = "sw_slots w ! sw_at w (sw_len w)"
  have at: "slot_of (sw_capacity w) (sw_next_seq w) = sw_at w (sw_len w)"
    by (simp add: sw_at_def sw_next_eq)
  have pl: "length (ss_payload ?slot) = REL4U_MAX_PAYLOAD_SIZE"
    by (rule payload_at [OF inv])
  obtain p where p: "memcpy (ss_payload ?slot) bytes (unat len) = Some p"
    using len pl by (simp add: memcpy_in_range)
  define s where "s = ?slot\<lparr>ss_seq_num := sw_next_seq w, ss_first_sent_time_ns := now,
      ss_last_sent_time_ns := now, ss_payload_len := ucast len, ss_retransmit_count := 0,
      ss_delivery_mode := mode, ss_in_use := True, ss_acked := False, ss_payload := p\<rparr>"
  have l16: "unat (ucast len :: u16) = unat len"
    using len(1) by (simp add: unsigned_ucast_eq take_bit_eq_mod)
  have s: "send_slot_ok s" "ss_seq_num s = sw_next_seq w" "\<not> ss_acked s"
      "length (ss_payload s) = REL4U_MAX_PAYLOAD_SIZE" "new_slot mode bytes (unat len) now (sw_next_seq w) s"
    using memcpy_SomeD [OF p] pl len(1) mode l16 by (auto simp: s_def send_slot_ok_def new_slot_def)
  have full: "\<not> (sw_in_flight w \<ge> sw_capacity w \<or>
      rel4u_seq_diff (sw_next_seq w) (sw_head_seq w) \<ge> sint (sw_capacity w))"
    using True in_flight_le [OF inv] seq_diff_capacity [OF inv] by (auto simp: word_le_nat_alt)
  have "rel4u_send_window_push w mode (Some bytes) len now =
      Some (0, w\<lparr>sw_next_seq := sw_next_seq w + 1, sw_slots := (sw_slots w)[sw_at w (sw_len w) := s],
        sw_in_flight := sw_in_flight w + 1\<rparr>, Some (sw_next_seq w))"
    using full mode len(1) p inv unfolding rel4u_send_window_push_def Let_def at
    by (simp add: s_def del: deref_Some_iff)
  with send_append_inv [OF inv True s(1-4)] s(5) True show ?thesis by simp
next
  case False
  then have "sw_in_flight w \<ge> sw_capacity w \<or>
      rel4u_seq_diff (sw_next_seq w) (sw_head_seq w) \<ge> sint (sw_capacity w)"
    using seq_diff_capacity [OF inv] by auto
  with False mode len(1) show ?thesis
    by (simp add: rel4u_send_window_push_def)
qed

subsection \<open>Acknowledgements\<close>

lemma entries_Cons:
  assumes "send_inv w" "sw_head_seq w \<noteq> sw_next_seq w"
  shows "sw_entries w = sw_slots w ! sw_at w 0 # tl (sw_entries w)" "0 < sw_len w"
proof -
  show n: "0 < sw_len w" using assms(2) by (simp add: sw_len_def unat_gt_0)
  then have "sw_entries w \<noteq> []" by (metis length_sw_entries list.size(3) less_numeral_extra(3))
  then show "sw_entries w = sw_slots w ! sw_at w 0 # tl (sw_entries w)"
    using n by (metis hd_conv_nth list.collapse nth_sw_entries)
qed

text \<open>Moving the head past its slot, whatever becomes of that slot.\<close>

lemma retire_head:
  assumes inv: "send_inv w" and ne: "sw_head_seq w \<noteq> sw_next_seq w"
    and w': "sw_slots w' = (sw_slots w)[sw_at w 0 := x]" "sw_head_seq w' = sw_head_seq w + 1"
      "sw_next_seq w' = sw_next_seq w" "sw_capacity w' = sw_capacity w"
      "length (ss_payload x) = REL4U_MAX_PAYLOAD_SIZE"
    and fl: "unat (sw_in_flight w') = length (unacked (tl (sw_entries w)))"
  shows "send_inv w' \<and> sw_entries w' = tl (sw_entries w)"
proof -
  have len: "sw_len w' = sw_len w - 1" "0 < sw_len w"
    using unat_u32_pred [of "sw_next_seq w" "sw_head_seq w"] ne entries_Cons [OF inv ne]
    by (simp_all add: w' sw_len_def)
  have at: "sw_at w' k = sw_at w (Suc k)" for k
    by (simp add: w' sw_at_def algebra_simps)
  have other: "sw_slots w' ! sw_at w (Suc k) = sw_slots w ! sw_at w (Suc k)" if "k < sw_len w'" for k
  proof -
    have "Suc k < unat (sw_capacity w)" using that len send_invD(5) [OF inv] by linarith
    then show ?thesis using sw_at_inj [OF inv, of "Suc k" 0] by (simp add: w')
  qed
  have ent: "sw_entries w' = tl (sw_entries w)"
    using other len at by (auto intro!: nth_equalityI simp: nth_tl)
  have pl: "\<forall>s \<in> set (sw_slots w'). length (ss_payload s) = REL4U_MAX_PAYLOAD_SIZE"
    using payloads_update [OF inv w'(5)] w'(1) by simp
  have "send_slot_ok (sw_entries w' ! k) \<and> ss_seq_num (sw_entries w' ! k) = sw_head_seq w' + of_nat k"
    if "k < sw_len w'" for k
    using that send_invD(6,7) [OF inv, of "Suc k"] len ent
    by (simp add: nth_tl w' algebra_simps)
  then have "send_inv w'"
    unfolding send_inv_def using fl pl len send_invD(1,2,3,5) [OF inv] by (simp add: ent w')
  with ent show ?thesis by simp
qed

lemma flight_dec_unacked:
  assumes "unat (sw_in_flight w) = Suc n"
  shows "unat (sw_in_flight (flight_dec w)) = n"
proof -
  have "sw_in_flight w > 0" using assms by (simp add: word_less_nat_alt)
  moreover have "unat (sw_in_flight w - 1) = n"
    using unat_u32_pred [of "sw_in_flight w" 0] assms \<open>sw_in_flight w > 0\<close> by auto
  ultimately show ?thesis by (simp add: flight_dec_def)
qed

definition ack_count :: "u32 \<Rightarrow> u32 \<Rightarrow> nat \<Rightarrow> nat" where
  "ack_count ack head n = (if unat (ack - head) \<le> 2 ^ 31 then min n (unat (ack - head) + 1) else 0)"

lemma ack_count_step:
  assumes "rel4u_seq_lte head ack" "0 < n"
  shows "ack_count ack head n = Suc (ack_count ack (head + 1) (n - 1))"
proof (cases "ack = head")
  case True
  have "unat (head - (head + 1)) = 2 ^ 32 - 1"
    using unat_of_nat_diff [of 0 1] by simp
  with True assms(2) show ?thesis by (simp add: ack_count_def)
next
  case False
  then have "unat (ack - (head + 1)) = unat (ack - head) - 1" "0 < unat (ack - head)"
    by (simp_all add: unat_u32_pred unat_gt_0)
  with assms show ?thesis by (cases n) (auto simp: ack_count_def seq_lte_unat min_def)
qed

lemma ack_count_stop: "\<not> rel4u_seq_lte head ack \<or> n = 0 \<Longrightarrow> ack_count ack head n = 0"
  by (auto simp: ack_count_def seq_lte_unat)

lemma ack_count_le: "ack_count ack head n \<le> n"
  by (simp add: ack_count_def)

text \<open>One round of the cumulative loop.\<close>

lemma cumulative_ack_step:
  assumes inv: "send_inv w" and go: "rel4u_seq_lte (sw_head_seq w) ack" "sw_head_seq w \<noteq> sw_next_seq w"
  obtains w1 where "send_inv w1" "sw_entries w1 = tl (sw_entries w)" "sw_head_seq w1 = sw_head_seq w + 1"
    "sw_next_seq w1 = sw_next_seq w" "sw_capacity w1 = sw_capacity w" "sw_next_unrel_seq w1 = sw_next_unrel_seq w"
    "cumulative_ack ack now w rs =
       cumulative_ack ack now w1 (fold (ack_sample now) (unacked [hd (sw_entries w)]) rs)"
proof -
  let ?slot = "sw_slots w ! sw_at w 0"
  note ent = entries_Cons [OF inv go(2)]
  have hd: "hd (sw_entries w) = ?slot" using ent(1) by (metis list.sel(1))
  have ok: "ss_in_use ?slot" "ss_seq_num ?slot = sw_head_seq w"
    using send_invD(6,7) [OF inv ent(2)] by (simp_all add: send_slot_ok_def)
  have pl: "length (ss_payload ?slot) = REL4U_MAX_PAYLOAD_SIZE"
    by (rule payload_at [OF inv])
  have fl: "unat (sw_in_flight w) = length (unacked (?slot # tl (sw_entries w)))"
    using send_invD(8) [OF inv] ent(1) by simp
  show thesis
  proof (cases "ss_acked ?slot")
    case True
    let ?w = "w\<lparr>sw_slots := (sw_slots w)[sw_at w 0 := ?slot\<lparr>ss_in_use := False\<rparr>], sw_head_seq := sw_head_seq w + 1\<rparr>"
    have "send_inv ?w \<and> sw_entries ?w = tl (sw_entries w)"
      by (rule retire_head [OF inv go(2), where x = "?slot\<lparr>ss_in_use := False\<rparr>"]) (use pl fl True in simp_all)
    moreover have "cumulative_ack ack now w rs = cumulative_ack ack now ?w rs"
      using go ok inv True by (subst cumulative_ack.simps) (simp add: sw_head_at Let_def del: deref_Some_iff)
    ultimately show thesis using that [of ?w] True hd by simp
  next
    case False
    let ?w = "(flight_dec w)\<lparr>sw_slots := (sw_slots w)[sw_at w 0 := ?slot\<lparr>ss_acked := True, ss_in_use := False\<rparr>],
      sw_head_seq := sw_head_seq w + 1\<rparr>"
    have "unat (sw_in_flight (flight_dec w)) = length (unacked (tl (sw_entries w)))"
      using fl False by (intro flight_dec_unacked) simp
    then have "send_inv ?w \<and> sw_entries ?w = tl (sw_entries w)"
      by (intro retire_head [OF inv go(2), where x = "?slot\<lparr>ss_acked := True, ss_in_use := False\<rparr>"])
        (use pl in simp_all)
    moreover have "cumulative_ack ack now w rs = cumulative_ack ack now ?w (ack_sample now ?slot rs)"
      using go ok inv False by (subst cumulative_ack.simps) (simp add: sw_head_at Let_def del: deref_Some_iff)
    ultimately show thesis using that [of ?w] False hd by simp
  qed
qed

lemma cumulative_ack_law:
  fixes ack :: u32
  assumes "send_inv w"
  defines "m \<equiv> ack_count ack (sw_head_seq w) (sw_len w)"
  shows "\<exists>w'. cumulative_ack ack now w rs =
      Some (w', fold (ack_sample now) (unacked (take m (sw_entries w))) rs) \<and>
    send_inv w' \<and> sw_entries w' = drop m (sw_entries w) \<and> sw_head_seq w' = sw_head_seq w + of_nat m \<and>
    sw_next_seq w' = sw_next_seq w \<and> sw_capacity w' = sw_capacity w \<and>
    sw_next_unrel_seq w' = sw_next_unrel_seq w"
  using assms(1) unfolding m_def
proof (induction "sw_len w" arbitrary: w rs rule: less_induct)
  case less
  show ?case
  proof (cases "rel4u_seq_lte (sw_head_seq w) ack \<and> sw_head_seq w \<noteq> sw_next_seq w")
    case True
    then have go: "rel4u_seq_lte (sw_head_seq w) ack" "sw_head_seq w \<noteq> sw_next_seq w" by simp_all
    note ent = entries_Cons [OF less.prems go(2)]
    obtain w1 where w1: "send_inv w1" "sw_entries w1 = tl (sw_entries w)" "sw_head_seq w1 = sw_head_seq w + 1"
        "sw_next_seq w1 = sw_next_seq w" "sw_capacity w1 = sw_capacity w" "sw_next_unrel_seq w1 = sw_next_unrel_seq w"
        "cumulative_ack ack now w rs =
           cumulative_ack ack now w1 (fold (ack_sample now) (unacked [hd (sw_entries w)]) rs)"
      using cumulative_ack_step [OF less.prems go] by metis
    let ?m = "ack_count ack (sw_head_seq w1) (sw_len w1)"
    have len: "sw_len w1 = sw_len w - 1"
      using w1(2) by (metis length_sw_entries length_tl)
    have m: "ack_count ack (sw_head_seq w) (sw_len w) = Suc ?m"
      using ack_count_step [OF go(1) ent(2)] len w1(3) by simp
    have "sw_len w1 < sw_len w" using len ent(2) by simp
    from less.hyps [OF this w1(1)] obtain w' where w':
        "cumulative_ack ack now w1 (fold (ack_sample now) (unacked [hd (sw_entries w)]) rs) =
           Some (w', fold (ack_sample now) (unacked (take ?m (sw_entries w1)))
             (fold (ack_sample now) (unacked [hd (sw_entries w)]) rs))"
        "send_inv w'" "sw_entries w' = drop ?m (sw_entries w1)" "sw_head_seq w' = sw_head_seq w1 + of_nat ?m"
        "sw_next_seq w' = sw_next_seq w1" "sw_capacity w' = sw_capacity w1" "sw_next_unrel_seq w' = sw_next_unrel_seq w1"
      by blast
    have "sw_entries w \<noteq> []" using ent(1) by (metis list.distinct(1))
    then have td: "take (Suc ?m) (sw_entries w) = [hd (sw_entries w)] @ take ?m (sw_entries w1)"
      "drop (Suc ?m) (sw_entries w) = drop ?m (sw_entries w1)"
      using w1(2) by (simp_all add: take_Suc drop_Suc)
    show ?thesis
      unfolding m td w1(7) unacked_simps(2) fold_append comp_apply
      using w' w1(3-6) by (intro exI [of _ w']) (simp add: algebra_simps)
  next
    case False
    then have "ack_count ack (sw_head_seq w) (sw_len w) = 0"
      by (intro ack_count_stop) (auto simp: sw_len_def)
    with False less.prems show ?thesis
      by (subst cumulative_ack.simps) auto
  qed
qed

definition sack_mark :: "u32 set \<Rightarrow> rel4u_send_slot list \<Rightarrow> rel4u_send_slot list" where
  "sack_mark S es = map (\<lambda>e. if ss_seq_num e \<in> S then e\<lparr>ss_acked := True\<rparr> else e) es"

lemma sack_mark_empty [simp]: "sack_mark {} es = es"
  by (simp add: sack_mark_def)

lemma sack_mark_mark: "sack_mark T (sack_mark S es) = sack_mark (S \<union> T) es"
  by (simp add: sack_mark_def)

lemma unacked_mark: "set (unacked (sack_mark S es)) \<subseteq> set (unacked es)"
  by (auto simp: sack_mark_def unacked_def split: if_splits)

lemma length_unacked_mark:
  assumes "k < length es" "\<not> ss_acked (es ! k)"
  shows "length (unacked es) = Suc (length (unacked (es[k := (es ! k)\<lparr>ss_acked := True\<rparr>])))"
  using assms by (subst id_take_nth_drop [OF assms(1)]) (simp add: upd_conv_take_nth_drop)

lemma mark_entry_inv:
  assumes inv: "send_inv w" and k: "k < sw_len w" and un: "\<not> ss_acked (sw_slots w ! sw_at w k)"
  defines "w' \<equiv> (flight_dec w)\<lparr>sw_slots := (sw_slots w)[sw_at w k := (sw_slots w ! sw_at w k)\<lparr>ss_acked := True\<rparr>]\<rparr>"
  shows "send_inv w' \<and> sw_entries w' = (sw_entries w)[k := (sw_entries w ! k)\<lparr>ss_acked := True\<rparr>]"
proof -
  have len: "sw_len w' = sw_len w" by (simp add: w'_def sw_len_def)
  have at: "sw_at w' j = sw_at w j" for j by (simp add: w'_def sw_at_def)
  have nth: "sw_slots w' ! sw_at w j =
      (if j = k then (sw_slots w ! sw_at w k)\<lparr>ss_acked := True\<rparr> else sw_slots w ! sw_at w j)"
    if "j < sw_len w" for j
    using sw_at_inj [OF inv, of j k] that k send_invD(5) [OF inv] inv
    by (auto simp: w'_def)
  have ent: "sw_entries w' = (sw_entries w)[k := (sw_entries w ! k)\<lparr>ss_acked := True\<rparr>]"
    by (rule nth_equalityI) (auto simp: len at nth k nth_list_update)
  have "length (unacked (sw_entries w)) = Suc (length (unacked (sw_entries w')))"
    unfolding ent using k un by (intro length_unacked_mark) simp_all
  then have fl: "unat (sw_in_flight w') = length (unacked (sw_entries w'))"
    using send_invD(8) [OF inv] flight_dec_unacked [of w] by (simp add: w'_def)
  have pl: "\<forall>s \<in> set (sw_slots w'). length (ss_payload s) = REL4U_MAX_PAYLOAD_SIZE"
    using payloads_update [OF inv, of "(sw_slots w ! sw_at w k)\<lparr>ss_acked := True\<rparr>"] payload_at [OF inv]
    by (simp add: w'_def)
  have "send_slot_ok (sw_entries w' ! j) \<and> ss_seq_num (sw_entries w' ! j) = sw_head_seq w' + of_nat j"
    if "j < sw_len w'" for j
    using send_invD(6,7) [OF inv] that len at nth [of j] by (simp add: send_slot_ok_def) (simp add: w'_def)
  then have "send_inv w'"
    unfolding send_inv_def using fl pl len send_invD(1,2,3,5) [OF inv] by (simp add: w'_def)
  with ent show ?thesis by simp
qed

lemma sack_mark_nth:
  assumes "send_inv w" "k < sw_len w"
  shows "sack_mark {sw_head_seq w + of_nat k} (sw_entries w) =
    (sw_entries w)[k := (sw_entries w ! k)\<lparr>ss_acked := True\<rparr>]"
proof (rule nth_equalityI)
  fix j assume "j < length (sack_mark {sw_head_seq w + of_nat k} (sw_entries w))"
  then have j: "j < sw_len w" by (simp add: sack_mark_def)
  have "sw_head_seq w + of_nat j = sw_head_seq w + of_nat k \<longleftrightarrow> j = k"
    using j assms send_invD(2,5) [OF assms(1)] by (intro u32_offset_inj) simp_all
  then show "sack_mark {sw_head_seq w + of_nat k} (sw_entries w) ! j =
      (sw_entries w)[k := (sw_entries w ! k)\<lparr>ss_acked := True\<rparr>] ! j"
    using send_invD(7) [OF assms(1) j] j assms(2) by (auto simp: sack_mark_def nth_list_update)
qed (simp add: sack_mark_def)

lemma sack_mark_outside:
  assumes "send_inv w" "\<not> unat (s - sw_head_seq w) < sw_len w"
  shows "sack_mark {s} (sw_entries w) = sw_entries w"
proof (rule nth_equalityI)
  fix j assume "j < length (sack_mark {s} (sw_entries w))"
  then have j: "j < sw_len w" by (simp add: sack_mark_def)
  then have "unat (sw_head_seq w + of_nat j - sw_head_seq w) = j"
    using send_invD(2,5) [OF assms(1)] by (simp add: unat_of_nat_u32)
  with j assms(2) have "sw_head_seq w + of_nat j \<noteq> s" by auto
  with j send_invD(7) [OF assms(1) j] show "sack_mark {s} (sw_entries w) ! j = sw_entries w ! j"
    by (simp add: sack_mark_def)
qed (simp add: sack_mark_def)

lemma sack_range:
  assumes "send_inv w"
  shows "rel4u_seq_lt s (sw_next_seq w) \<and> rel4u_seq_gte s (sw_head_seq w) \<longleftrightarrow>
    unat (s - sw_head_seq w) < sw_len w"
proof -
  let ?k = "unat (s - sw_head_seq w)"
  have s: "s = sw_head_seq w + of_nat ?k" by simp
  have n: "sw_len w < 2 ^ 31" using send_invD(2,5) [OF assms] by linarith
  show ?thesis
  proof (cases "?k < 2 ^ 31")
    case True
    then have "rel4u_seq_lt s (sw_next_seq w) \<longleftrightarrow> ?k < sw_len w"
      using seq_offset(1) [OF True n, of "sw_head_seq w"] s by (simp add: sw_next_eq)
    with True show ?thesis by (simp add: seq_gte_unat)
  next
    case False
    with n show ?thesis by (simp add: seq_gte_unat)
  qed
qed

text \<open>The entries that still wait for an acknowledgement and have a given number: at most one.\<close>

definition unacked_at :: "u32 \<Rightarrow> rel4u_send_slot list \<Rightarrow> rel4u_send_slot list" where
  "unacked_at n es = filter (\<lambda>s. ss_seq_num s = n) (unacked es)"

lemma unacked_at_entries:
  assumes "send_inv w"
  shows "unacked_at n (sw_entries w) =
    (if unat (n - sw_head_seq w) < sw_len w then unacked [sw_slots w ! sw_at w (unat (n - sw_head_seq w))] else [])"
proof -
  let ?k = "unat (n - sw_head_seq w)"
  have len: "sw_len w < 2 ^ 31" using send_invD(2,5) [OF assms] by linarith
  have "unat (sw_head_seq w + of_nat k - sw_head_seq w) = k" if "k < sw_len w" for k
    using that len by (simp add: unat_of_nat_u32)
  then have num: "sw_head_seq w + of_nat k = n \<longleftrightarrow> k = ?k" if "k < sw_len w" for k
    using that of_nat_unat_diff [of "sw_head_seq w" n] by metis
  have "filter (\<lambda>s. ss_seq_num s = n) (sw_entries w) = map (\<lambda>k. sw_slots w ! sw_at w k) (filter (\<lambda>k. k = ?k) [0..<sw_len w])"
    unfolding sw_entries_def filter_map comp_def
    by (intro arg_cong [where f = "map _"] filter_cong) (use send_invD(7) [OF assms] num in auto)
  moreover have "filter (\<lambda>k. k = ?k) [0..<m] = (if ?k < m then [?k] else [])" for m by (induction m) auto
  ultimately have "filter (\<lambda>s. ss_seq_num s = n) (sw_entries w) = (if ?k < sw_len w then [sw_slots w ! sw_at w ?k] else [])" by simp
  moreover have "unacked_at n es = unacked (filter (\<lambda>s. ss_seq_num s = n) es)" for es
    unfolding unacked_at_def unacked_def filter_filter by (intro filter_cong) auto
  ultimately show ?thesis by simp
qed

lemma unacked_at_mark: "n \<notin> S \<Longrightarrow> unacked_at n (sack_mark S es) = unacked_at n es"
  by (induction es) (auto simp: unacked_at_def sack_mark_def)

lemma set_unacked_at: "set (unacked_at n es) \<subseteq> set (unacked es)"
  by (auto simp: unacked_at_def)

lemma sack_one_law:
  fixes ack sack :: u32 and i :: nat
  assumes inv: "send_inv w"
  defines "S \<equiv> if bit sack i then {ack + 1 + of_nat i} else {}"
    and "es \<equiv> if bit sack i then unacked_at (ack + 1 + of_nat i) (sw_entries w) else []"
  shows "\<exists>w'. sack_one ack sack now i (w, rs) = Some (w', fold (ack_sample now) es rs) \<and>
    send_inv w' \<and> sw_entries w' = sack_mark S (sw_entries w) \<and> sw_head_seq w' = sw_head_seq w \<and>
    sw_next_seq w' = sw_next_seq w \<and> sw_capacity w' = sw_capacity w \<and>
    sw_next_unrel_seq w' = sw_next_unrel_seq w"
proof -
  let ?s = "ack + 1 + of_nat i :: u32" and ?k = "unat (ack + 1 + of_nat i - sw_head_seq w)"
  note at_s = unacked_at_entries [OF inv, of ?s]
  have nop: ?thesis if "sack_one ack sack now i (w, rs) = Some (w, rs)" "sack_mark S (sw_entries w) = sw_entries w" "es = []"
    using that inv by (intro exI [of _ w]) simp
  show ?thesis
  proof (cases "bit sack i \<and> ?k < sw_len w")
    case True
    then have k: "?k < sw_len w" and b: "bit sack i" by simp_all
    let ?slot = "sw_slots w ! sw_at w ?k"
    have at: "slot_of (sw_capacity w) ?s = sw_at w ?k"
      unfolding sw_at_def of_nat_unat_diff ..
    have ok: "ss_in_use ?slot" "ss_seq_num ?slot = ?s"
      using send_invD(6,7) [OF inv k] by (simp_all add: send_slot_ok_def)
    have mark: "sack_mark S (sw_entries w) = (sw_entries w)[?k := (sw_entries w ! ?k)\<lparr>ss_acked := True\<rparr>]"
      using sack_mark_nth [OF inv k] b unfolding S_def of_nat_unat_diff by simp
    have rng: "rel4u_seq_lt ?s (sw_next_seq w)" "rel4u_seq_gte ?s (sw_head_seq w)"
      using sack_range [OF inv, of ?s] k by simp_all
    show ?thesis
    proof (cases "ss_acked ?slot")
      case True
      then have "?slot\<lparr>ss_acked := True\<rparr> = ?slot" by simp
      then have "sack_mark S (sw_entries w) = sw_entries w"
        unfolding mark nth_sw_entries [OF k] by (metis k list_update_id nth_sw_entries)
      moreover have "sack_one ack sack now i (w, rs) = Some (w, rs)"
        using b rng True inv unfolding sack_one_def Let_def prod.case at by simp
      moreover have "es = []" unfolding es_def at_s using True by simp
      ultimately show ?thesis by (intro nop)
    next
      case False
      let ?w = "(flight_dec w)\<lparr>sw_slots := (sw_slots w)[sw_at w ?k := ?slot\<lparr>ss_acked := True\<rparr>]\<rparr>"
      have "sack_one ack sack now i (w, rs) = Some (?w, ack_sample now ?slot rs)"
        using b rng False inv ok unfolding sack_one_def Let_def prod.case at
        by (simp del: deref_Some_iff)
      moreover have "es = [?slot]" unfolding es_def at_s using False k b by simp
      ultimately show ?thesis
        using mark_entry_inv [OF inv k False] mark by (intro exI [of _ ?w]) simp
    qed
  next
    case False
    then have "sack_one ack sack now i (w, rs) = Some (w, rs)"
      using sack_range [OF inv, of ?s] by (auto simp: sack_one_def Let_def)
    moreover have "sack_mark S (sw_entries w) = sw_entries w"
      using False sack_mark_outside [OF inv, of ?s] by (auto simp: S_def)
    moreover have "es = []" unfolding es_def at_s using False by auto
    ultimately show ?thesis by (rule nop)
  qed
qed

text \<open>The slots a selective mask acknowledges for the first time, in the order of its bits.\<close>

definition newly_sacked :: "u32 \<Rightarrow> u32 \<Rightarrow> nat list \<Rightarrow> rel4u_send_slot list \<Rightarrow> rel4u_send_slot list" where
  "newly_sacked ack sack is es = concat (map (\<lambda>i. unacked_at (ack + 1 + of_nat i) es) (filter (bit sack) is))"

lemma newly_sacked_mark:
  assumes "\<forall>i \<in> set is. ack + 1 + of_nat i \<notin> S"
  shows "newly_sacked ack sack is (sack_mark S es) = newly_sacked ack sack is es"
  using assms by (induction "is") (simp_all add: newly_sacked_def unacked_at_mark)

lemma sack_loop_law:
  fixes ack sack :: u32
  assumes "send_inv w" "distinct is" "\<forall>i \<in> set is. i < 32"
  shows "\<exists>w'. sack_loop ack sack now is (w, rs) = Some (w', fold (ack_sample now) (newly_sacked ack sack is (sw_entries w)) rs) \<and>
    send_inv w' \<and> sw_entries w' = sack_mark {ack + 1 + of_nat i |i. i \<in> set is \<and> bit sack i} (sw_entries w) \<and>
    sw_head_seq w' = sw_head_seq w \<and> sw_next_seq w' = sw_next_seq w \<and> sw_capacity w' = sw_capacity w \<and>
    sw_next_unrel_seq w' = sw_next_unrel_seq w"
  using assms
proof (induction "is" arbitrary: w rs)
  case Nil
  then show ?case by (intro exI [of _ w]) (simp add: newly_sacked_def)
next
  case (Cons i "is")
  let ?S = "if bit sack i then {ack + 1 + of_nat i} else {}"
  let ?es = "if bit sack i then unacked_at (ack + 1 + of_nat i) (sw_entries w) else []"
  let ?T = "{ack + 1 + of_nat i |i. i \<in> set is \<and> bit sack i}"
  obtain w1 where 1: "sack_one ack sack now i (w, rs) = Some (w1, fold (ack_sample now) ?es rs)" "send_inv w1"
      "sw_entries w1 = sack_mark ?S (sw_entries w)" "sw_head_seq w1 = sw_head_seq w" "sw_next_seq w1 = sw_next_seq w"
      "sw_capacity w1 = sw_capacity w" "sw_next_unrel_seq w1 = sw_next_unrel_seq w"
    using sack_one_law [OF Cons.prems(1), of ack sack now i rs] by blast
  have "(of_nat j :: u32) \<noteq> of_nat i" if "j \<in> set is" for j
    using Cons.prems(2,3) that unat_of_nat_u32 [of i] unat_of_nat_u32 [of j] by fastforce
  then have es: "newly_sacked ack sack is (sw_entries w1) = newly_sacked ack sack is (sw_entries w)"
    unfolding 1(3) by (intro newly_sacked_mark) auto
  have "newly_sacked ack sack (i # is) (sw_entries w) = ?es @ newly_sacked ack sack is (sw_entries w)" by (simp add: newly_sacked_def)
  moreover have "?S \<union> ?T = {ack + 1 + of_nat j |j. j \<in> set (i # is) \<and> bit sack j}" by auto
  ultimately show ?case
    using Cons.IH [OF 1(2), of "fold (ack_sample now) ?es rs"] Cons.prems(2,3) 1 es by (auto simp: sack_mark_mark)
qed

definition sack_set :: "u32 \<Rightarrow> u32 \<Rightarrow> u32 set" where
  "sack_set ack sack = {ack + 1 + of_nat i |i. i < 32 \<and> bit sack i}"

text \<open>The slots an acknowledgement covers for the first time, in the order in which the code meets them.\<close>

definition newly_acked :: "u32 \<Rightarrow> u32 \<Rightarrow> rel4u_send_window \<Rightarrow> rel4u_send_slot list" where
  "newly_acked ack sack w =
     (let m = ack_count ack (sw_head_seq w) (sw_len w)
      in unacked (take m (sw_entries w)) @ newly_sacked ack sack [0..<32] (drop m (sw_entries w)))"

lemma set_newly_acked: "set (newly_acked ack sack w) \<subseteq> set (unacked (sw_entries w))"
proof -
  let ?m = "ack_count ack (sw_head_seq w) (sw_len w)"
  have "set (newly_sacked ack sack is es) \<subseteq> set (unacked es)" for "is" es
    using set_unacked_at by (fastforce simp: newly_sacked_def)
  moreover have "set (unacked (take ?m es)) \<subseteq> set (unacked es)" "set (unacked (drop ?m es)) \<subseteq> set (unacked es)" for es
    unfolding unacked_def using set_take_subset set_drop_subset by fastforce+
  ultimately show ?thesis unfolding newly_acked_def Let_def by (metis (no_types, lifting) Un_least order_trans set_append)
qed

lemma send_on_ack_law:
  assumes inv: "send_inv w"
  shows "\<exists>w' es rs'. rel4u_send_window_on_ack w ack sack now rtt stats = Some (w', rs') \<and>
    rs' = fold (ack_sample now) es (rtt, stats) \<and> es = newly_acked ack sack w \<and> set es \<subseteq> set (unacked (sw_entries w)) \<and> send_inv w' \<and>
    sw_entries w' =
      sack_mark (sack_set ack sack) (drop (ack_count ack (sw_head_seq w) (sw_len w)) (sw_entries w)) \<and>
    sw_head_seq w' = sw_head_seq w + of_nat (ack_count ack (sw_head_seq w) (sw_len w)) \<and>
    sw_next_seq w' = sw_next_seq w \<and> sw_capacity w' = sw_capacity w \<and>
    sw_next_unrel_seq w' = sw_next_unrel_seq w"
proof -
  let ?m = "ack_count ack (sw_head_seq w) (sw_len w)"
  let ?es = "unacked (take ?m (sw_entries w))"
  obtain w1 where 1: "cumulative_ack ack now w (rtt, stats) = Some (w1, fold (ack_sample now) ?es (rtt, stats))"
      "send_inv w1" "sw_entries w1 = drop ?m (sw_entries w)" "sw_head_seq w1 = sw_head_seq w + of_nat ?m"
      "sw_next_seq w1 = sw_next_seq w" "sw_capacity w1 = sw_capacity w" "sw_next_unrel_seq w1 = sw_next_unrel_seq w"
    using cumulative_ack_law [OF inv] by blast
  note sub = set_newly_acked [of ack sack w]
  show ?thesis
  proof (cases "sack = 0")
    case True
    then have "sack_set ack sack = {}" "newly_acked ack sack w = ?es"
      by (simp_all add: sack_set_def newly_acked_def newly_sacked_def Let_def)
    with True 1 sub show ?thesis
      by (intro exI [of _ w1] exI [of _ ?es] exI [of _ "fold (ack_sample now) ?es (rtt, stats)"])
        (simp add: rel4u_send_window_on_ack_def)
  next
    case False
    obtain w2 where 2: "sack_loop ack sack now [0..<32] (w1, fold (ack_sample now) ?es (rtt, stats)) =
          Some (w2, fold (ack_sample now) (newly_sacked ack sack [0..<32] (sw_entries w1)) (fold (ack_sample now) ?es (rtt, stats)))"
        "send_inv w2" "sw_entries w2 = sack_mark {ack + 1 + of_nat i |i. i \<in> set [0..<32] \<and> bit sack i} (sw_entries w1)"
        "sw_head_seq w2 = sw_head_seq w1" "sw_next_seq w2 = sw_next_seq w1" "sw_capacity w2 = sw_capacity w1"
        "sw_next_unrel_seq w2 = sw_next_unrel_seq w1"
      using sack_loop_law [OF 1(2), of "[0..<32]" ack sack now] by (simp del: upt_rec_numeral) blast
    have "sack_set ack sack = {ack + 1 + of_nat i |i. i \<in> set [0..<32] \<and> bit sack i}"
      by (simp add: sack_set_def)
    moreover have "newly_acked ack sack w = ?es @ newly_sacked ack sack [0..<32] (sw_entries w1)"
      by (simp add: newly_acked_def Let_def 1(3))
    ultimately show ?thesis using 2 1 False sub
      by (intro exI [of _ w2] exI [of _ "newly_acked ack sack w"] exI [of _ "fold (ack_sample now) (newly_acked ack sack w) (rtt, stats)"])
        (simp add: rel4u_send_window_on_ack_def del: upt_rec_numeral)
  qed
qed

subsection \<open>Expired slots\<close>

definition expired :: "u64 \<Rightarrow> u64 \<Rightarrow> rel4u_send_slot \<Rightarrow> bool" where
  "expired now rto s \<longleftrightarrow>
     \<not> ss_acked s \<and> now \<ge> ss_last_sent_time_ns s \<and> now - ss_last_sent_time_ns s \<ge> rto"

lemma expired_loop_law:
  assumes inv: "send_inv w" and "k \<le> sw_len w" and "length out < mx"
  shows "expired_loop w now rto mx (sw_head_seq w + of_nat k) out =
    Some (out @ take (mx - length out)
      (map (sw_at w) (filter (\<lambda>j. expired now rto (sw_slots w ! sw_at w j)) [k..<sw_len w])))"
  using assms(2,3)
proof (induction "sw_len w - k" arbitrary: k out)
  case 0
  then have "k = sw_len w" by simp
  moreover have "\<not> rel4u_seq_lt (sw_next_seq w) (sw_next_seq w)" by (simp add: rel4u_seq_lt_def)
  ultimately show ?case
    by (subst expired_loop.simps) (simp add: sw_next_eq)
next
  case (Suc d)
  then have k: "k < sw_len w" "d = sw_len w - Suc k" "Suc k \<le> sw_len w" by simp_all
  have n: "sw_len w < 2 ^ 31" using send_invD(2,5) [OF inv] by linarith
  have lt: "rel4u_seq_lt (sw_head_seq w + of_nat k) (sw_next_seq w)"
    using k n seq_offset(1) [of k "sw_len w" "sw_head_seq w"] by (simp add: sw_next_eq)
  let ?slot = "sw_slots w ! sw_at w k"
  have ok: "ss_in_use ?slot" "ss_seq_num ?slot = sw_head_seq w + of_nat k"
    using send_invD(6,7) [OF inv k(1)] by (simp_all add: send_slot_ok_def)
  have at: "slot_of (sw_capacity w) (sw_head_seq w + of_nat k) = sw_at w k" by (simp add: sw_at_def)
  have nxt: "sw_head_seq w + of_nat k + 1 = sw_head_seq w + of_nat (Suc k)" by (simp add: algebra_simps)
  have step: "expired_loop w now rto mx (sw_head_seq w + of_nat k) out =
      (if expired now rto ?slot then
         if length out + 1 \<ge> mx then Some (out @ [sw_at w k])
         else expired_loop w now rto mx (sw_head_seq w + of_nat (Suc k)) (out @ [sw_at w k])
       else expired_loop w now rto mx (sw_head_seq w + of_nat (Suc k)) out)"
    using lt ok inv by (subst expired_loop.simps) (simp add: at nxt Let_def expired_def del: deref_Some_iff)
  have upt: "[k..<sw_len w] = k # [Suc k..<sw_len w]" using k by (simp add: upt_conv_Cons)
  show ?case
  proof (cases "expired now rto ?slot")
    case True
    show ?thesis
    proof (cases "length out + 1 \<ge> mx")
      case last: True
      then have "mx - length out = Suc 0" using Suc.prems by simp
      with True last step show ?thesis by (simp add: upt)
    next
      case False
      then have "mx - length out = Suc (mx - length (out @ [sw_at w k]))" by simp
      with True False step Suc.hyps(1) [OF k(2,3), of "out @ [sw_at w k]"] show ?thesis by (simp add: upt)
    qed
  next
    case False
    with step Suc.hyps(1) [OF k(2,3) Suc.prems(2)] show ?thesis by (simp add: upt)
  qed
qed

text \<open>The positions of a window whose slot satisfies \<open>P\<close>, read as the slots themselves.\<close>

lemma map_positions:
  "map (\<lambda>j. sw_slots w ! j) (map (sw_at w) (filter (\<lambda>j. P (sw_slots w ! sw_at w j)) [0..<sw_len w])) =
   filter P (sw_entries w)"
  by (simp add: sw_entries_def filter_map comp_def)

lemma send_get_expired_law:
  assumes "send_inv w" "max_slots \<noteq> 0"
  shows "\<exists>idx. rel4u_send_window_get_expired w now rto max_slots = Some idx \<and>
    map (\<lambda>j. sw_slots w ! j) idx =
      take (unat max_slots) (filter (expired now (ucast rto * 1000000)) (sw_entries w)) \<and>
    (\<forall>j \<in> set idx. j < length (sw_slots w)) \<and> distinct idx"
proof -
  let ?js = "filter (\<lambda>j. expired now (ucast rto * 1000000) (sw_slots w ! sw_at w j)) [0..<sw_len w]"
  have "unat max_slots > 0" using assms(2) by (simp add: unat_gt_0)
  then have "rel4u_send_window_get_expired w now rto max_slots = Some (take (unat max_slots) (map (sw_at w) ?js))"
    using expired_loop_law [OF assms(1), of 0 "[]" "unat max_slots"] assms(2)
    by (simp add: rel4u_send_window_get_expired_def)
  moreover have "distinct (map (sw_at w) ?js)"
    using sw_at_inj [OF assms(1)] send_invD(5) [OF assms(1)] by (auto simp: distinct_map inj_on_def)
  ultimately show ?thesis
    using map_positions [of w "expired now (ucast rto * 1000000)"] assms(1)
    by (auto simp: take_map [symmetric] dest!: in_set_takeD intro: distinct_take)
qed

subsection \<open>Reclaiming\<close>

definition slot_msg :: "rel4u_send_slot \<Rightarrow> message" where
  "slot_msg s = (0, ss_delivery_mode s, take (unat (ss_payload_len s)) (ss_payload s))"

lemma slot_item_ok:
  assumes "send_slot_ok s" "length (ss_payload s) = REL4U_MAX_PAYLOAD_SIZE"
  shows "\<exists>i. slot_item s = Some i \<and> valid_item i \<and> item_msg i = slot_msg s"
proof -
  have "unat (ss_payload_len s) \<le> length zero_payload" "unat (ss_payload_len s) \<le> length (ss_payload s)"
    using assms by (simp_all add: send_slot_ok_def zero_payload_def)
  then obtain d where d: "memcpy zero_payload (ss_payload s) (unat (ss_payload_len s)) = Some d"
    by (simp add: memcpy_in_range)
  with memcpy_SomeD [OF d] assms(1) show ?thesis
    by (simp add: slot_item_def valid_item_def item_msg_def slot_msg_def send_slot_ok_def zero_payload_def)
qed

definition entry_item :: "rel4u_send_slot \<Rightarrow> rel4u_mpmc_item" where
  "entry_item s = the (slot_item s)"

lemma entry_items:
  assumes "send_inv w" "s \<in> set (sw_entries w)"
  shows "slot_item s = Some (entry_item s)" "valid_item (entry_item s)" "item_msg (entry_item s) = slot_msg s"
proof -
  obtain k where k: "k < sw_len w" "s = sw_slots w ! sw_at w k"
    using assms(2) by (auto simp: sw_entries_def)
  from slot_item_ok [of s] send_invD(6) [OF assms(1) k(1)] payload_at [OF assms(1), of k] k(2)
  show "slot_item s = Some (entry_item s)" "valid_item (entry_item s)" "item_msg (entry_item s) = slot_msg s"
    by (auto simp: entry_item_def)
qed

lemma reclaim_loop_law:
  assumes inv: "send_inv w" and "k \<le> sw_len w"
  shows "reclaim_loop alloc w (sw_head_seq w + of_nat k) q n =
    Some (requeue rel4u_mpmc_push_front alloc (map entry_item (unacked (take k (sw_entries w)))) (n, q))"
  using assms(2)
proof (induction k arbitrary: n q)
  case 0
  then show ?case by (subst reclaim_loop.simps) (simp add: rel4u_seq_gt_def requeue_def)
next
  case (Suc k)
  then have k: "k < sw_len w" by simp
  let ?slot = "sw_slots w ! sw_at w k"
  have n: "sw_len w < 2 ^ 31" using send_invD(2,5) [OF inv] by linarith
  have gt: "rel4u_seq_gt (sw_head_seq w + of_nat (Suc k)) (sw_head_seq w)"
    using Suc.prems n seq_offset(3) [of "Suc k" 0 "sw_head_seq w"] by simp
  have cur: "sw_head_seq w + of_nat (Suc k) - 1 = sw_head_seq w + of_nat k" by simp
  have at: "slot_of (sw_capacity w) (sw_head_seq w + of_nat k) = sw_at w k" by (simp add: sw_at_def)
  have ok: "ss_in_use ?slot" "ss_seq_num ?slot = sw_head_seq w + of_nat k"
      "ss_delivery_mode ?slot = REL4U_MODE_RELIABLE_ORDERED \<or> ss_delivery_mode ?slot = REL4U_MODE_RELIABLE_UNORDERED"
    using send_invD(6,7) [OF inv k] by (simp_all add: send_slot_ok_def)
  have item: "slot_item ?slot = Some (entry_item ?slot)"
    using entry_items(1) [OF inv, of ?slot] nth_mem [of k "sw_entries w"] k by simp
  have tk: "take (Suc k) (sw_entries w) = take k (sw_entries w) @ [?slot]"
    using k by (simp add: take_Suc_conv_app_nth)
  have step: "reclaim_loop alloc w (sw_head_seq w + of_nat (Suc k)) q n =
      (if ss_acked ?slot then reclaim_loop alloc w (sw_head_seq w + of_nat k) q n
       else case rel4u_mpmc_push_front alloc q (Some (entry_item ?slot)) of (b, q') \<Rightarrow>
         reclaim_loop alloc w (sw_head_seq w + of_nat k) q' (if b then n + 1 else n))"
    using gt ok inv item
    by (subst reclaim_loop.simps)
      (simp only: Let_def cur at deref_sw_at option.case if_True simp_thms, simp add: case_prod_unfold)
  show ?case
    using Suc.IH k unfolding step tk by (simp add: requeue_def split: prod.split)
qed

lemma send_reclaim_law:
  assumes inv: "send_inv w"
  shows "rel4u_send_window_reclaim_unacked alloc w (Some q) =
    Some (map_prod id Some
      (requeue rel4u_mpmc_push_front alloc (map entry_item (unacked (sw_entries w))) (0, q)))"
proof -
  have ne: "sw_slots w \<noteq> []"
    using pow2_ge_2 [OF send_invD(1) [OF inv]] send_invD(3) [OF inv] by auto
  show ?thesis
  proof (cases "sw_len w = 0")
    case True
    then have "sw_next_seq w = sw_head_seq w" "sw_entries w = []"
      by (simp_all add: sw_next_eq sw_entries_def)
    with ne show ?thesis
      by (simp add: rel4u_send_window_reclaim_unacked_def rel4u_seq_gt_def requeue_def)
  next
    case False
    have "sw_len w < 2 ^ 31" using send_invD(2,5) [OF inv] by linarith
    with False have "rel4u_seq_gt (sw_next_seq w) (sw_head_seq w)"
      using seq_offset(3) [of "sw_len w" 0 "sw_head_seq w"] by (simp add: sw_next_eq)
    with ne reclaim_loop_law [OF inv le_refl, of alloc q 0] show ?thesis
      by (simp add: rel4u_send_window_reclaim_unacked_def sw_next_eq)
  qed
qed

subsection \<open>Histories\<close>

text \<open>The calls the connection code makes on a send window; \<open>None\<close> is a memory fault.\<close>

datatype send_op =
    Send_Push u8 "u8 list option" size_t u64
  | Send_Ack u32 u32 u64 "rel4u_rtt option" "rel4u_stats option"
  | Send_Reset u32

fun send_step :: "rel4u_send_window \<Rightarrow> send_op \<Rightarrow> rel4u_send_window option" where
  "send_step w (Send_Push mode data len now) =
     map_option (\<lambda>(r, w', s). w') (rel4u_send_window_push w mode data len now)"
| "send_step w (Send_Ack ack sack now rtt stats) =
     map_option fst (rel4u_send_window_on_ack w ack sack now rtt stats)"
| "send_step w (Send_Reset s) = Some (snd (rel4u_send_window_reset w s))"

fun send_run :: "rel4u_send_window \<Rightarrow> send_op list \<Rightarrow> rel4u_send_window option" where
  "send_run w [] = Some w"
| "send_run w (x # xs) = Option.bind (send_step w x) (\<lambda>w'. send_run w' xs)"

fun push_in_bounds :: "send_op \<Rightarrow> bool" where
  "push_in_bounds (Send_Push mode (Some bytes) len now) \<longleftrightarrow>
     unat len \<le> REL4U_MAX_PAYLOAD_SIZE \<longrightarrow> unat len \<le> length bytes"
| "push_in_bounds _ \<longleftrightarrow> True"

lemma send_inv_unrel [simp]: "send_inv (w\<lparr>sw_next_unrel_seq := x\<rparr>) = send_inv w"
proof -
  have "sw_entries (w\<lparr>sw_next_unrel_seq := x\<rparr>) = sw_entries w" "sw_len (w\<lparr>sw_next_unrel_seq := x\<rparr>) = sw_len w"
    by (simp_all add: sw_entries_def sw_len_def sw_at_def)
  then show ?thesis by (simp only: send_inv_def) simp
qed

lemma send_step_inv:
  assumes "send_inv w" "push_in_bounds x"
  shows "\<exists>w'. send_step w x = Some w' \<and> send_inv w' \<and> sw_capacity w' = sw_capacity w"
proof (cases x)
  case (Send_Push mode data len now)
  show ?thesis
  proof (cases "\<exists>bytes. data = Some bytes \<and> unat len \<le> REL4U_MAX_PAYLOAD_SIZE \<and>
      (mode = REL4U_MODE_RELIABLE_ORDERED \<or> mode = REL4U_MODE_RELIABLE_UNORDERED)")
    case True
    then obtain bytes where "data = Some bytes" "unat len \<le> REL4U_MAX_PAYLOAD_SIZE" "unat len \<le> length bytes"
        "mode = REL4U_MODE_RELIABLE_ORDERED \<or> mode = REL4U_MODE_RELIABLE_UNORDERED"
      using assms(2) Send_Push by auto
    with send_push_reliable [OF assms(1) this(2,3,4), of now] assms(1) Send_Push show ?thesis
      by (cases "sw_len w < unat (sw_capacity w)") auto
  next
    case False
    then show ?thesis
      using assms(1) Send_Push by (cases data) (auto simp: rel4u_send_window_push_def)
  qed
next
  case (Send_Ack ack sack now rtt stats)
  with send_on_ack_law [OF assms(1), of ack sack now rtt stats] show ?thesis by auto
next
  case (Send_Reset s)
  with send_reset_inv [OF assms(1), of s] show ?thesis by auto
qed

lemma send_run_inv:
  "send_inv w \<Longrightarrow> \<forall>x \<in> set xs. push_in_bounds x \<Longrightarrow>
   \<exists>w'. send_run w xs = Some w' \<and> send_inv w' \<and> sw_capacity w' = sw_capacity w"
proof (induction xs arbitrary: w)
  case (Cons x xs)
  with send_step_inv [of w x] obtain w1 where "send_step w x = Some w1" "send_inv w1" "sw_capacity w1 = sw_capacity w"
    by auto
  with Cons.IH [of w1] Cons.prems show ?case by auto
qed simp

lemma ack_sample_retransmitted: "ss_retransmit_count s \<noteq> 0 \<Longrightarrow> ack_sample now s rs = rs"
  by (auto simp: ack_sample_def split: option.splits prod.splits)

subsection \<open>Properties\<close>

definition ex_send :: rel4u_send_window where
  "ex_send = snd (rel4u_send_window_init True zero_send_window 4 0xFFFFFFFF)"

lemma ex_send_init: "rel4u_send_window_init True zero_send_window 4 0xFFFFFFFF = (0, ex_send)"
  by (simp add: ex_send_def rel4u_send_window_init_def)

lemma ex_send_inv: "send_inv ex_send" "sw_entries ex_send = []" "sw_len ex_send = 0" "sw_capacity ex_send = 4"
    "sw_next_seq ex_send = 0xFFFFFFFF" "sw_head_seq ex_send = 0xFFFFFFFF"
proof -
  show "send_inv ex_send" "sw_entries ex_send = []" "sw_capacity ex_send = 4" "sw_head_seq ex_send = 0xFFFFFFFF"
    using send_init_inv [OF ex_send_init] by simp_all
  show "sw_len ex_send = 0" "sw_next_seq ex_send = 0xFFFFFFFF"
    by (simp_all add: sw_len_def) (simp_all add: ex_send_def rel4u_send_window_init_def)
qed

text \<open>
  The send window is safe under every sequence of calls. From a window that
  \<open>rel4u_send_window_init\<close> returned (with a capacity below $2^{31}$), any sequence of
  \<open>rel4u_send_window_push\<close>, \<open>rel4u_send_window_on_ack\<close> and \<open>rel4u_send_window_reset\<close> calls, with any
  modes, acknowledgement numbers and masks a peer may send, ends without an access outside the
  slot table or a payload. The window then holds at most \<open>capacity\<close> consecutive sequence numbers,
  each in its own slot, and \<open>in_flight\<close> is the number of unacknowledged ones.
\<close>

theorem send_window_safe:
  assumes "rel4u_send_window_init ok w0 capacity initial_seq = (0, w)" "unat capacity < 2 ^ 31"
    and "\<forall>x \<in> set xs. push_in_bounds x"
  shows "\<exists>w'. send_run w xs = Some w' \<and> sw_len w' \<le> unat capacity \<and>
    map ss_seq_num (sw_entries w') = map (\<lambda>k. sw_head_seq w' + of_nat k) [0..<sw_len w'] \<and>
    unat (sw_in_flight w') = length (unacked (sw_entries w'))"
proof -
  have w: "send_inv w" "sw_capacity w = capacity" using send_init_inv [OF assms(1,2)] by simp_all
  from send_run_inv [OF w(1) assms(3)] obtain w' where
    w': "send_run w xs = Some w'" "send_inv w'" "sw_capacity w' = capacity" using w(2) by auto
  have "map ss_seq_num (sw_entries w') = map (\<lambda>k. sw_head_seq w' + of_nat k) [0..<sw_len w']"
    using send_invD(7) [OF w'(2)] by (simp add: sw_entries_def)
  with w' send_invD(5,8) [OF w'(2)] show ?thesis by auto
qed

lemma send_window_safe_witness:
  "\<exists>w'. send_run ex_send [Send_Push 3 (Some [1, 2]) 2 5, Send_Push 2 (Some []) 0 6, Send_Ack 0xFFFFFFFF 1 9 None None] =
      Some w' \<and> sw_len w' \<le> 4"
  using send_window_safe [OF ex_send_init, of "[Send_Push 3 (Some [1, 2]) 2 5, Send_Push 2 (Some []) 0 6,
    Send_Ack 0xFFFFFFFF 1 9 None None]"] by auto

text \<open>
  \<open>rel4u_send_window_push\<close>, exactly, for a reliable message that fits its buffer. With fewer
  than \<open>capacity\<close> sequence numbers outstanding it returns 0, stores the next sequence number
  through \<open>out_seq\<close> and appends one entry that carries that number, the payload, both send times
  and a retransmission count of 0; with the window full it returns -2 and changes nothing.
\<close>

theorem send_push_exact:
  assumes "send_inv w" "unat len \<le> REL4U_MAX_PAYLOAD_SIZE" "unat len \<le> length bytes"
    and "mode = REL4U_MODE_RELIABLE_ORDERED \<or> mode = REL4U_MODE_RELIABLE_UNORDERED"
  shows "if rel4u_send_window_can_send w then
      \<exists>w' s. rel4u_send_window_push w mode (Some bytes) len now = Some (0, w', Some (sw_next_seq w)) \<and>
        sw_entries w' = sw_entries w @ [s] \<and> new_slot mode bytes (unat len) now (sw_next_seq w) s \<and>
        sw_head_seq w' = sw_head_seq w \<and> sw_next_seq w' = sw_next_seq w + 1
    else rel4u_send_window_push w mode (Some bytes) len now = Some (-2, w, None)"
  using send_push_reliable [OF assms, of now] send_can_send_iff [OF assms(1)] by auto

lemma send_push_exact_witness:
  "\<exists>w' s. rel4u_send_window_push ex_send 3 (Some [7, 8, 9]) 2 5 = Some (0, w', Some 0xFFFFFFFF) \<and>
     sw_entries w' = [s] \<and> new_slot 3 [7, 8, 9] 2 5 0xFFFFFFFF s"
  using send_push_exact [OF ex_send_inv(1), of 2 "[7, 8, 9]" 3 5] send_can_send_iff [OF ex_send_inv(1)]
  by (auto simp: ex_send_inv)

text \<open>
  C20. \<open>rel4u_send_window_on_ack\<close>, exactly. A cumulative acknowledgement of \<open>ack\<close> removes the
  entries from the head up to and including \<open>ack\<close> (none if \<open>ack\<close> lies behind the head, never more
  than there are), advances \<open>head_seq\<close> by that many, and then marks as acknowledged exactly the
  remaining entries whose bit in the selective mask is set (bit \<open>i\<close> is sequence number
  \<open>ack + 1 + i\<close>). Nothing else of the entries changes.
\<close>

theorem send_on_ack_exact:
  assumes "send_inv w"
  shows "\<exists>w' rs. rel4u_send_window_on_ack w ack sack now rtt stats = Some (w', rs) \<and>
    sw_entries w' =
      sack_mark (sack_set ack sack) (drop (ack_count ack (sw_head_seq w) (sw_len w)) (sw_entries w)) \<and>
    sw_head_seq w' = sw_head_seq w + of_nat (ack_count ack (sw_head_seq w) (sw_len w)) \<and>
    sw_next_seq w' = sw_next_seq w"
  using send_on_ack_law [OF assms, of ack sack now rtt stats] by blast

definition ex_sent :: rel4u_send_window where
  "ex_sent = fst (snd (the (rel4u_send_window_push ex_send 3 (Some [7, 8, 9]) 2 5)))"

lemma ex_sent_facts:
  "send_inv ex_sent" "sw_head_seq ex_sent = 0xFFFFFFFF" "sw_len ex_sent = 1"
  "\<exists>s. sw_entries ex_sent = [s] \<and> new_slot 3 [7, 8, 9] 2 5 0xFFFFFFFF s"
proof -
  obtain w' s where "rel4u_send_window_push ex_send 3 (Some [7, 8, 9]) 2 5 = Some (0, w', Some 0xFFFFFFFF)"
      "send_inv w'" "sw_entries w' = [s]" "sw_head_seq w' = 0xFFFFFFFF"
      "new_slot 3 [7, 8, 9] 2 5 0xFFFFFFFF s"
    using send_push_reliable [OF ex_send_inv(1), of 2 "[7, 8, 9]" 3 5] by (auto simp: ex_send_inv)
  then show "send_inv ex_sent" "sw_head_seq ex_sent = 0xFFFFFFFF" "sw_len ex_sent = 1"
      "\<exists>s. sw_entries ex_sent = [s] \<and> new_slot 3 [7, 8, 9] 2 5 0xFFFFFFFF s"
    using length_sw_entries [of w'] by (simp_all add: ex_sent_def)
qed

lemma send_on_ack_exact_witness:
  "\<exists>w' rs. rel4u_send_window_on_ack ex_sent 0xFFFFFFFF 1 9 None None = Some (w', rs) \<and>
     sw_entries w' = [] \<and> sw_head_seq w' = 0"
  using send_on_ack_exact [OF ex_sent_facts(1), of "0xFFFFFFFF" 1 9 None None] ex_sent_facts(4)
  by (auto simp: ex_sent_facts ack_count_def sack_mark_def)

text \<open>
  C33. \<open>rel4u_send_window_get_expired\<close>, exactly: the slots it returns are the first \<open>max_slots\<close>
  entries, oldest first, that are unacknowledged and were last sent at least \<open>rto_ms\<close>
  milliseconds ago; the pointers are distinct and inside the slot table.
\<close>

theorem send_get_expired_exact:
  assumes "send_inv w" "max_slots \<noteq> 0"
  shows "\<exists>idx. rel4u_send_window_get_expired w now rto max_slots = Some idx \<and>
    map (\<lambda>j. sw_slots w ! j) idx =
      take (unat max_slots) (filter (expired now (ucast rto * 1000000)) (sw_entries w)) \<and>
    (\<forall>j \<in> set idx. j < length (sw_slots w)) \<and> distinct idx"
  using assms by (rule send_get_expired_law)

lemma send_get_expired_exact_witness:
  "\<exists>idx s. rel4u_send_window_get_expired ex_sent 20000005 20 8 = Some idx \<and> sw_entries ex_sent = [s] \<and>
     map (\<lambda>j. sw_slots ex_sent ! j) idx = [s]"
  using send_get_expired_exact [OF ex_sent_facts(1), of 8 20000005 20] ex_sent_facts(4)
  by (auto simp: expired_def new_slot_def)

text \<open>
  C34. \<open>rel4u_send_window_reclaim_unacked\<close> loses nothing when the queue has room. The messages of
  all unacknowledged entries come back at the front of the queue, in the order in which they
  were first sent and before everything that was queued; the call returns their number and
  drops nothing.
\<close>

theorem send_reclaim_in_order:
  assumes "send_inv w" "queue_inv q" "fresh_alloc alloc" "total_alloc alloc"
    and "queue_fits q (map entry_item (unacked (sw_entries w)))"
  shows "\<exists>q'. rel4u_send_window_reclaim_unacked alloc w (Some q) =
      Some (length (unacked (sw_entries w)), Some q') \<and> queue_inv q' \<and>
    queue_msgs q' = map slot_msg (unacked (sw_entries w)) @ queue_msgs q \<and>
    q_dropped_count q' = q_dropped_count q"
proof -
  let ?is = "map entry_item (unacked (sw_entries w))"
  have sub: "s \<in> set (unacked (sw_entries w)) \<Longrightarrow> s \<in> set (sw_entries w)" for s by (simp add: unacked_def)
  have valid: "\<forall>i \<in> set ?is. valid_item i" using entry_items(2) [OF assms(1)] sub by auto
  have msg: "map item_msg ?is = map slot_msg (unacked (sw_entries w))"
    using entry_items(3) [OF assms(1)] sub by simp
  from notify_queue.requeue_msgs [OF assms(3,4,2) valid assms(5), of 0] obtain q' where
    q': "requeue rel4u_mpmc_push_front alloc ?is (0, q) = (length ?is, q')"
      "queue_msgs q' = map item_msg ?is @ queue_msgs q" "q_dropped_count q' = q_dropped_count q"
    by auto
  moreover have "queue_inv q'"
    using notify_queue.requeue_invar [OF assms(3) _ valid, of "(0, q)"] assms(2) q'(1) by simp
  ultimately show ?thesis using send_reclaim_law [OF assms(1), of alloc q] msg by simp
qed

lemma send_reclaim_in_order_witness:
  "\<exists>q'. rel4u_send_window_reclaim_unacked ex_alloc ex_sent (Some ex_ring) = Some (1, Some q') \<and>
     queue_msgs q' = [(0, 3, [7, 8])]"
proof -
  obtain s where s: "sw_entries ex_sent = [s]" "new_slot 3 [7, 8, 9] 2 5 0xFFFFFFFF s"
    using ex_sent_facts(4) by blast
  have "queue_fits ex_ring [entry_item s]"
    by (simp add: queue_fits_def ex_queues) (simp add: ex_ring_def rel4u_mpmc_init_def Let_def)
  with send_reclaim_in_order [OF ex_sent_facts(1) ex_queues(3) ex_alloc_facts] s show ?thesis
    by (auto simp: new_slot_def ex_queues slot_msg_def)
qed

end
