(* ===== verification/Recv_Window_Correct.thy ===== *)
theory Recv_Window_Correct
  imports Recv_Window
begin

text \<open>
  Correctness of the receive window. \<open>rw_buf\<close> reads the slot table as a partial map from the
  distance to \<open>expected_seq\<close> to the buffered slot; \<open>recv_inv\<close> is the invariant. Storing a
  packet updates the map at one distance; draining a run of \<open>m\<close> buffered slots shifts the map by
  \<open>m\<close> (\<open>drained\<close>). The two drain loops and the four delivery modes are stated in these terms.
\<close>

subsection \<open>The window as a map of buffered slots\<close>

definition rw_at :: "rel4u_recv_window \<Rightarrow> nat \<Rightarrow> nat" where
  "rw_at w k = slot_of (rw_capacity w) (rw_expected_seq w + of_nat k)"

definition rw_buf :: "rel4u_recv_window \<Rightarrow> nat \<Rightarrow> rel4u_recv_slot option" where
  "rw_buf w k =
     (if k < unat (rw_capacity w) \<and> rs_received (rw_slots w ! rw_at w k) then Some (rw_slots w ! rw_at w k)
      else None)"

definition recv_slot_ok :: "rel4u_recv_slot \<Rightarrow> bool" where
  "recv_slot_ok s \<longleftrightarrow>
     unat (rs_payload_len s) \<le> REL4U_MAX_PAYLOAD_SIZE \<and>
     (rs_delivery_mode s = REL4U_MODE_RELIABLE_ORDERED \<or> rs_delivery_mode s = REL4U_MODE_RELIABLE_UNORDERED)"

definition payloads_ok :: "rel4u_recv_slot list \<Rightarrow> bool" where
  "payloads_ok ss \<longleftrightarrow> (\<forall>s \<in> set ss. length (rs_payload s) = REL4U_MAX_PAYLOAD_SIZE)"

definition recv_inv :: "rel4u_recv_window \<Rightarrow> bool" where
  "recv_inv w \<longleftrightarrow>
     pow2 (rw_capacity w) \<and> unat (rw_capacity w) < 2 ^ 31 \<and>
     length (rw_slots w) = unat (rw_capacity w) \<and> payloads_ok (rw_slots w) \<and>
     (\<forall>k s. rw_buf w k = Some s \<longrightarrow> rs_seq_num s = rw_expected_seq w + of_nat k \<and> recv_slot_ok s)"

lemma recv_invD:
  assumes "recv_inv w"
  shows "pow2 (rw_capacity w)" "unat (rw_capacity w) < 2 ^ 31"
    "length (rw_slots w) = unat (rw_capacity w)" "payloads_ok (rw_slots w)"
    "\<And>k s. rw_buf w k = Some s \<Longrightarrow> rs_seq_num s = rw_expected_seq w + of_nat k"
    "\<And>k s. rw_buf w k = Some s \<Longrightarrow> recv_slot_ok s"
  using assms by (auto simp: recv_inv_def)

lemma rw_at_less [simp]: "recv_inv w \<Longrightarrow> rw_at w k < length (rw_slots w)"
  by (simp add: rw_at_def recv_inv_def)

lemma rw_at_inj:
  "recv_inv w \<Longrightarrow> j < unat (rw_capacity w) \<Longrightarrow> k < unat (rw_capacity w) \<Longrightarrow> rw_at w j = rw_at w k \<longleftrightarrow> j = k"
  unfolding rw_at_def by (rule slot_of_inj) (simp add: recv_invD)

lemma deref_rw_at [simp]: "recv_inv w \<Longrightarrow> deref (rw_slots w) (rw_at w k) = Some (rw_slots w ! rw_at w k)"
  by simp

lemma rw_expected_at: "slot_of (rw_capacity w) (rw_expected_seq w) = rw_at w 0"
  by (simp add: rw_at_def)

lemma rw_buf_cap: "rw_buf w k = Some s \<Longrightarrow> k < unat (rw_capacity w)"
  by (simp add: rw_buf_def split: if_splits)

text \<open>What the code tests on a slot within the window is that it is buffered.\<close>

lemma rw_buf_iff:
  assumes "recv_inv w" "k < unat (rw_capacity w)"
  shows "rs_received (rw_slots w ! rw_at w k) \<and> rs_seq_num (rw_slots w ! rw_at w k) = rw_expected_seq w + of_nat k \<longleftrightarrow>
    rw_buf w k \<noteq> None"
  using assms recv_invD(5) [OF assms(1), of k] by (auto simp: rw_buf_def split: if_splits)

lemma payloads_ok_update:
  "payloads_ok ss \<Longrightarrow> length (rs_payload s) = REL4U_MAX_PAYLOAD_SIZE \<Longrightarrow> payloads_ok (ss[i := s])"
  using set_update_subset_insert [of ss i s] unfolding payloads_ok_def by blast

lemma payloads_ok_nth:
  "payloads_ok ss \<Longrightarrow> i < length ss \<Longrightarrow> length (rs_payload (ss ! i)) = REL4U_MAX_PAYLOAD_SIZE"
  unfolding payloads_ok_def by (meson nth_mem)

subsection \<open>Creation\<close>

lemma recv_window_empty_inv:
  fixes w :: rel4u_recv_window and s :: u32
  assumes "pow2 c" "unat c < 2 ^ 31"
  defines "w' \<equiv> w\<lparr>rw_slots := replicate (unat c) zero_recv_slot, rw_capacity := c, rw_expected_seq := s,
      rw_highest_unrel_seq := 0, rw_has_highest_unrel := False\<rparr>"
  shows "recv_inv w' \<and> rw_buf w' = Map.empty"
proof -
  have b: "rw_buf w' = Map.empty"
    using assms(1) by (auto simp: rw_buf_def w'_def zero_recv_slot_def rw_at_def)
  moreover have "recv_inv w'"
    unfolding recv_inv_def b using assms(1,2)
    by (simp add: w'_def payloads_ok_def zero_recv_slot_def)
  ultimately show ?thesis by simp
qed

lemma recv_init_inv:
  assumes "rel4u_recv_window_init ok w c s = (0, w')" "unat c < 2 ^ 31"
  shows "recv_inv w' \<and> rw_buf w' = Map.empty \<and> rw_capacity w' = c \<and> rw_expected_seq w' = s"
proof -
  have c: "pow2 c" and w': "w' = w\<lparr>rw_slots := replicate (unat c) zero_recv_slot, rw_capacity := c,
      rw_expected_seq := s, rw_highest_unrel_seq := 0, rw_has_highest_unrel := False\<rparr>"
    using assms(1) by (auto simp: rel4u_recv_window_init_def pow2_def not_less split: if_splits)
  show ?thesis unfolding w' using recv_window_empty_inv [OF c assms(2)] by simp
qed

lemma recv_reset_inv:
  assumes "recv_inv w"
  shows "\<exists>w'. rel4u_recv_window_reset w s = (0, w') \<and> recv_inv w' \<and> rw_buf w' = Map.empty \<and>
    rw_capacity w' = rw_capacity w \<and> rw_expected_seq w' = s"
proof -
  have ne: "rw_capacity w \<noteq> 0" "rw_slots w \<noteq> []"
    using pow2_ge_2 [OF recv_invD(1) [OF assms]] recv_invD(3) [OF assms] by auto
  then have "rel4u_recv_window_reset w s =
      (0, w\<lparr>rw_slots := replicate (unat (rw_capacity w)) zero_recv_slot, rw_capacity := rw_capacity w,
        rw_expected_seq := s, rw_highest_unrel_seq := 0, rw_has_highest_unrel := False\<rparr>)"
    by (simp add: rel4u_recv_window_reset_def)
  then show ?thesis
    using recv_window_empty_inv [OF recv_invD(1,2) [OF assms], where w = w and s = s] by simp
qed

subsection \<open>Storing and draining\<close>

lemma recv_store:
  assumes inv: "recv_inv w" and k: "k < unat (rw_capacity w)"
    and s: "rs_received s" "rs_seq_num s = rw_expected_seq w + of_nat k" "recv_slot_ok s"
      "length (rs_payload s) = REL4U_MAX_PAYLOAD_SIZE"
  defines "w' \<equiv> w\<lparr>rw_slots := (rw_slots w)[rw_at w k := s]\<rparr>"
  shows "recv_inv w' \<and> rw_buf w' = (rw_buf w)(k \<mapsto> s)"
proof -
  have at: "rw_at w' j = rw_at w j" for j by (simp add: w'_def rw_at_def)
  have b: "rw_buf w' = (rw_buf w)(k \<mapsto> s)"
  proof
    fix j
    show "rw_buf w' j = ((rw_buf w)(k \<mapsto> s)) j"
      using rw_at_inj [OF inv _ k, of j] k inv s(1)
      by (cases "j < unat (rw_capacity w)") (auto simp: rw_buf_def at, auto simp: w'_def)
  qed
  have "recv_inv w'"
    unfolding recv_inv_def b using recv_invD [OF inv] s payloads_ok_update
    by (simp add: w'_def)
  with b show ?thesis by simp
qed

lemma recv_consume:
  assumes inv: "recv_inv w" and s: "rw_buf w 0 = Some s"
  defines "w' \<equiv> w\<lparr>rw_slots := (rw_slots w)[rw_at w 0 := s\<lparr>rs_received := False\<rparr>],
      rw_expected_seq := rw_expected_seq w + 1\<rparr>"
  shows "recv_inv w' \<and> rw_buf w' = (\<lambda>k. rw_buf w (Suc k))"
proof -
  let ?c = "unat (rw_capacity w)"
  have c: "0 < ?c" using pow2_ge_2 [OF recv_invD(1) [OF inv]] by simp
  have at: "rw_at w' k = rw_at w (Suc k)" for k
    by (simp add: w'_def rw_at_def algebra_simps)
  have wrap: "rw_at w ?c = rw_at w 0"
    using slot_of_add [OF recv_invD(1) [OF inv], of "rw_expected_seq w"]
    by (metis add_0_right mod_add_self2 rw_at_def)
  have b: "rw_buf w' k = rw_buf w (Suc k)" for k
  proof -
    consider "Suc k < ?c" | "Suc k = ?c" | "?c < Suc k" by linarith
    then show ?thesis
    proof cases
      case 1
      then have "rw_at w (Suc k) \<noteq> rw_at w 0" using rw_at_inj [OF inv 1 c] by simp
      with 1 show ?thesis by (simp add: rw_buf_def at) (simp add: w'_def)
    next
      case 2
      then have "rw_at w (Suc k) = rw_at w 0" using wrap by simp
      with 2 inv show ?thesis by (simp add: rw_buf_def at) (simp add: w'_def)
    next
      case 3
      then show ?thesis by (simp add: rw_buf_def w'_def)
    qed
  qed
  have "s = rw_slots w ! rw_at w 0" using s by (simp add: rw_buf_def split: if_splits)
  then have "length (rs_payload s) = REL4U_MAX_PAYLOAD_SIZE"
    using payloads_ok_nth [OF recv_invD(4) [OF inv]] inv by simp
  then have "payloads_ok (rw_slots w')"
    using payloads_ok_update [OF recv_invD(4) [OF inv]] by (simp add: w'_def)
  moreover have "rs_seq_num t = rw_expected_seq w' + of_nat k \<and> recv_slot_ok t" if "rw_buf w' k = Some t" for k t
    using that recv_invD(5,6) [OF inv, of "Suc k" t] b by (simp add: w'_def algebra_simps)
  ultimately have "recv_inv w'"
    using recv_invD(1,2,3) [OF inv] by (simp add: recv_inv_def) (simp add: w'_def)
  with b show ?thesis by auto
qed

definition drained :: "rel4u_recv_window \<Rightarrow> nat \<Rightarrow> rel4u_recv_window \<Rightarrow> bool" where
  "drained w m w' \<longleftrightarrow>
     recv_inv w' \<and> (\<forall>k < m. rw_buf w k \<noteq> None) \<and> rw_buf w' = (\<lambda>k. rw_buf w (k + m)) \<and>
     rw_expected_seq w' = rw_expected_seq w + of_nat m \<and> rw_capacity w' = rw_capacity w \<and>
     rw_highest_unrel_seq w' = rw_highest_unrel_seq w \<and> rw_has_highest_unrel w' = rw_has_highest_unrel w"

definition run_of :: "rel4u_recv_window \<Rightarrow> nat \<Rightarrow> rel4u_recv_slot list" where
  "run_of w m = map (\<lambda>k. the (rw_buf w k)) [0..<m]"

definition ordered :: "rel4u_recv_slot list \<Rightarrow> rel4u_recv_slot list" where
  "ordered ss = filter (\<lambda>s. rs_delivery_mode s = REL4U_MODE_RELIABLE_ORDERED) ss"

lemma ordered_simps [simp]:
  "ordered [] = []" "ordered (xs @ ys) = ordered xs @ ordered ys"
  "ordered (s # ss) = (if rs_delivery_mode s = REL4U_MODE_RELIABLE_ORDERED then s # ordered ss else ordered ss)"
  by (simp_all add: ordered_def)

lemma drained_refl: "recv_inv w \<Longrightarrow> drained w 0 w"
  by (simp add: drained_def)

lemma drained_step:
  assumes inv: "recv_inv w" and s: "rw_buf w 0 = Some s"
  defines "w1 \<equiv> w\<lparr>rw_slots := (rw_slots w)[rw_at w 0 := s\<lparr>rs_received := False\<rparr>],
      rw_expected_seq := rw_expected_seq w + 1\<rparr>"
  assumes "drained w1 m w'"
  shows "drained w (Suc m) w'" "run_of w (Suc m) = s # run_of w1 m"
proof -
  have b: "rw_buf w1 = (\<lambda>k. rw_buf w (Suc k))" using recv_consume [OF inv s] by (simp add: w1_def)
  then have "\<forall>k < Suc m. rw_buf w k \<noteq> None"
    using assms(4) s by (auto simp: drained_def less_Suc_eq_0_disj)
  with assms(4) b show "drained w (Suc m) w'"
    by (simp add: drained_def) (simp add: w1_def algebra_simps)
  show "run_of w (Suc m) = s # run_of w1 m"
    using s b by (simp add: run_of_def map_upt_Suc del: upt_Suc)
qed

lemma run_of_ok: "recv_inv w \<Longrightarrow> drained w m w' \<Longrightarrow> s \<in> set (run_of w m) \<Longrightarrow> \<exists>k < m. rw_buf w k = Some s"
  by (auto simp: run_of_def drained_def)

text \<open>What a drain loop returns, started with \<open>n\<close> slots already in the output array.\<close>

definition drain_result ::
  "rel4u_recv_window \<Rightarrow> rel4u_recv_slot list \<Rightarrow> nat \<Rightarrow> nat \<Rightarrow>
   (rel4u_recv_window \<times> rel4u_recv_slot list \<times> nat) option \<Rightarrow> bool" where
  "drain_result w out mx n r \<longleftrightarrow>
     (\<exists>w' out' n' m. r = Some (w', out', n') \<and> drained w m w' \<and>
        n' = n + length (ordered (run_of w m)) \<and> n' \<le> mx \<and> length out' = length out \<and> payloads_ok out' \<and>
        take n' out' = take n out @ ordered (run_of w m) \<and> (rw_buf w' 0 = None \<or> n' = mx))"

lemma drain_stop:
  assumes "recv_inv w" "payloads_ok out" "n \<le> mx" "mx \<le> length out" "rw_buf w 0 = None \<or> n = mx"
  shows "drain_result w out mx n (Some (w, out, n))"
  unfolding drain_result_def using assms drained_refl [OF assms(1)]
  by (intro exI [of _ w] exI [of _ out] exI [of _ n] exI [of _ 0]) (simp add: run_of_def)

lemma drain_step_ordered:
  assumes "recv_inv w" "rw_buf w 0 = Some s" "rs_delivery_mode s = REL4U_MODE_RELIABLE_ORDERED"
    and "n < mx" "mx \<le> length out"
    and "drain_result (w\<lparr>rw_slots := (rw_slots w)[rw_at w 0 := s\<lparr>rs_received := False\<rparr>],
      rw_expected_seq := rw_expected_seq w + 1\<rparr>) (out[n := s]) mx (n + 1) r" (is "drain_result ?w _ _ _ r")
  shows "drain_result w out mx n r"
proof -
  from assms(6) obtain w' out' n' m where r: "r = Some (w', out', n')" "drained ?w m w'"
      "n' = n + 1 + length (ordered (run_of ?w m))" "n' \<le> mx" "length out' = length out" "payloads_ok out'"
      "take n' out' = take (n + 1) (out[n := s]) @ ordered (run_of ?w m)" "rw_buf w' 0 = None \<or> n' = mx"
    unfolding drain_result_def by auto
  note st = drained_step [OF assms(1,2) r(2)]
  have "take (n + 1) (out[n := s]) = take n out @ [s]"
    using assms(4,5) by (simp add: take_Suc_conv_app_nth)
  then show ?thesis
    unfolding drain_result_def using r st assms(3)
    by (intro exI [of _ w'] exI [of _ out'] exI [of _ n'] exI [of _ "Suc m"]) simp
qed

lemma drain_step_unordered:
  assumes "recv_inv w" "rw_buf w 0 = Some s" "rs_delivery_mode s \<noteq> REL4U_MODE_RELIABLE_ORDERED"
    and "drain_result (w\<lparr>rw_slots := (rw_slots w)[rw_at w 0 := s\<lparr>rs_received := False\<rparr>],
      rw_expected_seq := rw_expected_seq w + 1\<rparr>) out mx n r" (is "drain_result ?w _ _ _ r")
  shows "drain_result w out mx n r"
proof -
  from assms(4) obtain w' out' n' m where r: "r = Some (w', out', n')" "drained ?w m w'"
      "n' = n + length (ordered (run_of ?w m))" "n' \<le> mx" "length out' = length out" "payloads_ok out'"
      "take n' out' = take n out @ ordered (run_of ?w m)" "rw_buf w' 0 = None \<or> n' = mx"
    unfolding drain_result_def by auto
  note st = drained_step [OF assms(1,2) r(2)]
  show ?thesis
    unfolding drain_result_def using r st assms(3)
    by (intro exI [of _ w'] exI [of _ out'] exI [of _ n'] exI [of _ "Suc m"]) simp
qed

lemma rw_buf_0_iff:
  assumes "recv_inv w"
  shows "rs_received (rw_slots w ! rw_at w 0) \<and> rs_seq_num (rw_slots w ! rw_at w 0) = rw_expected_seq w \<longleftrightarrow>
    rw_buf w 0 \<noteq> None" "rw_buf w 0 = Some s \<Longrightarrow> rw_slots w ! rw_at w 0 = s"
  using rw_buf_iff [OF assms, of 0] pow2_ge_2 [OF recv_invD(1) [OF assms]]
  by (auto simp: rw_buf_def split: if_splits)

lemma consume_fewer:
  assumes "recv_inv w" "rw_buf w 0 = Some s"
  shows "received_count (w\<lparr>rw_slots := (rw_slots w)[rw_at w 0 := s\<lparr>rs_received := False\<rparr>], rw_expected_seq := e\<rparr>)
    < received_count w"
  using assms rw_buf_0_iff(2) [OF assms] by (intro received_count_clear) (auto simp: rw_buf_def split: if_splits)

lemma payload_of_buffered:
  assumes "recv_inv w" "rw_buf w k = Some s"
  shows "length (rs_payload s) = REL4U_MAX_PAYLOAD_SIZE"
proof -
  have "s = rw_slots w ! rw_at w k" using assms(2) by (simp add: rw_buf_def split: if_splits)
  with assms(1) payloads_ok_nth [OF recv_invD(4) [OF assms(1)]] show ?thesis by simp
qed

lemma pop_ready_loop_law:
  assumes "recv_inv w" "payloads_ok out" "n \<le> mx" "mx \<le> length out"
  shows "drain_result w out mx n (pop_ready_loop w out mx n)"
  using assms
proof (induction "received_count w" arbitrary: w out n rule: less_induct)
  case less
  note inv = less.prems(1)
  show ?case
  proof (cases "rw_buf w 0 = None \<or> n = mx")
    case True
    then have "pop_ready_loop w out mx n = Some (w, out, n)"
      using rw_buf_0_iff(1) [OF inv] inv less.prems(3)
      by (subst pop_ready_loop.simps) (auto simp: rw_expected_at Let_def simp del: deref_Some_iff)
    with drain_stop [OF less.prems True] show ?thesis by simp
  next
    case False
    then obtain s where s: "rw_buf w 0 = Some s" and n: "n < mx" using less.prems(3) by auto
    let ?w = "w\<lparr>rw_slots := (rw_slots w)[rw_at w 0 := s\<lparr>rs_received := False\<rparr>], rw_expected_seq := rw_expected_seq w + 1\<rparr>"
    have w1: "recv_inv ?w" using recv_consume [OF inv s] by simp
    have step: "pop_ready_loop w out mx n =
        (if rs_delivery_mode s = REL4U_MODE_RELIABLE_ORDERED then pop_ready_loop ?w (out[n := s]) mx (n + 1)
         else pop_ready_loop ?w out mx n)"
      using rw_buf_0_iff [OF inv] s n inv less.prems(4)
      by (subst pop_ready_loop.simps) (simp add: rw_expected_at Let_def del: deref_Some_iff)
    show ?thesis
    proof (cases "rs_delivery_mode s = REL4U_MODE_RELIABLE_ORDERED")
      case True
      with step drain_step_ordered [OF inv s True n less.prems(4)]
        less.hyps [OF consume_fewer [OF inv s] w1, of "out[n := s]" "n + 1"] n less.prems(4)
        payloads_ok_update [OF less.prems(2) payload_of_buffered [OF inv s]]
      show ?thesis by simp
    next
      case False
      with step drain_step_unordered [OF inv s False] less.hyps [OF consume_fewer [OF inv s] w1 less.prems(2-4)]
      show ?thesis by simp
    qed
  qed
qed

lemma advance_loop_law:
  assumes "recv_inv w" "payloads_ok out" "n \<le> mx" "mx \<le> length out"
  shows "drain_result w out mx n (advance_loop w out mx n)"
  using assms
proof (induction "received_count w" arbitrary: w out n rule: less_induct)
  case less
  note inv = less.prems(1)
  show ?case
  proof (cases "rw_buf w 0")
    case None
    then have "advance_loop w out mx n = Some (w, out, n)"
      using rw_buf_0_iff(1) [OF inv] inv
      by (subst advance_loop.simps) (auto simp: rw_expected_at Let_def simp del: deref_Some_iff)
    with drain_stop [OF less.prems] None show ?thesis by simp
  next
    case (Some s)
    let ?w = "w\<lparr>rw_slots := (rw_slots w)[rw_at w 0 := s\<lparr>rs_received := False\<rparr>], rw_expected_seq := rw_expected_seq w + 1\<rparr>"
    have w1: "recv_inv ?w" using recv_consume [OF inv Some] by simp
    have mode: "rs_delivery_mode s = REL4U_MODE_RELIABLE_ORDERED \<or> rs_delivery_mode s = REL4U_MODE_RELIABLE_UNORDERED"
      using recv_invD(6) [OF inv Some] by (simp add: recv_slot_ok_def)
    have step: "advance_loop w out mx n =
        (if rs_delivery_mode s = REL4U_MODE_RELIABLE_ORDERED then
           if n < mx then advance_loop ?w (out[n := s]) mx (n + 1) else Some (w, out, n)
         else advance_loop ?w out mx n)"
      using rw_buf_0_iff [OF inv] Some inv less.prems(4) mode
      by (subst advance_loop.simps) (auto simp: rw_expected_at Let_def simp del: deref_Some_iff)
    show ?thesis
    proof (cases "rs_delivery_mode s = REL4U_MODE_RELIABLE_ORDERED")
      case True
      show ?thesis
      proof (cases "n < mx")
        case n: True
        with True step drain_step_ordered [OF inv Some True n less.prems(4)]
          less.hyps [OF consume_fewer [OF inv Some] w1, of "out[n := s]" "n + 1"] less.prems(4)
          payloads_ok_update [OF less.prems(2) payload_of_buffered [OF inv Some]]
        show ?thesis by simp
      next
        case False
        with True step drain_stop [OF less.prems] less.prems(3) show ?thesis by simp
      qed
    next
      case False
      with step drain_step_unordered [OF inv Some False] less.hyps [OF consume_fewer [OF inv Some] w1 less.prems(2-4)]
      show ?thesis by simp
    qed
  qed
qed

subsection \<open>Packets\<close>

definition packet_fits :: "rel4u_header \<Rightarrow> u8 list \<Rightarrow> bool" where
  "packet_fits hdr bytes \<longleftrightarrow>
     unat (payload_len hdr) \<le> REL4U_MAX_PAYLOAD_SIZE \<and> unat (payload_len hdr) \<le> length bytes"

definition slot_bytes :: "rel4u_recv_slot \<Rightarrow> u8 list" where
  "slot_bytes s = take (unat (rs_payload_len s)) (rs_payload s)"

definition packet_slot :: "rel4u_header \<Rightarrow> rel4u_recv_slot \<Rightarrow> bool" where
  "packet_slot hdr s \<longleftrightarrow>
     rs_received s \<and> rs_seq_num s = seq_num hdr \<and> rs_delivery_mode s = delivery_mode hdr \<and>
     rs_payload_len s = payload_len hdr \<and> length (rs_payload s) = REL4U_MAX_PAYLOAD_SIZE"

lemma copy_payload_law:
  assumes "packet_fits hdr bytes" "length dst = REL4U_MAX_PAYLOAD_SIZE"
  shows "\<exists>b. copy_payload dst hdr (Some bytes) = Some b \<and> length b = REL4U_MAX_PAYLOAD_SIZE \<and>
    take (unat (payload_len hdr)) b = take (unat (payload_len hdr)) bytes"
proof (cases "payload_len hdr > 0")
  case True
  obtain b where b: "memcpy dst bytes (unat (payload_len hdr)) = Some b"
    using assms by (simp add: packet_fits_def memcpy_in_range)
  with True assms(2) memcpy_SomeD [OF b] show ?thesis by (simp add: copy_payload_def)
next
  case False
  then have "payload_len hdr = 0" by (simp add: word_gt_0)
  with assms(2) show ?thesis by (simp add: copy_payload_def)
qed

lemma fill_first_law:
  assumes "packet_fits hdr bytes" "payloads_ok out" "0 < length out"
  shows "\<exists>s. fill_first out hdr (Some bytes) = Some (out[0 := s]) \<and> packet_slot hdr s \<and>
    slot_bytes s = take (unat (payload_len hdr)) bytes"
proof -
  from copy_payload_law [OF assms(1) payloads_ok_nth [OF assms(2,3)]] obtain b where
    b: "copy_payload (rs_payload (out ! 0)) hdr (Some bytes) = Some b" "length b = REL4U_MAX_PAYLOAD_SIZE"
      "take (unat (payload_len hdr)) b = take (unat (payload_len hdr)) bytes" by blast
  let ?s = "(out ! 0)\<lparr>rs_seq_num := seq_num hdr, rs_delivery_mode := delivery_mode hdr,
    rs_payload_len := payload_len hdr, rs_received := True, rs_payload := b\<rparr>"
  have "deref out 0 = Some (out ! 0)" using assms(3) by simp
  then have "fill_first out hdr (Some bytes) = Some (out[0 := ?s])"
    using b(1) by (simp only: fill_first_def option.case option.map)
  with b show ?thesis by (intro exI [of _ ?s]) (simp add: packet_slot_def slot_bytes_def)
qed

text \<open>
  The outcome of an accepted reliable packet: with \<open>b\<close> the buffered slots once it is stored,
  the run of buffered slots at the start of \<open>b\<close> is taken out of the window, and the ordered
  ones among them are the ready ones, after \<open>front\<close>.
\<close>

definition delivers ::
  "rel4u_recv_window \<Rightarrow> (nat \<Rightarrow> rel4u_recv_slot option) \<Rightarrow> rel4u_recv_slot list \<Rightarrow> nat \<Rightarrow>
   rel4u_recv_window \<Rightarrow> rel4u_recv_slot list \<Rightarrow> bool" where
  "delivers w b front mx w' ready \<longleftrightarrow>
     (\<exists>m. recv_inv w' \<and> (\<forall>j < m. b j \<noteq> None) \<and> rw_buf w' = (\<lambda>j. b (j + m)) \<and>
        rw_expected_seq w' = rw_expected_seq w + of_nat m \<and> rw_capacity w' = rw_capacity w \<and>
        rw_highest_unrel_seq w' = rw_highest_unrel_seq w \<and> rw_has_highest_unrel w' = rw_has_highest_unrel w \<and>
        ready = front @ ordered (map (\<lambda>j. the (b j)) [0..<m]) \<and> (rw_buf w' 0 = None \<or> length ready = mx))"

lemma drain_delivers:
  assumes "drain_result w1 out mx n r" "rw_buf w1 = b" "rw_expected_seq w1 = rw_expected_seq w"
    "rw_capacity w1 = rw_capacity w" "rw_highest_unrel_seq w1 = rw_highest_unrel_seq w"
    "rw_has_highest_unrel w1 = rw_has_highest_unrel w" "n \<le> length out"
  shows "\<exists>w' out' ready. r = Some (w', out', length ready) \<and> delivers w b (take n out) mx w' ready \<and>
    take (length ready) out' = ready \<and> length ready \<le> mx \<and> length out' = length out \<and> payloads_ok out'"
proof -
  from assms(1) obtain w' out' m where r: "r = Some (w', out', n + length (ordered (run_of w1 m)))"
      "drained w1 m w'" "n + length (ordered (run_of w1 m)) \<le> mx" "length out' = length out" "payloads_ok out'"
      "take (n + length (ordered (run_of w1 m))) out' = take n out @ ordered (run_of w1 m)"
      "rw_buf w' 0 = None \<or> n + length (ordered (run_of w1 m)) = mx"
    unfolding drain_result_def by blast
  let ?ready = "take n out @ ordered (run_of w1 m)"
  have len: "length ?ready = n + length (ordered (run_of w1 m))" using assms(7) by simp
  have "delivers w b (take n out) mx w' ?ready"
    unfolding delivers_def using r(2,7) len assms(2-6)
    by (intro exI [of _ m]) (simp add: drained_def run_of_def)
  with r len show ?thesis by (intro exI [of _ w'] exI [of _ out'] exI [of _ ?ready]) simp
qed

lemma seq_distance_tests:
  fixes s :: u32
  assumes "recv_inv w"
  defines "d \<equiv> unat (s - rw_expected_seq w)"
  shows "rel4u_seq_lt s (rw_expected_seq w) \<longleftrightarrow> 2 ^ 31 \<le> d"
    "d < 2 ^ 31 \<Longrightarrow> rel4u_seq_diff s (rw_expected_seq w) \<ge> sint (rw_capacity w) \<longleftrightarrow> unat (rw_capacity w) \<le> d"
    "slot_of (rw_capacity w) s = rw_at w d"
proof -
  show "rel4u_seq_lt s (rw_expected_seq w) \<longleftrightarrow> 2 ^ 31 \<le> d" by (simp add: d_def seq_lt_unat)
  show "rel4u_seq_diff s (rw_expected_seq w) \<ge> sint (rw_capacity w) \<longleftrightarrow> unat (rw_capacity w) \<le> d" if "d < 2 ^ 31"
    using sint_u32_less_cap [OF recv_invD(2) [OF assms(1)], of "s - rw_expected_seq w"] that
    by (auto simp: rel4u_seq_diff_def d_def)
  show "slot_of (rw_capacity w) s = rw_at w d" by (simp add: rw_at_def d_def)
qed

text \<open>The cases in which a reliable packet is not accepted, the same in both modes.\<close>

definition reliable_verdict :: "rel4u_recv_window \<Rightarrow> u32 \<Rightarrow> int" where
  "reliable_verdict w s =
     (let d = unat (s - rw_expected_seq w)
      in if 2 ^ 31 \<le> d then 1
         else if unat (rw_capacity w) \<le> d then -2
         else if rw_buf w d \<noteq> None then 1
         else 0)"

lemma on_ordered_body:
  assumes inv: "recv_inv w" and d: "unat (seq_num hdr - rw_expected_seq w) = d" "d < unat (rw_capacity w)" "d < 2 ^ 31"
  shows "on_reliable_ordered w hdr (Some bytes) out mx =
    (if rw_buf w d \<noteq> None then Some (1, w, out, Some 0)
     else case copy_payload (rs_payload (rw_slots w ! rw_at w d)) hdr (Some bytes) of
       None \<Rightarrow> None
     | Some bs \<Rightarrow> rel4u_recv_window_pop_ready
         (w\<lparr>rw_slots := (rw_slots w)[rw_at w d := (rw_slots w ! rw_at w d)\<lparr>rs_seq_num := seq_num hdr,
            rs_payload_len := payload_len hdr, rs_delivery_mode := delivery_mode hdr, rs_received := True, rs_payload := bs\<rparr>]\<rparr>) out mx)"
proof -
  note t = seq_distance_tests [OF inv, of "seq_num hdr", unfolded d(1)]
  have e: "rw_expected_seq w + of_nat d = seq_num hdr" by (simp flip: d(1))
  show ?thesis
    using t d(2,3) inv rw_buf_iff [OF inv d(2)] unfolding on_reliable_ordered_def Let_def e t(3)
    by (simp del: deref_Some_iff)
qed

lemma on_ordered_new:
  assumes inv: "recv_inv w" and out: "payloads_ok out" "0 < mx" "mx \<le> length out"
    and p: "packet_fits hdr bytes" "delivery_mode hdr = REL4U_MODE_RELIABLE_ORDERED"
    and d: "unat (seq_num hdr - rw_expected_seq w) = d" "d < unat (rw_capacity w)" "d < 2 ^ 31" "rw_buf w d = None"
  shows "\<exists>s w' out' ready. on_reliable_ordered w hdr (Some bytes) out mx = Some (0, w', out', Some (length ready)) \<and>
    packet_slot hdr s \<and> slot_bytes s = take (unat (payload_len hdr)) bytes \<and>
    delivers w ((rw_buf w)(d \<mapsto> s)) [] mx w' ready \<and> take (length ready) out' = ready \<and>
    length ready \<le> mx \<and> length out' = length out \<and> payloads_ok out'"
proof -
  let ?slot = "rw_slots w ! rw_at w d"
  have e: "rw_expected_seq w + of_nat d = seq_num hdr" by (simp flip: d(1))
  have "length (rs_payload ?slot) = REL4U_MAX_PAYLOAD_SIZE"
    using payloads_ok_nth [OF recv_invD(4) [OF inv]] inv by simp
  from copy_payload_law [OF p(1) this] obtain bs where
    bs: "copy_payload (rs_payload ?slot) hdr (Some bytes) = Some bs" "length bs = REL4U_MAX_PAYLOAD_SIZE"
      "take (unat (payload_len hdr)) bs = take (unat (payload_len hdr)) bytes" by blast
  define s where "s = ?slot\<lparr>rs_seq_num := seq_num hdr, rs_payload_len := payload_len hdr,
            rs_delivery_mode := delivery_mode hdr, rs_received := True, rs_payload := bs\<rparr>"
  have s: "packet_slot hdr s" "slot_bytes s = take (unat (payload_len hdr)) bytes"
    using bs by (simp_all add: s_def packet_slot_def slot_bytes_def)
  let ?w = "w\<lparr>rw_slots := (rw_slots w)[rw_at w d := s]\<rparr>"
  have w1: "recv_inv ?w \<and> rw_buf ?w = (rw_buf w)(d \<mapsto> s)"
    using s(1) p e by (intro recv_store [OF inv d(2)]) (auto simp: packet_slot_def recv_slot_ok_def packet_fits_def)
  have "on_reliable_ordered w hdr (Some bytes) out mx = rel4u_recv_window_pop_ready ?w out mx"
    using on_ordered_body [OF inv d(1-3)] d(4) bs(1) by (simp add: s_def)
  moreover have "\<exists>w' out' ready. pop_ready_loop ?w out mx 0 = Some (w', out', length ready) \<and>
      delivers w ((rw_buf w)(d \<mapsto> s)) (take 0 out) mx w' ready \<and> take (length ready) out' = ready \<and>
      length ready \<le> mx \<and> length out' = length out \<and> payloads_ok out'"
    by (rule drain_delivers [OF pop_ready_loop_law]) (use w1 out in simp_all)
  ultimately show ?thesis
    using s out(2) by (auto simp: rel4u_recv_window_pop_ready_def)
qed

lemma on_ordered_law:
  assumes inv: "recv_inv w" and out: "payloads_ok out" "0 < mx" "mx \<le> length out"
    and p: "packet_fits hdr bytes" "delivery_mode hdr = REL4U_MODE_RELIABLE_ORDERED"
  defines "d \<equiv> unat (seq_num hdr - rw_expected_seq w)"
  shows "if reliable_verdict w (seq_num hdr) \<noteq> 0 then
      on_reliable_ordered w hdr (Some bytes) out mx = Some (reliable_verdict w (seq_num hdr), w, out, Some 0)
    else \<exists>s w' out' ready. on_reliable_ordered w hdr (Some bytes) out mx = Some (0, w', out', Some (length ready)) \<and>
      packet_slot hdr s \<and> slot_bytes s = take (unat (payload_len hdr)) bytes \<and>
      delivers w ((rw_buf w)(d \<mapsto> s)) [] mx w' ready \<and> take (length ready) out' = ready \<and>
      length ready \<le> mx \<and> length out' = length out \<and> payloads_ok out'"
proof -
  note t = seq_distance_tests [OF inv, of "seq_num hdr", folded d_def]
  consider (far) "2 ^ 31 \<le> d \<or> unat (rw_capacity w) \<le> d" | (known) "d < unat (rw_capacity w)" "d < 2 ^ 31" "rw_buf w d \<noteq> None"
    | (new) "d < unat (rw_capacity w)" "d < 2 ^ 31" "rw_buf w d = None"
    by linarith
  then show ?thesis
  proof cases
    case far
    with t show ?thesis by (auto simp: on_reliable_ordered_def reliable_verdict_def d_def)
  next
    case known
    with on_ordered_body [OF inv d_def [symmetric, THEN meta_eq_to_obj_eq] known(1,2)] show ?thesis by (simp add: reliable_verdict_def d_def)
  next
    case new
    then have v: "reliable_verdict w (seq_num hdr) = 0" by (simp add: reliable_verdict_def d_def)
    show ?thesis unfolding v using on_ordered_new [OF inv out p d_def [symmetric, THEN meta_eq_to_obj_eq] new] by simp
  qed
qed

lemma on_unordered_body:
  assumes inv: "recv_inv w" and d: "unat (seq_num hdr - rw_expected_seq w) = d" "d < unat (rw_capacity w)" "d < 2 ^ 31"
  shows "on_reliable_unordered w hdr (Some bytes) out mx =
    (if rw_buf w d \<noteq> None then Some (1, w, out, Some 0)
     else case fill_first out hdr (Some bytes) of
       None \<Rightarrow> None
     | Some out \<Rightarrow> map_option (\<lambda>(win, out, n). (0, win, out, Some n))
         (advance_loop (w\<lparr>rw_slots := (rw_slots w)[rw_at w d := (rw_slots w ! rw_at w d)\<lparr>rs_received := True,
            rs_seq_num := seq_num hdr, rs_payload_len := payload_len hdr, rs_delivery_mode := delivery_mode hdr\<rparr>]\<rparr>) out mx 1))"
proof -
  note t = seq_distance_tests [OF inv, of "seq_num hdr", unfolded d(1)]
  have e: "rw_expected_seq w + of_nat d = seq_num hdr" by (simp flip: d(1))
  show ?thesis
    using t d(2,3) inv rw_buf_iff [OF inv d(2)] unfolding on_reliable_unordered_def Let_def e t(3)
    by (simp del: deref_Some_iff)
qed

lemma on_unordered_new:
  assumes inv: "recv_inv w" and out: "payloads_ok out" "0 < mx" "mx \<le> length out"
    and p: "packet_fits hdr bytes" "delivery_mode hdr = REL4U_MODE_RELIABLE_UNORDERED"
    and d: "unat (seq_num hdr - rw_expected_seq w) = d" "d < unat (rw_capacity w)" "d < 2 ^ 31" "rw_buf w d = None"
  shows "\<exists>s f w' out' ready. on_reliable_unordered w hdr (Some bytes) out mx = Some (0, w', out', Some (length ready)) \<and>
    packet_slot hdr s \<and> packet_slot hdr f \<and> slot_bytes f = take (unat (payload_len hdr)) bytes \<and>
    delivers w ((rw_buf w)(d \<mapsto> s)) [f] mx w' ready \<and> take (length ready) out' = ready \<and>
    length ready \<le> mx \<and> length out' = length out \<and> payloads_ok out'"
proof -
  let ?slot = "rw_slots w ! rw_at w d"
  define s where "s = ?slot\<lparr>rs_received := True, rs_seq_num := seq_num hdr, rs_payload_len := payload_len hdr,
    rs_delivery_mode := delivery_mode hdr\<rparr>"
  let ?w = "w\<lparr>rw_slots := (rw_slots w)[rw_at w d := s]\<rparr>"
  have e: "rw_expected_seq w + of_nat d = seq_num hdr" by (simp flip: d(1))
  have "length (rs_payload ?slot) = REL4U_MAX_PAYLOAD_SIZE"
    using payloads_ok_nth [OF recv_invD(4) [OF inv]] inv by simp
  then have s: "packet_slot hdr s" by (simp add: s_def packet_slot_def)
  have w1: "recv_inv ?w \<and> rw_buf ?w = (rw_buf w)(d \<mapsto> s)"
    using s p e by (intro recv_store [OF inv d(2)]) (auto simp: packet_slot_def recv_slot_ok_def packet_fits_def)
  obtain f where f: "fill_first out hdr (Some bytes) = Some (out[0 := f])" "packet_slot hdr f"
      "slot_bytes f = take (unat (payload_len hdr)) bytes"
    using fill_first_law [OF p(1) out(1)] out(2,3) by force
  have ok: "payloads_ok (out[0 := f])"
    using payloads_ok_update [OF out(1)] f(2) by (simp add: packet_slot_def)
  have first: "take 1 (out[0 := f]) = [f]" using out(2,3) by (cases out) simp_all
  have "\<exists>w' out' ready. advance_loop ?w (out[0 := f]) mx 1 = Some (w', out', length ready) \<and>
      delivers w ((rw_buf w)(d \<mapsto> s)) (take 1 (out[0 := f])) mx w' ready \<and> take (length ready) out' = ready \<and>
      length ready \<le> mx \<and> length out' = length (out[0 := f]) \<and> payloads_ok out'"
    by (rule drain_delivers [OF advance_loop_law]) (use w1 ok out in simp_all)
  then obtain w' out' ready where
    adv: "advance_loop ?w (out[0 := f]) mx 1 = Some (w', out', length ready)"
      "delivers w ((rw_buf w)(d \<mapsto> s)) [f] mx w' ready" "take (length ready) out' = ready"
      "length ready \<le> mx" "length out' = length out" "payloads_ok out'"
    unfolding first by auto
  have "on_reliable_unordered w hdr (Some bytes) out mx = Some (0, w', out', Some (length ready))"
    using on_unordered_body [OF inv d(1-3)] d(4) f(1) adv(1) by (simp add: s_def)
  with adv(2-6) f(2,3) s show ?thesis by blast
qed

lemma on_unordered_law:
  assumes inv: "recv_inv w" and out: "payloads_ok out" "0 < mx" "mx \<le> length out"
    and p: "packet_fits hdr bytes" "delivery_mode hdr = REL4U_MODE_RELIABLE_UNORDERED"
  defines "d \<equiv> unat (seq_num hdr - rw_expected_seq w)"
  shows "if reliable_verdict w (seq_num hdr) \<noteq> 0 then
      on_reliable_unordered w hdr (Some bytes) out mx = Some (reliable_verdict w (seq_num hdr), w, out, Some 0)
    else \<exists>s f w' out' ready. on_reliable_unordered w hdr (Some bytes) out mx = Some (0, w', out', Some (length ready)) \<and>
      packet_slot hdr s \<and> packet_slot hdr f \<and> slot_bytes f = take (unat (payload_len hdr)) bytes \<and>
      delivers w ((rw_buf w)(d \<mapsto> s)) [f] mx w' ready \<and> take (length ready) out' = ready \<and>
      length ready \<le> mx \<and> length out' = length out \<and> payloads_ok out'"
proof -
  note t = seq_distance_tests [OF inv, of "seq_num hdr", folded d_def]
  consider (far) "2 ^ 31 \<le> d \<or> unat (rw_capacity w) \<le> d" | (known) "d < unat (rw_capacity w)" "d < 2 ^ 31" "rw_buf w d \<noteq> None"
    | (new) "d < unat (rw_capacity w)" "d < 2 ^ 31" "rw_buf w d = None"
    by linarith
  then show ?thesis
  proof cases
    case far
    with t show ?thesis by (auto simp: on_reliable_unordered_def reliable_verdict_def d_def)
  next
    case known
    with on_unordered_body [OF inv d_def [symmetric, THEN meta_eq_to_obj_eq] known(1,2)] show ?thesis by (simp add: reliable_verdict_def d_def)
  next
    case new
    then have v: "reliable_verdict w (seq_num hdr) = 0" by (simp add: reliable_verdict_def d_def)
    show ?thesis unfolding v using on_unordered_new [OF inv out p d_def [symmetric, THEN meta_eq_to_obj_eq] new] by simp
  qed
qed

subsection \<open>Acknowledgement information\<close>

lemma rw_buf_iff_any:
  assumes inv: "recv_inv w" and j: "j < 2 ^ 32"
  shows "rs_received (rw_slots w ! rw_at w j) \<and> rs_seq_num (rw_slots w ! rw_at w j) = rw_expected_seq w + of_nat j \<longleftrightarrow>
    rw_buf w j \<noteq> None"
proof (cases "j < unat (rw_capacity w)")
  case False
  let ?c = "unat (rw_capacity w)" and ?k = "j mod unat (rw_capacity w)"
  have c: "?k < ?c" using pow2_ge_2 [OF recv_invD(1) [OF inv]] by simp
  then have "?k < 2 ^ 32" using unat_u32_lt [of "rw_capacity w"] by linarith
  have "rw_at w j = rw_at w ?k"
    by (simp add: rw_at_def slot_of_add [OF recv_invD(1) [OF inv]] mod_simps)
  moreover have "rw_expected_seq w + of_nat ?k \<noteq> rw_expected_seq w + of_nat j"
    using False c j \<open>?k < 2 ^ 32\<close> by (subst u32_offset_inj) auto
  moreover have "rs_received (rw_slots w ! rw_at w ?k) \<longrightarrow>
      rs_seq_num (rw_slots w ! rw_at w ?k) = rw_expected_seq w + of_nat ?k"
    using recv_invD(5) [OF inv, of ?k] c by (simp add: rw_buf_def)
  ultimately show ?thesis using False by (auto simp: rw_buf_def)
qed (use rw_buf_iff [OF inv] in simp)

lemma sack_mask_loop_law:
  assumes inv: "recv_inv w" and "\<forall>i \<in> set is. i < 32"
  shows "\<exists>m'. sack_mask_loop w is m = Some m' \<and>
    (\<forall>j < 32. bit m' j \<longleftrightarrow> bit m j \<or> j \<in> set is \<and> rw_buf w j \<noteq> None)"
  using assms(2)
proof (induction "is" arbitrary: m)
  case (Cons i "is")
  let ?m = "if rw_buf w i \<noteq> None then m OR push_bit i 1 else m"
  have step: "sack_mask_loop w (i # is) m = sack_mask_loop w is ?m"
    using inv rw_buf_iff_any [OF inv, of i] Cons.prems by (simp add: Let_def flip: rw_at_def)
  from Cons obtain m' where "sack_mask_loop w is ?m = Some m'"
    "\<forall>j < 32. bit m' j \<longleftrightarrow> bit ?m j \<or> j \<in> set is \<and> rw_buf w j \<noteq> None"
    by fastforce
  moreover have "bit ?m j \<longleftrightarrow> bit m j \<or> j = i \<and> rw_buf w i \<noteq> None" if "j < 32" for j
    using that by (auto simp: bit_or_iff bit_push_bit_iff bit_exp_iff Cons.prems)
  ultimately show ?case unfolding step by auto
qed simp

lemma get_ack_info_law:
  assumes "recv_inv w"
  shows "\<exists>m. rel4u_recv_window_get_ack_info w = Some (rw_expected_seq w - 1, m) \<and>
    (\<forall>j < 32. bit m j \<longleftrightarrow> rw_buf w j \<noteq> None)"
  using sack_mask_loop_law [OF assms, of "[0..<32]" 0] by (auto simp: rel4u_recv_window_get_ack_info_def)

subsection \<open>Histories\<close>

lemma recv_inv_unrel [simp]:
  "recv_inv (w\<lparr>rw_highest_unrel_seq := x, rw_has_highest_unrel := y\<rparr>) = recv_inv w"
  "rw_buf (w\<lparr>rw_highest_unrel_seq := x, rw_has_highest_unrel := y\<rparr>) = rw_buf w"
proof -
  show b: "rw_buf (w\<lparr>rw_highest_unrel_seq := x, rw_has_highest_unrel := y\<rparr>) = rw_buf w"
    by (simp add: rw_buf_def rw_at_def fun_eq_iff)
  show "recv_inv (w\<lparr>rw_highest_unrel_seq := x, rw_has_highest_unrel := y\<rparr>) = recv_inv w"
    by (simp only: recv_inv_def b) simp
qed

text \<open>Every packet, whatever its mode, is handled without a fault and keeps the invariant.\<close>

lemma on_packet_safe:
  assumes inv: "recv_inv w" and out: "payloads_ok out" "0 < mx" "mx \<le> length out" and p: "packet_fits hdr bytes"
  shows "\<exists>r w' out' n. rel4u_recv_window_on_packet w hdr (Some bytes) out mx = Some (r, w', out', Some n) \<and>
    recv_inv w' \<and> rw_capacity w' = rw_capacity w \<and> payloads_ok out' \<and> length out' = length out \<and> n \<le> mx \<and>
    r \<in> {0, 1, -1, -2}"
proof -
  obtain f where f: "fill_first out hdr (Some bytes) = Some (out[0 := f])" "packet_slot hdr f"
    using fill_first_law [OF p out(1)] out(2,3) by force
  have ok: "payloads_ok (out[0 := f])"
    using payloads_ok_update [OF out(1)] f(2) by (simp add: packet_slot_def)
  have v: "reliable_verdict w (seq_num hdr) \<in> {0, 1, -1, -2}" by (simp add: reliable_verdict_def Let_def)
  have d: "recv_inv w' \<and> rw_capacity w' = rw_capacity w" if "delivers w b front mx w' ready" for b front w' ready
    using that by (auto simp: delivers_def)
  consider "delivery_mode hdr = REL4U_MODE_UNRELIABLE_UNORDERED" | "delivery_mode hdr = REL4U_MODE_UNRELIABLE_ORDERED"
    | "delivery_mode hdr = REL4U_MODE_RELIABLE_UNORDERED" | "delivery_mode hdr = REL4U_MODE_RELIABLE_ORDERED"
    | "delivery_mode hdr \<notin> {0, 1, 2, 3}" by auto
  then show ?thesis
  proof cases
    case 1
    with f(1) ok inv out show ?thesis by (simp add: rel4u_recv_window_on_packet_def on_unreliable_unordered_def)
  next
    case 2
    with f(1) ok inv out show ?thesis by (simp add: rel4u_recv_window_on_packet_def on_unreliable_ordered_def)
  next
    case 3
    from on_unordered_law [OF inv out p this] v d inv out show ?thesis
      unfolding rel4u_recv_window_on_packet_def using 3
      by (cases "reliable_verdict w (seq_num hdr) = 0") auto
  next
    case 4
    from on_ordered_law [OF inv out p this] v d inv out show ?thesis
      unfolding rel4u_recv_window_on_packet_def using 4
      by (cases "reliable_verdict w (seq_num hdr) = 0") auto
  next
    case 5
    with inv out show ?thesis by (simp add: rel4u_recv_window_on_packet_def)
  qed
qed

fun recv_run ::
  "rel4u_recv_window \<Rightarrow> rel4u_recv_slot list \<Rightarrow> nat \<Rightarrow> (rel4u_header \<times> u8 list) list \<Rightarrow>
   (rel4u_recv_window \<times> rel4u_recv_slot list) option" where
  "recv_run w out mx [] = Some (w, out)"
| "recv_run w out mx ((hdr, bytes) # ps) =
     (case rel4u_recv_window_on_packet w hdr (Some bytes) out mx of
        None \<Rightarrow> None
      | Some (r, w', out', n) \<Rightarrow> recv_run w' out' mx ps)"

lemma recv_run_inv:
  assumes "recv_inv w" "payloads_ok out" "0 < mx" "mx \<le> length out" "\<forall>(h, b) \<in> set ps. packet_fits h b"
  shows "\<exists>w' out'. recv_run w out mx ps = Some (w', out') \<and> recv_inv w' \<and> rw_capacity w' = rw_capacity w"
  using assms
proof (induction ps arbitrary: w out)
  case (Cons p ps)
  obtain hdr bytes where p: "p = (hdr, bytes)" by fastforce
  with Cons.prems obtain r w1 out1 n where
    "rel4u_recv_window_on_packet w hdr (Some bytes) out mx = Some (r, w1, out1, Some n)"
    "recv_inv w1" "rw_capacity w1 = rw_capacity w" "payloads_ok out1" "length out1 = length out"
    using on_packet_safe [of w out mx hdr bytes] by auto
  with Cons.IH [of w1 out1] Cons.prems p show ?case by simp
qed simp

subsection \<open>Properties\<close>

definition ex_recv :: rel4u_recv_window where
  "ex_recv = snd (rel4u_recv_window_init True zero_recv_window 4 0xFFFFFFFF)"

definition ex_out :: "rel4u_recv_slot list" where
  "ex_out = replicate 2 zero_recv_slot"

definition ex_packet :: "u8 \<Rightarrow> u32 \<Rightarrow> rel4u_header" where
  "ex_packet mode seq = zero_header\<lparr>packet_type := REL4U_PKT_DATA, delivery_mode := mode, payload_len := 2, seq_num := seq\<rparr>"

lemma ex_recv_init: "rel4u_recv_window_init True zero_recv_window 4 0xFFFFFFFF = (0, ex_recv)"
  by (simp add: ex_recv_def rel4u_recv_window_init_def)

lemma ex_recv_facts: "recv_inv ex_recv" "rw_buf ex_recv = Map.empty" "rw_capacity ex_recv = 4"
    "rw_expected_seq ex_recv = 0xFFFFFFFF"
  using recv_init_inv [OF ex_recv_init] by simp_all

lemma ex_out_facts: "payloads_ok ex_out" "length ex_out = 2"
  by (simp_all add: ex_out_def payloads_ok_def zero_recv_slot_def)

lemma ex_packet_facts [simp]: "packet_fits (ex_packet mode seq) [7, 8]" "seq_num (ex_packet mode seq) = seq"
    "delivery_mode (ex_packet mode seq) = mode" "payload_len (ex_packet mode seq) = 2"
  by (simp_all add: packet_fits_def ex_packet_def)

text \<open>
  The receive window is safe against any sequence of packets. From a window that
  \<open>rel4u_recv_window_init\<close> returned (with a capacity below $2^{31}$), \<open>rel4u_recv_window_on_packet\<close>
  handles every sequence of headers, with any delivery mode and sequence numbers, whose payload
  is in the packet and at most \<open>REL4U_MAX_PAYLOAD_SIZE\<close> bytes long, without an access outside the
  slot table, the ready array or a payload, and its loops end. Every slot it then has buffered
  lies within \<open>capacity\<close> of \<open>expected_seq\<close>, in the place of its sequence number.
\<close>

theorem recv_window_safe:
  assumes "rel4u_recv_window_init ok w0 capacity initial_seq = (0, w)" "unat capacity < 2 ^ 31"
    and "payloads_ok out" "0 < mx" "mx \<le> length out" "\<forall>(h, b) \<in> set ps. packet_fits h b"
  shows "\<exists>w' out'. recv_run w out mx ps = Some (w', out') \<and>
    (\<forall>k s. rw_buf w' k = Some s \<longrightarrow> k < unat capacity \<and> rs_seq_num s = rw_expected_seq w' + of_nat k)"
proof -
  have w: "recv_inv w" "rw_capacity w = capacity" using recv_init_inv [OF assms(1,2)] by simp_all
  from recv_run_inv [OF w(1) assms(3-6)] obtain w' out' where
    "recv_run w out mx ps = Some (w', out')" "recv_inv w'" "rw_capacity w' = capacity" using w(2) by auto
  then show ?thesis using recv_invD(5) rw_buf_cap by blast
qed

lemma recv_window_safe_witness:
  "\<exists>w' out'. recv_run ex_recv ex_out 2 [(ex_packet 3 0, [7, 8]), (ex_packet 2 0xFFFFFFFF, [7, 8]), (ex_packet 9 5, [7, 8])] =
     Some (w', out')"
  using recv_window_safe [OF ex_recv_init _ ex_out_facts(1), of 2 "[(ex_packet 3 0, [7, 8]),
    (ex_packet 2 0xFFFFFFFF, [7, 8]), (ex_packet 9 5, [7, 8])]"]
  by (auto simp: ex_out_facts)

text \<open>
  C21. A reliable ordered packet, exactly. With \<open>d\<close> the distance of its sequence number from
  \<open>expected_seq\<close>, the packet is dropped as a duplicate (return 1) if it lies behind or is buffered
  already, and refused (return -2) if it lies beyond the window; both leave the window alone.
  Otherwise it is buffered with its payload, and if that completes a run of buffered slots from
  \<open>expected_seq\<close> on, the run leaves the window, \<open>expected_seq\<close> moves past it, and the ready array gets
  its ordered slots in sequence order, until the run ends or the array is full.
\<close>

theorem recv_ordered_exact:
  assumes "recv_inv w" "payloads_ok out" "0 < mx" "mx \<le> length out" "packet_fits hdr bytes"
    and "delivery_mode hdr = REL4U_MODE_RELIABLE_ORDERED"
  shows "if reliable_verdict w (seq_num hdr) \<noteq> 0 then
      rel4u_recv_window_on_packet w hdr (Some bytes) out mx =
        Some (reliable_verdict w (seq_num hdr), w, out, Some 0)
    else \<exists>s w' out' ready.
      rel4u_recv_window_on_packet w hdr (Some bytes) out mx = Some (0, w', out', Some (length ready)) \<and>
      packet_slot hdr s \<and> slot_bytes s = take (unat (payload_len hdr)) bytes \<and>
      delivers w ((rw_buf w)(unat (seq_num hdr - rw_expected_seq w) \<mapsto> s)) [] mx w' ready \<and>
      take (length ready) out' = ready \<and> length ready \<le> mx \<and> length out' = length out \<and> payloads_ok out'"
proof -
  have eq: "rel4u_recv_window_on_packet w hdr (Some bytes) out mx = on_reliable_ordered w hdr (Some bytes) out mx"
    using assms(3,6) by (simp add: rel4u_recv_window_on_packet_def)
  show ?thesis unfolding eq by (rule on_ordered_law [OF assms])
qed

lemma recv_ordered_exact_witness:
  "\<exists>s w' out'. rel4u_recv_window_on_packet ex_recv (ex_packet 3 0xFFFFFFFF) (Some [7, 8]) ex_out 2 =
     Some (0, w', out', Some 1) \<and> take 1 out' = [s] \<and> slot_bytes s = [7, 8] \<and> rw_expected_seq w' = 0"
proof -
  have v: "reliable_verdict ex_recv 0xFFFFFFFF = 0" by (simp add: reliable_verdict_def ex_recv_facts)
  from recv_ordered_exact [OF ex_recv_facts(1) ex_out_facts(1), of 2 "ex_packet 3 0xFFFFFFFF" "[7, 8]"] v
  obtain s w' out' ready where
    r: "rel4u_recv_window_on_packet ex_recv (ex_packet 3 0xFFFFFFFF) (Some [7, 8]) ex_out 2 =
          Some (0, w', out', Some (length ready))" "packet_slot (ex_packet 3 0xFFFFFFFF) s" "slot_bytes s = [7, 8]"
      "delivers ex_recv ([0 \<mapsto> s]) [] 2 w' ready" "take (length ready) out' = ready"
    by (auto simp: ex_out_facts ex_recv_facts)
  from r(4) obtain m where m: "\<forall>j < m. [0 \<mapsto> s] j \<noteq> None" "rw_buf w' = (\<lambda>j. [0 \<mapsto> s] (j + m))"
      "rw_expected_seq w' = 0xFFFFFFFF + of_nat m" "ready = ordered (map (\<lambda>j. the ([0 \<mapsto> s] j)) [0..<m])"
      "rw_buf w' 0 = None \<or> length ready = 2"
    by (auto simp: delivers_def ex_recv_facts)
  have "\<not> 1 < m" using m(1) by (auto dest: spec [of _ 1])
  moreover have "m \<noteq> 0" using m(2,4,5) by (intro notI) simp
  ultimately have "m = 1" by linarith
  then have "ready = [s]" using m(4) r(2) by (simp add: packet_slot_def)
  with r m(3) \<open>m = 1\<close> show ?thesis by auto
qed

text \<open>
  C35. A reliable unordered packet, exactly. Duplicates and packets beyond the window are treated
  as in the ordered mode. An accepted packet is ready at once, first in the array and with its
  payload, whatever is missing before it; its slot is kept to recognise duplicates, and the run
  of buffered slots from \<open>expected_seq\<close> on leaves the window, adding to the array only those that
  were waiting in order, never an unordered one a second time.
\<close>

theorem recv_unordered_exact:
  assumes "recv_inv w" "payloads_ok out" "0 < mx" "mx \<le> length out" "packet_fits hdr bytes"
    and "delivery_mode hdr = REL4U_MODE_RELIABLE_UNORDERED"
  shows "if reliable_verdict w (seq_num hdr) \<noteq> 0 then
      rel4u_recv_window_on_packet w hdr (Some bytes) out mx =
        Some (reliable_verdict w (seq_num hdr), w, out, Some 0)
    else \<exists>s f w' out' ready.
      rel4u_recv_window_on_packet w hdr (Some bytes) out mx = Some (0, w', out', Some (length ready)) \<and>
      packet_slot hdr s \<and> packet_slot hdr f \<and> slot_bytes f = take (unat (payload_len hdr)) bytes \<and>
      delivers w ((rw_buf w)(unat (seq_num hdr - rw_expected_seq w) \<mapsto> s)) [f] mx w' ready \<and>
      take (length ready) out' = ready \<and> length ready \<le> mx \<and> length out' = length out \<and> payloads_ok out'"
proof -
  have eq: "rel4u_recv_window_on_packet w hdr (Some bytes) out mx = on_reliable_unordered w hdr (Some bytes) out mx"
    using assms(3,6) by (simp add: rel4u_recv_window_on_packet_def)
  show ?thesis unfolding eq by (rule on_unordered_law [OF assms])
qed

lemma recv_unordered_exact_witness:
  "\<exists>s f w' out' ready. rel4u_recv_window_on_packet ex_recv (ex_packet 2 1) (Some [7, 8]) ex_out 2 =
     Some (0, w', out', Some (length ready)) \<and> slot_bytes f = [7, 8] \<and> delivers ex_recv ([2 \<mapsto> s]) [f] 2 w' ready"
proof -
  have "unat (1 - 0xFFFFFFFF :: u32) = 2" by simp
  moreover from this have "reliable_verdict ex_recv 1 = 0" by (simp add: reliable_verdict_def ex_recv_facts)
  ultimately obtain s f w' out' ready where
    "rel4u_recv_window_on_packet ex_recv (ex_packet 2 1) (Some [7, 8]) ex_out 2 = Some (0, w', out', Some (length ready))"
    "slot_bytes f = [7, 8]" "delivers ex_recv ([2 \<mapsto> s]) [f] 2 w' ready"
    using recv_unordered_exact [OF ex_recv_facts(1) ex_out_facts(1), of 2 "ex_packet 2 1" "[7, 8]"]
    by (auto simp: ex_out_facts ex_recv_facts)
  then show ?thesis by blast
qed

text \<open>
  C24. \<open>rel4u_recv_window_get_ack_info\<close> reports exactly what the window has: the acknowledgement
  number is the last sequence number before \<open>expected_seq\<close>, and bit \<open>j\<close> of the mask is set exactly
  if the packet at distance \<open>j\<close> from \<open>expected_seq\<close> is buffered, also for windows of fewer than 32
  slots, where several bits share a slot.
\<close>

theorem recv_ack_info_exact:
  assumes "recv_inv w"
  shows "\<exists>m. rel4u_recv_window_get_ack_info w = Some (rw_expected_seq w - 1, m) \<and>
    (\<forall>j < 32. bit m j \<longleftrightarrow> rw_buf w j \<noteq> None)"
  using assms by (rule get_ack_info_law)

lemma recv_ack_info_exact_witness:
  "\<exists>m. rel4u_recv_window_get_ack_info ex_recv = Some (0xFFFFFFFE, m) \<and> (\<forall>j < 32. \<not> bit m j)"
  using recv_ack_info_exact [OF ex_recv_facts(1)] by (auto simp: ex_recv_facts)

text \<open>The sequence numbers of the unreliable ordered packets that \<open>rel4u_recv_window_on_packet\<close> accepts.\<close>

fun accepted_seqs ::
  "rel4u_recv_window \<Rightarrow> rel4u_recv_slot list \<Rightarrow> nat \<Rightarrow> (rel4u_header \<times> u8 list) list \<Rightarrow> u32 list option" where
  "accepted_seqs w out mx [] = Some []"
| "accepted_seqs w out mx ((hdr, bytes) # ps) =
     (case rel4u_recv_window_on_packet w hdr (Some bytes) out mx of
        None \<Rightarrow> None
      | Some (r, w', out', n) \<Rightarrow>
          map_option (\<lambda>ss. if r = 0 then seq_num hdr # ss else ss) (accepted_seqs w' out' mx ps))"

fun newer_than :: "rel4u_recv_window \<Rightarrow> u32 list \<Rightarrow> bool" where
  "newer_than w [] \<longleftrightarrow> True"
| "newer_than w (s # ss) \<longleftrightarrow> rw_has_highest_unrel w \<longrightarrow> rel4u_seq_gt s (rw_highest_unrel_seq w)"

lemma accepted_seqs_law:
  assumes "payloads_ok out" "0 < mx" "mx \<le> length out"
    and "\<forall>(h, b) \<in> set ps. packet_fits h b \<and> delivery_mode h = REL4U_MODE_UNRELIABLE_ORDERED"
  shows "\<exists>ss. accepted_seqs w out mx ps = Some ss \<and> newer_than w ss \<and> successively (\<lambda>a b. rel4u_seq_gt b a) ss"
  using assms
proof (induction ps arbitrary: w out)
  case (Cons p ps)
  obtain hdr bytes where p: "p = (hdr, bytes)" by fastforce
  have fits: "packet_fits hdr bytes" and mode: "delivery_mode hdr = REL4U_MODE_UNRELIABLE_ORDERED"
    using Cons.prems(4) p by auto
  have rest: "\<forall>(h, b) \<in> set ps. packet_fits h b \<and> delivery_mode h = REL4U_MODE_UNRELIABLE_ORDERED"
    using Cons.prems(4) by auto
  let ?new = "\<not> rw_has_highest_unrel w \<or> rel4u_seq_gt (seq_num hdr) (rw_highest_unrel_seq w)"
  let ?w = "w\<lparr>rw_highest_unrel_seq := seq_num hdr, rw_has_highest_unrel := True\<rparr>"
  obtain f where f: "fill_first out hdr (Some bytes) = Some (out[0 := f])" "packet_slot hdr f"
    using fill_first_law [OF fits Cons.prems(1)] Cons.prems(2,3) by force
  have ok: "payloads_ok (out[0 := f])"
    using payloads_ok_update [OF Cons.prems(1)] f(2) by (simp add: packet_slot_def)
  have step: "rel4u_recv_window_on_packet w hdr (Some bytes) out mx =
      (if ?new then Some (0, ?w, out[0 := f], Some 1) else Some (1, w, out, Some 0))"
    using mode Cons.prems(2) f(1) by (simp add: rel4u_recv_window_on_packet_def on_unreliable_ordered_def)
  show ?case
  proof (cases ?new)
    case True
    obtain ss where ss: "accepted_seqs ?w (out[0 := f]) mx ps = Some ss" "newer_than ?w ss"
        "successively (\<lambda>a b. rel4u_seq_gt b a) ss"
      using Cons.IH [OF ok Cons.prems(2) _ rest, of ?w] Cons.prems(3) by auto
    have "accepted_seqs w out mx (p # ps) = Some (seq_num hdr # ss)"
      using step True ss(1) p by simp
    moreover have "successively (\<lambda>a b. rel4u_seq_gt b a) (seq_num hdr # ss)"
      using ss(2,3) by (cases ss) auto
    ultimately show ?thesis using True by auto
  next
    case False
    with Cons.IH [OF Cons.prems(1,2,3) rest, of w] step p show ?thesis by auto
  qed
qed simp

text \<open>
  C36. Unreliable ordered delivery never goes back: of any sequence of such packets the window
  accepts, from any state, only packets strictly newer (in serial number order) than the one it
  accepted last; stale and repeated packets are dropped.
\<close>

theorem recv_unreliable_newer:
  assumes "payloads_ok out" "0 < mx" "mx \<le> length out"
    and "\<forall>(h, b) \<in> set ps. packet_fits h b \<and> delivery_mode h = REL4U_MODE_UNRELIABLE_ORDERED"
  shows "\<exists>ss. accepted_seqs w out mx ps = Some ss \<and> newer_than w ss \<and> successively (\<lambda>a b. rel4u_seq_gt b a) ss"
  using assms by (rule accepted_seqs_law)

lemma recv_unreliable_newer_witness:
  "\<exists>ss. accepted_seqs ex_recv ex_out 2 [(ex_packet 1 5, [7, 8]), (ex_packet 1 4, [7, 8]), (ex_packet 1 9, [7, 8])] = Some ss \<and>
     successively (\<lambda>a b. rel4u_seq_gt b a) ss"
  using recv_unreliable_newer [OF ex_out_facts(1), of 2 "[(ex_packet 1 5, [7, 8]), (ex_packet 1 4, [7, 8]), (ex_packet 1 9, [7, 8])]"]
  by (auto simp: ex_out_facts)

end
