(* ===== verification/Session_Correct.thy ===== *)
theory Session_Correct
  imports Session Send_Window_Correct Recv_Window_Correct
begin

text \<open>
  Correctness of the session table: the counter of active sessions is exact, every slot has
  well-formed windows, allocation takes the first free slot, rejects, or evicts the least
  recently active session as the policy says, and lookups find what allocation stored. The last
  property shows what the unchecked window allocation in \<open>rel4u_session_allocate\<close> leads to.
\<close>

subsection \<open>Invariant\<close>

definition session_ok :: "rel4u_client_session \<Rightarrow> bool" where
  "session_ok s \<longleftrightarrow>
     send_inv (cs_send_win s) \<and> recv_inv (cs_recv_win s) \<and> rtt_inv (cs_rtt s)"

definition session_inv :: "rel4u_session_table \<Rightarrow> bool" where
  "session_inv t \<longleftrightarrow>
     st_sessions t \<noteq> [] \<and> length (st_sessions t) = unat (st_max_clients t) \<and> length (st_sessions t) \<le> 2 ^ 31 \<and>
     unat (st_active_count t) = length (filter session_active (st_sessions t)) \<and>
     (\<forall>i < length (st_sessions t). cs_client_id (st_sessions t ! i) = of_nat i \<and> session_ok (st_sessions t ! i))"

lemma session_invD:
  assumes "session_inv t"
  shows "st_sessions t \<noteq> []" "length (st_sessions t) = unat (st_max_clients t)"
    "unat (st_active_count t) = length (filter session_active (st_sessions t))"
    "\<And>i. i < length (st_sessions t) \<Longrightarrow> cs_client_id (st_sessions t ! i) = of_nat i"
    "\<And>i. i < length (st_sessions t) \<Longrightarrow> session_ok (st_sessions t ! i)"
  using assms by (auto simp: session_inv_def)

lemma session_count: "session_inv t \<Longrightarrow> length (st_sessions t) \<le> 2 ^ 31"
  by (simp add: session_inv_def)

text \<open>Replacing one session, with the counter adjusted to whether it is active.\<close>

lemma session_inv_update:
  assumes "session_inv t" "i < length (st_sessions t)" "cs_client_id s = of_nat i" "session_ok s"
    and "st_sessions t' = (st_sessions t)[i := s]" "st_max_clients t' = st_max_clients t"
    and "unat (st_active_count t') + (if session_active (st_sessions t ! i) then 1 else 0) =
      unat (st_active_count t) + (if session_active s then 1 else 0)"
  shows "session_inv t'"
proof -
  have "unat (st_active_count t') = length (filter session_active (st_sessions t'))"
    using length_filter_update [OF assms(2), of session_active s] assms(5,7) session_invD(3) [OF assms(1)]
    by (simp split: if_splits)
  then show ?thesis
    using assms session_invD [OF assms(1)] session_count [OF assms(1)] by (simp add: session_inv_def nth_list_update)
qed

lemma active_le_max: "session_inv t \<Longrightarrow> st_active_count t \<le> st_max_clients t"
  using session_invD(2,3) [of t] length_filter_le [of session_active "st_sessions t"] by (simp add: word_le_nat_alt)

lemma full_iff:
  assumes "session_inv t"
  shows "st_active_count t < st_max_clients t \<longleftrightarrow> (\<exists>i < length (st_sessions t). \<not> session_active (st_sessions t ! i))"
proof -
  have "length (filter session_active (st_sessions t)) < length (st_sessions t) \<longleftrightarrow>
      (\<exists>s \<in> set (st_sessions t). \<not> session_active s)"
    by (metis length_filter_less filter_True less_irrefl)
  then show ?thesis
    using session_invD(2,3) [OF assms] by (simp add: word_less_nat_alt) (metis in_set_conv_nth)
qed

subsection \<open>Creation\<close>

definition blank_session :: "nat \<Rightarrow> rel4u_client_session \<Rightarrow> bool" where
  "blank_session i s \<longleftrightarrow>
     cs_client_id s = of_nat i \<and> session_ok s \<and> \<not> session_active s \<and> cs_rtt s = default_rtt \<and> rw_buf (cs_recv_win s) 0 = None"

lemma init_session_blank:
  assumes "init_session calloc_ok window_size i zero_session = Some s" "unat window_size < 2 ^ 31"
  shows "blank_session i s"
proof -
  from assms(1) obtain sw rw where
    "rel4u_send_window_init (calloc_ok (2 * i + 1)) zero_send_window window_size 1 = (0, sw)"
    "rel4u_recv_window_init (calloc_ok (2 * i + 2)) zero_recv_window window_size 1 = (0, rw)"
    and s: "s = zero_session\<lparr>cs_client_id := of_nat i, cs_state := REL4U_STATE_DISCONNECTED, cs_send_win := sw,
      cs_recv_win := rw, cs_rtt := default_rtt\<rparr>"
    by (auto simp: init_session_def zero_session_def Let_def split: prod.splits if_splits)
  with send_init_inv [of _ zero_send_window window_size 1 sw] recv_init_inv [of _ zero_recv_window window_size 1 rw]
    assms(2) default_rtt_inv
  show ?thesis by (simp add: blank_session_def session_ok_def session_active_def)
qed

lemma init_sessions_blank:
  assumes "init_sessions calloc_ok window_size [k..<n] t = Some t'" "unat window_size < 2 ^ 31"
    and "length (st_sessions t) = n" "k \<le> n" "\<forall>i < k. blank_session i (st_sessions t ! i)"
    and "\<forall>i. k \<le> i \<longrightarrow> i < n \<longrightarrow> st_sessions t ! i = zero_session"
  shows "length (st_sessions t') = n \<and> st_max_clients t' = st_max_clients t \<and> st_active_count t' = st_active_count t \<and>
    st_full_policy t' = st_full_policy t \<and> (\<forall>i < n. blank_session i (st_sessions t' ! i))"
  using assms
proof (induction "n - k" arbitrary: k t)
  case 0
  then show ?case by simp
next
  case (Suc d)
  then have k: "k < n" "d = n - Suc k" by simp_all
  with Suc.prems(1,6) obtain s where s: "init_session calloc_ok window_size k zero_session = Some s"
    "init_sessions calloc_ok window_size [Suc k..<n] (t\<lparr>st_sessions := (st_sessions t)[k := s]\<rparr>) = Some t'"
    by (simp add: upt_conv_Cons split: option.splits)
  have "\<forall>i < Suc k. blank_session i ((st_sessions t)[k := s] ! i)"
    using Suc.prems(3,5) init_session_blank [OF s(1) Suc.prems(2)] k(1) by (auto simp: nth_list_update less_Suc_eq)
  with Suc.hyps(1) [OF k(2) s(2) Suc.prems(2)] Suc.prems(3,6) k(1) show ?case by auto
qed

lemma session_table_init_inv:
  assumes "rel4u_session_table_init calloc_ok t0 max_clients policy window_size = (0, t)" "unat window_size < 2 ^ 31"
    and "unat max_clients \<le> 2 ^ 31"
  shows "session_inv t \<and> st_max_clients t = max_clients \<and> st_active_count t = 0 \<and> st_full_policy t = policy \<and>
    (\<forall>i < unat max_clients. blank_session i (st_sessions t ! i))"
proof -
  let ?t = "t0\<lparr>st_max_clients := max_clients, st_active_count := 0, st_full_policy := policy,
    st_sessions := replicate (unat max_clients) zero_session\<rparr>"
  have t: "max_clients \<noteq> 0" "init_sessions calloc_ok window_size [0..<unat max_clients] ?t = Some t"
    using assms(1) by (auto simp: rel4u_session_table_init_def Let_def split: if_splits option.splits)
  have r: "length (st_sessions t) = unat max_clients \<and> st_max_clients t = max_clients \<and> st_active_count t = 0 \<and>
    st_full_policy t = policy \<and> (\<forall>i < unat max_clients. blank_session i (st_sessions t ! i))"
    using init_sessions_blank [OF t(2) assms(2)] by simp
  then have "filter session_active (st_sessions t) = []" by (auto simp: filter_empty_conv in_set_conv_nth blank_session_def)
  moreover have "st_sessions t \<noteq> []" using r t(1) by (auto simp: unsigned_eq_0_iff)
  ultimately show ?thesis using r assms(3) by (simp add: session_inv_def blank_session_def)
qed

subsection \<open>Choosing a slot\<close>

definition lru_at :: "rel4u_client_session list \<Rightarrow> nat \<Rightarrow> bool" where
  "lru_at ss j \<longleftrightarrow>
     j < length ss \<and> session_active (ss ! j) \<and>
     (\<forall>k < length ss. session_active (ss ! k) \<longrightarrow> cs_last_activity_ns (ss ! j) \<le> cs_last_activity_ns (ss ! k)) \<and>
     (\<forall>k < j. session_active (ss ! k) \<longrightarrow> cs_last_activity_ns (ss ! j) < cs_last_activity_ns (ss ! k))"

lemma lru_at_unique: "lru_at ss i \<Longrightarrow> lru_at ss j \<Longrightarrow> i = j"
  by (metis lru_at_def linorder_neqE_nat not_le)

lemma lru_at_Cons_0:
  assumes "session_active s" "\<forall>k < length ss. session_active (ss ! k) \<longrightarrow> cs_last_activity_ns s \<le> cs_last_activity_ns (ss ! k)"
  shows "lru_at (s # ss) 0"
  using assms by (auto simp: lru_at_def less_Suc_eq_0_disj)

lemma lru_at_Cons_Suc:
  assumes "lru_at ss j" "session_active s \<longrightarrow> cs_last_activity_ns (ss ! j) < cs_last_activity_ns s"
  shows "lru_at (s # ss) (Suc j)"
  using assms by (auto simp: lru_at_def less_Suc_eq_0_disj)

text \<open>Up to $2^{31}$ sessions, an index is its own \<open>int32_t\<close>.\<close>

lemma slot_idx_eq: "i < 2 ^ 31 \<Longrightarrow> sint (of_nat i :: u32) = int i"
  by (simp add: sint_u32_eq unat_of_nat_u32)

lemma lru_loop_law:
  assumes "lru_loop ss (of_nat i) (T, b) = (T', b')" "i + length ss \<le> 2 ^ 31"
  shows "(T', b') = (T, b) \<and> (\<forall>k < length ss. session_active (ss ! k) \<longrightarrow> T \<le> cs_last_activity_ns (ss ! k)) \<or>
    (\<exists>j. b' = int (i + j) \<and> lru_at ss j \<and> cs_last_activity_ns (ss ! j) = T' \<and> T' < T)"
  using assms
proof (induction ss arbitrary: i T b)
  case (Cons s ss)
  have i: "sint (of_nat i :: u32) = int i" "of_nat i + 1 = (of_nat (Suc i) :: u32)" "Suc i + length ss \<le> 2 ^ 31"
    using Cons.prems(2) slot_idx_eq [of i] by simp_all
  show ?case
  proof (cases "session_active s \<and> cs_last_activity_ns s < T")
    case True
    with Cons.prems(1) have "lru_loop ss (of_nat (Suc i)) (cs_last_activity_ns s, int i) = (T', b')" by (simp add: i(1,2) del: of_nat_Suc)
    from Cons.IH [OF this i(3)] show ?thesis
    proof (elim disjE exE conjE)
      assume a: "(T', b') = (cs_last_activity_ns s, int i)"
        "\<forall>k < length ss. session_active (ss ! k) \<longrightarrow> cs_last_activity_ns s \<le> cs_last_activity_ns (ss ! k)"
      with True lru_at_Cons_0 [of s ss] show ?thesis by (intro disjI2 exI [of _ 0]) simp
    next
      fix j assume j: "b' = int (Suc i + j)" "lru_at ss j" "cs_last_activity_ns (ss ! j) = T'" "T' < cs_last_activity_ns s"
      with True lru_at_Cons_Suc [of ss j s] show ?thesis by (intro disjI2 exI [of _ "Suc j"]) auto
    qed
  next
    case False
    with Cons.prems(1) have "lru_loop ss (of_nat (Suc i)) (T, b) = (T', b')" by (auto simp: i(2) simp del: of_nat_Suc)
    from Cons.IH [OF this i(3)] show ?thesis
    proof (elim disjE exE conjE)
      assume "(T', b') = (T, b)" "\<forall>k < length ss. session_active (ss ! k) \<longrightarrow> T \<le> cs_last_activity_ns (ss ! k)"
      with False show ?thesis by (intro disjI1) (auto simp: less_Suc_eq_0_disj)
    next
      fix j assume j: "b' = int (Suc i + j)" "lru_at ss j" "cs_last_activity_ns (ss ! j) = T'" "T' < T"
      moreover from this(3,4) have "session_active s \<longrightarrow> cs_last_activity_ns (ss ! j) < cs_last_activity_ns s"
        using False by (auto simp: not_less intro: less_le_trans)
      ultimately show ?thesis
        using lru_at_Cons_Suc [of ss j s] by (intro disjI2 exI [of _ "Suc j"]) simp
    qed
  qed
qed simp

lemma find_first:
  assumes "find P [0..<n] = r"
  shows "case r of None \<Rightarrow> \<forall>i < n. \<not> P i | Some i \<Rightarrow> i < n \<and> P i \<and> (\<forall>k < i. \<not> P k)"
proof (cases r)
  case None
  with assms show ?thesis by (auto simp: find_None_iff)
next
  case (Some i)
  with assms obtain k where k: "k < n" "P k" "i = k" "\<forall>j < k. \<not> P j"
    by (auto simp: find_Some_iff)
  with Some show ?thesis by simp
qed

text \<open>The slot allocation takes: the first free one, or the least recently active one of a full table.\<close>

definition slot_taken :: "rel4u_session_table \<Rightarrow> nat \<Rightarrow> bool" where
  "slot_taken t i \<longleftrightarrow>
     i < length (st_sessions t) \<and>
     (if \<exists>k < length (st_sessions t). \<not> session_active (st_sessions t ! k)
      then \<not> session_active (st_sessions t ! i) \<and> (\<forall>k < i. session_active (st_sessions t ! k))
      else lru_at (st_sessions t) i)"

lemma choose_slot_law:
  assumes inv: "session_inv t" and ch: "choose_slot t = (k, t', e)"
  defines "free \<equiv> \<exists>k < length (st_sessions t). \<not> session_active (st_sessions t ! k)"
  shows "(k = -1 \<and> t' = t \<and> \<not> e \<and> \<not> free \<and>
        (st_full_policy t = REL4U_MAX_CLIENTS_REJECT \<or> (\<forall>s \<in> set (st_sessions t). cs_last_activity_ns s = -1))) \<or>
    (\<exists>i. k = int i \<and> slot_taken t i \<and> (e \<longleftrightarrow> \<not> free) \<and>
        (e \<longrightarrow> st_full_policy t = REL4U_MAX_CLIENTS_DROP_OLD \<and> cs_last_activity_ns (st_sessions t ! i) \<noteq> -1) \<and>
        t' = (if e then t\<lparr>st_active_count := st_active_count t - 1\<rparr> else t))"
proof (cases free)
  case True
  then have lt: "st_active_count t < st_max_clients t" using full_iff [OF inv] by (simp add: free_def)
  let ?f = "find (\<lambda>i. \<not> session_active (st_sessions t ! i)) [0..<length (st_sessions t)]"
  from True obtain i where f: "?f = Some i" unfolding free_def by (cases ?f) (auto simp: find_None_iff)
  from find_first [OF f] have i: "i < length (st_sessions t)" "\<not> session_active (st_sessions t ! i)" "\<forall>k < i. session_active (st_sessions t ! k)"
    by simp_all
  have "i < 2 ^ 31" using i(1) session_count [OF inv] by simp
  then have "k = int i" "t' = t" "\<not> e" using ch lt f session_invD(2) [OF inv] by (simp_all add: choose_slot_def slot_idx_eq)
  with True i show ?thesis by (auto simp: slot_taken_def free_def)
next
  case False
  then have full: "\<not> st_active_count t < st_max_clients t" using full_iff [OF inv] by (simp add: free_def)
  have act: "k < length (st_sessions t) \<Longrightarrow> session_active (st_sessions t ! k)" for k
    using False by (auto simp: free_def)
  obtain T b where lru: "lru_loop (st_sessions t) 0 (-1, -1) = (T, b)" by fastforce
  show ?thesis
  proof (cases "st_full_policy t")
    case REL4U_MAX_CLIENTS_REJECT
    with full False ch show ?thesis by (auto simp: choose_slot_def)
  next
    case REL4U_MAX_CLIENTS_DROP_OLD
    have "lru_loop (st_sessions t) (of_nat 0) (-1, -1) = (T, b)" "0 + length (st_sessions t) \<le> 2 ^ 31"
      using lru session_count [OF inv] by simp_all
    from lru_loop_law [OF this] show ?thesis
    proof (elim disjE exE conjE)
      assume a: "(T, b) = (-1, -1)" "\<forall>k < length (st_sessions t). session_active (st_sessions t ! k) \<longrightarrow>
          -1 \<le> cs_last_activity_ns (st_sessions t ! k)"
      then have "\<forall>s \<in> set (st_sessions t). cs_last_activity_ns s = -1"
        using act by (auto simp: in_set_conv_nth word_order.extremum_unique)
      with a(1) full lru REL4U_MAX_CLIENTS_DROP_OLD False ch show ?thesis by (auto simp: choose_slot_def)
    next
      fix j assume "b = int (0 + j)" "lru_at (st_sessions t) j" "cs_last_activity_ns (st_sessions t ! j) = T" "T < -1"
      with full lru REL4U_MAX_CLIENTS_DROP_OLD False ch show ?thesis
        by (auto simp: choose_slot_def slot_taken_def free_def lru_at_def Let_def)
    qed
  qed
qed

subsection \<open>Allocation\<close>

definition session_fresh :: "rel4u_net_addr \<Rightarrow> u32 \<Rightarrow> rel4u_client_session \<Rightarrow> bool" where
  "session_fresh a sid s \<longleftrightarrow>
     cs_addr s = a \<and> cs_session_id s = sid \<and> cs_state s = REL4U_STATE_CONNECTING \<and> \<not> cs_ack_pending s \<and>
     cs_stats s = zero_stats \<and> cs_rtt s = default_rtt \<and>
     sw_entries (cs_send_win s) = [] \<and> sw_next_seq (cs_send_win s) = 1 \<and>
     rw_buf (cs_recv_win s) = Map.empty \<and> rw_expected_seq (cs_recv_win s) = 1"

lemma fresh_session_ok:
  fixes a :: rel4u_net_addr and sid :: u32
  assumes "session_ok s"
  defines "s' \<equiv> fresh_session True True a sid s"
  shows "session_ok s'" "session_fresh a sid s'" "cs_client_id s' = cs_client_id s" "session_active s'"
    "cs_last_activity_ns s' = cs_last_activity_ns s"
proof -
  let ?c = "sw_capacity (cs_send_win s)"
  have inv: "send_inv (cs_send_win s)" using assms by (simp add: session_ok_def)
  have c: "?c \<noteq> 0" "\<not> ?c < 2" "?c AND (?c - 1) = 0" "pow2 ?c" "unat ?c < 2 ^ 31"
    using send_invD(1,2) [OF inv] pow2_ge_2 [of ?c] by (auto simp: pow2_def not_less)
  let ?sw = "snd (rel4u_send_window_init True (rel4u_send_window_destroy (cs_send_win s)) ?c 1)"
  let ?rw = "snd (rel4u_recv_window_init True (rel4u_recv_window_destroy (cs_recv_win s)) ?c 1)"
  have sw: "rel4u_send_window_init True (rel4u_send_window_destroy (cs_send_win s)) ?c 1 = (0, ?sw)"
    and rw: "rel4u_recv_window_init True (rel4u_recv_window_destroy (cs_recv_win s)) ?c 1 = (0, ?rw)"
    using c by (simp_all add: rel4u_send_window_init_def rel4u_recv_window_init_def)
  have s': "cs_send_win s' = ?sw" "cs_recv_win s' = ?rw" "cs_rtt s' = default_rtt" "cs_addr s' = a"
      "cs_session_id s' = sid" "cs_state s' = REL4U_STATE_CONNECTING" "\<not> cs_ack_pending s'" "cs_stats s' = zero_stats"
      "cs_client_id s' = cs_client_id s" "cs_last_activity_ns s' = cs_last_activity_ns s"
    using c(1) by (simp_all add: s'_def fresh_session_def Let_def)
  note w = send_init_inv [OF sw c(5)] recv_init_inv [OF rw c(5)]
  have "sw_len ?sw = 0" using w(1) by (metis length_sw_entries list.size(3))
  then have n: "sw_next_seq ?sw = 1" using w(1) by (simp add: sw_next_eq)
  from s' w n default_rtt_inv show "session_ok s'" "session_fresh a sid s'" "cs_client_id s' = cs_client_id s"
    "session_active s'" "cs_last_activity_ns s' = cs_last_activity_ns s"
    by (simp_all add: session_ok_def session_fresh_def session_active_def)
qed

lemma allocate_law:
  assumes inv: "session_inv t" and mem: "calloc_ok 0" "calloc_ok 1"
  shows "case rel4u_session_allocate calloc_ok t (Some a) sid of
      None \<Rightarrow> False
    | Some (None, t', e) \<Rightarrow> t' = t \<and> \<not> e \<and> (\<forall>k < length (st_sessions t). session_active (st_sessions t ! k)) \<and>
        (st_full_policy t = REL4U_MAX_CLIENTS_REJECT \<or> (\<forall>s \<in> set (st_sessions t). cs_last_activity_ns s = -1))
    | Some (Some i, t', e) \<Rightarrow> session_inv t' \<and> slot_taken t i \<and> (e \<longleftrightarrow> session_active (st_sessions t ! i)) \<and>
        (e \<longrightarrow> st_full_policy t = REL4U_MAX_CLIENTS_DROP_OLD \<and> cs_last_activity_ns (st_sessions t ! i) \<noteq> -1) \<and> session_fresh a sid (st_sessions t' ! i) \<and>
        st_sessions t' = (st_sessions t)[i := st_sessions t' ! i] \<and> st_max_clients t' = st_max_clients t \<and>
        st_active_count t' = st_active_count t + (if e then 0 else 1)"
proof -
  obtain k t1 e where ch: "choose_slot t = (k, t1, e)" by (metis prod_cases3)
  from choose_slot_law [OF inv ch] show ?thesis
  proof (elim disjE exE)
    assume "k = -1 \<and> t1 = t \<and> \<not> e \<and> \<not> (\<exists>k < length (st_sessions t). \<not> session_active (st_sessions t ! k)) \<and>
      (st_full_policy t = REL4U_MAX_CLIENTS_REJECT \<or> (\<forall>s \<in> set (st_sessions t). cs_last_activity_ns s = -1))"
    with session_invD(1) [OF inv] ch show ?thesis by (auto simp: rel4u_session_allocate_def)
  next
    fix i
    let ?s = "fresh_session True True a sid (st_sessions t ! i)"
    assume law: "k = int i \<and> slot_taken t i \<and> e = (\<not> (\<exists>k < length (st_sessions t). \<not> session_active (st_sessions t ! k))) \<and>
      (e \<longrightarrow> st_full_policy t = REL4U_MAX_CLIENTS_DROP_OLD \<and> cs_last_activity_ns (st_sessions t ! i) \<noteq> -1) \<and> t1 = (if e then t\<lparr>st_active_count := st_active_count t - 1\<rparr> else t)"
    then have i: "slot_taken t i" "i < length (st_sessions t)" and t1: "t1 = (if e then t\<lparr>st_active_count := st_active_count t - 1\<rparr> else t)"
      and e: "e \<longleftrightarrow> session_active (st_sessions t ! i)"
        "e \<longrightarrow> st_full_policy t = REL4U_MAX_CLIENTS_DROP_OLD \<and> cs_last_activity_ns (st_sessions t ! i) \<noteq> -1"
      by (auto simp: slot_taken_def lru_at_def split: if_splits)
    have ss: "st_sessions t1 = st_sessions t" "st_max_clients t1 = st_max_clients t" using t1 by simp_all
    define t' where "t' = t1\<lparr>st_sessions := (st_sessions t)[i := ?s], st_active_count := st_active_count t1 + 1\<rparr>"
    have al: "rel4u_session_allocate calloc_ok t (Some a) sid = Some (Some i, t', e)"
      using session_invD(1) [OF inv] ch law mem ss i(2) by (simp add: rel4u_session_allocate_def t'_def deref_in_range)
    note fs = fresh_session_ok [OF session_invD(5) [OF inv i(2)], of a sid]
    have cnt: "st_active_count t' = st_active_count t + (if e then 0 else 1)"
      using t1 by (simp add: t'_def)
    have "\<not> e \<Longrightarrow> unat (st_active_count t + 1) = unat (st_active_count t) + 1"
    proof -
      assume "\<not> e"
      then have "st_active_count t < st_max_clients t" using full_iff [OF inv] e(1) i(2) by auto
      then show ?thesis
        using unat_u32_lt [of "st_max_clients t"] by (simp add: word_less_nat_alt unat_word_ariths)
    qed
    then have "session_inv t'"
      using fs session_invD(4) [OF inv i(2)] cnt e(1)
      by (intro session_inv_update [OF inv i(2), of ?s]) (simp_all add: t'_def ss split: if_splits)
    with al fs i e cnt show ?thesis by (simp add: t'_def ss)
  qed
qed

subsection \<open>Lookup\<close>

definition addr_eq :: "rel4u_net_addr \<Rightarrow> rel4u_net_addr \<Rightarrow> bool" where
  "addr_eq a b \<longleftrightarrow> rel4u_net_addr_equal (Some a) (Some b)"

lemma addr_eq_sym: "addr_eq a b \<longleftrightarrow> addr_eq b a"
  by (cases "na_addr a"; cases "na_addr b") (auto simp: addr_eq_def rel4u_net_addr_equal_def)

lemma addr_eq_trans: "addr_eq a b \<Longrightarrow> addr_eq b c \<Longrightarrow> addr_eq a c"
  by (cases "na_addr a"; cases "na_addr b"; cases "na_addr c") (auto simp: addr_eq_def rel4u_net_addr_equal_def)

lemma addr_eq_refl: "\<forall>f. na_addr a \<noteq> AF_OTHER f \<Longrightarrow> addr_eq a a"
  by (cases "na_addr a") (auto simp: addr_eq_def rel4u_net_addr_equal_def)

text \<open>No two active sessions have the same peer address.\<close>

definition addr_unique :: "rel4u_session_table \<Rightarrow> bool" where
  "addr_unique t \<longleftrightarrow>
     (\<forall>i < length (st_sessions t). \<forall>j < length (st_sessions t).
        session_active (st_sessions t ! i) \<longrightarrow> session_active (st_sessions t ! j) \<longrightarrow>
        addr_eq (cs_addr (st_sessions t ! i)) (cs_addr (st_sessions t ! j)) \<longrightarrow> i = j)"

lemma find_by_addr_law:
  assumes "session_inv t"
  shows "case rel4u_session_find_by_addr t (Some a) of
      None \<Rightarrow> \<forall>i < length (st_sessions t). session_active (st_sessions t ! i) \<longrightarrow> \<not> addr_eq (cs_addr (st_sessions t ! i)) a
    | Some i \<Rightarrow> i < length (st_sessions t) \<and> session_active (st_sessions t ! i) \<and> addr_eq (cs_addr (st_sessions t ! i)) a"
  using find_first [where P = "\<lambda>i. session_active (st_sessions t ! i) \<and> addr_eq (cs_addr (st_sessions t ! i)) a" and
      n = "length (st_sessions t)", OF refl]
    session_invD(1,2) [OF assms]
  by (auto simp: rel4u_session_find_by_addr_def addr_eq_def split: option.splits)

lemma addr_unique_find:
  assumes "session_inv t" "addr_unique t" "i < length (st_sessions t)" "session_active (st_sessions t ! i)"
    and "addr_eq (cs_addr (st_sessions t ! i)) a"
  shows "rel4u_session_find_by_addr t (Some a) = Some i"
proof (cases "rel4u_session_find_by_addr t (Some a)")
  case None
  with find_by_addr_law [OF assms(1), of a] assms(3-5) show ?thesis by auto
next
  case (Some j)
  with find_by_addr_law [OF assms(1), of a] have j: "j < length (st_sessions t)" "session_active (st_sessions t ! j)"
    "addr_eq (cs_addr (st_sessions t ! j)) a" by simp_all
  have "addr_eq (cs_addr (st_sessions t ! i)) (cs_addr (st_sessions t ! j))"
    using addr_eq_trans [OF assms(5)] j(3) addr_eq_sym by blast
  with assms(2-4) j Some show ?thesis unfolding addr_unique_def by blast
qed

lemma allocate_unique:
  assumes "session_inv t" "calloc_ok 0" "calloc_ok 1" "addr_unique t" "rel4u_session_find_by_addr t (Some a) = None"
    and "rel4u_session_allocate calloc_ok t (Some a) sid = Some (Some i, t', e)"
  shows "addr_unique t'"
proof -
  from allocate_law [where t = t and calloc_ok = calloc_ok and a = a and sid = sid, OF assms(1-3)] assms(6)
  have t': "st_sessions t' = (st_sessions t)[i := st_sessions t' ! i]" "session_fresh a sid (st_sessions t' ! i)"
      "i < length (st_sessions t)"
    by (auto simp: slot_taken_def)
  have other: "st_sessions t' ! k = st_sessions t ! k" if "k \<noteq> i" for k
    using t'(1) that by (metis nth_list_update_neq)
  have len: "length (st_sessions t') = length (st_sessions t)" using t'(1) by (metis length_list_update)
  have new: "\<not> addr_eq (cs_addr (st_sessions t ! k)) a"
    if "k < length (st_sessions t)" "session_active (st_sessions t ! k)" for k
    using find_by_addr_law [OF assms(1), of a] assms(5) that by simp
  show ?thesis
    unfolding addr_unique_def len
  proof (intro allI impI)
    fix j k
    assume jk: "j < length (st_sessions t)" "k < length (st_sessions t)" "session_active (st_sessions t' ! j)"
      "session_active (st_sessions t' ! k)" "addr_eq (cs_addr (st_sessions t' ! j)) (cs_addr (st_sessions t' ! k))"
    have a: "cs_addr (st_sessions t' ! i) = a" using t'(2) by (simp add: session_fresh_def)
    show "j = k"
      using jk other new [of j] new [of k] a addr_eq_sym assms(4) unfolding addr_unique_def
      by (cases "j = i"; cases "k = i") auto
  qed
qed

subsection \<open>Histories\<close>

datatype session_op = Session_Allocate rel4u_net_addr u32 | Session_Touch nat u64 | Session_Free nat

fun session_step :: "session_op \<Rightarrow> rel4u_session_table \<Rightarrow> rel4u_session_table option" where
  "session_step (Session_Allocate a sid) t = map_option (\<lambda>(r, t', e). t') (rel4u_session_allocate (\<lambda>_. True) t (Some a) sid)"
| "session_step (Session_Touch i now) t = Some (rel4u_session_touch_lru t (Some i) now)"
| "session_step (Session_Free i) t = Some (rel4u_session_free t (Some i))"

fun session_op_ok :: "nat \<Rightarrow> session_op \<Rightarrow> bool" where
  "session_op_ok n (Session_Allocate a sid) \<longleftrightarrow> True"
| "session_op_ok n (Session_Touch i now) \<longleftrightarrow> i < n"
| "session_op_ok n (Session_Free i) \<longleftrightarrow> i < n"

lemma session_free_inv:
  assumes inv: "session_inv t" and i: "i < length (st_sessions t)"
  shows "session_inv (rel4u_session_free t (Some i)) \<and> \<not> session_active (st_sessions (rel4u_session_free t (Some i)) ! i) \<and>
    length (st_sessions (rel4u_session_free t (Some i))) = length (st_sessions t) \<and>
    st_max_clients (rel4u_session_free t (Some i)) = st_max_clients t"
proof (cases "session_active (st_sessions t ! i)")
  case False
  with inv show ?thesis by (simp add: rel4u_session_free_def)
next
  case True
  let ?s = "(st_sessions t ! i)\<lparr>cs_state := REL4U_STATE_DISCONNECTED, cs_session_id := 0\<rparr>"
  have "st_sessions t ! i \<in> set (filter session_active (st_sessions t))" using True i by simp
  then have "0 < unat (st_active_count t)" using session_invD(3) [OF inv] by (metis length_pos_if_in_set)
  moreover from this have "st_active_count t \<noteq> 0" by auto
  ultimately have pos: "st_active_count t > 0" "unat (st_active_count t - 1) + 1 = unat (st_active_count t)"
    using unat_u32_pred [of "st_active_count t" 0] by (simp_all add: word_less_nat_alt)
  let ?t = "t\<lparr>st_sessions := (st_sessions t)[i := ?s], st_active_count := st_active_count t - 1\<rparr>"
  have eq: "rel4u_session_free t (Some i) = ?t"
    using True pos(1) by (simp add: rel4u_session_free_def)
  have "session_inv ?t"
    using session_invD(4,5) [OF inv i] True pos(2)
    by (intro session_inv_update [OF inv i, of ?s]) (simp_all add: session_ok_def session_active_def)
  with i show ?thesis unfolding eq by (simp add: session_active_def)
qed

lemma session_touch_inv:
  assumes inv: "session_inv t" and i: "i < length (st_sessions t)"
  shows "session_inv (rel4u_session_touch_lru t (Some i) now)"
  using session_invD(4,5) [OF inv i]
  by (intro session_inv_update [OF inv i, of "(st_sessions t ! i)\<lparr>cs_last_activity_ns := now\<rparr>"])
    (simp_all add: rel4u_session_touch_lru_def session_ok_def session_active_def)

lemma session_step_inv:
  assumes "session_inv t" "session_op_ok (unat (st_max_clients t)) x"
  shows "\<exists>t'. session_step x t = Some t' \<and> session_inv t' \<and> st_max_clients t' = st_max_clients t"
proof (cases x)
  case (Session_Allocate a sid)
  with allocate_law [where t = t and calloc_ok = "\<lambda>_. True" and a = a and sid = sid, OF assms(1)] assms(1)
  show ?thesis by (auto split: option.splits prod.splits)
next
  case (Session_Touch i now)
  with session_touch_inv [OF assms(1), of i now] assms session_invD(2) [OF assms(1)] show ?thesis
    by (simp add: rel4u_session_touch_lru_def)
next
  case (Session_Free i)
  with session_free_inv [OF assms(1), of i] assms session_invD(2) [OF assms(1)] show ?thesis by simp
qed

interpretation table_run: safe_events session_step "\<lambda>t. session_inv t \<and> st_max_clients t = m" "session_op_ok (unat m)" for m
  by unfold_locales (use session_step_inv in fastforce)

subsection \<open>Properties\<close>

definition ex_addr :: "u32 \<Rightarrow> rel4u_net_addr" where
  "ex_addr ip = \<lparr>na_addr = AF_INET 4000 ip, na_len = 16\<rparr>"

definition ex_table0 :: rel4u_session_table where
  "ex_table0 = \<lparr>st_sessions = [], st_max_clients = 0, st_active_count = 0, st_full_policy = REL4U_MAX_CLIENTS_REJECT\<rparr>"

definition ex_table :: rel4u_session_table where
  "ex_table = snd (rel4u_session_table_init (\<lambda>_. True) ex_table0 1 REL4U_MAX_CLIENTS_DROP_OLD 8)"

lemma ex_table_init:
  "rel4u_session_table_init (\<lambda>_. True) ex_table0 1 REL4U_MAX_CLIENTS_DROP_OLD 8 = (0, ex_table)"
proof -
  have "fst (rel4u_session_table_init (\<lambda>_. True) ex_table0 1 REL4U_MAX_CLIENTS_DROP_OLD 8) = 0"
    by (simp add: rel4u_session_table_init_def Let_def init_session_def rel4u_send_window_init_def rel4u_recv_window_init_def)
  then show ?thesis by (simp add: ex_table_def prod_eq_iff)
qed

lemma ex_table_facts: "session_inv ex_table" "st_max_clients ex_table = 1" "st_active_count ex_table = 0"
    "length (st_sessions ex_table) = 1" "\<not> session_active (st_sessions ex_table ! 0)"
proof -
  show t: "session_inv ex_table" "st_max_clients ex_table = 1" "st_active_count ex_table = 0"
    using session_table_init_inv [OF ex_table_init] by simp_all
  then show "length (st_sessions ex_table) = 1" using session_invD(2) [OF t(1)] by simp
  then show "\<not> session_active (st_sessions ex_table ! 0)"
    using full_iff [OF t(1)] t(2,3) by simp
qed

text \<open>
  The session table is consistent after every history in which memory does not run out. From a table made by
  \<open>rel4u_session_table_init\<close>, whatever sequence of \<open>rel4u_session_allocate\<close>,
  \<open>rel4u_session_touch_lru\<close> and \<open>rel4u_session_free\<close> calls follows, \<open>active_count\<close> is the number of
  active sessions and never above \<open>max_clients\<close>, every session keeps the client id of its slot,
  and both windows and the round-trip estimator of every session are well-formed.
\<close>

lemma session_table_consistent:
  assumes "rel4u_session_table_init calloc_ok t0 max_clients policy window_size = (0, t)" "unat window_size < 2 ^ 31"
    and "unat max_clients \<le> 2 ^ 31" "\<forall>x \<in> set xs. session_op_ok (unat max_clients) x"
  shows "\<exists>t'. run_events session_step xs t = Some t' \<and>
    unat (st_active_count t') = length (filter session_active (st_sessions t')) \<and>
    st_active_count t' \<le> max_clients \<and> length (st_sessions t') = unat max_clients \<and>
    (\<forall>i < unat max_clients. cs_client_id (st_sessions t' ! i) = of_nat i \<and> session_ok (st_sessions t' ! i))"
proof -
  have "session_inv t" "st_max_clients t = max_clients" using session_table_init_inv [OF assms(1-3)] by simp_all
  with table_run.run_safe [of t max_clients xs] assms(4) obtain t' where
    t': "run_events session_step xs t = Some t'" "session_inv t'" "st_max_clients t' = max_clients" by auto
  then show ?thesis using session_invD [of t'] active_le_max [of t'] by auto
qed

text \<open>
  C25. \<open>rel4u_session_allocate\<close>, exactly, when the windows can be allocated. It takes the first free
  slot if there is one; in a full table it returns NULL under the \<open>REJECT\<close> policy and takes the
  slot of the least recently active session (the first of them) under \<open>DROP_OLD\<close>, reporting the
  eviction. The slot then holds a fresh session in state \<open>CONNECTING\<close> with the given address and
  token, empty windows that start at sequence number 1 and a reset estimator; no other session
  changes, and the count is exact.
\<close>

theorem session_allocate_exact:
  assumes "session_inv t" "calloc_ok 0" "calloc_ok 1"
  shows "case rel4u_session_allocate calloc_ok t (Some a) sid of
      None \<Rightarrow> False
    | Some (None, t', e) \<Rightarrow> t' = t \<and> \<not> e \<and> (\<forall>k < length (st_sessions t). session_active (st_sessions t ! k)) \<and>
        (st_full_policy t = REL4U_MAX_CLIENTS_REJECT \<or> (\<forall>s \<in> set (st_sessions t). cs_last_activity_ns s = -1))
    | Some (Some i, t', e) \<Rightarrow> slot_taken t i \<and> (e \<longleftrightarrow> session_active (st_sessions t ! i)) \<and>
        (e \<longrightarrow> st_full_policy t = REL4U_MAX_CLIENTS_DROP_OLD) \<and> session_fresh a sid (st_sessions t' ! i) \<and>
        st_sessions t' = (st_sessions t)[i := st_sessions t' ! i] \<and>
        st_active_count t' = st_active_count t + (if e then 0 else 1)"
  using allocate_law [OF assms, of a sid] by (auto split: prod.splits option.splits)

lemma session_allocate_exact_witness:
  "\<exists>t'. rel4u_session_allocate (\<lambda>_. True) ex_table (Some (ex_addr 1)) 7 = Some (Some 0, t', False) \<and>
     session_fresh (ex_addr 1) 7 (st_sessions t' ! 0) \<and> st_active_count t' = 1"
  using session_allocate_exact [where t = ex_table and calloc_ok = "\<lambda>_. True" and a = "ex_addr 1" and sid = 7,
      OF ex_table_facts(1)] ex_table_facts
  by (auto simp: slot_taken_def split: option.splits prod.splits)

text \<open>
  C37. Sessions are found again by address, and addresses stay unique. If no active session has the
  peer's address (the only case in which the server allocates) and no two active sessions share
  one, then after allocation still no two do, and \<open>rel4u_session_find_by_addr\<close> returns exactly the
  new session for its address, as does \<open>rel4u_session_find_by_id\<close> for its client id.
\<close>

theorem session_found_after_allocate:
  assumes "session_inv t" "calloc_ok 0" "calloc_ok 1" "addr_unique t" "\<forall>f. na_addr a \<noteq> AF_OTHER f"
    and "rel4u_session_find_by_addr t (Some a) = None"
    and "rel4u_session_allocate calloc_ok t (Some a) sid = Some (Some i, t', e)"
  shows "addr_unique t' \<and> rel4u_session_find_by_addr t' (Some a) = Some i \<and>
    rel4u_session_find_by_id t' (cs_client_id (st_sessions t' ! i)) = Some i"
proof -
  from allocate_law [where t = t and calloc_ok = calloc_ok and a = a and sid = sid, OF assms(1-3)] assms(7)
  have t': "session_inv t'" "session_fresh a sid (st_sessions t' ! i)" "i < length (st_sessions t)"
      "st_sessions t' = (st_sessions t)[i := st_sessions t' ! i]"
    by (auto simp: slot_taken_def)
  have i: "i < length (st_sessions t')" using t'(3,4) by (metis length_list_update)
  have act: "session_active (st_sessions t' ! i)" "cs_addr (st_sessions t' ! i) = a"
    using t'(2) by (simp_all add: session_fresh_def session_active_def)
  have u: "addr_unique t'" by (rule allocate_unique [OF assms(1-4,6,7)])
  have "unat (of_nat i :: u32) = i"
    using i session_invD(2) [OF t'(1)] unat_u32_lt [of "st_max_clients t'"] by (simp add: unat_of_nat_u32)
  then have "rel4u_session_find_by_id t' (cs_client_id (st_sessions t' ! i)) = Some i"
    using session_invD(1,2,4) [OF t'(1)] i act(1) by (auto simp: rel4u_session_find_by_id_def word_le_nat_alt)
  with u addr_unique_find [OF t'(1) u i act(1)] act(2) addr_eq_refl [OF assms(5)] show ?thesis by simp
qed

lemma session_found_after_allocate_witness:
  "\<exists>t' e. rel4u_session_allocate (\<lambda>_. True) ex_table (Some (ex_addr 1)) 7 = Some (Some 0, t', e) \<and>
     rel4u_session_find_by_addr t' (Some (ex_addr 1)) = Some 0"
proof -
  have "rel4u_session_find_by_addr ex_table (Some (ex_addr 1)) = None"
    using find_by_addr_law [OF ex_table_facts(1), of "ex_addr 1"] ex_table_facts by (auto split: option.splits)
  moreover have "addr_unique ex_table" using ex_table_facts by (simp add: addr_unique_def)
  moreover obtain t' e where al: "rel4u_session_allocate (\<lambda>_. True) ex_table (Some (ex_addr 1)) 7 = Some (Some 0, t', e)"
    using allocate_law [where t = ex_table and calloc_ok = "\<lambda>_. True" and a = "ex_addr 1" and sid = 7, OF ex_table_facts(1)]
      ex_table_facts by (auto simp: slot_taken_def split: option.splits prod.splits)
  ultimately show ?thesis
    using session_found_after_allocate [OF ex_table_facts(1), of "\<lambda>_. True" "ex_addr 1" 7 0 t' e] by (simp add: ex_addr_def)
qed

text \<open>
  C38. A session whose window could not be allocated is handed out all the same. When \<open>calloc\<close> fails
  for the windows, \<open>rel4u_session_allocate\<close> still returns the session, active and with no slot
  table behind it; \<open>rel4u_recv_window_get_ack_info\<close>, which the server calls to answer the
  connection request, then reads outside the table.
\<close>

theorem session_allocate_unchecked_windows:
  assumes "session_inv t" "\<not> calloc_ok 0" "\<not> calloc_ok 1" "st_active_count t < st_max_clients t"
  shows "\<exists>i t'. rel4u_session_allocate calloc_ok t (Some a) sid = Some (Some i, t', False) \<and>
    session_active (st_sessions t' ! i) \<and> sw_slots (cs_send_win (st_sessions t' ! i)) = [] \<and>
    rel4u_recv_window_get_ack_info (cs_recv_win (st_sessions t' ! i)) = None"
proof -
  obtain k t1 e where ch: "choose_slot t = (k, t1, e)" by (metis prod_cases3)
  have "\<exists>k < length (st_sessions t). \<not> session_active (st_sessions t ! k)"
    using full_iff [OF assms(1)] assms(4) by simp
  with choose_slot_law [OF assms(1) ch] ch obtain i where
    i: "choose_slot t = (int i, t, False)" "i < length (st_sessions t)"
    by (auto simp: slot_taken_def)
  have pow: "pow2 (sw_capacity (cs_send_win (st_sessions t ! i)))"
    using session_invD(5) [OF assms(1) i(2)] send_invD(1) by (simp add: session_ok_def)
  let ?s = "fresh_session False False a sid (st_sessions t ! i)"
  have s: "session_active ?s" "sw_slots (cs_send_win ?s) = []" "rw_slots (cs_recv_win ?s) = []"
    using pow by (auto simp: fresh_session_def Let_def session_active_def rel4u_send_window_init_def
        rel4u_recv_window_init_def rel4u_send_window_destroy_def rel4u_recv_window_destroy_def pow2_def)
  have "[0..<32] = (0::nat) # [1..<32]" by (simp add: upt_conv_Cons)
  then have "rel4u_recv_window_get_ack_info (cs_recv_win ?s) = None"
    using s(3) by (simp add: rel4u_recv_window_get_ack_info_def deref_def)
  with i s session_invD(1) [OF assms(1)] assms(2,3) show ?thesis
    by (simp add: rel4u_session_allocate_def deref_in_range)
qed

lemma session_allocate_unchecked_windows_witness:
  "\<exists>i t'. rel4u_session_allocate (\<lambda>_. False) ex_table (Some (ex_addr 1)) 7 = Some (Some i, t', False) \<and>
     rel4u_recv_window_get_ack_info (cs_recv_win (st_sessions t' ! i)) = None"
  using session_allocate_unchecked_windows [OF ex_table_facts(1), of "\<lambda>_. False" "ex_addr 1" 7] ex_table_facts by auto

end
