(* ===== verification/Endpoint_Correct.thy ===== *)
theory Endpoint_Correct
  imports Endpoint Session_Correct
begin

text \<open>
  Correctness of the code the two workers share: a datagram that is built is the encoding of the
  header the code fills in, with the acknowledgement state of the receive window, followed by
  the payload; a data packet hands every message that became deliverable to the application's
  queue, in order and without leaving one behind; an acknowledgement gives the round-trip
  estimator exactly the samples that Karn's rule, with a counter of 8 bits, allows.
\<close>

subsection \<open>Datagrams\<close>

definition packet_header :: "u32 \<Rightarrow> u8 \<Rightarrow> u8 \<Rightarrow> u32 \<Rightarrow> u16 \<Rightarrow> u32 \<Rightarrow> u32 \<Rightarrow> rel4u_header" where
  "packet_header sid type mode seq len ack sack =
     \<lparr>magic = REL4U_MAGIC, version = REL4U_VERSION, packet_type = type, delivery_mode = mode, flags = 0,
      payload_len = len, session_id = sid, seq_num = seq, ack_num = ack, sack_mask = sack\<rparr>"

lemma packet_header_fields [simp]:
  "magic (packet_header sid t m q l a k) = REL4U_MAGIC" "version (packet_header sid t m q l a k) = REL4U_VERSION"
  "packet_type (packet_header sid t m q l a k) = t" "delivery_mode (packet_header sid t m q l a k) = m"
  "payload_len (packet_header sid t m q l a k) = l" "session_id (packet_header sid t m q l a k) = sid"
  "seq_num (packet_header sid t m q l a k) = q" "ack_num (packet_header sid t m q l a k) = a"
  "sack_mask (packet_header sid t m q l a k) = k"
  by (simp_all add: packet_header_def)

definition payload_given :: "u8 list option \<Rightarrow> size_t \<Rightarrow> bool" where
  "payload_given payload len \<longleftrightarrow>
     unat len \<le> REL4U_MAX_PAYLOAD_SIZE \<and>
     (case payload of None \<Rightarrow> len = 0 | Some bs \<Rightarrow> unat len \<le> length bs)"

definition payload_bytes :: "u8 list option \<Rightarrow> size_t \<Rightarrow> u8 list" where
  "payload_bytes payload len = (case payload of None \<Rightarrow> [] | Some bs \<Rightarrow> take (unat len) bs)"

lemma length_payload_bytes: "payload_given payload len \<Longrightarrow> length (payload_bytes payload len) = unat len"
  by (auto simp: payload_given_def payload_bytes_def split: option.splits)

lemma build_datagram_law:
  assumes env: "env_ok e" and inv: "recv_inv win" and p: "payload_given payload len"
  shows "\<exists>sack. build_datagram e win sid type mode seq payload len =
      Some (24, header_bytes (packet_header sid type mode seq (ucast len) (rw_expected_seq win - 1) sack) @
        payload_bytes payload len) \<and>
    (\<forall>j < 32. bit sack j \<longleftrightarrow> rw_buf win j \<noteq> None)"
proof -
  from get_ack_info_law [OF inv] obtain sack where
    sack: "rel4u_recv_window_get_ack_info win = Some (rw_expected_seq win - 1, sack)"
      "\<forall>j < 32. bit sack j \<longleftrightarrow> rw_buf win j \<noteq> None" by blast
  let ?h = "packet_header sid type mode seq (ucast len) (rw_expected_seq win - 1) sack"
  let ?raw = "env_raw_buf e"
  have raw: "length ?raw = 9240" using env by (simp add: env_ok_def)
  have enc: "rel4u_packet_encode_header (Some ?h) (Some ?raw) 9240 = (24, Some (header_bytes ?h @ drop 24 ?raw))"
    using raw by (intro encode_header_layout) simp_all
  have hdr: "zero_header\<lparr>magic := REL4U_MAGIC, version := REL4U_VERSION, packet_type := type, delivery_mode := mode,
      payload_len := ucast len, session_id := sid, seq_num := seq, ack_num := rw_expected_seq win - 1,
      sack_mask := sack\<rparr> = ?h"
    by (simp add: packet_header_def zero_header_def)
  have len: "unat len \<le> 9216" using p by (simp add: payload_given_def)
  have "build_datagram e win sid type mode seq payload len = Some (24, header_bytes ?h @ payload_bytes payload len)"
  proof (cases "len > 0 \<and> payload \<noteq> None")
    case True
    then obtain bs where bs: "payload = Some bs" "unat len \<le> length bs" using p by (auto simp: payload_given_def)
    then have "memcpy (drop 24 ?raw) bs (unat len) = Some (memcpy_at (drop 24 ?raw) 0 (take (unat len) bs))"
      using raw len by (intro memcpy_in_range) simp_all
    with True bs enc hdr sack(1) raw len show ?thesis
      by (simp add: build_datagram_def payload_bytes_def memcpy_at_def)
  next
    case False
    then have "len = 0" "payload_bytes payload len = []"
      using p by (auto simp: payload_given_def payload_bytes_def word_gt_0 split: option.splits)
    with False enc hdr sack(1) raw show ?thesis by (simp add: build_datagram_def)
  qed
  with sack(2) show ?thesis by blast
qed

text \<open>
  Whatever the windows and arguments are like: if a datagram can be built at all, its payload has the length the header says.
\<close>

lemma built_bytes:
  assumes env: "env_ok e" and b: "build_datagram e win sid type mode seq payload len = Some (n, bs)"
  obtains ack sack body where "rel4u_recv_window_get_ack_info win = Some (ack, sack)" "n = 24"
    "bs = header_bytes (packet_header sid type mode seq (ucast len) ack sack) @ body" "length body = unat len"
    "unat len \<le> REL4U_MAX_PAYLOAD_SIZE"
proof -
  obtain ack sack where a: "rel4u_recv_window_get_ack_info win = Some (ack, sack)"
    using b by (cases "rel4u_recv_window_get_ack_info win") (auto simp: build_datagram_def)
  let ?raw = "env_raw_buf e" and ?h = "packet_header sid type mode seq (ucast len) ack sack"
  have raw: "length ?raw = 9240" using env by (simp add: env_ok_def)
  have enc: "rel4u_packet_encode_header (Some ?h) (Some ?raw) 9240 = (24, Some (header_bytes ?h @ drop 24 ?raw))"
    using raw by (intro encode_header_layout) simp_all
  have hdr: "zero_header\<lparr>magic := REL4U_MAGIC, version := REL4U_VERSION, packet_type := type, delivery_mode := mode,
      payload_len := ucast len, session_id := sid, seq_num := seq, ack_num := ack, sack_mask := sack\<rparr> = ?h"
    by (simp add: packet_header_def zero_header_def)
  have "n = 24 \<and> (\<exists>body. bs = header_bytes ?h @ take (unat len) body \<and> unat len \<le> length body \<and> length body \<le> 9216)"
    using b a enc hdr raw
    by (auto simp: build_datagram_def memcpy_def Let_def split: if_splits
        intro: exI [of _ "drop 24 ?raw"] exI [of _ "take (unat len) (the payload) @ drop (unat len) (drop 24 ?raw)"])
  then obtain body where "n = 24" "bs = header_bytes ?h @ take (unat len) body" "unat len \<le> length body" "unat len \<le> 9216" by auto
  with that [OF a] show thesis by simp
qed

lemma decode_datagram:
  assumes "length body = unat (payload_len h)" "magic h = REL4U_MAGIC" "version h = REL4U_VERSION"
    and "unat n = length (header_bytes h @ body)"
  shows "rel4u_packet_decode_header (Some (header_bytes h @ body)) n (Some g) = (0, Some h)"
  using assms by (subst decode_header_bytes) simp_all

lemma unat_ucast_len: "unat (len :: size_t) \<le> REL4U_MAX_PAYLOAD_SIZE \<Longrightarrow> unat (ucast len :: u16) = unat len"
  by (simp add: unsigned_ucast_eq take_bit_eq_mod)

lemma decode_built:
  assumes "payload_given payload len"
  shows "rel4u_packet_decode_header (Some (header_bytes (packet_header sid type mode seq (ucast len) ack sack) @ payload_bytes payload len))
    (of_nat (length (header_bytes (packet_header sid type mode seq (ucast len) ack sack) @ payload_bytes payload len))) (Some g) =
    (0, Some (packet_header sid type mode seq (ucast len) ack sack))"
proof -
  have "unat len \<le> REL4U_MAX_PAYLOAD_SIZE" using assms by (simp add: payload_given_def)
  with length_payload_bytes [OF assms] unat_ucast_len [of len] show ?thesis
    by (intro decode_datagram) (simp_all add: unat_of_nat del: of_nat_add)
qed

lemma sent_datagram:
  assumes env: "env_ok e" and inv: "recv_inv win" and p: "payload_given payload len"
    and b: "build_datagram e win sid type mode seq payload len = Some (24, bs)"
  shows "\<exists>sack. rel4u_packet_decode_header (Some bs) (of_nat (length bs)) (Some g) =
      (0, Some (packet_header sid type mode seq (ucast len) (rw_expected_seq win - 1) sack))"
  using build_datagram_law [OF env inv p, of sid type mode seq] b decode_built [OF p] by auto

lemma decode_control:
  "rel4u_packet_decode_header (Some (header_bytes (packet_header sid type 0 seq 0 0 0)))
     (of_nat (length (header_bytes (packet_header sid type 0 seq 0 0 0)))) (Some g) = (0, Some (packet_header sid type 0 seq 0 0 0))"
  using decode_datagram [of "[]" "packet_header sid type 0 seq 0 0 0" 24 g] by simp

lemma control_datagram_bytes:
  assumes "length buf = 24"
  shows "control_datagram buf type sid seq = header_bytes (packet_header sid type 0 seq 0 0 0)"
proof -
  have "zero_header\<lparr>magic := REL4U_MAGIC, version := REL4U_VERSION, packet_type := type, session_id := sid,
      seq_num := seq\<rparr> = packet_header sid type 0 seq 0 0 0"
    by (simp add: packet_header_def zero_header_def)
  moreover have "rel4u_packet_encode_header (Some (packet_header sid type 0 seq 0 0 0)) (Some buf) 24 =
      (24, Some (header_bytes (packet_header sid type 0 seq 0 0 0) @ drop 24 buf))"
    using assms by (intro encode_header_layout) simp_all
  ultimately show ?thesis using assms by (simp add: control_datagram_def)
qed

subsection \<open>Retransmission\<close>

lemma mark_retransmit_law:
  assumes inv: "send_inv w" and i: "i < length (sw_slots w)"
  shows "\<exists>w'. mark_retransmit w i now = Some w' \<and> send_inv w' \<and> sw_head_seq w' = sw_head_seq w \<and>
    sw_next_seq w' = sw_next_seq w \<and> sw_capacity w' = sw_capacity w \<and> sw_next_unrel_seq w' = sw_next_unrel_seq w \<and>
    length (sw_slots w') = length (sw_slots w) \<and>
    (\<forall>j < length (sw_slots w). sw_slots w' ! j =
      (if j = i then (sw_slots w ! j)\<lparr>ss_last_sent_time_ns := now, ss_retransmit_count := ss_retransmit_count (sw_slots w ! j) + 1\<rparr>
       else sw_slots w ! j)) \<and>
    map ss_acked (sw_entries w') = map ss_acked (sw_entries w) \<and> map slot_msg (sw_entries w') = map slot_msg (sw_entries w)"
proof -
  let ?s = "(sw_slots w ! i)\<lparr>ss_last_sent_time_ns := now, ss_retransmit_count := ss_retransmit_count (sw_slots w ! i) + 1\<rparr>"
  define w' where "w' = w\<lparr>sw_slots := (sw_slots w)[i := ?s]\<rparr>"
  have r: "mark_retransmit w i now = Some w'" using i by (simp add: mark_retransmit_def w'_def deref_in_range)
  have len: "sw_len w' = sw_len w" by (simp add: w'_def sw_len_def)
  have at: "sw_at w' j = sw_at w j" for j by (simp add: w'_def sw_at_def)
  have nth: "sw_slots w' ! j = (if j = i then ?s else sw_slots w ! j)" for j
    using i by (simp add: w'_def)
  have cap: "sw_capacity w' = sw_capacity w" "sw_head_seq w' = sw_head_seq w" "sw_in_flight w' = sw_in_flight w"
    "length (sw_slots w') = length (sw_slots w)" by (simp_all add: w'_def)
  have acked: "map ss_acked (sw_entries w') = map ss_acked (sw_entries w)"
    "map slot_msg (sw_entries w') = map slot_msg (sw_entries w)"
    by (simp_all add: sw_entries_def len at nth slot_msg_def)
  have un: "length (unacked es) = length (filter Not (map ss_acked es))" for es
    by (induction es) simp_all
  have "send_inv w'"
    unfolding send_inv_def
  proof (intro conjI ballI allI impI)
    show "pow2 (sw_capacity w')" "unat (sw_capacity w') < 2 ^ 31" "length (sw_slots w') = unat (sw_capacity w')"
      "sw_len w' \<le> unat (sw_capacity w')"
      using send_invD [OF inv] by (simp_all add: cap len)
    show "unat (sw_in_flight w') = length (unacked (sw_entries w'))"
      using send_invD(8) [OF inv] acked(1) cap(3) by (simp add: un)
    fix s assume "s \<in> set (sw_slots w')"
    then show "length (ss_payload s) = REL4U_MAX_PAYLOAD_SIZE"
      using set_update_subset_insert [of "sw_slots w" i ?s] send_invD(4) [OF inv] i
      by (auto simp: w'_def)
  next
    fix k assume k: "k < sw_len w'"
    then show "send_slot_ok (sw_entries w' ! k)" "ss_seq_num (sw_entries w' ! k) = sw_head_seq w' + of_nat k"
      using send_invD(6,7) [OF inv, of k] by (auto simp: len at nth cap send_slot_ok_def)
  qed
  with r acked nth cap show ?thesis by (intro exI [of _ w']) (simp add: w'_def)
qed

subsection \<open>Handing messages to the application\<close>

definition app_item :: "env \<Rightarrow> u32 \<Rightarrow> rel4u_recv_slot \<Rightarrow> rel4u_mpmc_item" where
  "app_item e cid s = the (ready_item e cid s)"

definition slot_fits :: "rel4u_recv_slot \<Rightarrow> bool" where
  "slot_fits s \<longleftrightarrow> unat (rs_payload_len s) \<le> REL4U_MAX_PAYLOAD_SIZE \<and> length (rs_payload s) = REL4U_MAX_PAYLOAD_SIZE"

lemma ready_item_law:
  assumes "env_ok e" "slot_fits s"
  shows "ready_item e cid s = Some (app_item e cid s)" "valid_item (app_item e cid s)"
    "item_msg (app_item e cid s) = (cid, rs_delivery_mode s, slot_bytes s)"
proof -
  let ?d = "memcpy_at (it_data (env_item e)) 0 (take (unat (rs_payload_len s)) (rs_payload s))"
  have "memcpy (it_data (env_item e)) (rs_payload s) (unat (rs_payload_len s)) = Some ?d"
    using assms by (intro memcpy_in_range) (simp_all add: env_ok_def slot_fits_def)
  then have r: "ready_item e cid s = Some ((env_item e)\<lparr>it_client_id := cid, it_mode := rs_delivery_mode s,
      it_len := rs_payload_len s, it_data := ?d\<rparr>)"
    by (simp add: ready_item_def)
  then show "ready_item e cid s = Some (app_item e cid s)" by (simp add: app_item_def)
  from r assms show "valid_item (app_item e cid s)" "item_msg (app_item e cid s) = (cid, rs_delivery_mode s, slot_bytes s)"
    by (simp_all add: app_item_def valid_item_def item_msg_def slot_bytes_def env_ok_def slot_fits_def min_def)
qed

text \<open>\<open>hand_over\<close> pushes the messages of a list of slots, one after the other.\<close>

definition hand_over :: "env \<Rightarrow> u32 \<Rightarrow> rel4u_recv_slot list \<Rightarrow> rel4u_mpmc_queue \<times> world \<Rightarrow> rel4u_mpmc_queue \<times> world" where
  "hand_over e cid ss = fold (\<lambda>s. push_to_app e (app_item e cid s)) ss"

lemma hand_over_simps [simp]:
  "hand_over e cid [] = id" "hand_over e cid (s # ss) qw = hand_over e cid ss (push_to_app e (app_item e cid s) qw)"
  "hand_over e cid (xs @ ys) qw = hand_over e cid ys (hand_over e cid xs qw)"
  by (simp_all add: hand_over_def id_def)

lemma deliver_ready_law:
  assumes "env_ok e" "\<forall>s \<in> set ss. slot_fits s"
  shows "deliver_ready e cid ss qw = Some (hand_over e cid ss qw)"
  using assms(2)
proof (induction ss arbitrary: qw)
  case (Cons s ss)
  with ready_item_law(1) [OF assms(1)] show ?case by simp
qed simp

lemma push_to_app_inv:
  assumes "env_ok e" "valid_item item" "queue_inv (fst qw)"
  shows "queue_inv (fst (push_to_app e item qw))" "same_config (fst qw) (fst (push_to_app e item qw))"
    "wd_sent (snd (push_to_app e item qw)) = wd_sent (snd qw)"
    "wd_clock (snd (push_to_app e item qw)) = wd_clock (snd qw)"
proof -
  obtain q w where qw: "qw = (q, w)" by (cases qw)
  let ?a = "env_alloc e (wd_pushes w)"
  have "push_effect (\<lambda>ms. ms @ [item_msg item]) ?a q item (mpmc_push_back_locked ?a q item)"
    using assms qw by (intro push_back_effect) (simp_all add: env_ok_def)
  then have "queue_inv (snd (mpmc_push_back_locked ?a q item))" by (simp add: push_effect_def)
  then show "queue_inv (fst (push_to_app e item qw))"
    by (cases "mpmc_push_back_locked ?a q item") (simp add: push_to_app_def qw rel4u_mpmc_push_notify_def)
  show "same_config (fst qw) (fst (push_to_app e item qw))"
    using same_config_push(1) [of q ?a item]
    by (cases "mpmc_push_back_locked ?a q item")
      (simp add: push_to_app_def qw rel4u_mpmc_push_notify_def same_config_def cond_signal_def)
  show "wd_sent (snd (push_to_app e item qw)) = wd_sent (snd qw)"
    "wd_clock (snd (push_to_app e item qw)) = wd_clock (snd qw)"
    by (simp_all add: push_to_app_def qw)
qed

lemma same_config_trans: "same_config q q1 \<Longrightarrow> same_config q1 q2 \<Longrightarrow> same_config q q2"
  by (simp add: same_config_def)

lemma same_config_refl [simp]: "same_config q q"
  by (simp add: same_config_def)

lemma hand_over_inv:
  assumes "env_ok e" "\<forall>s \<in> set ss. slot_fits s" "queue_inv (fst qw)"
  shows "queue_inv (fst (hand_over e cid ss qw)) \<and> same_config (fst qw) (fst (hand_over e cid ss qw)) \<and>
    wd_sent (snd (hand_over e cid ss qw)) = wd_sent (snd qw) \<and> wd_clock (snd (hand_over e cid ss qw)) = wd_clock (snd qw)"
  using assms(2,3)
proof (induction ss arbitrary: qw)
  case (Cons s ss)
  then have "valid_item (app_item e cid s)" using ready_item_law(2) [OF assms(1)] by simp
  note p = push_to_app_inv [OF assms(1) this Cons.prems(2)]
  from Cons.IH [of "push_to_app e (app_item e cid s) qw"] Cons.prems(1) p show ?case
    by (simp add: same_config_trans [OF p(2)])
qed simp

subsection \<open>Draining the window\<close>

lemma slots_fit:
  assumes "recv_inv w" "drained w m w'"
  shows "\<forall>s \<in> set (ordered (run_of w m)). slot_fits s"
proof
  fix s assume "s \<in> set (ordered (run_of w m))"
  then have "s \<in> set (run_of w m)" by (simp add: ordered_def)
  with run_of_ok [OF assms] obtain k where k: "rw_buf w k = Some s" by blast
  show "slot_fits s"
    using recv_invD(6) [OF assms(1) k] payload_of_buffered [OF assms(1) k] by (simp add: slot_fits_def recv_slot_ok_def)
qed

lemma drained_trans:
  assumes "drained w m w1" "drained w1 k w2"
  shows "drained w (m + k) w2" "run_of w (m + k) = run_of w m @ run_of w1 k"
proof -
  have b: "rw_buf w1 = (\<lambda>j. rw_buf w (j + m))" using assms(1) by (simp add: drained_def)
  have "\<forall>j < m + k. rw_buf w j \<noteq> None"
  proof (intro allI impI)
    fix j assume j: "j < m + k"
    show "rw_buf w j \<noteq> None"
    proof (cases "j < m")
      case False
      with j have "rw_buf w1 (j - m) \<noteq> None" using assms(2) by (simp add: drained_def)
      with False b show ?thesis by simp
    qed (use assms(1) in \<open>simp add: drained_def\<close>)
  qed
  with assms b show "drained w (m + k) w2"
    by (simp add: drained_def algebra_simps)
  have "map (\<lambda>j. the (rw_buf w j)) [m..<m + k] = run_of w1 k"
    by (rule nth_equalityI) (simp_all add: run_of_def b add.commute)
  then show "run_of w (m + k) = run_of w m @ run_of w1 k"
    by (simp add: run_of_def upt_add_eq_append [of 0 m k, simplified])
qed

lemma pop_ready_law:
  assumes "recv_inv w" "payloads_ok slots" "length slots = 64"
  shows "\<exists>w' slots' m. rel4u_recv_window_pop_ready w slots 64 =
      Some (0, w', slots', Some (length (ordered (run_of w m)))) \<and>
    drained w m w' \<and> take (length (ordered (run_of w m))) slots' = ordered (run_of w m) \<and>
    payloads_ok slots' \<and> length slots' = 64 \<and> (rw_buf w' 0 = None \<or> length (ordered (run_of w m)) = 64)"
  using pop_ready_loop_law [OF assms(1,2), of 0 64] assms(3)
  by (auto simp: drain_result_def rel4u_recv_window_pop_ready_def)

lemma drain_ready_law:
  assumes env: "env_ok e" and "recv_inv w" "payloads_ok slots" "length slots = 64"
    and "\<not> only_full \<or> rw_buf w 0 = None \<or> n = 64"
  shows "\<exists>w' slots' m. drain_ready e cid only_full n w slots qw = Some (w', slots', hand_over e cid (ordered (run_of w m)) qw) \<and>
    drained w m w' \<and> rw_buf w' 0 = None \<and> payloads_ok slots' \<and> length slots' = 64"
  using assms(2-)
proof (induction "received_count w" arbitrary: w slots n qw rule: less_induct)
  case less
  note inv = less.prems(1)
  show ?case
  proof (cases "only_full \<and> n \<noteq> 64")
    case True
    then have "rw_buf w 0 = None" using less.prems(4) by simp
    moreover have "drain_ready e cid only_full n w slots qw = Some (w, slots, qw)"
      using True by (subst drain_ready.simps) simp
    ultimately show ?thesis
      using less.prems drained_refl [OF inv]
      by (intro exI [of _ w] exI [of _ slots] exI [of _ 0]) (simp add: run_of_def)
  next
    case go: False
    obtain w1 s1 m where p: "rel4u_recv_window_pop_ready w slots 64 = Some (0, w1, s1, Some (length (ordered (run_of w m))))"
        "drained w m w1" "take (length (ordered (run_of w m))) s1 = ordered (run_of w m)" "payloads_ok s1" "length s1 = 64"
        "rw_buf w1 0 = None \<or> length (ordered (run_of w m)) = 64"
      using pop_ready_law [OF inv less.prems(2,3)] by blast
    let ?n = "length (ordered (run_of w m))"
    have d: "deliver_ready e cid (take ?n s1) qw = Some (hand_over e cid (ordered (run_of w m)) qw)"
      using deliver_ready_law [OF env slots_fit [OF inv p(2)]] p(3) by simp
    show ?thesis
    proof (cases "?n = 0")
      case True
      with go p have "drain_ready e cid only_full n w slots qw = Some (w1, s1, hand_over e cid (ordered (run_of w m)) qw)"
        by (subst drain_ready.simps) auto
      with p True show ?thesis by (intro exI [of _ w1] exI [of _ s1] exI [of _ m]) simp
    next
      case False
      have "pop_ready_loop w slots 64 0 = Some (w1, s1, ?n)"
        using p(1) by (auto simp: rel4u_recv_window_pop_ready_def)
      from pop_ready_loop_count [OF this] False have lt: "received_count w1 < received_count w" by linarith
      have step: "drain_ready e cid only_full n w slots qw =
          drain_ready e cid only_full ?n w1 s1 (hand_over e cid (ordered (run_of w m)) qw)"
        using go p(1) d False by (subst drain_ready.simps) auto
      have inv1: "recv_inv w1" using p(2) by (simp add: drained_def)
      from less.hyps [OF lt inv1 p(4,5), of ?n "hand_over e cid (ordered (run_of w m)) qw"] p(6) obtain w2 s2 k where
        r: "drain_ready e cid only_full ?n w1 s1 (hand_over e cid (ordered (run_of w m)) qw) =
            Some (w2, s2, hand_over e cid (ordered (run_of w1 k)) (hand_over e cid (ordered (run_of w m)) qw))"
          "drained w1 k w2" "rw_buf w2 0 = None" "payloads_ok s2" "length s2 = 64" by blast
      with step drained_trans [OF p(2) r(2)] show ?thesis
        by (intro exI [of _ w2] exI [of _ s2] exI [of _ "m + k"]) simp
    qed
  qed
qed

text \<open>
  The outcome of a data packet on a drained window: \<open>ds\<close> are the slots whose messages reach the
  application, and the window is drained again.
\<close>

lemma delivers_drained:
  assumes "delivers w b front mx w1 ready" "drained w1 k w2" "rw_buf w2 0 = None"
  shows "delivers w b front mx w2 (ready @ ordered (run_of w1 k))"
proof -
  from assms(1) obtain m where m: "recv_inv w1" "\<forall>j < m. b j \<noteq> None" "rw_buf w1 = (\<lambda>j. b (j + m))"
      "rw_expected_seq w1 = rw_expected_seq w + of_nat m" "rw_capacity w1 = rw_capacity w"
      "rw_highest_unrel_seq w1 = rw_highest_unrel_seq w" "rw_has_highest_unrel w1 = rw_has_highest_unrel w"
      "ready = front @ ordered (map (\<lambda>j. the (b j)) [0..<m])"
    unfolding delivers_def by blast
  have "b j \<noteq> None" if "j < m + k" for j
  proof (cases "j < m")
    case False
    with that have "rw_buf w1 (j - m) \<noteq> None" using assms(2) by (simp add: drained_def)
    with False m(3) show ?thesis by simp
  qed (use m(2) in simp)
  moreover have "map (\<lambda>j. the (b j)) [m..<m + k] = run_of w1 k"
    by (rule nth_equalityI) (simp_all add: run_of_def m(3) add.commute)
  then have "map (\<lambda>j. the (b j)) [0..<m + k] = map (\<lambda>j. the (b j)) [0..<m] @ run_of w1 k"
    by (simp add: upt_add_eq_append [of 0 m k, simplified])
  ultimately show ?thesis
    unfolding delivers_def using m assms(2,3)
    by (intro exI [of _ "m + k"]) (simp add: drained_def algebra_simps)
qed

lemma delivers_fit:
  assumes inv: "recv_inv w" and del: "delivers w ((rw_buf w)(d \<mapsto> s)) front mx w' ready"
    and "slot_fits s" "\<forall>f \<in> set front. slot_fits f"
  shows "\<forall>s \<in> set ready. slot_fits s"
proof -
  from del obtain m where m: "\<forall>j < m. ((rw_buf w)(d \<mapsto> s)) j \<noteq> None"
      "ready = front @ ordered (map (\<lambda>j. the (((rw_buf w)(d \<mapsto> s)) j)) [0..<m])"
    unfolding delivers_def by blast
  have "slot_fits (the (((rw_buf w)(d \<mapsto> s)) j))" if "j < m" for j
  proof (cases "j = d")
    case False
    with m(1) that obtain t where t: "rw_buf w j = Some t" by fastforce
    with False recv_invD(6) [OF inv t] payload_of_buffered [OF inv t] show ?thesis
      by (simp add: slot_fits_def recv_slot_ok_def)
  qed (use assms(3) in simp)
  with m(2) assms(4) show ?thesis by (auto simp: ordered_def)
qed

lemma packet_slot_fits: "packet_fits hdr bytes \<Longrightarrow> packet_slot hdr s \<Longrightarrow> slot_fits s"
  by (simp add: packet_fits_def packet_slot_def slot_fits_def)

definition reliable :: "u8 \<Rightarrow> bool" where
  "reliable mode \<longleftrightarrow> mode = REL4U_MODE_RELIABLE_ORDERED \<or> mode = REL4U_MODE_RELIABLE_UNORDERED"

text \<open>A reliable packet as the window sees it, both modes at once.\<close>

lemma on_reliable_law:
  assumes "recv_inv w" "payloads_ok out" "0 < mx" "mx \<le> length out" "packet_fits hdr bytes" "reliable (delivery_mode hdr)"
  shows "if reliable_verdict w (seq_num hdr) \<noteq> 0 then
      rel4u_recv_window_on_packet w hdr (Some bytes) out mx = Some (reliable_verdict w (seq_num hdr), w, out, Some 0)
    else \<exists>s front w' out' ready. rel4u_recv_window_on_packet w hdr (Some bytes) out mx = Some (0, w', out', Some (length ready)) \<and>
      packet_slot hdr s \<and> (\<forall>f \<in> set front. packet_slot hdr f \<and> slot_bytes f = take (unat (payload_len hdr)) bytes) \<and>
      (if delivery_mode hdr = REL4U_MODE_RELIABLE_ORDERED
       then front = [] \<and> slot_bytes s = take (unat (payload_len hdr)) bytes else length front = 1) \<and>
      delivers w ((rw_buf w)(unat (seq_num hdr - rw_expected_seq w) \<mapsto> s)) front mx w' ready \<and>
      take (length ready) out' = ready \<and> length ready \<le> mx \<and> length out' = length out \<and> payloads_ok out'"
proof (cases "delivery_mode hdr = REL4U_MODE_RELIABLE_ORDERED")
  case True
  then have eq: "rel4u_recv_window_on_packet w hdr (Some bytes) out mx = on_reliable_ordered w hdr (Some bytes) out mx"
    using assms(3) by (simp add: rel4u_recv_window_on_packet_def)
  show ?thesis
  proof (cases "reliable_verdict w (seq_num hdr) \<noteq> 0")
    case v: True
    with on_ordered_law [OF assms(1-5) True] show ?thesis by (simp add: eq)
  next
    case v: False
    with on_ordered_law [OF assms(1-5) True] obtain s w' out' ready where
      "on_reliable_ordered w hdr (Some bytes) out mx = Some (0, w', out', Some (length ready))"
      "packet_slot hdr s" "slot_bytes s = take (unat (payload_len hdr)) bytes"
      "delivers w ((rw_buf w)(unat (seq_num hdr - rw_expected_seq w) \<mapsto> s)) [] mx w' ready"
      "take (length ready) out' = ready" "length ready \<le> mx" "length out' = length out" "payloads_ok out'" by auto
    with v True show ?thesis unfolding eq
      by (simp only: if_True if_False simp_thms)
        (intro exI [of _ s] exI [of _ "[]"] exI [of _ w'] exI [of _ out'] exI [of _ ready], simp)
  qed
next
  case False
  with assms(6) have mode: "delivery_mode hdr = REL4U_MODE_RELIABLE_UNORDERED" by (simp add: reliable_def)
  then have eq: "rel4u_recv_window_on_packet w hdr (Some bytes) out mx = on_reliable_unordered w hdr (Some bytes) out mx"
    using assms(3) by (simp add: rel4u_recv_window_on_packet_def)
  show ?thesis
  proof (cases "reliable_verdict w (seq_num hdr) \<noteq> 0")
    case v: True
    with on_unordered_law [OF assms(1-5) mode] show ?thesis by (simp add: eq)
  next
    case v: False
    with on_unordered_law [OF assms(1-5) mode] obtain s f w' out' ready where
      "on_reliable_unordered w hdr (Some bytes) out mx = Some (0, w', out', Some (length ready))"
      "packet_slot hdr s" "packet_slot hdr f" "slot_bytes f = take (unat (payload_len hdr)) bytes"
      "delivers w ((rw_buf w)(unat (seq_num hdr - rw_expected_seq w) \<mapsto> s)) [f] mx w' ready"
      "take (length ready) out' = ready" "length ready \<le> mx" "length out' = length out" "payloads_ok out'" by auto
    with v False show ?thesis unfolding eq
      by (simp only: if_True if_False simp_thms)
        (intro exI [of _ s] exI [of _ "[f]"] exI [of _ w'] exI [of _ out'] exI [of _ ready], simp)
  qed
qed

subsection \<open>Data packets\<close>

text \<open>What holds of a worker's receiving side between two datagrams.\<close>

definition receiving_ok :: "rel4u_recv_window \<Rightarrow> rel4u_recv_slot list \<Rightarrow> bool" where
  "receiving_ok w slots \<longleftrightarrow> recv_inv w \<and> rw_buf w 0 = None \<and> payloads_ok slots \<and> length slots = 64"

lemma drain_nothing:
  assumes "env_ok e" "receiving_ok w slots"
  shows "drain_ready e cid False n w slots qw = Some (w, slots, qw)"
proof -
  have w: "recv_inv w" "rw_buf w 0 = None" "payloads_ok slots" "length slots = 64"
    using assms(2) by (simp_all add: receiving_ok_def)
  then have "pop_ready_loop w slots 64 0 = Some (w, slots, 0)"
    using rw_buf_0_iff(1) [OF w(1)]
    by (subst pop_ready_loop.simps) (auto simp: rw_expected_at Let_def simp del: deref_Some_iff)
  then show ?thesis by (subst drain_ready.simps) (simp add: rel4u_recv_window_pop_ready_def)
qed

lemma on_data_reliable:
  assumes env: "env_ok e" and ok: "receiving_ok w slots" and p: "packet_fits hdr bytes" "reliable (delivery_mode hdr)"
  shows "if reliable_verdict w (seq_num hdr) \<noteq> 0 then
      on_data e cid w slots hdr bytes qw = Some (w, slots, qw, reliable_verdict w (seq_num hdr) = 1)
    else \<exists>s front w' slots' ds. on_data e cid w slots hdr bytes qw = Some (w', slots', hand_over e cid ds qw, True) \<and>
      packet_slot hdr s \<and> (\<forall>f \<in> set front. packet_slot hdr f \<and> slot_bytes f = take (unat (payload_len hdr)) bytes) \<and>
      (if delivery_mode hdr = REL4U_MODE_RELIABLE_ORDERED
       then front = [] \<and> slot_bytes s = take (unat (payload_len hdr)) bytes else length front = 1) \<and>
      delivers w ((rw_buf w)(unat (seq_num hdr - rw_expected_seq w) \<mapsto> s)) front 64 w' ds \<and>
      receiving_ok w' slots' \<and> (\<forall>d \<in> set ds. slot_fits d)"
proof -
  have w: "recv_inv w" "rw_buf w 0 = None" "payloads_ok slots" "length slots = 64"
    using ok by (simp_all add: receiving_ok_def)
  note law = on_reliable_law [where mx = 64, OF w(1,3) _ _ p]
  show ?thesis
  proof (cases "reliable_verdict w (seq_num hdr) \<noteq> 0")
    case True
    then have "rel4u_recv_window_on_packet w hdr (Some bytes) slots 64 = Some (reliable_verdict w (seq_num hdr), w, slots, Some 0)"
      using law w(4) by simp
    with True drain_nothing [OF env ok] show ?thesis by (simp add: on_data_def)
  next
    case False
    with law w(4) obtain s front w1 s1 ready where r:
      "rel4u_recv_window_on_packet w hdr (Some bytes) slots 64 = Some (0, w1, s1, Some (length ready))"
      "packet_slot hdr s" "\<forall>f \<in> set front. packet_slot hdr f \<and> slot_bytes f = take (unat (payload_len hdr)) bytes"
      "if delivery_mode hdr = REL4U_MODE_RELIABLE_ORDERED
       then front = [] \<and> slot_bytes s = take (unat (payload_len hdr)) bytes else length front = 1"
      "delivers w ((rw_buf w)(unat (seq_num hdr - rw_expected_seq w) \<mapsto> s)) front 64 w1 ready"
      "take (length ready) s1 = ready" "length s1 = 64" "payloads_ok s1" by auto
    have fit: "\<forall>d \<in> set ready. slot_fits d"
      using delivers_fit [OF w(1) r(5)] packet_slot_fits [OF p(1)] r(2,3) by blast
    have w1: "recv_inv w1" "rw_buf w1 0 = None \<or> length ready = 64" using r(5) by (auto simp: delivers_def)
    from drain_ready_law [OF env w1(1) r(8,7), of True "length ready" cid "hand_over e cid ready qw"] w1(2)
    obtain w2 s2 k where d: "drain_ready e cid True (length ready) w1 s1 (hand_over e cid ready qw) =
        Some (w2, s2, hand_over e cid (ordered (run_of w1 k)) (hand_over e cid ready qw))"
        "drained w1 k w2" "rw_buf w2 0 = None" "payloads_ok s2" "length s2 = 64" by blast
    have "on_data e cid w slots hdr bytes qw = Some (w2, s2, hand_over e cid (ready @ ordered (run_of w1 k)) qw, True)"
      using r(1,6) d(1) deliver_ready_law [OF env fit] by (simp add: on_data_def)
    moreover have "receiving_ok w2 s2" using d by (simp add: receiving_ok_def drained_def)
    moreover have "\<forall>d \<in> set (ready @ ordered (run_of w1 k)). slot_fits d"
      using fit slots_fit [OF w1(1) d(2)] by auto
    ultimately show ?thesis
      using False r(2-4) delivers_drained [OF r(5) d(2,3)]
      by (simp only: if_False simp_thms) blast
  qed
qed

lemma on_data_unreliable:
  assumes env: "env_ok e" and ok: "receiving_ok w slots" and p: "packet_fits hdr bytes" "\<not> reliable (delivery_mode hdr)"
  shows "\<exists>w' slots' ds ack. on_data e cid w slots hdr bytes qw = Some (w', slots', hand_over e cid ds qw, ack) \<and>
    receiving_ok w' slots' \<and> rw_capacity w' = rw_capacity w \<and> rw_buf w' = rw_buf w \<and>
    rw_expected_seq w' = rw_expected_seq w \<and> (\<forall>d \<in> set ds. slot_fits d)"
proof -
  have w: "recv_inv w" "rw_buf w 0 = None" "payloads_ok slots" "length slots = 64"
    using ok by (simp_all add: receiving_ok_def)
  obtain f where f: "fill_first slots hdr (Some bytes) = Some (slots[0 := f])" "packet_slot hdr f"
    using fill_first_law [OF p(1) w(3)] w(4) by force
  have fits: "slot_fits f" by (rule packet_slot_fits [OF p(1) f(2)])
  have ok': "payloads_ok (slots[0 := f])"
    using payloads_ok_update [OF w(3)] f(2) by (simp add: packet_slot_def)
  have tk: "take 1 (slots[0 := f]) = [f]" using w(4) by (cases slots) simp_all
  have del: "deliver_ready e cid [f] qw = Some (hand_over e cid [f] qw)" for qw
    using deliver_ready_law [OF env, of "[f]"] fits by simp
  have dr: "drain_ready e cid True n v ss qw = Some (v, ss, qw)" if "n \<noteq> 64" for n v ss qw
    using that by (subst drain_ready.simps) simp
  let ?hw = "w\<lparr>rw_highest_unrel_seq := seq_num hdr, rw_has_highest_unrel := True\<rparr>"
  have got: "on_data e cid w slots hdr bytes qw = Some (w1, slots[0 := f], hand_over e cid [f] qw, True)"
    if "rel4u_recv_window_on_packet w hdr (Some bytes) slots 64 = Some (0, w1, slots[0 := f], Some 1)" for w1
    using that del dr tk by (simp add: on_data_def)
  consider "delivery_mode hdr = REL4U_MODE_UNRELIABLE_UNORDERED"
    | "delivery_mode hdr = REL4U_MODE_UNRELIABLE_ORDERED" "\<not> rw_has_highest_unrel w \<or> rel4u_seq_gt (seq_num hdr) (rw_highest_unrel_seq w)"
    | "delivery_mode hdr = REL4U_MODE_UNRELIABLE_ORDERED" "\<not> (\<not> rw_has_highest_unrel w \<or> rel4u_seq_gt (seq_num hdr) (rw_highest_unrel_seq w))"
    | "delivery_mode hdr \<notin> {0, 1, 2, 3}" using p(2) by (auto simp: reliable_def)
  then show ?thesis
  proof cases
    case 1
    with f(1) got [of w] ok ok' w fits show ?thesis
      by (intro exI [of _ w] exI [of _ "slots[0 := f]"] exI [of _ "[f]"] exI [of _ True])
        (simp add: rel4u_recv_window_on_packet_def on_unreliable_unordered_def receiving_ok_def)
  next
    case 2
    with f(1) got [of ?hw] ok ok' w fits show ?thesis
      by (intro exI [of _ ?hw] exI [of _ "slots[0 := f]"] exI [of _ "[f]"] exI [of _ True])
        (simp add: rel4u_recv_window_on_packet_def on_unreliable_ordered_def receiving_ok_def)
  next
    case 3
    then have "rel4u_recv_window_on_packet w hdr (Some bytes) slots 64 = Some (1, w, slots, Some 0)"
      by (simp add: rel4u_recv_window_on_packet_def on_unreliable_ordered_def)
    with drain_nothing [OF env ok] ok show ?thesis
      by (intro exI [of _ w] exI [of _ slots] exI [of _ "[]"] exI [of _ True]) (simp add: on_data_def)
  next
    case 4
    then have "rel4u_recv_window_on_packet w hdr (Some bytes) slots 64 = Some (-1, w, slots, Some 0)"
      by (simp add: rel4u_recv_window_on_packet_def)
    with ok show ?thesis
      by (intro exI [of _ w] exI [of _ slots] exI [of _ "[]"] exI [of _ False]) (simp add: on_data_def)
  qed
qed

text \<open>Every data packet, whatever its mode: no fault, and the receiving side stays in order.\<close>

lemma on_data_safe:
  assumes "env_ok e" "receiving_ok w slots" "packet_fits hdr bytes" "queue_inv (fst qw)"
  shows "\<exists>w' slots' qw' ack. on_data e cid w slots hdr bytes qw = Some (w', slots', qw', ack) \<and>
    receiving_ok w' slots' \<and> rw_capacity w' = rw_capacity w \<and> queue_inv (fst qw') \<and> same_config (fst qw) (fst qw') \<and>
    wd_sent (snd qw') = wd_sent (snd qw) \<and> wd_clock (snd qw') = wd_clock (snd qw)"
proof (cases "reliable (delivery_mode hdr)")
  case False
  with on_data_unreliable [OF assms(1-3), of cid qw] hand_over_inv [OF assms(1) _ assms(4)] show ?thesis by metis
next
  case True
  show ?thesis
  proof (cases "reliable_verdict w (seq_num hdr) \<noteq> 0")
    case v: True
    with on_data_reliable [OF assms(1-3) True, of cid qw] assms(2,4) show ?thesis by simp
  next
    case False
    with on_data_reliable [OF assms(1-3) True, of cid qw] obtain s front w' slots' ds where
      "on_data e cid w slots hdr bytes qw = Some (w', slots', hand_over e cid ds qw, True)"
      "delivers w ((rw_buf w)(unat (seq_num hdr - rw_expected_seq w) \<mapsto> s)) front 64 w' ds"
      "receiving_ok w' slots'" "\<forall>d \<in> set ds. slot_fits d" by auto
    with hand_over_inv [OF assms(1) _ assms(4)] show ?thesis by (auto simp: delivers_def)
  qed
qed

subsection \<open>One connection\<close>

text \<open>
  What the two endpoints need of the operations on one connection's windows: no operation faults,
  the windows stay well formed, and the retransmission timeout stays between 20 and 2000 ms.
\<close>

definition rto_ok :: "rel4u_rtt \<Rightarrow> bool" where
  "rto_ok r \<longleftrightarrow> rtt_inv r \<and> min_rto_ms r = 20 \<and> max_rto_ms r = 2000"

lemma rto_ok_default [simp]: "rto_ok default_rtt"
  unfolding rto_ok_def default_rtt_values using default_rtt_inv [unfolded default_rtt_values] by simp

lemma rto_ok_timeout: "rto_ok r \<Longrightarrow> rto_ok (rel4u_rtt_on_timeout r)"
  by (simp add: rto_ok_def on_timeout_inv)

lemma rto_ok_samples:
  assumes "rto_ok r"
  shows "\<exists>r' s'. fold (ack_sample now) es (Some r, Some s) = (Some r', Some s') \<and> rto_ok r'"
  using assms
proof (induction es arbitrary: r s)
  case (Cons x es)
  have "\<exists>r1 s1. ack_sample now x (Some r, Some s) = (Some r1, Some s1) \<and> rto_ok r1"
    using Cons.prems by (auto simp: ack_sample_def Let_def rto_ok_def update_sample_inv)
  then obtain r1 s1 where "ack_sample now x (Some r, Some s) = (Some r1, Some s1)" "rto_ok r1" by blast
  with Cons.IH [of r1 s1] show ?case by simp
qed simp

lemma on_ack_safe:
  assumes "send_inv w" "rto_ok r"
  obtains w' r' s' where "rel4u_send_window_on_ack w ack sack now (Some r) (Some s) = Some (w', Some r', Some s')"
    "send_inv w'" "sw_capacity w' = sw_capacity w" "rto_ok r'"
proof -
  from send_on_ack_law [OF assms(1), of ack sack now "Some r" "Some s"] obtain w' es where
    w': "rel4u_send_window_on_ack w ack sack now (Some r) (Some s) = Some (w', fold (ack_sample now) es (Some r, Some s))"
      "send_inv w'" "sw_capacity w' = sw_capacity w" by blast
  obtain r' s' where "fold (ack_sample now) es (Some r, Some s) = (Some r', Some s')" "rto_ok r'"
    using rto_ok_samples [OF assms(2), of now es s] by blast
  with w' show ?thesis by (intro that [of w' r' s']) simp_all
qed

lemma push_item_safe:
  assumes "send_inv w" "valid_item item"
  obtains r w' seq where
    "rel4u_send_window_push w (it_mode item) (Some (it_data item)) (ucast (it_len item)) now = Some (r, w', seq)"
    "send_inv w'" "sw_capacity w' = sw_capacity w"
proof -
  have "push_in_bounds (Send_Push (it_mode item) (Some (it_data item)) (ucast (it_len item)) now)"
    using assms(2) by (simp add: valid_item_def widen16)
  from send_step_inv [OF assms(1) this] show ?thesis using that by auto
qed

lemma item_payload_given: "valid_item item \<Longrightarrow> payload_given (Some (it_data item)) (ucast (it_len item))"
  by (simp add: payload_given_def valid_item_def widen16)

text \<open>Sending one message: a reliable one goes into the window, and the datagram carries its bytes.\<close>

definition slot_load :: "rel4u_send_slot \<Rightarrow> u8 \<times> u8 list" where
  "slot_load s = (ss_delivery_mode s, take (unat (ss_payload_len s)) (ss_payload s))"

lemma push_load:
  assumes inv: "send_inv win" and room: "sw_len win < unat (sw_capacity win)" and item: "valid_item item"
  obtains win' seq where
    "rel4u_send_window_push win (it_mode item) (Some (it_data item)) (ucast (it_len item)) now = Some (0, win', Some seq)"
    "send_inv win'" "sw_capacity win' = sw_capacity win"
    "map slot_load (sw_entries win') = map slot_load (sw_entries win) @ (if reliable (it_mode item) then [snd (item_msg item)] else [])"
proof (cases "reliable (it_mode item)")
  case True
  have len: "unat (ucast (it_len item) :: size_t) \<le> REL4U_MAX_PAYLOAD_SIZE"
      "unat (ucast (it_len item) :: size_t) \<le> length (it_data item)"
    using item by (simp_all add: valid_item_def widen16)
  from send_push_reliable [OF inv len, of "it_mode item" now] True room obtain win' s where
    p: "rel4u_send_window_push win (it_mode item) (Some (it_data item)) (ucast (it_len item)) now =
        Some (0, win', Some (sw_next_seq win))" "send_inv win'" "sw_entries win' = sw_entries win @ [s]"
      "sw_capacity win' = sw_capacity win"
      "new_slot (it_mode item) (it_data item) (unat (ucast (it_len item) :: size_t)) now (sw_next_seq win) s"
    by (auto simp: reliable_def)
  have "slot_load s = snd (item_msg item)"
    using p(5) by (simp add: slot_load_def new_slot_def item_msg_def widen16)
  with that [OF p(1,2,4)] p(3) True show thesis by simp
next
  case False
  with that [of "win\<lparr>sw_next_unrel_seq := sw_next_unrel_seq win + 1\<rparr>" "sw_next_unrel_seq win"] inv item show thesis
    by (simp add: rel4u_send_window_push_def reliable_def valid_item_def widen16 sw_entries_def sw_len_def sw_at_def)
qed

lemma item_datagram:
  assumes "env_ok e" "recv_inv win" "valid_item item"
    and "build_datagram e win sid REL4U_PKT_DATA (it_mode item) seq (Some (it_data item)) (ucast (it_len item)) = Some (24, bs)"
  shows "drop 24 bs = snd (snd (item_msg item))"
  using build_datagram_law [OF assms(1,2) item_payload_given [OF assms(3)], of sid REL4U_PKT_DATA "it_mode item" seq] assms(4)
  by (auto simp: payload_bytes_def item_msg_def widen16 length_header_bytes)

text \<open>The slots that are due for retransmission hold messages that fit a datagram.\<close>

definition slot_sendable :: "rel4u_send_window \<Rightarrow> nat \<Rightarrow> bool" where
  "slot_sendable w i \<longleftrightarrow>
     i < length (sw_slots w) \<and> payload_given (Some (ss_payload (sw_slots w ! i))) (ucast (ss_payload_len (sw_slots w ! i)))"

lemma expired_sendable:
  assumes "send_inv w" "max_slots \<noteq> 0"
  obtains idx where "rel4u_send_window_get_expired w now rto max_slots = Some idx" "\<forall>i \<in> set idx. slot_sendable w i"
proof -
  from send_get_expired_law [OF assms] obtain idx where
    idx: "rel4u_send_window_get_expired w now rto max_slots = Some idx"
      "map (\<lambda>j. sw_slots w ! j) idx = take (unat max_slots) (filter (expired now (ucast rto * 1000000)) (sw_entries w))"
      "\<forall>j \<in> set idx. j < length (sw_slots w)" by blast
  have "slot_sendable w i" if i: "i \<in> set idx" for i
  proof -
    have "sw_slots w ! i \<in> set (map (\<lambda>j. sw_slots w ! j) idx)" using i by simp
    then have "sw_slots w ! i \<in> set (sw_entries w)" unfolding idx(2) using set_take_subset by fastforce
    then obtain k where "k < sw_len w" "sw_slots w ! i = sw_slots w ! sw_at w k"
      by (auto simp: sw_entries_def)
    then show ?thesis using send_invD(6) [OF assms(1), of k] payload_at [OF assms(1), of k] idx(3) i
      by (simp add: slot_sendable_def payload_given_def send_slot_ok_def widen16)
  qed
  with idx(1) that show ?thesis by blast
qed

lemma mark_retransmit_safe:
  assumes "send_inv w" "slot_sendable w i"
  obtains w' where "mark_retransmit w i now = Some w'" "send_inv w'" "sw_capacity w' = sw_capacity w"
    "deref (sw_slots w') i = Some (sw_slots w' ! i)" "\<And>j. slot_sendable w' j = slot_sendable w j"
proof -
  have i: "i < length (sw_slots w)" using assms(2) by (simp add: slot_sendable_def)
  from mark_retransmit_law [OF assms(1) i, of now] obtain w' where w': "mark_retransmit w i now = Some w'" "send_inv w'"
    "sw_capacity w' = sw_capacity w" "length (sw_slots w') = length (sw_slots w)"
    "\<forall>j < length (sw_slots w). sw_slots w' ! j = (if j = i then (sw_slots w ! j)\<lparr>ss_last_sent_time_ns := now,
      ss_retransmit_count := ss_retransmit_count (sw_slots w ! j) + 1\<rparr> else sw_slots w ! j)" by blast
  have "deref (sw_slots w') i = Some (sw_slots w' ! i)" using i w'(4) by (simp add: deref_def)
  moreover have "slot_sendable w' j = slot_sendable w j" for j using w'(4,5) by (auto simp: slot_sendable_def split: if_splits)
  ultimately show ?thesis using that w' by blast
qed

lemma control_given [simp]: "payload_given None 0"
  by (simp add: payload_given_def)

text \<open>A header that was decoded from a datagram of at most 9240 bytes.\<close>

lemma decoded_fits:
  assumes "rel4u_packet_decode_header (Some bs) (of_nat (length bs)) (Some g) = (0, h)" "length bs \<le> 9240"
  shows "\<exists>hdr. h = Some hdr \<and> packet_fits hdr (drop REL4U_HEADER_LEN bs)"
proof -
  have len: "unat (of_nat (length bs) :: size_t) = length bs" using assms(2) by (simp add: unat_of_nat)
  show ?thesis
  proof (cases "24 \<le> length bs")
    case True
    with assms decode_header_parse [of "of_nat (length bs)" bs g] len show ?thesis
      by (auto simp: packet_fits_def split: if_splits)
  next
    case False
    with assms len show ?thesis by (simp add: rel4u_packet_decode_header_def)
  qed
qed

subsection \<open>Properties\<close>

definition ex_env :: env where
  "ex_env = \<lparr>env_clock = (\<lambda>n. \<lparr>tv_sec = of_nat n, tv_nsec = 0\<rparr>), env_sendto = (\<lambda>_. 24), env_alloc = (\<lambda>_. ex_alloc),
     env_calloc = (\<lambda>_ _. True), env_src_ptr = 0x7FFF0010,
     env_raw_buf = replicate 9240 0xAA, env_item = ex_item 0 []\<rparr>"

definition ex_world :: world where
  "ex_world = \<lparr>wd_clock = 0, wd_pushes = 0, wd_sent = []\<rparr>"

definition ex_slots :: "rel4u_recv_slot list" where
  "ex_slots = replicate 64 zero_recv_slot"

lemma ex_env_ok [simp]: "env_ok ex_env"
  by (simp add: env_ok_def ex_env_def ex_item_def)

lemma ex_queue_one:
  obtains q where "queue_inv q" "queue_msgs q = [item_msg (ex_item 0 [5])]"
proof -
  obtain ok q where p: "rel4u_mpmc_try_push ex_alloc ex_ring (Some (ex_item 0 [5])) = (ok, q)" by (metis prod.exhaust)
  have r: "queue_inv ex_ring" "queue_msgs ex_ring = []" "q_mode ex_ring = REL4U_MEM_FIXED" "q_capacity ex_ring = 2"
    using ex_queues by (simp_all add: ex_ring_def rel4u_mpmc_init_def Let_def zero_queue_def)
  have "push_effect (\<lambda>ms. ms @ [item_msg (ex_item 0 [5])]) ex_alloc ex_ring (ex_item 0 [5]) (ok, q)"
    using push_back_effect [of ex_ring "ex_item 0 [5]" ex_alloc] p r(1) by (simp add: rel4u_mpmc_try_push_def)
  then have "queue_inv q" "queue_msgs q = [item_msg (ex_item 0 [5])]" using r by (auto simp: push_effect_def admit_def split: if_splits)
  with that show thesis by blast
qed

lemma ex_slots_ok: "payloads_ok ex_slots" "length ex_slots = 64"
  by (simp_all add: ex_slots_def payloads_ok_def zero_recv_slot_def)

lemma ex_receiving: "receiving_ok ex_recv ex_slots"
  by (simp add: receiving_ok_def ex_recv_facts ex_slots_ok)

text \<open>
  C26. What an endpoint sends, its peer reads. The datagram \<open>client_send_packet\<close> and
  \<open>server_send_packet\<close> build for any packet type, mode, sequence number and payload of up to
  \<open>REL4U_MAX_PAYLOAD_SIZE\<close> bytes holds exactly the header and the payload, whatever the
  uninitialised send buffer contained, and \<open>rel4u_packet_decode_header\<close> returns 0 with the session
  token, the sequence number, the payload length, and the acknowledgement number and mask the
  receive window reports at that moment.
\<close>

theorem datagram_roundtrip:
  assumes "env_ok e" "recv_inv win" "payload_given payload len"
  shows "\<exists>bs hdr. build_datagram e win sid type mode seq payload len = Some (24, bs) \<and>
    length bs = 24 + unat len \<and> drop 24 bs = payload_bytes payload len \<and>
    rel4u_packet_decode_header (Some bs) (of_nat (length bs)) (Some g) = (0, Some hdr) \<and>
    packet_type hdr = type \<and> delivery_mode hdr = mode \<and> session_id hdr = sid \<and> seq_num hdr = seq \<and>
    unat (payload_len hdr) = unat len \<and> rel4u_recv_window_get_ack_info win = Some (ack_num hdr, sack_mask hdr)"
proof -
  from build_datagram_law [OF assms, of sid type mode seq] obtain sack where
    b: "build_datagram e win sid type mode seq payload len = Some (24, header_bytes (packet_header sid type mode seq
        (ucast len) (rw_expected_seq win - 1) sack) @ payload_bytes payload len)" (is "_ = Some (24, ?bs)")
      "\<forall>j < 32. bit sack j \<longleftrightarrow> rw_buf win j \<noteq> None" by blast
  let ?h = "packet_header sid type mode seq (ucast len) (rw_expected_seq win - 1) sack"
  have len: "unat len \<le> REL4U_MAX_PAYLOAD_SIZE" using assms(3) by (simp add: payload_given_def)
  note body = length_payload_bytes [OF assms(3)]
  from get_ack_info_law [OF assms(2)] obtain m where
    m: "rel4u_recv_window_get_ack_info win = Some (rw_expected_seq win - 1, m)" "\<forall>j < 32. bit m j \<longleftrightarrow> rw_buf win j \<noteq> None"
    by blast
  have "m = sack" using m(2) b(2) by (intro bit_word_eqI) simp
  moreover have "rel4u_packet_decode_header (Some ?bs) (of_nat (length ?bs)) (Some g) = (0, Some ?h)" by (rule decode_built [OF assms(3)])
  ultimately show ?thesis using b(1) m(1) body unat_ucast_len [OF len]
    by (intro exI [of _ ?bs] exI [of _ ?h]) simp
qed

lemma datagram_roundtrip_witness:
  "\<exists>bs hdr. build_datagram ex_env ex_recv 77 REL4U_PKT_DATA 3 5 (Some [1, 2, 3]) 3 = Some (24, bs) \<and> drop 24 bs = [1, 2, 3] \<and>
     rel4u_packet_decode_header (Some bs) (of_nat (length bs)) (Some zero_header) = (0, Some hdr) \<and> seq_num hdr = 5"
  using datagram_roundtrip [OF ex_env_ok ex_recv_facts(1), of "Some [1, 2, 3]" 3 77 REL4U_PKT_DATA 3 5 zero_header]
  by (auto simp: payload_given_def payload_bytes_def)

text \<open>
  C15. A reliable data packet at a worker, exactly. Between datagrams the head of the receive window
  is never buffered (\<open>receiving_ok\<close>), and every packet keeps it so. A packet that is behind, already
  buffered or beyond the window changes nothing, and is acknowledged unless it is beyond the
  window. Any other is buffered and acknowledged, and the application's queue is given, in this
  order, the message itself if it is unordered, and the ordered messages of the whole run of
  buffered slots that now starts at the head of the window, however many batches of 64 that
  takes; the run leaves the window. No memory access is out of bounds.
\<close>

theorem data_packet_exact:
  assumes "env_ok e" "receiving_ok w slots" "packet_fits hdr bytes" "reliable (delivery_mode hdr)"
  shows "if reliable_verdict w (seq_num hdr) \<noteq> 0 then
      on_data e cid w slots hdr bytes qw = Some (w, slots, qw, reliable_verdict w (seq_num hdr) = 1)
    else \<exists>s front w' slots' ds. on_data e cid w slots hdr bytes qw = Some (w', slots', hand_over e cid ds qw, True) \<and>
      packet_slot hdr s \<and> (\<forall>f \<in> set front. packet_slot hdr f \<and> slot_bytes f = take (unat (payload_len hdr)) bytes) \<and>
      (if delivery_mode hdr = REL4U_MODE_RELIABLE_ORDERED
       then front = [] \<and> slot_bytes s = take (unat (payload_len hdr)) bytes else length front = 1) \<and>
      delivers w ((rw_buf w)(unat (seq_num hdr - rw_expected_seq w) \<mapsto> s)) front 64 w' ds \<and>
      receiving_ok w' slots' \<and> (\<forall>d \<in> set ds. slot_fits d)"
  by (rule on_data_reliable [OF assms])

lemma data_packet_exact_witness:
  "\<exists>w' slots' ds. on_data ex_env 0 ex_recv ex_slots (ex_packet 3 0xFFFFFFFF) [7, 8] (ex_ring, ex_world) =
     Some (w', slots', hand_over ex_env 0 ds (ex_ring, ex_world), True) \<and> receiving_ok w' slots'"
proof -
  have "reliable_verdict ex_recv 0xFFFFFFFF = 0" by (simp add: reliable_verdict_def ex_recv_facts)
  with data_packet_exact [OF ex_env_ok ex_receiving, of "ex_packet 3 0xFFFFFFFF" "[7, 8]" 0 "(ex_ring, ex_world)"]
  show ?thesis by (auto simp: reliable_def)
qed

subsection \<open>Calls of the application\<close>

lemma queue_inv_wake_all: "queue_inv q \<Longrightarrow> queue_inv (rel4u_mpmc_wake_all q)"
proof -
  have "ring_inv (rel4u_mpmc_wake_all q) = ring_inv q" by (simp add: rel4u_mpmc_wake_all_def ring_inv_def ring_at_def)
  moreover have "list_inv (rel4u_mpmc_wake_all q) ps = list_inv q ps" for ps by (simp add: rel4u_mpmc_wake_all_def list_inv_def)
  moreover have "q_mode (rel4u_mpmc_wake_all q) = q_mode q" by (simp add: rel4u_mpmc_wake_all_def)
  ultimately show "queue_inv q \<Longrightarrow> queue_inv (rel4u_mpmc_wake_all q)" by (simp add: queue_inv_def)
qed

lemma send_item_valid:
  fixes cid :: u32 and mode :: u8 and len :: size_t
  assumes "env_ok e" "memcpy (it_data (env_item e)) bytes (unat len) = Some d"
  defines "item \<equiv> (env_item e)\<lparr>it_client_id := cid, it_mode := mode, it_len := ucast len, it_data := d\<rparr>"
  shows "valid_item item" "item_msg item = (cid, mode, take (unat len) bytes)"
proof -
  have d: "length d = REL4U_MAX_MSG_SIZE" "take (unat len) d = take (unat len) bytes" "unat len \<le> 9216"
    using memcpy_SomeD [OF assms(2)] assms(1) by (simp_all add: env_ok_def)
  then have "unat (ucast len :: u16) = unat len" by (intro unat_ucast_len) simp
  with d show "valid_item item" "item_msg item = (cid, mode, take (unat len) bytes)"
    by (simp_all add: item_def valid_item_def item_msg_def)
qed

text \<open>Receiving without a timeout is the non-blocking pop.\<close>

lemma pop_wait_now: "rel4u_mpmc_pop_wait wakes q (Some out) 0 = Some (rel4u_mpmc_try_pop q (Some out))"
proof -
  have "pop_wait_loop g 0 wakes q out = Some (mpmc_pop_head_locked q out)" for g
    by (subst pop_wait_loop.simps) (simp add: mpmc_pop_head_locked_def)
  then show ?thesis
    by (cases "mpmc_pop_head_locked q out") (simp add: rel4u_mpmc_pop_wait_def rel4u_mpmc_try_pop_def)
qed

lemma recv_pop_safe:
  assumes "env_ok e" "queue_inv q"
  obtains ok q' item where "rel4u_mpmc_pop_wait [] q (Some (env_item e)) 0 = Some (ok, q', Some item)" "queue_inv q'"
    "ok \<longrightarrow> valid_item item"
proof (cases "queue_msgs q = []")
  case True
  show thesis
    by (rule that [of False q "env_item e"]) (use assms(2) True in \<open>simp_all add: pop_wait_now try_queue.pop_empty_law\<close>)
next
  case False
  have "out_room (env_item e)" using assms(1) by (simp add: env_ok_def out_room_def)
  from try_queue.pop_head_law [OF assms(2) False this] obtain q' i where
    "rel4u_mpmc_try_pop q (Some (env_item e)) = (True, q', Some i)" "queue_inv q'" "valid_item i" by blast
  then show thesis by (intro that [of True q' i]) (simp_all add: pop_wait_now)
qed

text \<open>What is copied fits both the item and the buffer.\<close>

lemma recv_copy_safe:
  fixes buffer_size :: size_t
  assumes "valid_item item" "unat buffer_size \<le> length buf"
  shows "\<exists>d. memcpy buf (it_data item) (unat (if ucast (it_len item) \<le> buffer_size then ucast (it_len item) else buffer_size)) = Some d"
proof -
  let ?n = "if ucast (it_len item) \<le> buffer_size then ucast (it_len item) else buffer_size"
  have "unat ?n \<le> unat (it_len item)" "unat ?n \<le> unat buffer_size" by (auto simp: word_le_nat_alt widen16)
  with assms show ?thesis by (auto simp: memcpy_def valid_item_def)
qed

subsection \<open>Counting retransmissions\<close>

text \<open>The round-trip times an acknowledgement at \<open>now\<close> yields for the slots it covers: those not counted as retransmitted.\<close>

definition rtt_samples :: "u64 \<Rightarrow> rel4u_send_slot list \<Rightarrow> u32 list" where
  "rtt_samples now es =
     map (\<lambda>s. ucast ((now - ss_first_sent_time_ns s) div 1000000))
       (filter (\<lambda>s. ss_retransmit_count s = 0 \<and> ss_first_sent_time_ns s \<le> now) es)"

lemma fold_ack_sample:
  "fold (ack_sample now) es (Some r, stats) =
     (Some (foldl rel4u_rtt_update_sample r (rtt_samples now es)),
      if rtt_samples now es = [] then stats
      else map_option (\<lambda>s. s\<lparr>current_rtt_ms := srtt_ms (foldl rel4u_rtt_update_sample r (rtt_samples now es)),
        current_rto_ms := rto_ms (foldl rel4u_rtt_update_sample r (rtt_samples now es))\<rparr>) stats)"
  by (induction es arbitrary: r stats) (simp_all add: rtt_samples_def ack_sample_def Let_def option.map_comp comp_def split: option.split)

text \<open>
  C32. Karn's rule, exactly as the code has it. The samples an acknowledgement gives to the round-trip estimator are the times since the first sending, in
  whole milliseconds, of precisely those entries that it acknowledges for the first time, cumulatively or by a bit of the mask, whose
  retransmission counter is 0 and whose time of sending is not in the future; they enter in this order, and with no such entry the
  estimator and the statistics stay as they are. The counter has 8 bits: it is 0 for an entry never retransmitted,
  and again after 256 retransmissions (\<open>retransmit_count_wraps\<close>), where the rule is broken.
\<close>

theorem send_on_ack_karn:
  assumes "send_inv w"
  shows "\<exists>w'. rel4u_send_window_on_ack w ack sack now (Some r) stats =
    (let samples = rtt_samples now (newly_acked ack sack w); r' = foldl rel4u_rtt_update_sample r samples
     in Some (w', Some r', if samples = [] then stats
          else map_option (\<lambda>s. s\<lparr>current_rtt_ms := srtt_ms r', current_rto_ms := rto_ms r'\<rparr>) stats))"
  using send_on_ack_law [OF assms, of ack sack now "Some r" stats] fold_ack_sample by (auto simp: Let_def)

lemma send_on_ack_karn_witness:
  "\<exists>w1 w2 w3. mark_retransmit ex_sent (sw_at ex_sent 0) 7 = Some w1 \<and>
     rel4u_send_window_on_ack w1 0xFFFFFFFF 0 3000005 (Some default_rtt) None = Some (w2, Some default_rtt, None) \<and>
     rel4u_send_window_on_ack ex_sent 0xFFFFFFFF 0 3000005 (Some default_rtt) None =
       Some (w3, Some (rel4u_rtt_update_sample default_rtt 3), None)"
proof -
  obtain s where s: "sw_entries ex_sent = [s]" "new_slot 3 [7, 8, 9] 2 5 0xFFFFFFFF s" using ex_sent_facts(4) by blast
  have nth: "sw_slots ex_sent ! sw_at ex_sent 0 = s" using nth_sw_entries [of 0 ex_sent] ex_sent_facts(3) s(1) by simp
  from mark_retransmit_law [OF ex_sent_facts(1) sw_at_less [OF ex_sent_facts(1)], of 0 7] obtain w1 where
    w1: "mark_retransmit ex_sent (sw_at ex_sent 0) 7 = Some w1" "send_inv w1" by blast
  let ?s = "s\<lparr>ss_last_sent_time_ns := 7, ss_retransmit_count := ss_retransmit_count s + 1\<rparr>"
  have slots: "w1 = ex_sent\<lparr>sw_slots := (sw_slots ex_sent)[sw_at ex_sent 0 := ?s]\<rparr>"
    using w1(1) nth by (auto simp: mark_retransmit_def)
  have len: "sw_len w1 = 1" "sw_head_seq w1 = 0xFFFFFFFF" "sw_at w1 0 = sw_at ex_sent 0"
    using ex_sent_facts(2,3) by (simp_all add: slots sw_len_def sw_at_def)
  then have "sw_entries w1 = [?s]"
    using sw_at_less [OF ex_sent_facts(1), of 0] by (simp add: sw_entries_def) (simp add: slots)
  with len s(2) have none: "rtt_samples 3000005 (newly_acked 0xFFFFFFFF 0 w1) = []"
    by (simp add: newly_acked_def newly_sacked_def ack_count_def rtt_samples_def new_slot_def Let_def)
  have one: "rtt_samples 3000005 (newly_acked 0xFFFFFFFF 0 ex_sent) = [3]"
    using s ex_sent_facts(2,3) by (simp add: newly_acked_def newly_sacked_def ack_count_def rtt_samples_def new_slot_def Let_def)
  from send_on_ack_karn [OF w1(2), of "0xFFFFFFFF" 0 3000005 default_rtt None] none
    send_on_ack_karn [OF ex_sent_facts(1), of "0xFFFFFFFF" 0 3000005 default_rtt None] one w1(1)
  show ?thesis by (auto simp: Let_def)
qed

text \<open>
  The count of a slot has 8 bits: after 256 retransmissions it is what it was before the first, and a message that was never
  acknowledged counts as sent once, so that its acknowledgement gives a round-trip sample again.
\<close>

lemma retransmissions_counted:
  assumes "i < length (sw_slots win)"
  shows "\<exists>win'. fold (\<lambda>t w. Option.bind w (\<lambda>w. mark_retransmit w i t)) ts (Some win) = Some win' \<and>
    ss_retransmit_count (sw_slots win' ! i) = ss_retransmit_count (sw_slots win ! i) + of_nat (length ts)"
  using assms
proof (induction ts arbitrary: win)
  case (Cons t ts)
  let ?slot = "sw_slots win ! i"
  let ?win = "win\<lparr>sw_slots := (sw_slots win)[i := ?slot\<lparr>ss_last_sent_time_ns := t, ss_retransmit_count := ss_retransmit_count ?slot + 1\<rparr>]\<rparr>"
  have "mark_retransmit win i t = Some ?win" using Cons.prems by (simp add: mark_retransmit_def deref_def)
  with Cons.IH [of ?win] Cons.prems show ?case by (simp add: add.assoc)
qed simp

theorem retransmit_count_wraps:
  assumes "i < length (sw_slots win)" "length ts = 256"
  shows "\<exists>win'. fold (\<lambda>t w. Option.bind w (\<lambda>w. mark_retransmit w i t)) ts (Some win) = Some win' \<and>
    ss_retransmit_count (sw_slots win' ! i) = ss_retransmit_count (sw_slots win ! i)"
proof -
  have "(of_nat 256 :: u8) = 0" by (subst word_of_nat_eq_0_iff) simp
  with retransmissions_counted [OF assms(1), of ts] show ?thesis unfolding assms(2) by (simp only: add_0_right)
qed

end
