(* ===== verification/Delivery.thy ===== *)
theory Delivery
  imports Endpoint_Correct "HOL-Library.Multiset"
begin

text \<open>
  One direction of a connection, end to end: the send window of one endpoint, the receive window
  of its peer, and a network that loses, duplicates, delays and reorders datagrams. The steps are
  the calls the two workers make, on the bytes of real datagrams; which step comes next is
  arbitrary.

  The state keeps some history that the code does not have, to state what is promised: the
  messages the send window accepted (\<open>dl_sent\<close>), those handed to the receiving application
  (\<open>dl_out\<close>), and how many messages the receive window has moved past (\<open>dl_pos\<close>). A datagram on its
  way is kept with the position of its message, an acknowledgement with the \<open>dl_pos\<close> it was sent
  at. The network may deliver the same datagram any number of times, or never; sequence numbers
  repeat after $2^{32}$ messages, so a datagram is delivered within $2^{31}$ messages of its
  position. Unreliable messages share the windows but promise nothing; their steps are here because they use the same
  two structs.
\<close>

subsection \<open>The system\<close>

type_synonym content = "u8 \<times> u8 list"

record delivery =
  dl_send :: rel4u_send_window
  dl_recv :: rel4u_recv_window
  dl_sent :: "content list"
  dl_out :: "content list"
  dl_pos :: nat
  dl_data :: "(nat \<times> u8 list) set"
  dl_acks :: "(nat \<times> u8 list) set"

definition slot_content :: "rel4u_recv_slot \<Rightarrow> content" where
  "slot_content s = (rs_delivery_mode s, slot_bytes s)"

text \<open>The position of the oldest message in the send window.\<close>

definition dl_head :: "delivery \<Rightarrow> nat" where
  "dl_head s = length (dl_sent s) - unat (sw_next_seq (dl_send s) - sw_head_seq (dl_send s))"

definition received_as :: "delivery \<Rightarrow> rel4u_recv_window \<Rightarrow> rel4u_recv_slot list \<Rightarrow> delivery" where
  "received_as s w ready =
     s\<lparr>dl_recv := w, dl_pos := dl_pos s + unat (rw_expected_seq w - rw_expected_seq (dl_recv s)),
       dl_out := dl_out s @ map slot_content ready\<rparr>"

inductive delivery_step :: "env \<Rightarrow> delivery \<Rightarrow> delivery \<Rightarrow> bool" for e where
  send: "reliable mode \<Longrightarrow> unat len \<le> length bytes \<Longrightarrow> recv_inv aw \<Longrightarrow>
    rel4u_send_window_push (dl_send s) mode (Some bytes) len now = Some (0, w, Some seq) \<Longrightarrow>
    build_datagram e aw sid REL4U_PKT_DATA mode seq (Some bytes) len = Some (24, dg) \<Longrightarrow>
    delivery_step e s (s\<lparr>dl_send := w, dl_sent := dl_sent s @ [(mode, take (unat len) bytes)],
      dl_data := insert (length (dl_sent s), dg) (dl_data s)\<rparr>)"
| resend: "rel4u_send_window_get_expired (dl_send s) now rto 16 = Some idx \<Longrightarrow> i \<in> set idx \<Longrightarrow> recv_inv aw \<Longrightarrow>
    mark_retransmit (dl_send s) i now = Some w \<Longrightarrow> slot = sw_slots w ! i \<Longrightarrow>
    build_datagram e aw sid REL4U_PKT_DATA (ss_delivery_mode slot) (ss_seq_num slot) (Some (ss_payload slot))
      (ucast (ss_payload_len slot)) = Some (24, dg) \<Longrightarrow>
    delivery_step e s (s\<lparr>dl_send := w,
      dl_data := insert (length (dl_sent s) - unat (sw_next_seq w - ss_seq_num slot), dg) (dl_data s)\<rparr>)"
| lose: "delivery_step e s (s\<lparr>dl_data := dl_data s - D, dl_acks := dl_acks s - A\<rparr>)"
| receive: "(p, dg) \<in> dl_data s \<Longrightarrow> dl_pos s \<le> p + 2 ^ 31 \<Longrightarrow>
    rel4u_packet_decode_header (Some dg) (of_nat (length dg)) (Some g) = (0, Some hdr) \<Longrightarrow>
    payloads_ok out \<Longrightarrow> 0 < mx \<Longrightarrow> mx \<le> length out \<Longrightarrow>
    rel4u_recv_window_on_packet (dl_recv s) hdr (Some (drop 24 dg)) out mx = Some (r, w, out', Some n) \<Longrightarrow>
    delivery_step e s (received_as s w (take n out'))"
| pop: "payloads_ok out \<Longrightarrow> 0 < mx \<Longrightarrow> mx \<le> length out \<Longrightarrow>
    rel4u_recv_window_pop_ready (dl_recv s) out mx = Some (r, w, out', Some n) \<Longrightarrow>
    delivery_step e s (received_as s w (take n out'))"
| ack: "build_datagram e (dl_recv s) sid type mode seq payload len = Some (24, dg) \<Longrightarrow>
    delivery_step e s (s\<lparr>dl_acks := insert (dl_pos s, dg) (dl_acks s)\<rparr>)"
| on_ack: "(q, dg) \<in> dl_acks s \<Longrightarrow> dl_head s + 2 \<le> q + 2 ^ 31 \<Longrightarrow>
    rel4u_packet_decode_header (Some dg) (of_nat (length dg)) (Some g) = (0, Some hdr) \<Longrightarrow>
    rel4u_send_window_on_ack (dl_send s) (ack_num hdr) (sack_mask hdr) now rtt stats = Some (w, rs) \<Longrightarrow>
    delivery_step e s (s\<lparr>dl_send := w\<rparr>)"
| send_unreliable: "\<not> reliable mode \<Longrightarrow>
    rel4u_send_window_push (dl_send s) mode (Some bytes) len now = Some (r, w, seq) \<Longrightarrow>
    delivery_step e s (s\<lparr>dl_send := w\<rparr>)"
| receive_unreliable: "\<not> reliable (delivery_mode hdr) \<Longrightarrow>
    rel4u_recv_window_on_packet (dl_recv s) hdr payload out mx = Some (r, w, out', cnt) \<Longrightarrow>
    delivery_step e s (s\<lparr>dl_recv := w\<rparr>)"

text \<open>
  A connection as both sides set it up: empty windows, as the init and reset functions leave them, that start at the same sequence number.
\<close>

definition delivery_init :: "u32 \<Rightarrow> delivery \<Rightarrow> bool" where
  "delivery_init b s \<longleftrightarrow>
     send_inv (dl_send s) \<and> sw_entries (dl_send s) = [] \<and> sw_head_seq (dl_send s) = b \<and>
     recv_inv (dl_recv s) \<and> rw_buf (dl_recv s) = Map.empty \<and> rw_expected_seq (dl_recv s) = b \<and>
     dl_sent s = [] \<and> dl_out s = [] \<and> dl_pos s = 0 \<and> dl_data s = {} \<and> dl_acks s = {}"

subsection \<open>Words as positions\<close>

lemma of_nat_u32_eq:
  assumes "x < y + 2 ^ 32" "y < x + 2 ^ 32"
  shows "(of_nat x :: u32) = of_nat y \<longleftrightarrow> x = y"
proof -
  have aux: "u = v" if "(of_nat u :: u32) = of_nat v" "u \<le> v" "v < u + 2 ^ 32" for u v
  proof -
    have "of_nat u + of_nat (v - u) = (of_nat u + of_nat 0 :: u32)"
      using that(1,2) by (simp add: of_nat_diff)
    moreover have "v - u < 2 ^ 32" using that(2,3) by linarith
    ultimately have "v - u = 0" using u32_offset_inj [of "v - u" 0 "of_nat u"] by (simp only: zero_less_power zero_less_numeral)
    then show ?thesis using that(2) by simp
  qed
  show ?thesis using aux [of x y] aux [of y x] assms by (cases "x \<le> y") auto
qed

lemma unat_position_diff:
  assumes "x < y + 2 ^ 32" "y \<le> x + 2 ^ 31"
  shows "unat ((b + of_nat x) - (b + of_nat y) :: u32) = (if y \<le> x then x - y else 2 ^ 32 - (y - x))"
proof (cases "y \<le> x")
  case True
  then have "(b + of_nat x) - (b + of_nat y) = (of_nat (x - y) :: u32)" by (simp add: of_nat_diff)
  moreover have "x - y < 2 ^ 32" using assms(1) True by simp
  ultimately show ?thesis using True by (simp only: unat_of_nat_u32 if_True)
next
  case False
  then have "(b + of_nat x) - (b + of_nat y) = (of_nat 0 - of_nat (y - x) :: u32)" by (simp add: of_nat_diff)
  moreover have "unat (of_nat 0 - of_nat (y - x) :: u32) = 2 ^ 32 - (y - x)"
    using False assms unat_of_nat_diff [of 0 "y - x"] by simp
  ultimately show ?thesis using False by (simp only: if_False)
qed

lemma map_plus_upt: "map ((+) x) [0..<m] = [x..<x + m]"
  by (rule nth_equalityI) simp_all

subsection \<open>The receiving side\<close>

definition ord_at :: "content list \<Rightarrow> nat \<Rightarrow> bool" where
  "ord_at sent p \<longleftrightarrow> fst (sent ! p) = REL4U_MODE_RELIABLE_ORDERED"

text \<open>A position is received when the window is past it, or has it buffered.\<close>

definition got :: "(nat \<Rightarrow> rel4u_recv_slot option) \<Rightarrow> nat \<Rightarrow> nat \<Rightarrow> bool" where
  "got bb x p \<longleftrightarrow> p < x \<or> bb (p - x) \<noteq> None"

definition slot_matches :: "content list \<Rightarrow> nat \<Rightarrow> rel4u_recv_slot \<Rightarrow> bool" where
  "slot_matches sent p s \<longleftrightarrow>
     p < length sent \<and> rs_delivery_mode s = fst (sent ! p) \<and> (ord_at sent p \<longrightarrow> slot_bytes s = snd (sent ! p))"

text \<open>\<open>ps\<close> are the positions of the messages handed out so far, in the order they were.\<close>

definition delivered_as ::
  "content list \<Rightarrow> (nat \<Rightarrow> rel4u_recv_slot option) \<Rightarrow> nat \<Rightarrow> content list \<Rightarrow> nat list \<Rightarrow> bool" where
  "delivered_as sent bb x out ps \<longleftrightarrow>
     distinct ps \<and> (\<forall>p \<in> set ps. p < length sent) \<and> out = map ((!) sent) ps \<and>
     filter (ord_at sent) ps = filter (ord_at sent) [0..<x] \<and>
     (\<forall>p < length sent. \<not> ord_at sent p \<longrightarrow> (p \<in> set ps \<longleftrightarrow> got bb x p))"

definition receiver_ok ::
  "content list \<Rightarrow> (nat \<Rightarrow> rel4u_recv_slot option) \<Rightarrow> nat \<Rightarrow> content list \<Rightarrow> bool" where
  "receiver_ok sent bb x out \<longleftrightarrow>
     x \<le> length sent \<and> (\<forall>k s. bb k = Some s \<longrightarrow> slot_matches sent (x + k) s) \<and>
     (\<exists>ps. delivered_as sent bb x out ps)"

lemma delivered_ord:
  assumes "delivered_as sent bb x out ps" "p \<in> set ps" "ord_at sent p"
  shows "p < x"
proof -
  have "filter (ord_at sent) ps = filter (ord_at sent) [0..<x]" using assms(1) by (simp add: delivered_as_def)
  moreover have "p \<in> set (filter (ord_at sent) ps)" using assms(2,3) by simp
  ultimately have "p \<in> set (filter (ord_at sent) [0..<x])" by (simp only:)
  then show ?thesis by simp
qed

text \<open>A slot is stored; if it is unordered its message is handed out.\<close>

lemma receiver_store:
  assumes ok: "receiver_ok sent bb x out" and new: "bb d = None" and s: "slot_matches sent (x + d) s"
  defines "front \<equiv> if ord_at sent (x + d) then [] else [x + d]"
  shows "receiver_ok sent (bb(d \<mapsto> s)) x (out @ map ((!) sent) front)"
    "got (bb(d \<mapsto> s)) x p \<longleftrightarrow> got bb x p \<or> p = x + d"
proof -
  show g: "got (bb(d \<mapsto> s)) x p \<longleftrightarrow> got bb x p \<or> p = x + d" for p
    by (auto simp: got_def)
  from ok obtain ps where ps: "delivered_as sent bb x out ps" by (auto simp: receiver_ok_def)
  have notin: "x + d \<notin> set ps"
  proof
    assume i: "x + d \<in> set ps"
    show False
    proof (cases "ord_at sent (x + d)")
      case True
      with delivered_ord [OF ps i] show ?thesis by simp
    next
      case False
      with ps i s have "got bb x (x + d)" by (auto simp: delivered_as_def slot_matches_def)
      with new show ?thesis by (simp add: got_def)
    qed
  qed
  have "delivered_as sent (bb(d \<mapsto> s)) x (out @ map ((!) sent) front) (ps @ front)"
    using ps notin s unfolding delivered_as_def front_def g by (auto simp: slot_matches_def)
  with ok s show "receiver_ok sent (bb(d \<mapsto> s)) x (out @ map ((!) sent) front)"
    unfolding receiver_ok_def by auto
qed

text \<open>The window moves past \<open>m\<close> buffered slots; the ordered ones are handed out.\<close>

lemma receiver_advance:
  assumes ok: "receiver_ok sent bb x out" and run: "\<forall>j < m. bb j \<noteq> None"
  shows "receiver_ok sent (\<lambda>j. bb (j + m)) (x + m)
      (out @ map slot_content (ordered (map (\<lambda>j. the (bb j)) [0..<m])))"
    "got (\<lambda>j. bb (j + m)) (x + m) p \<longleftrightarrow> got bb x p"
proof -
  show g: "got (\<lambda>j. bb (j + m)) (x + m) p \<longleftrightarrow> got bb x p" for p
  proof (cases "p < x + m")
    case True
    then have "p < x \<or> bb (p - x) \<noteq> None" using run by (cases "p < x") auto
    with True show ?thesis by (simp add: got_def)
  qed (auto simp: got_def)
  have match: "slot_matches sent (x + j) (the (bb j))" if "j < m" for j
    using ok run that by (auto simp: receiver_ok_def)
  let ?new = "filter (ord_at sent) [x..<x + m]"
  have shift: "map slot_content (ordered (map (\<lambda>j. the (bb j)) js)) = map ((!) sent) (filter (ord_at sent) (map ((+) x) js))"
    if "set js \<subseteq> {..<m}" for js
    using that
  proof (induction js)
    case (Cons j js)
    with match [of j] show ?case
      by (auto simp: slot_matches_def ord_at_def slot_content_def prod_eq_iff)
  qed simp
  have new: "map slot_content (ordered (map (\<lambda>j. the (bb j)) [0..<m])) = map ((!) sent) ?new"
    using shift [of "[0..<m]"] by (simp add: map_plus_upt lessThan_atLeast0)
  have le: "x + m \<le> length sent"
    using match [of "m - 1"] ok by (cases m) (auto simp: slot_matches_def receiver_ok_def)
  from ok obtain ps where ps: "delivered_as sent bb x out ps" by (auto simp: receiver_ok_def)
  have "set ps \<inter> set ?new = {}" using delivered_ord [OF ps] by fastforce
  moreover have "filter (ord_at sent) [0..<x] @ ?new = filter (ord_at sent) [0..<x + m]"
    by (simp add: upt_add_eq_append [of 0 x m, simplified])
  ultimately have "delivered_as sent (\<lambda>j. bb (j + m)) (x + m) (out @ map ((!) sent) ?new) (ps @ ?new)"
    using ps le unfolding delivered_as_def g by auto
  moreover have "slot_matches sent (x + m + k) s" if "bb (k + m) = Some s" for k s
    using ok that by (auto simp: receiver_ok_def add.assoc add.commute [of m])
  ultimately show "receiver_ok sent (\<lambda>j. bb (j + m)) (x + m)
      (out @ map slot_content (ordered (map (\<lambda>j. the (bb j)) [0..<m])))"
    unfolding new receiver_ok_def using le by auto
qed

text \<open>Sending one more message changes nothing for the receiver.\<close>

lemma receiver_sent:
  assumes "receiver_ok sent bb x out"
  shows "receiver_ok (sent @ [m]) bb x out"
proof -
  from assms obtain ps where ps: "delivered_as sent bb x out ps" by (auto simp: receiver_ok_def)
  have le: "x \<le> length sent" using assms by (simp add: receiver_ok_def)
  have buf: "slot_matches sent (x + k) s" if "bb k = Some s" for k s using assms that by (auto simp: receiver_ok_def)
  have o: "ord_at (sent @ [m]) p = ord_at sent p" if "p < length sent" for p
    using that by (simp add: ord_at_def nth_append)
  have new: "\<not> got bb x (length sent)"
  proof
    assume "got bb x (length sent)"
    with le obtain s where "bb (length sent - x) = Some s" by (auto simp: got_def)
    with buf [of "length sent - x" s] le show False by (simp add: slot_matches_def)
  qed
  have lt: "\<forall>p \<in> set ps. p < length sent" using ps by (simp add: delivered_as_def)
  have fil: "filter (ord_at (sent @ [m])) ps = filter (ord_at sent) ps"
    "filter (ord_at (sent @ [m])) [0..<x] = filter (ord_at sent) [0..<x]"
    using lt le o by (simp cong: filter_cong, intro filter_cong) simp_all
  have "delivered_as (sent @ [m]) bb x out ps"
    unfolding delivered_as_def
  proof (intro conjI allI impI)
    show "distinct ps" "\<forall>p \<in> set ps. p < length (sent @ [m])" "out = map ((!) (sent @ [m])) ps"
      using ps by (auto simp: delivered_as_def nth_append)
    show "filter (ord_at (sent @ [m])) ps = filter (ord_at (sent @ [m])) [0..<x]"
      using ps fil by (simp add: delivered_as_def)
    fix p assume "p < length (sent @ [m])" "\<not> ord_at (sent @ [m]) p"
    then show "p \<in> set ps \<longleftrightarrow> got bb x p"
      using ps o new by (cases "p < length sent") (auto simp: delivered_as_def less_Suc_eq)
  qed
  moreover have "slot_matches (sent @ [m]) (x + k) s" if "bb k = Some s" for k s
    using buf [OF that] o by (auto simp: slot_matches_def nth_append)
  ultimately show ?thesis using le by (auto simp: receiver_ok_def)
qed

end
