(* ===== verification/Delivery_Correct.thy ===== *)
theory Delivery_Correct
  imports Delivery
begin

text \<open>
  The invariant of a connection and its consequences: exactly-once delivery, in order where the
  mode asks for it; no message is given up before it is received; and recovery from any loss.
\<close>

subsection \<open>The sending side\<close>

definition head_pos :: "content list \<Rightarrow> rel4u_send_window \<Rightarrow> nat" where
  "head_pos sent w = length sent - sw_len w"

definition sender_ok :: "u32 \<Rightarrow> content list \<Rightarrow> rel4u_send_window \<Rightarrow> (nat \<Rightarrow> bool) \<Rightarrow> bool" where
  "sender_ok b sent w G \<longleftrightarrow>
     send_inv w \<and> sw_len w \<le> length sent \<and> sw_next_seq w = b + of_nat (length sent) \<and>
     (\<forall>k < sw_len w. snd (slot_msg (sw_entries w ! k)) = sent ! (head_pos sent w + k) \<and>
        (ss_acked (sw_entries w ! k) \<longrightarrow> G (head_pos sent w + k)))"

lemma sender_head:
  assumes "sender_ok b sent w G"
  shows "sw_head_seq w = b + of_nat (head_pos sent w)"
proof -
  have "sw_head_seq w + of_nat (sw_len w) = b + of_nat (length sent)"
    using assms sw_next_eq [of w] by (simp add: sender_ok_def)
  moreover have "(of_nat (length sent) :: u32) = of_nat (head_pos sent w) + of_nat (sw_len w)"
    using assms by (simp add: sender_ok_def head_pos_def of_nat_diff)
  ultimately have "sw_head_seq w + of_nat (sw_len w) = b + of_nat (head_pos sent w) + of_nat (sw_len w)"
    by (simp only: add.assoc)
  then show ?thesis by (simp only: add_right_cancel)
qed

lemma sender_mono: "sender_ok b sent w G \<Longrightarrow> (\<And>p. G p \<Longrightarrow> G' p) \<Longrightarrow> sender_ok b sent w G'"
  by (simp add: sender_ok_def)

lemma sender_len: "sender_ok b sent w G \<Longrightarrow> sw_len w < 2 ^ 31"
  using send_invD(2,5) [of w] by (fastforce simp: sender_ok_def)

lemma sender_push:
  assumes ok: "sender_ok b sent w G" and mode: "reliable mode"
    and len: "unat len \<le> length bytes" and push: "rel4u_send_window_push w mode (Some bytes) len now = Some (0, w', Some seq)"
  shows "sender_ok b (sent @ [(mode, take (unat len) bytes)]) w' G" "seq = b + of_nat (length sent)"
    "sw_len w' = Suc (sw_len w)" "unat len \<le> REL4U_MAX_PAYLOAD_SIZE"
proof -
  have inv: "send_inv w" "sw_len w \<le> length sent" "sw_next_seq w = b + of_nat (length sent)"
    using ok by (simp_all add: sender_ok_def)
  show le: "unat len \<le> REL4U_MAX_PAYLOAD_SIZE"
    using push by (auto simp: rel4u_send_window_push_def split: if_splits)
  have m: "mode = REL4U_MODE_RELIABLE_ORDERED \<or> mode = REL4U_MODE_RELIABLE_UNORDERED" using mode by (simp add: reliable_def)
  from send_push_reliable [OF inv(1) le len m, of now] push obtain s where
    s: "send_inv w'" "sw_entries w' = sw_entries w @ [s]" "sw_next_seq w' = sw_next_seq w + 1" "seq = sw_next_seq w"
      "new_slot mode bytes (unat len) now (sw_next_seq w) s"
    by (auto split: if_splits)
  show "seq = b + of_nat (length sent)" using s(4) inv(3) by simp
  have "length (sw_entries w') = Suc (length (sw_entries w))" using s(2) by simp
  then show l: "sw_len w' = Suc (sw_len w)" by simp
  have "snd (slot_msg s) = (mode, take (unat len) bytes)" "\<not> ss_acked s"
    using s(5) by (auto simp: new_slot_def slot_msg_def)
  then have "snd (slot_msg (sw_entries w' ! k)) = (sent @ [(mode, take (unat len) bytes)]) ! (head_pos sent w + k) \<and>
      (ss_acked (sw_entries w' ! k) \<longrightarrow> G (head_pos sent w + k))" if "k < Suc (sw_len w)" for k
    using ok that s(2) inv(2) by (cases "k = sw_len w") (auto simp: sender_ok_def nth_append less_Suc_eq head_pos_def)
  then show "sender_ok b (sent @ [(mode, take (unat len) bytes)]) w' G"
    using s(1,3) inv l by (simp add: sender_ok_def head_pos_def algebra_simps)
qed

lemma sender_mark:
  assumes ok: "sender_ok b sent w G" and "mark_retransmit w i now = Some w'"
  shows "sender_ok b sent w' G" "sw_len w' = sw_len w" "sw_head_seq w' = sw_head_seq w"
proof -
  have inv: "send_inv w" and i: "i < length (sw_slots w)"
    using assms by (auto simp: sender_ok_def mark_retransmit_def)
  from mark_retransmit_law [OF inv i, of now] assms(2) have w': "send_inv w'" "sw_head_seq w' = sw_head_seq w"
      "sw_next_seq w' = sw_next_seq w" "map ss_acked (sw_entries w') = map ss_acked (sw_entries w)"
      "map slot_msg (sw_entries w') = map slot_msg (sw_entries w)" by auto
  then show l: "sw_len w' = sw_len w" "sw_head_seq w' = sw_head_seq w" by (simp_all add: sw_len_def)
  have "ss_acked (sw_entries w' ! k) = ss_acked (sw_entries w ! k)" "slot_msg (sw_entries w' ! k) = slot_msg (sw_entries w ! k)"
    if "k < sw_len w" for k
    using that l w'(4,5) by (metis length_sw_entries nth_map)+
  moreover have "head_pos sent w' = head_pos sent w" using l by (simp add: head_pos_def)
  ultimately show "sender_ok b sent w' G" using ok w'(1,3) l by (simp add: sender_ok_def)
qed

text \<open>An acknowledgement sent when the receiver was at position \<open>q\<close>.\<close>

lemma ack_count_position:
  assumes "h < q + 2 ^ 31 - 1" "q \<le> h + n" "n < 2 ^ 31"
  shows "ack_count (b + of_nat q - 1) (b + of_nat h) n = q - h"
proof -
  have eq: "b + of_nat q - 1 - (b + of_nat h) = (b + of_nat q) - (b + of_nat (h + 1))" by simp
  have "unat ((b + of_nat q) - (b + of_nat (h + 1)) :: u32) = (if h + 1 \<le> q then q - (h + 1) else 2 ^ 32 - (h + 1 - q))"
    using assms by (intro unat_position_diff) simp_all
  with assms show ?thesis unfolding ack_count_def eq by (auto simp: min_def)
qed

lemma sender_ack:
  assumes ok: "sender_ok b sent w G" and q: "q \<le> length sent" "head_pos sent w + 2 \<le> q + 2 ^ 31"
    and G: "\<And>i. i < 32 \<Longrightarrow> bit sack i \<Longrightarrow> G (q + i)"
    and r: "rel4u_send_window_on_ack w (b + of_nat q - 1) sack now rtt stats = Some (w', rs)"
  shows "sender_ok b sent w' G" "head_pos sent w' = max q (head_pos sent w)"
    "\<forall>k < sw_len w'. ss_last_sent_time_ns (sw_entries w' ! k) = ss_last_sent_time_ns (sw_entries w ! (k + (sw_len w - sw_len w')))"
    "sw_len w' \<le> sw_len w"
proof -
  have inv: "send_inv w" "sw_len w \<le> length sent" "sw_next_seq w = b + of_nat (length sent)"
    using ok by (simp_all add: sender_ok_def)
  define h where "h = head_pos sent w"
  note hp = h_def head_pos_def
  have hd: "sw_head_seq w = b + of_nat h" using sender_head [OF ok] by (simp add: h_def)
  have cnt: "ack_count (b + of_nat q - 1) (sw_head_seq w) (sw_len w) = q - h"
    unfolding hd using q inv(2) sender_len [OF ok] by (intro ack_count_position) (simp_all add: hp)
  let ?S = "sack_set (b + of_nat q - 1) sack"
  from send_on_ack_law [OF inv(1), of "b + of_nat q - 1" sack now rtt stats] r have w':
      "send_inv w'" "sw_entries w' = sack_mark ?S (drop (q - h) (sw_entries w))" "sw_next_seq w' = sw_next_seq w"
    unfolding cnt by auto
  have "length (sw_entries w') = sw_len w - (q - h)" unfolding w'(2) by (simp add: sack_mark_def)
  then have l: "sw_len w' = sw_len w - (q - h)" by simp
  show "head_pos sent w' = max q (head_pos sent w)" "sw_len w' \<le> sw_len w"
    using l inv(2) q(1) by (auto simp: hp max_def)
  have le: "q - h \<le> sw_len w" using q(1) inv(2) by (simp add: hp)
  have nth: "sw_entries w' ! k = (let s = sw_entries w ! (k + (q - h)) in if ss_seq_num s \<in> ?S then s\<lparr>ss_acked := True\<rparr> else s)"
    if "k < sw_len w'" for k
    using that l unfolding w'(2) by (simp add: sack_mark_def Let_def add.commute)
  show "\<forall>k < sw_len w'. ss_last_sent_time_ns (sw_entries w' ! k) = ss_last_sent_time_ns (sw_entries w ! (k + (sw_len w - sw_len w')))"
    using nth l le by (auto simp: Let_def)
  have entry: "snd (slot_msg (sw_entries w' ! k)) = sent ! (head_pos sent w' + k) \<and>
      (ss_acked (sw_entries w' ! k) \<longrightarrow> G (head_pos sent w' + k))" if k: "k < sw_len w'" for k
  proof -
    let ?j = "k + (q - h)"
    have j: "?j < sw_len w" using k l by simp
    have pos: "head_pos sent w' + k = h + ?j" using l le inv(2) by (simp add: hp)
    have old: "snd (slot_msg (sw_entries w ! ?j)) = sent ! (h + ?j)" "ss_acked (sw_entries w ! ?j) \<longrightarrow> G (h + ?j)"
      using ok j by (simp_all add: sender_ok_def h_def)
    have "G (h + ?j)" if "ss_seq_num (sw_entries w ! ?j) \<in> ?S"
    proof -
      have "ss_seq_num (sw_entries w ! ?j) = b + of_nat (h + ?j)"
        using send_invD(7) [OF inv(1) j] j hd by (simp add: algebra_simps)
      with that obtain i where i: "i < 32" "bit sack i" "b + of_nat (h + ?j) = b + of_nat (q + i)"
        by (auto simp: sack_set_def algebra_simps)
      have "h + ?j = q + i"
        using i(1,3) j q inv(2) sender_len [OF ok] of_nat_u32_eq [of "h + ?j" "q + i"] by (simp add: hp)
      with G [OF i(1,2)] show ?thesis by simp
    qed
    with old nth [OF k] show ?thesis unfolding pos by (auto simp: Let_def slot_msg_def)
  qed
  with w'(1,3) inv l show "sender_ok b sent w' G" by (simp add: sender_ok_def)
qed

subsection \<open>The invariant\<close>

definition data_dg :: "u32 \<Rightarrow> content list \<Rightarrow> nat \<Rightarrow> u8 list \<Rightarrow> bool" where
  "data_dg b sent p dg \<longleftrightarrow>
     p < length sent \<and>
     (\<exists>sid a k. dg = header_bytes (packet_header sid REL4U_PKT_DATA (fst (sent ! p)) (b + of_nat p)
        (of_nat (length (snd (sent ! p)))) a k) @ snd (sent ! p))"

definition ack_dg :: "u32 \<Rightarrow> (nat \<Rightarrow> bool) \<Rightarrow> nat \<Rightarrow> u8 list \<Rightarrow> bool" where
  "ack_dg b G q dg \<longleftrightarrow>
     (\<exists>sid t m sq l k body. dg = header_bytes (packet_header sid t m sq l (b + of_nat q - 1) k) @ body \<and>
        length body = unat l \<and> (\<forall>i < 32. bit k i \<longrightarrow> G (q + i)))"

definition delivery_inv :: "u32 \<Rightarrow> delivery \<Rightarrow> bool" where
  "delivery_inv b s \<longleftrightarrow>
     recv_inv (dl_recv s) \<and> rw_expected_seq (dl_recv s) = b + of_nat (dl_pos s) \<and>
     receiver_ok (dl_sent s) (rw_buf (dl_recv s)) (dl_pos s) (dl_out s) \<and>
     sender_ok b (dl_sent s) (dl_send s) (got (rw_buf (dl_recv s)) (dl_pos s)) \<and>
     head_pos (dl_sent s) (dl_send s) \<le> dl_pos s \<and>
     (\<forall>m \<in> set (dl_sent s). reliable (fst m) \<and> length (snd m) \<le> REL4U_MAX_PAYLOAD_SIZE) \<and>
     (\<forall>(p, dg) \<in> dl_data s. data_dg b (dl_sent s) p dg) \<and>
     (\<forall>(q, dg) \<in> dl_acks s. q \<le> dl_pos s \<and> ack_dg b (got (rw_buf (dl_recv s)) (dl_pos s)) q dg)"

lemma delivery_invD:
  assumes "delivery_inv b s"
  shows "recv_inv (dl_recv s)" "rw_expected_seq (dl_recv s) = b + of_nat (dl_pos s)"
    "receiver_ok (dl_sent s) (rw_buf (dl_recv s)) (dl_pos s) (dl_out s)"
    "sender_ok b (dl_sent s) (dl_send s) (got (rw_buf (dl_recv s)) (dl_pos s))"
    "head_pos (dl_sent s) (dl_send s) \<le> dl_pos s"
    "\<And>m. m \<in> set (dl_sent s) \<Longrightarrow> reliable (fst m) \<and> length (snd m) \<le> REL4U_MAX_PAYLOAD_SIZE"
    "\<And>p dg. (p, dg) \<in> dl_data s \<Longrightarrow> data_dg b (dl_sent s) p dg"
    "\<And>q dg. (q, dg) \<in> dl_acks s \<Longrightarrow> q \<le> dl_pos s \<and> ack_dg b (got (rw_buf (dl_recv s)) (dl_pos s)) q dg"
  using assms by (auto simp: delivery_inv_def)

lemma dl_head_eq: "dl_head s = head_pos (dl_sent s) (dl_send s)"
  by (simp add: dl_head_def head_pos_def sw_len_def)

lemma ack_dg_mono: "ack_dg b G q dg \<Longrightarrow> (\<And>p. G p \<Longrightarrow> G' p) \<Longrightarrow> ack_dg b G' q dg"
  unfolding ack_dg_def by blast

lemma data_dg_sent: "data_dg b sent p dg \<Longrightarrow> data_dg b (sent @ [m]) p dg"
  by (auto simp: data_dg_def nth_append)

lemma delivery_init_inv:
  assumes "delivery_init b s"
  shows "delivery_inv b s"
proof -
  have w: "send_inv (dl_send s)" "sw_entries (dl_send s) = []" "sw_head_seq (dl_send s) = b" using assms by (simp_all add: delivery_init_def)
  have "length (sw_entries (dl_send s)) = 0" using w(2) by simp
  then have l: "sw_len (dl_send s) = 0" by simp
  with w sw_next_eq [of "dl_send s"] have "sender_ok b [] (dl_send s) G" for G by (simp add: sender_ok_def)
  moreover have "delivered_as [] Map.empty 0 [] []" by (simp add: delivered_as_def)
  then have "receiver_ok [] Map.empty 0 []" by (auto simp: receiver_ok_def)
  ultimately show ?thesis
    using assms by (simp add: delivery_init_def delivery_inv_def head_pos_def)
qed

lemma decoded_header:
  assumes "rel4u_packet_decode_header (Some (header_bytes h @ body)) (of_nat (length (header_bytes h @ body))) (Some g) = (r, Some hdr)"
    and "length body \<le> 65535"
  shows "hdr = h"
proof -
  have "24 \<le> unat (of_nat (length (header_bytes h @ body)) :: size_t)"
    using assms(2) by (subst unat_of_nat) simp
  from decode_header_bytes [OF this, of h body g] assms(1) show ?thesis by simp
qed

text \<open>The window moves on after a packet or a pop.\<close>

lemma receiver_moves:
  assumes inv: "recv_inv w" "rw_expected_seq w = b + of_nat x" and del: "delivers w bb front mx w' ready"
    and cap: "\<And>j. bb j \<noteq> None \<Longrightarrow> j < unat (rw_capacity w)" and ok: "receiver_ok sent bb x out"
  defines "x' \<equiv> x + unat (rw_expected_seq w' - rw_expected_seq w)"
  shows "recv_inv w'" "rw_expected_seq w' = b + of_nat x'" "x \<le> x'"
    "\<exists>ds. ready = front @ ds \<and> receiver_ok sent (rw_buf w') x' (out @ map slot_content ds)"
    "got (rw_buf w') x' p \<longleftrightarrow> got bb x p"
    "length front < mx \<Longrightarrow> bb 0 \<noteq> None \<Longrightarrow> x < x'"
proof -
  from del obtain m where m: "recv_inv w'" "\<forall>j < m. bb j \<noteq> None" "rw_buf w' = (\<lambda>j. bb (j + m))"
      "rw_expected_seq w' = rw_expected_seq w + of_nat m" "ready = front @ ordered (map (\<lambda>j. the (bb j)) [0..<m])"
      "rw_buf w' 0 = None \<or> length ready = mx"
    unfolding delivers_def by blast
  have "m \<le> unat (rw_capacity w)" using cap m(2) by (metis not_le less_irrefl)
  then have "m < 2 ^ 32" using recv_invD(2) [OF inv(1)] by simp
  then have x': "x' = x + m" using m(4) by (simp add: x'_def unat_of_nat_u32)
  show "recv_inv w'" "x \<le> x'" using m(1) x' by simp_all
  show "rw_expected_seq w' = b + of_nat x'" using m(4) inv(2) x' by (simp add: algebra_simps)
  show "\<exists>ds. ready = front @ ds \<and> receiver_ok sent (rw_buf w') x' (out @ map slot_content ds)"
    using receiver_advance(1) [OF ok m(2)] m(3,5) x' by auto
  show "got (rw_buf w') x' p \<longleftrightarrow> got bb x p" using receiver_advance(2) [OF ok m(2)] m(3) x' by simp
  show "x < x'" if "length front < mx" "bb 0 \<noteq> None"
  proof (rule ccontr)
    assume "\<not> x < x'"
    then have "m = 0" using x' by simp
    with m(3,5,6) that show False by simp
  qed
qed

lemma delivery_move:
  assumes inv: "delivery_inv b s" and "recv_inv w'" "rw_expected_seq w' = b + of_nat x'" "dl_pos s \<le> x'"
    "receiver_ok (dl_sent s) (rw_buf w') x' out'" "\<And>p. got (rw_buf (dl_recv s)) (dl_pos s) p \<Longrightarrow> got (rw_buf w') x' p"
  shows "delivery_inv b (s\<lparr>dl_recv := w', dl_pos := x', dl_out := out'\<rparr>)"
proof -
  note d = delivery_invD [OF inv]
  have "sender_ok b (dl_sent s) (dl_send s) (got (rw_buf w') x')" by (rule sender_mono [OF d(4) assms(6)])
  moreover have "q \<le> x' \<and> ack_dg b (got (rw_buf w') x') q dg" if "(q, dg) \<in> dl_acks s" for q dg
    using d(8) [OF that] assms(4) ack_dg_mono [OF _ assms(6)] by auto
  ultimately show ?thesis
    unfolding delivery_inv_def using assms(2-5) d by auto
qed

subsection \<open>The steps\<close>

lemma decoded_data:
  assumes inv: "delivery_inv b s" and p: "(p, dg) \<in> dl_data s" "dl_pos s \<le> p + 2 ^ 31"
    and dec: "rel4u_packet_decode_header (Some dg) (of_nat (length dg)) (Some g) = (0, Some hdr)"
  shows "p < length (dl_sent s)" "delivery_mode hdr = fst (dl_sent s ! p)" "reliable (delivery_mode hdr)"
    "packet_fits hdr (drop 24 dg)" "take (unat (payload_len hdr)) (drop 24 dg) = snd (dl_sent s ! p)"
    "unat (seq_num hdr - rw_expected_seq (dl_recv s)) = (if dl_pos s \<le> p then p - dl_pos s else 2 ^ 32 - (dl_pos s - p))"
proof -
  note d = delivery_invD [OF inv]
  let ?x = "dl_pos s" and ?sent = "dl_sent s"
  from d(7) [OF p(1)] obtain sid a k where lt: "p < length ?sent" and
    dg: "dg = header_bytes (packet_header sid REL4U_PKT_DATA (fst (?sent ! p)) (b + of_nat p)
      (of_nat (length (snd (?sent ! p)))) a k) @ snd (?sent ! p)" (is "_ = header_bytes ?h @ ?body")
    by (auto simp: data_dg_def)
  have m: "reliable (fst (?sent ! p))" "length ?body \<le> 9216" using d(6) [of "?sent ! p"] lt by simp_all
  have hdr: "hdr = ?h" using decoded_header [OF dec [unfolded dg]] m(2) by simp
  have len: "unat (payload_len ?h) = length ?body" using m(2) by (simp add: unat_of_nat)
  have body: "drop 24 dg = ?body" by (simp add: dg)
  show "p < length ?sent" "delivery_mode hdr = fst (?sent ! p)" "reliable (delivery_mode hdr)" using lt m(1) by (simp_all add: hdr)
  show "packet_fits hdr (drop 24 dg)" using m(2) len by (simp add: packet_fits_def hdr body)
  show "take (unat (payload_len hdr)) (drop 24 dg) = ?body" using len by (simp add: hdr body)
  have "length ?sent < ?x + 2 ^ 31"
    using d(5) sender_len [OF d(4)] d(4) by (simp add: head_pos_def sender_ok_def)
  then show "unat (seq_num hdr - rw_expected_seq (dl_recv s)) = (if ?x \<le> p then p - ?x else 2 ^ 32 - (?x - p))"
    using d(2) lt p(2) unat_position_diff [of p ?x b] by (simp add: hdr)
qed

text \<open>An accepted packet: its slot and the slots it makes ready carry the messages that were sent at their positions.\<close>

lemma delivery_accept:
  assumes inv: "delivery_inv b s" and lt: "p < length (dl_sent s)"
    and pos: "dl_pos s \<le> p" "p - dl_pos s < unat (rw_capacity (dl_recv s))" "rw_buf (dl_recv s) (p - dl_pos s) = None"
    and mode: "delivery_mode hdr = fst (dl_sent s ! p)"
    and sl: "packet_slot hdr sl" "\<forall>f \<in> set front. packet_slot hdr f \<and> slot_bytes f = snd (dl_sent s ! p)"
      "if delivery_mode hdr = REL4U_MODE_RELIABLE_ORDERED then front = [] \<and> slot_bytes sl = snd (dl_sent s ! p) else length front = 1"
      "delivers (dl_recv s) ((rw_buf (dl_recv s))(p - dl_pos s \<mapsto> sl)) front mx w ready"
  shows "delivery_inv b (received_as s w ready)"
    "p = dl_pos s \<Longrightarrow> 1 < mx \<Longrightarrow> dl_pos s < dl_pos (received_as s w ready)"
proof -
  note d = delivery_invD [OF inv]
  let ?x = "dl_pos s" and ?bb = "rw_buf (dl_recv s)" and ?sent = "dl_sent s"
  have match: "slot_matches ?sent (?x + (p - ?x)) sl"
    using lt pos(1) sl(1,3) mode by (auto simp: slot_matches_def packet_slot_def ord_at_def split: if_splits)
  have front: "map slot_content front = map ((!) ?sent) (if ord_at ?sent (?x + (p - ?x)) then [] else [?x + (p - ?x)])"
  proof (cases "ord_at ?sent p")
    case True
    with sl(3) pos(1) mode show ?thesis by (simp add: ord_at_def)
  next
    case False
    with sl(3) mode obtain f where "front = [f]" by (cases front) (auto simp: ord_at_def)
    with False sl(2) pos(1) mode show ?thesis by (auto simp: slot_content_def packet_slot_def)
  qed
  note st = receiver_store [OF d(3) pos(3) match]
  have cap: "j < unat (rw_capacity (dl_recv s))" if "(?bb(p - ?x \<mapsto> sl)) j \<noteq> None" for j
    using that pos(2) rw_buf_cap by (cases "j = p - ?x") auto
  note mv = receiver_moves [OF d(1,2) sl(4) cap st(1)]
  from mv(4) obtain ds where ds: "ready = front @ ds" "receiver_ok ?sent (rw_buf w)
      (?x + unat (rw_expected_seq w - rw_expected_seq (dl_recv s)))
      ((dl_out s @ map slot_content front) @ map slot_content ds)"
    unfolding front by auto
  show "delivery_inv b (received_as s w ready)"
    unfolding received_as_def
    using mv(1-3) ds mv(5) st(2) by (intro delivery_move [OF inv]) simp_all
  have "length front < mx" if "1 < mx" using sl(3) that by (auto split: if_splits)
  then show "?x < dl_pos (received_as s w ready)" if "p = ?x" "1 < mx" using mv(6) that by (simp add: received_as_def)
qed

lemma delivery_receive:
  assumes inv: "delivery_inv b s" and p: "(p, dg) \<in> dl_data s" "dl_pos s \<le> p + 2 ^ 31"
    and dec: "rel4u_packet_decode_header (Some dg) (of_nat (length dg)) (Some g) = (0, Some hdr)"
    and out: "payloads_ok out" "0 < mx" "mx \<le> length out"
    and r: "rel4u_recv_window_on_packet (dl_recv s) hdr (Some (drop 24 dg)) out mx = Some (r, w, out', Some n)"
  shows "delivery_inv b (received_as s w (take n out')) \<and>
    (p = dl_pos s \<and> rw_buf (dl_recv s) 0 = None \<and> 1 < mx \<longrightarrow> dl_pos s < dl_pos (received_as s w (take n out')))"
proof (cases "reliable_verdict (dl_recv s) (seq_num hdr) = 0")
  case False
  note d = delivery_invD [OF inv] and h = decoded_data [OF inv p dec]
  from False on_reliable_law [OF d(1) out h(4,3)] have "rel4u_recv_window_on_packet (dl_recv s) hdr (Some (drop 24 dg)) out mx =
      Some (reliable_verdict (dl_recv s) (seq_num hdr), dl_recv s, out, Some 0)" by simp
  with r have "w = dl_recv s" "n = 0" by simp_all
  then have "received_as s w (take n out') = s" by (simp add: received_as_def)
  moreover have "\<not> (p = dl_pos s \<and> rw_buf (dl_recv s) 0 = None)"
    using False h(6) pow2_ge_2 [OF recv_invD(1) [OF d(1)]] by (auto simp: reliable_verdict_def split: if_splits)
  ultimately show ?thesis using inv by auto
next
  case True
  note d = delivery_invD [OF inv] and h = decoded_data [OF inv p dec]
  let ?x = "dl_pos s"
  have pos: "?x \<le> p" "p - ?x < unat (rw_capacity (dl_recv s))" "rw_buf (dl_recv s) (p - ?x) = None"
    using True h(6) p(2) by (auto simp: reliable_verdict_def Let_def split: if_splits)
  have dist: "unat (seq_num hdr - rw_expected_seq (dl_recv s)) = p - ?x" using h(6) pos(1) by simp
  from True on_reliable_law [OF d(1) out h(4,3)] r obtain sl front where sl: "packet_slot hdr sl"
      "\<forall>f \<in> set front. packet_slot hdr f \<and> slot_bytes f = snd (dl_sent s ! p)"
      "if delivery_mode hdr = REL4U_MODE_RELIABLE_ORDERED then front = [] \<and> slot_bytes sl = snd (dl_sent s ! p) else length front = 1"
      "delivers (dl_recv s) ((rw_buf (dl_recv s))(p - ?x \<mapsto> sl)) front mx w (take n out')"
    unfolding dist h(5) by auto
  from delivery_accept [OF inv h(1) pos h(2) sl] show ?thesis by blast
qed

lemma delivery_pop:
  assumes inv: "delivery_inv b s" and out: "payloads_ok out" "0 < mx" "mx \<le> length out"
    and r: "rel4u_recv_window_pop_ready (dl_recv s) out mx = Some (r, w, out', Some n)"
  shows "delivery_inv b (received_as s w (take n out'))"
    "rw_buf (dl_recv s) 0 \<noteq> None \<Longrightarrow> dl_pos s < dl_pos (received_as s w (take n out'))"
proof -
  note d = delivery_invD [OF inv]
  let ?x = "dl_pos s" and ?bb = "rw_buf (dl_recv s)"
  have loop: "pop_ready_loop (dl_recv s) out mx 0 = Some (w, out', n)"
    using r out(2) by (auto simp: rel4u_recv_window_pop_ready_def)
  have "\<exists>w' out' ready. pop_ready_loop (dl_recv s) out mx 0 = Some (w', out', length ready) \<and>
      delivers (dl_recv s) ?bb (take 0 out) mx w' ready \<and> take (length ready) out' = ready \<and> length ready \<le> mx \<and>
      length out' = length out \<and> payloads_ok out'"
    by (rule drain_delivers [OF pop_ready_loop_law [OF d(1) out(1) _ out(3)]]) simp_all
  with loop have del: "delivers (dl_recv s) ?bb [] mx w (take n out')" by auto
  have cap: "j < unat (rw_capacity (dl_recv s))" if "?bb j \<noteq> None" for j using that rw_buf_cap by auto
  note mv = receiver_moves [OF d(1,2) del cap d(3)]
  from mv(4) have ok: "receiver_ok (dl_sent s) (rw_buf w) (?x + unat (rw_expected_seq w - rw_expected_seq (dl_recv s)))
      (dl_out s @ map slot_content (take n out'))" by auto
  show "delivery_inv b (received_as s w (take n out'))"
    unfolding received_as_def using mv(1-3,5) ok by (intro delivery_move [OF inv]) simp_all
  show "?x < dl_pos (received_as s w (take n out'))" if "?bb 0 \<noteq> None"
    using mv(6) that out(2) by (simp add: received_as_def)
qed

lemma of_nat_len16:
  assumes "unat (len :: size_t) \<le> REL4U_MAX_PAYLOAD_SIZE"
  shows "(ucast len :: u16) = of_nat (unat len)"
proof -
  have "(ucast len :: u16) = of_nat (unat (ucast len :: u16))" by simp
  then show ?thesis by (simp only: unat_ucast_len [OF assms])
qed

lemma delivery_send:
  assumes inv: "delivery_inv b s" and env: "env_ok e" and mode: "reliable mode" and len: "unat len \<le> length bytes"
    and aw: "recv_inv aw" and push: "rel4u_send_window_push (dl_send s) mode (Some bytes) len now = Some (0, w, Some seq)"
    and dg: "build_datagram e aw sid REL4U_PKT_DATA mode seq (Some bytes) len = Some (24, dg)"
  shows "delivery_inv b (s\<lparr>dl_send := w, dl_sent := dl_sent s @ [(mode, take (unat len) bytes)],
      dl_data := insert (length (dl_sent s), dg) (dl_data s)\<rparr>)"
proof -
  note d = delivery_invD [OF inv]
  note p = sender_push [OF d(4) mode len push]
  have "payload_given (Some bytes) len" using len p(4) by (simp add: payload_given_def)
  from build_datagram_law [OF env aw this, of sid REL4U_PKT_DATA mode seq] obtain sack where
    "build_datagram e aw sid REL4U_PKT_DATA mode seq (Some bytes) len = Some (24, header_bytes (packet_header sid
      REL4U_PKT_DATA mode seq (ucast len) (rw_expected_seq aw - 1) sack) @ payload_bytes (Some bytes) len)" by blast
  with dg have "dg = header_bytes (packet_header sid REL4U_PKT_DATA mode (b + of_nat (length (dl_sent s))) (of_nat (unat len))
      (rw_expected_seq aw - 1) sack) @ take (unat len) bytes"
    using p(2) of_nat_len16 [OF p(4)] by (simp only: option.inject prod.inject payload_bytes_def option.case simp_thms)
  then have new: "data_dg b (dl_sent s @ [(mode, take (unat len) bytes)]) (length (dl_sent s)) dg"
    using len by (auto simp: data_dg_def min_def)
  have "head_pos (dl_sent s @ [(mode, take (unat len) bytes)]) w = head_pos (dl_sent s) (dl_send s)"
    using p(3) by (simp add: head_pos_def)
  then show ?thesis
    unfolding delivery_inv_def using d p receiver_sent [OF d(3)] mode new data_dg_sent by auto
qed

lemma delivery_resend:
  assumes inv: "delivery_inv b s" and env: "env_ok e" and aw: "recv_inv aw"
    and ex: "rel4u_send_window_get_expired (dl_send s) now rto 16 = Some idx" "i \<in> set idx"
    and mark: "mark_retransmit (dl_send s) i now = Some w" and slot: "slot = sw_slots w ! i"
    and dg: "build_datagram e aw sid REL4U_PKT_DATA (ss_delivery_mode slot) (ss_seq_num slot) (Some (ss_payload slot))
      (ucast (ss_payload_len slot)) = Some (24, dg)"
  shows "delivery_inv b (s\<lparr>dl_send := w,
      dl_data := insert (length (dl_sent s) - unat (sw_next_seq w - ss_seq_num slot), dg) (dl_data s)\<rparr>)"
proof -
  note d = delivery_invD [OF inv]
  let ?w = "dl_send s" and ?sent = "dl_sent s"
  have w: "send_inv ?w" "sw_len ?w \<le> length ?sent" "sw_next_seq ?w = b + of_nat (length ?sent)"
    using d(4) by (simp_all add: sender_ok_def)
  from send_get_expired_law [OF w(1), of 16 now rto] ex(1) have
    "map ((!) (sw_slots ?w)) idx = take 16 (filter (expired now (ucast rto * 1000000)) (sw_entries ?w))" by auto
  moreover have "sw_slots ?w ! i \<in> set (map ((!) (sw_slots ?w)) idx)" using ex(2) by simp
  ultimately have "sw_slots ?w ! i \<in> set (sw_entries ?w)" by (auto dest: in_set_takeD)
  then obtain k where k: "k < sw_len ?w" "sw_entries ?w ! k = sw_slots ?w ! i"
    by (auto simp: in_set_conv_nth simp del: nth_sw_entries)
  have i: "i < length (sw_slots ?w)" using mark by (auto simp: mark_retransmit_def)
  have same: "ss_delivery_mode slot = ss_delivery_mode (sw_entries ?w ! k)" "ss_seq_num slot = ss_seq_num (sw_entries ?w ! k)"
      "ss_payload slot = ss_payload (sw_entries ?w ! k)" "ss_payload_len slot = ss_payload_len (sw_entries ?w ! k)"
    using mark i k(2) slot by (auto simp: mark_retransmit_def)
  have seq: "ss_seq_num slot = b + of_nat (head_pos ?sent ?w + k)"
    using send_invD(7) [OF w(1) k(1)] k(1) same(2) sender_head [OF d(4)] by (simp add: algebra_simps)
  have msg: "?sent ! (head_pos ?sent ?w + k) = (ss_delivery_mode slot, take (unat (ss_payload_len slot)) (ss_payload slot))"
    using d(4) k(1) same by (simp add: sender_ok_def slot_msg_def)
  have sl: "unat (ss_payload_len slot) \<le> REL4U_MAX_PAYLOAD_SIZE" "length (ss_payload slot) = REL4U_MAX_PAYLOAD_SIZE"
    using send_invD(6) [OF w(1) k(1)] payload_at [OF w(1), of k] k(1) same by (simp_all add: send_slot_ok_def)
  let ?len = "ucast (ss_payload_len slot) :: size_t"
  have len: "unat ?len = unat (ss_payload_len slot)" "ucast ?len = ss_payload_len slot"
    by (rule widen16)+
  have "payload_given (Some (ss_payload slot)) ?len" using sl len by (simp add: payload_given_def)
  from build_datagram_law [OF env aw this, of sid REL4U_PKT_DATA "ss_delivery_mode slot" "ss_seq_num slot"] obtain sack where
    "build_datagram e aw sid REL4U_PKT_DATA (ss_delivery_mode slot) (ss_seq_num slot) (Some (ss_payload slot)) ?len =
      Some (24, header_bytes (packet_header sid REL4U_PKT_DATA (ss_delivery_mode slot) (ss_seq_num slot) (ucast ?len)
        (rw_expected_seq aw - 1) sack) @ payload_bytes (Some (ss_payload slot)) ?len)" by blast
  with dg len have dg': "dg = header_bytes (packet_header sid REL4U_PKT_DATA (ss_delivery_mode slot) (ss_seq_num slot) (ss_payload_len slot)
      (rw_expected_seq aw - 1) sack) @ take (unat (ss_payload_len slot)) (ss_payload slot)"
    by (simp only: option.inject prod.inject payload_bytes_def option.case simp_thms)
  note m = sender_mark [OF d(4) mark]
  have hp: "head_pos ?sent w = head_pos ?sent ?w" using m(2) by (simp add: head_pos_def)
  have nxt: "sw_next_seq w = b + of_nat (length ?sent)" using m(1) by (simp add: sender_ok_def)
  have lt: "head_pos ?sent ?w + k < length ?sent" using k(1) w(2) by (simp add: head_pos_def)
  have "unat (sw_next_seq w - ss_seq_num slot) = length ?sent - (head_pos ?sent ?w + k)"
    using unat_position_diff [of "length ?sent" "head_pos ?sent ?w + k" b] lt sender_len [OF d(4)] w(2) nxt seq
    by (simp add: head_pos_def)
  then have pos: "length ?sent - unat (sw_next_seq w - ss_seq_num slot) = head_pos ?sent ?w + k" using lt by simp
  have "data_dg b ?sent (head_pos ?sent ?w + k) dg"
    using lt dg' msg seq sl by (auto simp: data_dg_def min_def)
  then show ?thesis
    unfolding delivery_inv_def pos using d m(1) hp by auto
qed

lemma delivery_ack:
  assumes inv: "delivery_inv b s" and env: "env_ok e"
    and dg: "build_datagram e (dl_recv s) sid type mode seq payload len = Some (24, dg)"
  shows "delivery_inv b (s\<lparr>dl_acks := insert (dl_pos s, dg) (dl_acks s)\<rparr>)"
    "\<exists>sack body. dg = header_bytes (packet_header sid type mode seq (ucast len) (b + of_nat (dl_pos s) - 1) sack) @ body \<and> length body = unat len"
proof -
  note d = delivery_invD [OF inv]
  from built_bytes [OF env dg] obtain ack sack body where
    a: "rel4u_recv_window_get_ack_info (dl_recv s) = Some (ack, sack)" and
    dg': "dg = header_bytes (packet_header sid type mode seq (ucast len) ack sack) @ body" "length body = unat len"
      "unat len \<le> REL4U_MAX_PAYLOAD_SIZE" by metis
  have ack: "ack = b + of_nat (dl_pos s) - 1" and bits: "\<forall>i < 32. bit sack i \<longrightarrow> got (rw_buf (dl_recv s)) (dl_pos s) (dl_pos s + i)"
    using get_ack_info_law [OF d(1)] a d(2) by (auto simp: got_def)
  show "\<exists>sack body. dg = header_bytes (packet_header sid type mode seq (ucast len) (b + of_nat (dl_pos s) - 1) sack) @ body \<and> length body = unat len"
    using dg' ack by blast
  have "ack_dg b (got (rw_buf (dl_recv s)) (dl_pos s)) (dl_pos s) dg"
    unfolding ack_dg_def using dg' ack bits unat_ucast_len [OF dg'(3)] by metis
  with d show "delivery_inv b (s\<lparr>dl_acks := insert (dl_pos s, dg) (dl_acks s)\<rparr>)"
    unfolding delivery_inv_def by auto
qed

text \<open>Unreliable messages touch nothing the invariant speaks of.\<close>

lemma delivery_unreliable:
  assumes "delivery_inv b s"
  shows "\<not> reliable mode \<Longrightarrow> rel4u_send_window_push (dl_send s) mode (Some bytes) len now = Some (r, w, seq) \<Longrightarrow> delivery_inv b (s\<lparr>dl_send := w\<rparr>)"
    "\<not> reliable (delivery_mode hdr) \<Longrightarrow> rel4u_recv_window_on_packet (dl_recv s) hdr payload out mx = Some (r, v, out', cnt) \<Longrightarrow>
     delivery_inv b (s\<lparr>dl_recv := v\<rparr>)"
proof -
  assume "\<not> reliable mode" "rel4u_send_window_push (dl_send s) mode (Some bytes) len now = Some (r, w, seq)"
  then have "w = dl_send s \<or> w = (dl_send s)\<lparr>sw_next_unrel_seq := sw_next_unrel_seq (dl_send s) + 1\<rparr>"
    by (auto simp: rel4u_send_window_push_def reliable_def split: if_splits)
  moreover have "sw_entries (v\<lparr>sw_next_unrel_seq := x\<rparr>) = sw_entries v" "sw_len (v\<lparr>sw_next_unrel_seq := x\<rparr>) = sw_len v" for v x
    by (simp_all add: sw_entries_def sw_len_def sw_at_def)
  ultimately show "delivery_inv b (s\<lparr>dl_send := w\<rparr>)"
    using assms by (auto simp: delivery_inv_def sender_ok_def head_pos_def simp del: nth_sw_entries)
next
  assume "\<not> reliable (delivery_mode hdr)" "rel4u_recv_window_on_packet (dl_recv s) hdr payload out mx = Some (r, v, out', cnt)"
  then have "v = dl_recv s \<or> (\<exists>x y. v = (dl_recv s)\<lparr>rw_highest_unrel_seq := x, rw_has_highest_unrel := y\<rparr>)"
    by (auto simp: rel4u_recv_window_on_packet_def on_unreliable_unordered_def on_unreliable_ordered_def reliable_def split: if_splits)
  with assms show "delivery_inv b (s\<lparr>dl_recv := v\<rparr>)" by (auto simp: delivery_inv_def)
qed

lemma delivery_on_ack:
  assumes inv: "delivery_inv b s" and q: "(q, dg) \<in> dl_acks s" "dl_head s + 2 \<le> q + 2 ^ 31"
    and dec: "rel4u_packet_decode_header (Some dg) (of_nat (length dg)) (Some g) = (0, Some hdr)"
    and r: "rel4u_send_window_on_ack (dl_send s) (ack_num hdr) (sack_mask hdr) now rtt stats = Some (w, rs)"
  shows "delivery_inv b (s\<lparr>dl_send := w\<rparr>)" "head_pos (dl_sent s) w = max q (head_pos (dl_sent s) (dl_send s))"
    "\<forall>k < sw_len w. ss_last_sent_time_ns (sw_entries w ! k) =
       ss_last_sent_time_ns (sw_entries (dl_send s) ! (k + (sw_len (dl_send s) - sw_len w)))"
    "sw_len w \<le> sw_len (dl_send s)"
proof -
  note d = delivery_invD [OF inv]
  from d(8) [OF q(1)] obtain sid t m sq l k body where le: "q \<le> dl_pos s" and
    dg: "dg = header_bytes (packet_header sid t m sq l (b + of_nat q - 1) k) @ body" "length body = unat l"
      "\<forall>i < 32. bit k i \<longrightarrow> got (rw_buf (dl_recv s)) (dl_pos s) (q + i)"
    by (auto simp: ack_dg_def)
  have "length body \<le> 65535" using dg(2) unsigned_less [of l, where 'a = nat] by simp
  then have hdr: "ack_num hdr = b + of_nat q - 1" "sack_mask hdr = k"
    using decoded_header [OF dec [unfolded dg(1)]] by simp_all
  have ql: "q \<le> length (dl_sent s)" using le d(3) by (simp add: receiver_ok_def)
  note a = sender_ack [OF d(4) ql q(2) [unfolded dl_head_eq] _ r [unfolded hdr]]
  show "head_pos (dl_sent s) w = max q (head_pos (dl_sent s) (dl_send s))" "sw_len w \<le> sw_len (dl_send s)"
    "\<forall>k < sw_len w. ss_last_sent_time_ns (sw_entries w ! k) =
       ss_last_sent_time_ns (sw_entries (dl_send s) ! (k + (sw_len (dl_send s) - sw_len w)))"
    using a(2-4) dg(3) by blast+
  with d a(1) dg(3) le show "delivery_inv b (s\<lparr>dl_send := w\<rparr>)"
    unfolding delivery_inv_def by auto
qed

lemma delivery_step_inv:
  assumes "env_ok e" "delivery_step e s s'" "delivery_inv b s"
  shows "delivery_inv b s'"
  using assms(2)
proof cases
  case send
  from send(1) delivery_send [OF assms(3,1) send(2-6)] show ?thesis by simp
next
  case resend
  from resend(1) delivery_resend [OF assms(3,1) resend(4,2,3,5-7)] show ?thesis by simp
next
  case (lose D A)
  with assms(3) show ?thesis by (auto simp: delivery_inv_def)
next
  case receive
  from receive(1) delivery_receive(1) [OF assms(3) receive(2-8)] show ?thesis by simp
next
  case pop
  from pop(1) delivery_pop(1) [OF assms(3) pop(2-5)] show ?thesis by simp
next
  case ack
  from ack(1) delivery_ack(1) [OF assms(3,1) ack(2)] show ?thesis by simp
next
  case on_ack
  from on_ack(1) delivery_on_ack(1) [OF assms(3) on_ack(2-5)] show ?thesis by simp
next
  case send_unreliable
  from send_unreliable(1) delivery_unreliable(1) [OF assms(3) send_unreliable(2,3)] show ?thesis by simp
next
  case receive_unreliable
  from receive_unreliable(1) delivery_unreliable(2) [OF assms(3) receive_unreliable(2,3)] show ?thesis by simp
qed

text \<open>Each step may meet a different environment.\<close>

definition connection_step :: "delivery \<Rightarrow> delivery \<Rightarrow> bool" where
  "connection_step s s' \<longleftrightarrow> (\<exists>e. env_ok e \<and> delivery_step e s s')"

interpretation connection: step_invariant "delivery_init b" connection_step "delivery_inv b" for b
  by unfold_locales (auto simp: connection_step_def intro: delivery_init_inv delivery_step_inv)

subsection \<open>Recovery\<close>

text \<open>
  The oldest message is sent again once its timeout has passed: it is the first expired slot, and
  no other slot changes.
\<close>

lemma resend_oldest:
  assumes inv: "send_inv w" and ne: "0 < sw_len w" and un: "\<not> ss_acked (sw_entries w ! 0)"
    and t: "now \<ge> ss_last_sent_time_ns (sw_entries w ! 0)" "now - ss_last_sent_time_ns (sw_entries w ! 0) \<ge> ucast rto * 1000000"
  shows "\<exists>idx i w'. rel4u_send_window_get_expired w now rto 16 = Some idx \<and> i \<in> set idx \<and> mark_retransmit w i now = Some w' \<and>
    ss_seq_num (sw_slots w' ! i) = sw_head_seq w \<and> unat (ss_payload_len (sw_slots w' ! i)) \<le> REL4U_MAX_PAYLOAD_SIZE \<and>
    length (ss_payload (sw_slots w' ! i)) = REL4U_MAX_PAYLOAD_SIZE \<and> sw_len w' = sw_len w \<and>
    (\<forall>k < sw_len w. 0 < k \<longrightarrow> sw_entries w' ! k = sw_entries w ! k)"
proof -
  from send_get_expired_law [OF inv, of 16 now rto] obtain idx where
    idx: "rel4u_send_window_get_expired w now rto 16 = Some idx"
      "map ((!) (sw_slots w)) idx = take 16 (filter (expired now (ucast rto * 1000000)) (sw_entries w))"
      "\<forall>j \<in> set idx. j < length (sw_slots w)" by auto
  obtain es where es: "sw_entries w = sw_entries w ! 0 # es"
    using ne by (metis Suc_diff_1 length_sw_entries list.exhaust_sel list.size(3) nth_Cons_0 neq0_conv)
  have "expired now (ucast rto * 1000000) (sw_entries w ! 0)" using un t by (simp add: expired_def)
  then have "take 16 (filter (expired now (ucast rto * 1000000)) (sw_entries w)) =
      sw_entries w ! 0 # take 15 (filter (expired now (ucast rto * 1000000)) es)"
    by (subst es) (simp add: take_Cons')
  with idx(2) obtain i js where i: "idx = i # js" "sw_slots w ! i = sw_entries w ! 0" by auto
  then have il: "i < length (sw_slots w)" using idx(3) by simp
  from mark_retransmit_law [OF inv il, of now] obtain w' where
    w': "mark_retransmit w i now = Some w'" "sw_head_seq w' = sw_head_seq w" "sw_next_seq w' = sw_next_seq w"
      "sw_capacity w' = sw_capacity w"
      "\<forall>j < length (sw_slots w). sw_slots w' ! j =
        (if j = i then (sw_slots w ! j)\<lparr>ss_last_sent_time_ns := now, ss_retransmit_count := ss_retransmit_count (sw_slots w ! j) + 1\<rparr>
         else sw_slots w ! j)" by auto
  have l: "sw_len w' = sw_len w" "sw_at w' k = sw_at w k" for k using w'(2-4) by (simp_all add: sw_len_def sw_at_def)
  have "sw_entries w' ! k = sw_entries w ! k" if k: "k < sw_len w" "0 < k" for k
  proof -
    have "sw_at w k \<noteq> i"
    proof
      assume "sw_at w k = i"
      then have "sw_head_seq w + of_nat k = sw_head_seq w + of_nat 0"
        using i(2) k ne send_invD(7) [OF inv k(1)] send_invD(7) [OF inv ne] by simp
      moreover have "k < 2 ^ 32" using k(1) send_invD(2,5) [OF inv] by simp
      ultimately show False using k(2) u32_offset_inj [of k 0] by simp
    qed
    with k w'(5) l inv show ?thesis by simp
  qed
  moreover have "sw_slots w' ! i = (sw_slots w ! i)\<lparr>ss_last_sent_time_ns := now, ss_retransmit_count := ss_retransmit_count (sw_slots w ! i) + 1\<rparr>"
    using w'(5) il by simp
  moreover have "ss_seq_num (sw_slots w ! i) = sw_head_seq w" "unat (ss_payload_len (sw_slots w ! i)) \<le> REL4U_MAX_PAYLOAD_SIZE"
      "length (ss_payload (sw_slots w ! i)) = REL4U_MAX_PAYLOAD_SIZE"
    using send_invD(7) [OF inv ne] send_invD(6) [OF inv ne] payload_at [OF inv, of 0] i(2) ne
    by (simp_all add: send_slot_ok_def)
  ultimately show ?thesis
    using idx(1) i(1) w'(1) l(1) by (intro exI [of _ idx] exI [of _ i] exI [of _ w']) simp
qed

text \<open>No message the receiver still lacks was last sent after time \<open>T\<close>.\<close>

definition sent_by :: "u64 \<Rightarrow> delivery \<Rightarrow> bool" where
  "sent_by T s \<longleftrightarrow>
     (\<forall>k < sw_len (dl_send s). dl_pos s \<le> head_pos (dl_sent s) (dl_send s) + k \<longrightarrow>
        ss_last_sent_time_ns (sw_entries (dl_send s) ! k) \<le> T)"

lemma ack_round:
  assumes env: "env_ok e" and inv: "delivery_inv b s" and t: "sent_by T s"
  shows "\<exists>s'. (delivery_step e)\<^sup>*\<^sup>* s s' \<and> delivery_inv b s' \<and> dl_sent s' = dl_sent s \<and> dl_pos s' = dl_pos s \<and>
    dl_recv s' = dl_recv s \<and> head_pos (dl_sent s') (dl_send s') = dl_pos s \<and> sent_by T s'"
proof -
  note d = delivery_invD [OF inv]
  have p: "payload_given None 0" by (simp add: payload_given_def)
  from build_datagram_law [OF env d(1) p, of 0 REL4U_PKT_ACK 0 0] obtain dg where
    dg: "build_datagram e (dl_recv s) 0 REL4U_PKT_ACK 0 0 None 0 = Some (24, dg)" by blast
  define s1 where "s1 = s\<lparr>dl_acks := insert (dl_pos s, dg) (dl_acks s)\<rparr>"
  have st1: "delivery_step e s s1" unfolding s1_def by (rule delivery_step.ack [OF dg])
  note a = delivery_ack [OF inv env dg]
  have inv1: "delivery_inv b s1" using a(1) by (simp add: s1_def)
  from a(2) obtain sack where "dg = header_bytes (packet_header 0 REL4U_PKT_ACK 0 0 0 (b + of_nat (dl_pos s) - 1) sack) @ []"
    by auto
  moreover have "rel4u_packet_decode_header (Some (header_bytes h @ [])) (of_nat (length (header_bytes h @ []))) (Some zero_header) = (0, Some h)"
    if "h = packet_header 0 REL4U_PKT_ACK 0 0 0 (b + of_nat (dl_pos s) - 1) sack" for h
    using that by (intro decode_datagram) simp_all
  ultimately obtain hdr where dec: "rel4u_packet_decode_header (Some dg) (of_nat (length dg)) (Some zero_header) = (0, Some hdr)" by simp
  have w: "send_inv (dl_send s1)" using d(4) by (simp add: s1_def sender_ok_def)
  from send_on_ack_law [OF w, of "ack_num hdr" "sack_mask hdr" 0 None None] obtain w' rs where
    r: "rel4u_send_window_on_ack (dl_send s1) (ack_num hdr) (sack_mask hdr) 0 None None = Some (w', rs)" by blast
  have q: "(dl_pos s, dg) \<in> dl_acks s1" "dl_head s1 + 2 \<le> dl_pos s + 2 ^ 31"
    using d(5) by (simp_all add: s1_def dl_head_eq)
  define s2 where "s2 = s1\<lparr>dl_send := w'\<rparr>"
  have st2: "delivery_step e s1 s2" unfolding s2_def by (rule delivery_step.on_ack [OF q dec r])
  note o = delivery_on_ack [OF inv1 q dec r]
  have hp: "head_pos (dl_sent s) w' = dl_pos s" using o(2) d(5) by (simp add: s1_def max_def)
  have "sent_by T s2"
    unfolding sent_by_def
  proof (intro allI impI)
    fix k assume k: "k < sw_len (dl_send s2)"
    have "sw_len w' \<le> length (dl_sent s)" "sw_len (dl_send s) \<le> length (dl_sent s)"
      using delivery_invD(4) [OF o(1)] d(4) by (simp_all add: sender_ok_def s1_def)
    then have "dl_pos s \<le> head_pos (dl_sent s) (dl_send s) + (k + (sw_len (dl_send s) - sw_len w'))"
        "k + (sw_len (dl_send s) - sw_len w') < sw_len (dl_send s)"
      using hp o(4) k by (simp_all add: head_pos_def s1_def s2_def)
    with t have "ss_last_sent_time_ns (sw_entries (dl_send s) ! (k + (sw_len (dl_send s) - sw_len w'))) \<le> T"
      unfolding sent_by_def by blast
    with o(3) k show "ss_last_sent_time_ns (sw_entries (dl_send s2) ! k) \<le> T"
      by (simp add: s1_def s2_def del: nth_sw_entries)
  qed
  moreover have "(delivery_step e)\<^sup>*\<^sup>* s s2" using st1 st2 by (rule converse_rtranclp_into_rtranclp [OF _ r_into_rtranclp])
  ultimately show ?thesis using o(1) hp
    by (intro exI [of _ s2]) (simp add: s1_def s2_def)
qed

lemma after_timeout:
  fixes T last :: u64 and rto :: u32
  assumes "unat T + unat rto * 1000000 < 2 ^ 64" "last \<le> T"
  defines "now \<equiv> T + ucast rto * 1000000"
  shows "last \<le> now" "ucast rto * 1000000 \<le> now - last"
proof -
  have D: "unat (ucast rto * 1000000 :: u64) = unat rto * 1000000"
    using assms(1) by (simp add: unat_mult_lem [THEN iffD1] unat_word_ariths unsigned_ucast_eq take_bit_nat_eq_self)
  then have now: "unat now = unat T + unat rto * 1000000"
    using assms(1) by (simp add: now_def unat_word_ariths)
  show le: "last \<le> now" using now assms(2) by (simp add: word_le_nat_alt)
  show "ucast rto * 1000000 \<le> now - last"
    using now D assms(2) unat_sub [OF le] by (simp add: word_le_nat_alt)
qed

lemma resend_first:
  fixes rto :: u32
  assumes env: "env_ok e" and inv: "delivery_inv b s" and t: "sent_by T s" and ne: "dl_pos s < length (dl_sent s)"
    and hp: "head_pos (dl_sent s) (dl_send s) = dl_pos s" and none: "rw_buf (dl_recv s) 0 = None"
    and clock: "unat T + unat rto * 1000000 < 2 ^ 64"
  shows "\<exists>w' dg. let s' = s\<lparr>dl_send := w', dl_data := insert (dl_pos s, dg) (dl_data s)\<rparr>
    in delivery_step e s s' \<and> delivery_inv b s' \<and> sw_len w' = sw_len (dl_send s) \<and>
      (\<forall>k < sw_len w'. 0 < k \<longrightarrow> sw_entries w' ! k = sw_entries (dl_send s) ! k)"
proof -
  note d = delivery_invD [OF inv]
  let ?w = "dl_send s" and ?now = "T + ucast rto * 1000000"
  have w: "send_inv ?w" "sw_len ?w \<le> length (dl_sent s)" using d(4) by (simp_all add: sender_ok_def)
  have len: "0 < sw_len ?w" using hp ne w(2) by (simp add: head_pos_def)
  have "\<not> ss_acked (sw_entries ?w ! 0)"
  proof
    assume "ss_acked (sw_entries ?w ! 0)"
    with d(4) len have "got (rw_buf (dl_recv s)) (dl_pos s) (head_pos (dl_sent s) ?w + 0)" unfolding sender_ok_def by blast
    with hp none show False by (simp add: got_def)
  qed
  moreover have "ss_last_sent_time_ns (sw_entries ?w ! 0) \<le> T" using t len hp unfolding sent_by_def by simp
  note after_timeout [OF clock this]
  ultimately obtain idx i w' where r: "rel4u_send_window_get_expired ?w ?now rto 16 = Some idx" "i \<in> set idx"
      "mark_retransmit ?w i ?now = Some w'" "ss_seq_num (sw_slots w' ! i) = sw_head_seq ?w"
      "unat (ss_payload_len (sw_slots w' ! i)) \<le> REL4U_MAX_PAYLOAD_SIZE"
      "length (ss_payload (sw_slots w' ! i)) = REL4U_MAX_PAYLOAD_SIZE" "sw_len w' = sw_len ?w"
      "\<forall>k < sw_len ?w. 0 < k \<longrightarrow> sw_entries w' ! k = sw_entries ?w ! k"
    using resend_oldest [OF w(1) len] by blast
  let ?slot = "sw_slots w' ! i"
  have "payload_given (Some (ss_payload ?slot)) (ucast (ss_payload_len ?slot))"
    using r(5,6) widen16(1) [of "ss_payload_len ?slot"] by (simp add: payload_given_def)
  from build_datagram_law [OF env d(1) this, of 0 REL4U_PKT_DATA "ss_delivery_mode ?slot" "ss_seq_num ?slot"] obtain dg where
    dg: "build_datagram e (dl_recv s) 0 REL4U_PKT_DATA (ss_delivery_mode ?slot) (ss_seq_num ?slot) (Some (ss_payload ?slot))
      (ucast (ss_payload_len ?slot)) = Some (24, dg)" by blast
  have "unat (sw_next_seq w' - ss_seq_num ?slot) = sw_len ?w"
    using sender_mark(3) [OF d(4) r(3)] r(4,7) by (simp add: sw_len_def)
  then have pos: "length (dl_sent s) - unat (sw_next_seq w' - ss_seq_num ?slot) = dl_pos s" using hp by (simp add: head_pos_def)
  from delivery_step.resend [OF r(1,2) d(1) r(3) refl dg] delivery_resend [OF inv env d(1) r(1-3) refl dg] r(7,8) show ?thesis
    unfolding pos Let_def by (metis (no_types))
qed

text \<open>The datagram of the next message, once it arrives, lets the receiver move on.\<close>

lemma receive_next:
  assumes inv: "delivery_inv b s" and pos: "(dl_pos s, dg) \<in> dl_data s" and ne: "dl_pos s < length (dl_sent s)"
    and none: "rw_buf (dl_recv s) 0 = None"
  shows "\<exists>s'. delivery_step e s s' \<and> delivery_inv b s' \<and> dl_sent s' = dl_sent s \<and> dl_send s' = dl_send s \<and> dl_pos s < dl_pos s'"
proof -
  note d = delivery_invD [OF inv]
  from d(7) [OF pos] obtain sid a k where
    dgs: "dg = header_bytes (packet_header sid REL4U_PKT_DATA (fst (dl_sent s ! dl_pos s)) (b + of_nat (dl_pos s))
      (of_nat (length (snd (dl_sent s ! dl_pos s)))) a k) @ snd (dl_sent s ! dl_pos s)" (is "_ = header_bytes ?h @ ?body")
    by (auto simp: data_dg_def)
  have b: "length ?body \<le> 9216" using d(6) [of "dl_sent s ! dl_pos s"] ne by simp
  have dec: "rel4u_packet_decode_header (Some dg) (of_nat (length dg)) (Some zero_header) = (0, Some ?h)"
    unfolding dgs using b by (intro decode_datagram) (simp_all add: unat_of_nat del: of_nat_add)
  have "packet_fits ?h (drop 24 dg)" using b unfolding dgs by (simp add: packet_fits_def unat_of_nat)
  with d(1) obtain rc w out' n where
    on: "rel4u_recv_window_on_packet (dl_recv s) ?h (Some (drop 24 dg)) ex_slots 64 = Some (rc, w, out', Some n)"
    using on_packet_safe [of "dl_recv s" ex_slots 64 ?h "drop 24 dg"] ex_slots_ok by auto
  have age: "dl_pos s \<le> dl_pos s + 2 ^ 31" by simp
  have o: "payloads_ok ex_slots" "0 < (64::nat)" "64 \<le> length ex_slots" using ex_slots_ok by simp_all
  from delivery_step.receive [OF pos age dec o on] delivery_receive [OF inv pos age dec o on] none show ?thesis
    by (intro exI [of _ "received_as s w (take n out')"]) (simp add: received_as_def)
qed

lemma resend_round:
  fixes rto :: u32
  assumes env: "env_ok e" and inv: "delivery_inv b s" and t: "sent_by T s" and ne: "dl_pos s < length (dl_sent s)"
    and hp: "head_pos (dl_sent s) (dl_send s) = dl_pos s" and none: "rw_buf (dl_recv s) 0 = None"
    and clock: "unat T + unat rto * 1000000 < 2 ^ 64"
  shows "\<exists>s'. (delivery_step e)\<^sup>*\<^sup>* s s' \<and> delivery_inv b s' \<and> dl_sent s' = dl_sent s \<and> dl_pos s < dl_pos s' \<and> sent_by T s'"
proof -
  from resend_first [OF assms] obtain s1 w' dg where
    s1: "s1 = s\<lparr>dl_send := w', dl_data := insert (dl_pos s, dg) (dl_data s)\<rparr>" and 1: "delivery_step e s s1" "delivery_inv b s1"
      "sw_len w' = sw_len (dl_send s)" "\<forall>k < sw_len w'. 0 < k \<longrightarrow> sw_entries w' ! k = sw_entries (dl_send s) ! k"
    unfolding Let_def by blast
  have "(dl_pos s1, dg) \<in> dl_data s1" "dl_pos s1 < length (dl_sent s1)" "rw_buf (dl_recv s1) 0 = None" using ne none by (simp_all add: s1)
  from receive_next [OF 1(2) this] obtain s2 where
    2: "delivery_step e s1 s2" "delivery_inv b s2" "dl_sent s2 = dl_sent s" "dl_send s2 = w'" "dl_pos s < dl_pos s2"
    by (auto simp: s1)
  have "ss_last_sent_time_ns (sw_entries w' ! k) \<le> T" if k: "k < sw_len w'" "dl_pos s2 \<le> head_pos (dl_sent s) w' + k" for k
  proof -
    have "head_pos (dl_sent s) w' = dl_pos s" using hp 1(3) by (simp add: head_pos_def)
    then have "0 < k" using k(2) 2(5) by simp
    moreover have "ss_last_sent_time_ns (sw_entries (dl_send s) ! k) \<le> T" using t k(1) 1(3) hp unfolding sent_by_def by simp
    ultimately show ?thesis using 1(4) k(1) by (simp del: nth_sw_entries)
  qed
  then have "sent_by T s2" using 2(3,4) by (simp add: sent_by_def del: nth_sw_entries)
  with 1(1) 2 show ?thesis by (intro exI [of _ s2]) (auto intro: converse_rtranclp_into_rtranclp)
qed

lemma pop_round:
  assumes inv: "delivery_inv b s" and t: "sent_by T s" and some: "rw_buf (dl_recv s) 0 \<noteq> None"
  shows "\<exists>s'. (delivery_step e)\<^sup>*\<^sup>* s s' \<and> delivery_inv b s' \<and> dl_sent s' = dl_sent s \<and> dl_pos s < dl_pos s' \<and> sent_by T s'"
proof -
  note d = delivery_invD [OF inv]
  have o: "payloads_ok ex_slots" "0 < (64::nat)" "64 \<le> length ex_slots" using ex_slots_ok by simp_all
  from pop_ready_law [OF d(1) ex_slots_ok] obtain w out n where
    r: "rel4u_recv_window_pop_ready (dl_recv s) ex_slots 64 = Some (0, w, out, Some n)" by blast
  let ?s = "received_as s w (take n out)"
  note p = delivery_pop [OF inv o r]
  have st: "delivery_step e s ?s" by (rule delivery_step.pop [OF o r])
  have eq: "dl_send ?s = dl_send s" "dl_sent ?s = dl_sent s" by (simp_all add: received_as_def)
  have "dl_pos s \<le> dl_pos ?s" using p(2) [OF some] by simp
  then have "sent_by T ?s" using t unfolding sent_by_def eq by (auto intro: order_trans)
  moreover have "(delivery_step e)\<^sup>*\<^sup>* s ?s" using st by (rule r_into_rtranclp)
  ultimately show ?thesis using p(1) p(2) [OF some] eq(2) by blast
qed

lemma recovery:
  fixes rto :: u32
  assumes "env_ok e" "delivery_inv b s" "sent_by T s" "unat T + unat rto * 1000000 < 2 ^ 64"
  shows "\<exists>s'. (delivery_step e)\<^sup>*\<^sup>* s s' \<and> delivery_inv b s' \<and> dl_sent s' = dl_sent s \<and>
    dl_pos s' = length (dl_sent s) \<and> sw_len (dl_send s') = 0"
  using assms(2,3)
proof (induction "length (dl_sent s) - dl_pos s" arbitrary: s rule: less_induct)
  case less
  note d = delivery_invD [OF less.prems(1)]
  have le: "dl_pos s \<le> length (dl_sent s)" using d(3) by (simp add: receiver_ok_def)
  have more: ?case if "(delivery_step e)\<^sup>*\<^sup>* s s1" "delivery_inv b s1" "dl_sent s1 = dl_sent s" "dl_pos s < dl_pos s1"
      "sent_by T s1" "dl_pos s < length (dl_sent s)" for s1
  proof -
    have "length (dl_sent s1) - dl_pos s1 < length (dl_sent s) - dl_pos s" using that(3,4,6) by simp
    from less.hyps [OF this that(2,5)] that(1,3) show ?thesis by (metis rtranclp_trans)
  qed
  show ?case
  proof (cases "dl_pos s = length (dl_sent s)")
    case True
    from ack_round [OF assms(1) less.prems] obtain s' where s': "(delivery_step e)\<^sup>*\<^sup>* s s'" "delivery_inv b s'" "dl_sent s' = dl_sent s"
        "dl_pos s' = dl_pos s" "head_pos (dl_sent s') (dl_send s') = dl_pos s" by blast
    moreover have "sw_len (dl_send s') \<le> length (dl_sent s')" using delivery_invD(4) [OF s'(2)] by (simp add: sender_ok_def)
    ultimately have "sw_len (dl_send s') = 0" using True by (simp add: head_pos_def)
    with s' True show ?thesis by auto
  next
    case False
    then have lt: "dl_pos s < length (dl_sent s)" using le by simp
    show ?thesis
    proof (cases "rw_buf (dl_recv s) 0 = None")
      case False
      with pop_round [OF less.prems] obtain s1 where "(delivery_step e)\<^sup>*\<^sup>* s s1" "delivery_inv b s1" "dl_sent s1 = dl_sent s"
        "dl_pos s < dl_pos s1" "sent_by T s1" by blast
      with more lt show ?thesis by blast
    next
      case True
      from ack_round [OF assms(1) less.prems] obtain s1 where s1: "(delivery_step e)\<^sup>*\<^sup>* s s1" "delivery_inv b s1" "dl_sent s1 = dl_sent s"
        "dl_pos s1 = dl_pos s" "dl_recv s1 = dl_recv s" "head_pos (dl_sent s1) (dl_send s1) = dl_pos s" "sent_by T s1" by blast
      from resend_round [OF assms(1) s1(2,7) _ _ _ assms(4)] s1 lt True obtain s2 where
        s2: "(delivery_step e)\<^sup>*\<^sup>* s1 s2" "delivery_inv b s2" "dl_sent s2 = dl_sent s1" "dl_pos s1 < dl_pos s2" "sent_by T s2" by auto
      have "(delivery_step e)\<^sup>*\<^sup>* s s2" using s1(1) s2(1) by (rule rtranclp_trans)
      with more s2 s1 lt show ?thesis by simp
    qed
  qed
qed

subsection \<open>Properties\<close>

definition ordered_part :: "content list \<Rightarrow> content list" where
  "ordered_part ms = filter (\<lambda>m. fst m = REL4U_MODE_RELIABLE_ORDERED) ms"

lemma delivered_ordered:
  assumes "delivered_as sent bb x out ps" "x \<le> length sent"
  shows "ordered_part out = ordered_part (take x sent)"
proof -
  have comp: "((\<lambda>m. fst m = REL4U_MODE_RELIABLE_ORDERED) \<circ> (!) sent) = ord_at sent" by (simp add: ord_at_def fun_eq_iff)
  have "out = map ((!) sent) ps" using assms(1) by (simp add: delivered_as_def)
  then have "ordered_part out = map ((!) sent) (filter (ord_at sent) ps)"
    unfolding ordered_part_def by (simp only: filter_map comp)
  also have "\<dots> = map ((!) sent) (filter (ord_at sent) [0..<x])" using assms(1) unfolding delivered_as_def by simp
  also have "\<dots> = ordered_part (map ((!) sent) [0..<x])" unfolding ordered_part_def by (simp only: filter_map comp)
  also have "map ((!) sent) [0..<x] = take x sent" using assms(2) by (simp add: list_eq_iff_nth_eq)
  finally show ?thesis .
qed

lemma delivered_all:
  assumes "delivered_as sent bb (length sent) out ps"
  shows "mset out = mset sent"
proof -
  have "set ps = {0..<length sent}"
  proof (intro equalityI subsetI)
    fix p assume "p \<in> set ps"
    then show "p \<in> {0..<length sent}" using assms by (auto simp: delivered_as_def)
  next
    fix p assume p: "p \<in> {0..<length sent}"
    show "p \<in> set ps"
    proof (cases "ord_at sent p")
      case True
      then have "p \<in> set (filter (ord_at sent) [0..<length sent])" using p by simp
      then have "p \<in> set (filter (ord_at sent) ps)" using assms unfolding delivered_as_def by simp
      then show ?thesis by simp
    next
      case False
      with p assms show ?thesis unfolding delivered_as_def by (auto simp: got_def)
    qed
  qed
  then have "mset ps = mset [0..<length sent]"
    using assms by (metis atLeast_upt atLeastLessThan_upt delivered_as_def distinct_upt set_eq_iff_mset_eq_distinct)
  then have "mset (map ((!) sent) ps) = mset (map ((!) sent) [0..<length sent])" by simp
  then show ?thesis using assms by (simp add: delivered_as_def map_nth)
qed

text \<open>
  C1. Exactly once, and in order. In every state a connection can reach over a network that loses,
  duplicates, delays and reorders datagrams in both directions, the messages handed to the
  receiving application are messages that were sent, each position at most once, and the ordered
  ones among them are a prefix of the ordered messages sent, in the order they were sent.
\<close>

theorem delivery_exactly_once:
  assumes "delivery_init b s0" "connection_step\<^sup>*\<^sup>* s0 s"
  shows "(\<exists>ps. distinct ps \<and> (\<forall>p \<in> set ps. p < length (dl_sent s)) \<and> dl_out s = map ((!) (dl_sent s)) ps) \<and>
    prefix (ordered_part (dl_out s)) (ordered_part (dl_sent s))"
proof -
  have "delivery_inv b s" by (rule connection.reachable_inv [OF assms])
  from delivery_invD(3) [OF this] obtain ps where
    ps: "delivered_as (dl_sent s) (rw_buf (dl_recv s)) (dl_pos s) (dl_out s) ps" "dl_pos s \<le> length (dl_sent s)"
    by (auto simp: receiver_ok_def)
  have "ordered_part (dl_sent s) = ordered_part (take (dl_pos s) (dl_sent s)) @ ordered_part (drop (dl_pos s) (dl_sent s))"
    by (simp add: ordered_part_def flip: filter_append)
  with delivered_ordered [OF ps] have "prefix (ordered_part (dl_out s)) (ordered_part (dl_sent s))" by simp
  with ps(1) show ?thesis by (auto simp: delivered_as_def)
qed

definition ex_conn :: delivery where
  "ex_conn = \<lparr>dl_send = ex_send, dl_recv = ex_recv, dl_sent = [], dl_out = [], dl_pos = 0, dl_data = {}, dl_acks = {}\<rparr>"

lemma ex_conn_init: "delivery_init 0xFFFFFFFF ex_conn"
  using ex_send_inv ex_recv_facts by (simp add: delivery_init_def ex_conn_def)

text \<open>One ordered message was sent at time 5.\<close>

lemma ex_conn_sent:
  "\<exists>s. connection_step\<^sup>*\<^sup>* ex_conn s \<and> dl_sent s = [(3, [1, 2])] \<and> sent_by 5 s \<and> dl_pos s = 0 \<and> rw_buf (dl_recv s) 0 = None"
proof -
  have "unat (2 :: size_t) \<le> REL4U_MAX_PAYLOAD_SIZE" "unat (2 :: size_t) \<le> length [1, 2 :: u8]" by simp_all
  from send_push_reliable [OF ex_send_inv(1) this, of 3 5] obtain w sl where
    p: "rel4u_send_window_push ex_send 3 (Some [1, 2]) 2 5 = Some (0, w, Some (sw_next_seq ex_send))"
      "sw_entries w = sw_entries ex_send @ [sl]" "new_slot 3 [1, 2] 2 5 (sw_next_seq ex_send) sl"
    by (auto simp: ex_send_inv)
  have "payload_given (Some [1, 2]) 2" by (simp add: payload_given_def)
  from build_datagram_law [OF ex_env_ok ex_recv_facts(1) this, of 0 REL4U_PKT_DATA 3 "sw_next_seq ex_send"] obtain dg where
    dg: "build_datagram ex_env ex_recv 0 REL4U_PKT_DATA 3 (sw_next_seq ex_send) (Some [1, 2]) 2 = Some (24, dg)" by blast
  let ?s = "ex_conn\<lparr>dl_send := w, dl_sent := dl_sent ex_conn @ [(3, take (unat (2 :: size_t)) [1, 2])],
    dl_data := insert (length (dl_sent ex_conn), dg) (dl_data ex_conn)\<rparr>"
  have "rel4u_send_window_push (dl_send ex_conn) 3 (Some [1, 2]) 2 5 = Some (0, w, Some (sw_next_seq ex_send))"
    using p(1) by (simp add: ex_conn_def)
  then have "delivery_step ex_env ex_conn ?s"
    using dg by (intro delivery_step.send [where aw = ex_recv]) (simp_all add: reliable_def ex_recv_facts)
  then have "connection_step ex_conn ?s" unfolding connection_step_def using ex_env_ok by blast
  moreover have e: "sw_entries w = [sl]" using p(2) ex_send_inv(2) by simp
  then have "length (sw_entries w) = 1" by simp
  then have "sw_len w = 1" by simp
  with e p(3) have "sent_by 5 ?s" by (simp add: sent_by_def new_slot_def del: nth_sw_entries)
  moreover have "dl_sent ?s = [(3, [1, 2])]" "dl_pos ?s = 0" "rw_buf (dl_recv ?s) 0 = None"
    by (simp_all add: ex_conn_def ex_recv_facts)
  ultimately show ?thesis by blast
qed

lemma delivery_exactly_once_witness:
  "\<exists>s :: delivery. dl_sent s = [(3, [1, 2])] \<and> prefix (ordered_part (dl_out s)) [(3, [1, 2])]"
proof -
  obtain s where s: "connection_step\<^sup>*\<^sup>* ex_conn s" "dl_sent s = [(3, [1, 2])]" using ex_conn_sent by blast
  have "ordered_part [(3, [1, 2])] = [(3, [1, 2])]" by (simp add: ordered_part_def)
  with delivery_exactly_once [OF ex_conn_init s(1)] s(2) show ?thesis by (intro exI [of _ s]) simp
qed

text \<open>
  C3. No message is given up before it is received. In every reachable state a message that the
  receive window has neither moved past nor buffered is still in the send window, with its mode
  and content unchanged, not marked as acknowledged, so that it will expire and be sent again.
\<close>

theorem delivery_keeps_unreceived:
  assumes "delivery_init b s0" "connection_step\<^sup>*\<^sup>* s0 s" "p < length (dl_sent s)"
    and "dl_pos s \<le> p" "rw_buf (dl_recv s) (p - dl_pos s) = None"
  shows "\<exists>e \<in> set (sw_entries (dl_send s)). \<not> ss_acked e \<and> ss_in_use e \<and> ss_seq_num e = b + of_nat p \<and>
    (ss_delivery_mode e, take (unat (ss_payload_len e)) (ss_payload e)) = dl_sent s ! p"
proof -
  have inv: "delivery_inv b s" by (rule connection.reachable_inv [OF assms(1,2)])
  note d = delivery_invD [OF inv]
  let ?w = "dl_send s" and ?h = "head_pos (dl_sent s) (dl_send s)"
  have w: "send_inv ?w" "sw_len ?w \<le> length (dl_sent s)" using d(4) by (simp_all add: sender_ok_def)
  define k where "k = p - ?h"
  have k: "k < sw_len ?w" "?h + k = p" using d(5) assms(3,4) w(2) by (simp_all add: k_def head_pos_def)
  have "snd (slot_msg (sw_entries ?w ! k)) = dl_sent s ! p" "\<not> ss_acked (sw_entries ?w ! k)"
    using d(4) k assms(4,5) unfolding sender_ok_def by (auto simp: got_def)
  moreover have "ss_in_use (sw_entries ?w ! k)" "ss_seq_num (sw_entries ?w ! k) = b + of_nat p"
    using send_invD(6,7) [OF w(1) k(1)] k sender_head [OF d(4)] by (auto simp: send_slot_ok_def algebra_simps simp flip: of_nat_add)
  moreover have "sw_entries ?w ! k \<in> set (sw_entries ?w)" using k(1) by (intro nth_mem) simp
  ultimately show ?thesis by (intro bexI [of _ "sw_entries ?w ! k"]) (simp_all add: slot_msg_def del: nth_sw_entries)
qed

lemma delivery_keeps_unreceived_witness:
  "\<exists>(s :: delivery) (e :: rel4u_send_slot). e \<in> set (sw_entries (dl_send s)) \<and> ss_seq_num e = 0xFFFFFFFF \<and> ss_delivery_mode e = 3"
proof -
  obtain s where s: "connection_step\<^sup>*\<^sup>* ex_conn s" "dl_sent s = [(3, [1, 2])]" "dl_pos s = 0" "rw_buf (dl_recv s) 0 = None"
    using ex_conn_sent by blast
  from delivery_keeps_unreceived [OF ex_conn_init s(1), of 0] s(2-) obtain e where
    "e \<in> set (sw_entries (dl_send s))" "ss_seq_num e = 0xFFFFFFFF" "ss_delivery_mode e = 3" by auto
  then show ?thesis by blast
qed

text \<open>
  C2. Recovery: whatever was lost so far, a connection can always complete. From every reachable
  state, if the clock has room for one more timeout \<open>rto\<close> after the last transmission of the messages
  that are still missing, the retransmissions and acknowledgements of the two workers can bring
  the connection to a state in which every message that was sent has been handed out exactly
  once, the ordered ones in order, and the send window is empty.
\<close>

theorem delivery_recovers:
  fixes rto :: u32
  assumes "delivery_init b s0" "connection_step\<^sup>*\<^sup>* s0 s" "env_ok e" "sent_by T s" "unat T + unat rto * 1000000 < 2 ^ 64"
  shows "\<exists>s'. (delivery_step e)\<^sup>*\<^sup>* s s' \<and> dl_sent s' = dl_sent s \<and> mset (dl_out s') = mset (dl_sent s) \<and>
    ordered_part (dl_out s') = ordered_part (dl_sent s) \<and> sw_entries (dl_send s') = []"
proof -
  have "delivery_inv b s" by (rule connection.reachable_inv [OF assms(1,2)])
  from recovery [OF assms(3) this assms(4,5)] obtain s' where
    s': "(delivery_step e)\<^sup>*\<^sup>* s s'" "delivery_inv b s'" "dl_sent s' = dl_sent s" "dl_pos s' = length (dl_sent s)" "sw_len (dl_send s') = 0"
    by blast
  from delivery_invD(3) [OF s'(2)] obtain ps where
    ps: "delivered_as (dl_sent s) (rw_buf (dl_recv s')) (length (dl_sent s)) (dl_out s') ps"
    using s'(3,4) by (auto simp: receiver_ok_def)
  have "length (sw_entries (dl_send s')) = 0" using s'(5) by simp
  then have "sw_entries (dl_send s') = []" by (simp only: length_0_conv)
  with s'(1,3) delivered_all [OF ps] delivered_ordered [OF ps] show ?thesis by (intro exI [of _ s']) simp
qed

lemma delivery_recovers_witness:
  "\<exists>s :: delivery. mset (dl_out s) = {#(3, [1, 2])#} \<and> sw_entries (dl_send s) = []"
proof -
  obtain s where s: "connection_step\<^sup>*\<^sup>* ex_conn s" "dl_sent s = [(3, [1, 2])]" "sent_by 5 s" using ex_conn_sent by blast
  from delivery_recovers [OF ex_conn_init s(1) ex_env_ok s(3), of 20] s(2) obtain s' :: delivery where
    "mset (dl_out s') = mset [(3, [1, 2])]" "sw_entries (dl_send s') = []" by auto
  then show ?thesis by (intro exI [of _ s']) simp
qed

end
