(* ===== verification/Wire.thy ===== *)
theory Wire
  imports Endpoint_Correct
begin

text \<open>
  What an endpoint puts on the wire: well-formed packets. \<open>well_formed\<close> is what the decoder of the other side accepts, with
  no byte missing or left over, a type the endpoint may send, and no payload but in data packets. The invariant \<open>wire_ok\<close> says so of
  everything sent so far, and restricts the addresses it was sent to.
\<close>

subsection \<open>Well-formed packets\<close>

definition well_formed :: "u8 set \<Rightarrow> u8 list \<Rightarrow> bool" where
  "well_formed types bs \<longleftrightarrow>
     (case rel4u_packet_decode_header (Some bs) (of_nat (length bs)) (Some zero_header) of
        (r, Some hdr) \<Rightarrow>
          r = 0 \<and> packet_type hdr \<in> types \<and> length bs = REL4U_HEADER_LEN + unat (payload_len hdr) \<and>
          unat (payload_len hdr) \<le> REL4U_MAX_PAYLOAD_SIZE \<and> (packet_type hdr = REL4U_PKT_DATA \<or> payload_len hdr = 0)
      | (r, None) \<Rightarrow> False)"

definition wire_ok :: "u8 set \<Rightarrow> rel4u_net_addr set \<Rightarrow> world \<Rightarrow> bool" where
  "wire_ok types addrs w \<longleftrightarrow> (\<forall>(a, bs) \<in> set (wd_sent w). a \<in> addrs \<and> well_formed types bs)"

lemma header_well_formed:
  assumes "length body = unat (payload_len h)" "length body \<le> REL4U_MAX_PAYLOAD_SIZE" "magic h = REL4U_MAGIC" "version h = REL4U_VERSION"
    and "packet_type h \<in> types" "packet_type h = REL4U_PKT_DATA \<or> body = []"
  shows "well_formed types (header_bytes h @ body)"
proof -
  have "rel4u_packet_decode_header (Some (header_bytes h @ body)) (of_nat (length (header_bytes h @ body))) (Some zero_header) = (0, Some h)"
    using assms by (intro decode_datagram) (simp_all add: unat_of_nat del: of_nat_add)
  with assms show ?thesis by (auto simp: well_formed_def unat_eq_0)
qed

lemma control_well_formed:
  assumes "env_ok e" "type \<in> types"
  shows "well_formed types (control_datagram (take REL4U_HEADER_LEN (env_raw_buf e)) type sid seq)"
proof -
  have "length (take REL4U_HEADER_LEN (env_raw_buf e)) = 24" using assms(1) by (simp add: env_ok_def)
  from control_datagram_bytes [OF this] header_well_formed [of "[]" "packet_header sid type 0 seq 0 0 0" types] assms(2)
  show ?thesis by simp
qed

lemma built_well_formed:
  assumes env: "env_ok e" and b: "build_datagram e win sid type mode seq payload len = Some (n, bs)"
    and type: "type \<in> types" "type = REL4U_PKT_DATA \<or> len = 0"
  shows "well_formed types bs"
proof -
  from built_bytes [OF env b] obtain ack sack body where
    body: "bs = header_bytes (packet_header sid type mode seq (ucast len) ack sack) @ body" "length body = unat len"
      "unat len \<le> REL4U_MAX_PAYLOAD_SIZE" by metis
  with type unat_ucast_len [OF body(3)] show ?thesis by (auto intro!: header_well_formed)
qed

subsection \<open>The wire\<close>

lemma wire_ok_sendto:
  assumes "wire_ok types addrs w" "rel4u_net_sendto e sock bs a w = (n, w')" "sock \<noteq> REL4U_INVALID_SOCKET \<Longrightarrow> a \<in> addrs"
    and "well_formed types bs"
  shows "wire_ok types addrs w'"
  using assms by (auto simp: rel4u_net_sendto_def wire_ok_def split: if_splits)

lemma wire_ok_same: "wd_sent w' = wd_sent w \<Longrightarrow> wire_ok types addrs w' = wire_ok types addrs w"
  by (simp add: wire_ok_def)

lemma wire_ok_pushes [simp]: "wire_ok types addrs (w\<lparr>wd_pushes := n\<rparr>) = wire_ok types addrs w"
  by (simp add: wire_ok_def)

lemma wire_ok_clock: "rel4u_time_now_ns e w = (t, w') \<Longrightarrow> wire_ok types addrs w' = wire_ok types addrs w"
  by (auto simp: rel4u_time_now_ns_def wire_ok_def Let_def)

text \<open>Handing messages to the application sends nothing.\<close>

lemma deliver_ready_silent: "deliver_ready e cid slots qw = Some qw' \<Longrightarrow> wd_sent (snd qw') = wd_sent (snd qw)"
  by (induction e cid slots qw rule: deliver_ready.induct) (auto simp: push_to_app_def split: option.splits prod.splits)

lemma drain_ready_silent: "drain_ready e cid f n win slots qw = Some (win', slots', qw') \<Longrightarrow> wd_sent (snd qw') = wd_sent (snd qw)"
proof (induction e cid f n win slots qw arbitrary: win' slots' qw' rule: drain_ready.induct)
  case (1 e cid f n win slots qw)
  show ?case
  proof (cases "\<exists>w2 ss n2 qw2. (f \<longrightarrow> n = 64) \<and> rel4u_recv_window_pop_ready win slots 64 = Some (0, w2, ss, Some n2) \<and> 0 < n2 \<and>
      deliver_ready e cid (take n2 ss) qw = Some qw2")
    case True
    then obtain w2 ss n2 qw2 where p: "f \<longrightarrow> n = 64" "rel4u_recv_window_pop_ready win slots 64 = Some (0, w2, ss, Some n2)" "0 < n2"
      "deliver_ready e cid (take n2 ss) qw = Some qw2" by blast
    with "1.prems" have "drain_ready e cid f n2 w2 ss qw2 = Some (win', slots', qw')"
      by (subst (asm) drain_ready.simps) (auto split: if_splits)
    from "1.IH" [OF _ p(2) refl refl refl refl _ p(4) this] p(1,3) deliver_ready_silent [OF p(4)] show ?thesis by auto
  next
    case False
    with "1.prems" show ?thesis
      by (subst (asm) drain_ready.simps) (auto split: if_splits option.splits prod.splits)
  qed
qed

lemma on_data_silent: "on_data e cid win slots hdr bytes qw = Some (win', slots', qw', ack) \<Longrightarrow> wd_sent (snd qw') = wd_sent (snd qw)"
  by (auto simp: on_data_def bind_eq_Some_conv Let_def split: if_splits prod.splits dest!: deliver_ready_silent drain_ready_silent)

end
