(* ===== verification/Client.thy ===== *)
theory Client
  imports Endpoint
begin

text \<open>
  The client, \<open>src/core/rel4u_client.c\<close>.

  \<^item> The state is the C struct; the thread handle, the mutexes and the content of the wake-up pipe
    are left out. A NULL handle is checked first by every operation of the interface and
    is left out too.
  \<^item> An operation of the interface, and each phase of a round of the worker (handshake, one
    datagram, draining the send queue, timers), runs on the state as it finds it. The worker
    reads \<open>state\<close> once per round and goes on with its copy, which is an argument of the phases:
    the application may have changed the field since.
  \<^item> Where a call waits for the worker, what the worker does meanwhile is an argument: \<open>join\<close> for
    the rest of its run until the thread ends, \<open>naps\<close> for what happens during each sleep of the
    connecting loop.
  \<^item> \<open>None\<close> is a memory fault.
\<close>

subsection \<open>Data\<close>

record rel4u_client =
  cl_config :: rel4u_client_config
  cl_sock :: int
  cl_server_addr :: rel4u_net_addr
  cl_wakeup_pipe :: rel4u_wakeup_pipe
  cl_worker_started :: bool
  cl_running :: bool
  cl_state :: rel4u_conn_state
  cl_session_id :: u32
  cl_rejected :: bool
  cl_send_queue :: rel4u_mpmc_queue
  cl_recv_queue :: rel4u_mpmc_queue
  cl_send_win :: rel4u_send_window
  cl_recv_win :: rel4u_recv_window
  cl_rtt :: rel4u_rtt
  cl_ready_slots :: "rel4u_recv_slot list"
  cl_last_activity_ns :: u64
  cl_last_heartbeat_sent_ns :: u64
  cl_last_ack_sent_ns :: u64
  cl_ack_pending :: bool
  cl_stats :: rel4u_stats

type_synonym client_world = "rel4u_client \<times> world"

subsection \<open>Creation\<close>

definition client_defaults :: "rel4u_client_config \<Rightarrow> rel4u_client_config" where
  "client_defaults cfg =
     cfg\<lparr>cc_mtu := (if cc_mtu cfg = 0 then REL4U_DEFAULT_MTU else cc_mtu cfg),
         cc_send_queue_capacity := (if cc_send_queue_capacity cfg < 8 then 128 else cc_send_queue_capacity cfg),
         cc_recv_queue_capacity := (if cc_recv_queue_capacity cfg < 8 then 128 else cc_recv_queue_capacity cfg),
         cc_window_size := (if cc_window_size cfg < 8 then 64 else cc_window_size cfg),
         cc_heartbeat_interval_ms := (if cc_heartbeat_interval_ms cfg = 0 then 1000 else cc_heartbeat_interval_ms cfg),
         cc_inactivity_timeout_ms := (if cc_inactivity_timeout_ms cfg = 0 then 5000 else cc_inactivity_timeout_ms cfg),
         cc_connect_timeout_ms := (if cc_connect_timeout_ms cfg = 0 then 3000 else cc_connect_timeout_ms cfg),
         cc_reconnect_interval_ms := (if cc_reconnect_interval_ms cfg = 0 then 1000 else cc_reconnect_interval_ms cfg),
         cc_max_send_memory_bytes :=
           (if cc_memory_mode cfg = REL4U_MEM_DYNAMIC \<and> cc_max_send_memory_bytes cfg = 0 then 1024 * 1024
            else cc_max_send_memory_bytes cfg),
         cc_max_recv_memory_bytes :=
           (if cc_memory_mode cfg = REL4U_MEM_DYNAMIC \<and> cc_max_recv_memory_bytes cfg = 0 then 1024 * 1024
            else cc_max_recv_memory_bytes cfg)\<rparr>"

text \<open>The allocations of \<open>rel4u_client_create\<close>: the struct, the two rings, the two slot tables.\<close>

record client_mem =
  cm_client :: bool
  cm_send_ring :: "rel4u_mpmc_item list option"
  cm_recv_ring :: "rel4u_mpmc_item list option"
  cm_send_slots :: bool
  cm_recv_slots :: bool

definition zero_client :: "rel4u_client_config \<Rightarrow> rel4u_client" where
  "zero_client cfg =
     \<lparr>cl_config = cfg, cl_sock = 0, cl_server_addr = zero_addr, cl_wakeup_pipe = \<lparr>read_fd = 0, write_fd = 0\<rparr>,
      cl_worker_started = False, cl_running = False, cl_state = REL4U_STATE_DISCONNECTED, cl_session_id = 0,
      cl_rejected = False, cl_send_queue = zero_queue, cl_recv_queue = zero_queue, cl_send_win = zero_send_window,
      cl_recv_win = zero_recv_window, cl_rtt = zero_rtt, cl_ready_slots = replicate 64 zero_recv_slot,
      cl_last_activity_ns = 0, cl_last_heartbeat_sent_ns = 0, cl_last_ack_sent_ns = 0, cl_ack_pending = False,
      cl_stats = zero_stats\<rparr>"

definition rel4u_client_create :: "client_mem \<Rightarrow> rel4u_client_config option \<Rightarrow> rel4u_client option" where
  "rel4u_client_create mem config =
     (case config of
        None \<Rightarrow> None
      | Some cfg \<Rightarrow>
          if cc_server_address cfg = None \<or> cc_server_port cfg = 0 then None
          else if \<not> cm_client mem then None
          else
            (let cfg = client_defaults cfg;
                 c = (zero_client cfg)\<lparr>cl_sock := REL4U_INVALID_SOCKET, cl_state := REL4U_STATE_DISCONNECTED,
                                       cl_running := False\<rparr>;
                 sq = rel4u_mpmc_init (cm_send_ring mem) (cc_memory_mode cfg) (cc_queue_full_policy cfg)
                        (ucast (cc_send_queue_capacity cfg)) (cc_max_send_memory_bytes cfg);
                 rq = rel4u_mpmc_init (cm_recv_ring mem) (cc_memory_mode cfg) (cc_queue_full_policy cfg)
                        (ucast (cc_recv_queue_capacity cfg)) (cc_max_recv_memory_bytes cfg);
                 sw = rel4u_send_window_init (cm_send_slots mem) (cl_send_win c) (cc_window_size cfg) 1;
                 rw = rel4u_recv_window_init (cm_recv_slots mem) (cl_recv_win c) (cc_window_size cfg) 1
             in if fst sq \<noteq> 0 then None
                else if fst rq \<noteq> 0 then None
                else if fst sw \<noteq> 0 then None
                else if fst rw \<noteq> 0 then None
                else
                  Some (c\<lparr>cl_send_queue := snd sq, cl_recv_queue := snd rq, cl_send_win := snd sw,
                          cl_recv_win := snd rw, cl_rtt := default_rtt\<rparr>)))"

subsection \<open>Connecting and disconnecting\<close>

text \<open>Lines both \<open>rel4u_client_connect\<close> and \<open>rel4u_client_disconnect\<close> have: windows, RTT and session are reset.\<close>

definition client_reset_session :: "rel4u_client \<Rightarrow> rel4u_client" where
  "client_reset_session c =
     c\<lparr>cl_send_win := snd (rel4u_send_window_reset (cl_send_win c) 1),
       cl_recv_win := snd (rel4u_recv_window_reset (cl_recv_win c) 1),
       cl_rtt := default_rtt, cl_session_id := 0, cl_ack_pending := False\<rparr>"

text \<open>
  Disconnecting up to the point where it waits for the worker: if that still runs, the state is changed, the \<open>DISCONNECT\<close>
  packet is sent, and the worker is told to end. The worker may run between these steps.
\<close>

definition client_leave :: "rel4u_client \<Rightarrow> rel4u_client" where
  "client_leave c = c\<lparr>cl_state := REL4U_STATE_DISCONNECTING\<rparr>"

definition client_fin :: "env \<Rightarrow> client_world \<Rightarrow> client_world" where
  "client_fin e = (\<lambda>(c, w).
     (let buf = control_datagram (take REL4U_HEADER_LEN (env_raw_buf e)) REL4U_PKT_DISCONNECT (cl_session_id c) 0
      in (c, snd (rel4u_net_sendto e (cl_sock c) buf (cl_server_addr c) w))))"

definition client_halt :: "rel4u_client \<Rightarrow> rel4u_client" where
  "client_halt c = c\<lparr>cl_running := False\<rparr>"

definition client_wake :: "rel4u_client \<Rightarrow> rel4u_client" where
  "client_wake c = c\<lparr>cl_recv_queue := rel4u_mpmc_wake_all (cl_recv_queue c)\<rparr>"

definition client_shutdown :: "env \<Rightarrow> client_world \<Rightarrow> client_world" where
  "client_shutdown e = (\<lambda>(c, w).
     (let (c, w) =
            (if cl_running c then (let (c, w) = client_fin e (client_leave c, w) in (client_halt c, w))
             else (c, w))
      in (client_wake c, w)))"

lemmas client_shutdown_defs = client_shutdown_def client_leave_def client_fin_def client_halt_def client_wake_def

text \<open>After the worker has ended.\<close>

definition client_teardown :: "rel4u_client \<Rightarrow> rel4u_client" where
  "client_teardown c =
     client_reset_session
       (c\<lparr>cl_worker_started := False, cl_wakeup_pipe := rel4u_wakeup_pipe_close (cl_wakeup_pipe c),
          cl_sock := REL4U_INVALID_SOCKET, cl_state := REL4U_STATE_DISCONNECTED\<rparr>)"

definition rel4u_client_disconnect ::
  "env \<Rightarrow> (client_world \<Rightarrow> client_world option) \<Rightarrow> client_world \<Rightarrow> (int \<times> client_world) option" where
  "rel4u_client_disconnect e join = (\<lambda>(c, w).
     if \<not> cl_worker_started c then
       Some (REL4U_OK,
         (if cl_sock c \<noteq> REL4U_INVALID_SOCKET then c\<lparr>cl_sock := REL4U_INVALID_SOCKET\<rparr> else c)
           \<lparr>cl_state := REL4U_STATE_DISCONNECTED\<rparr>, w)
     else do {
       (c, w) \<leftarrow> join (client_shutdown e (c, w));
       Some (REL4U_OK, client_teardown c, w)
     })"

text \<open>
  Connecting, from the address lookup to the start of the worker; the result is \<open>REL4U_OK\<close> if it runs.
  Binding to a configured local address changes no field, and its result is not looked at.
\<close>

definition client_open :: "sys \<Rightarrow> rel4u_client \<Rightarrow> int \<times> rel4u_client" where
  "client_open sys c =
     (case rel4u_net_addr_from_string sys (the (cc_server_address (cl_config c))) (cc_server_port (cl_config c)) of
        (r, addr) \<Rightarrow>
          let c = c\<lparr>cl_server_addr := addr\<rparr>
          in if r \<noteq> 0 then (REL4U_ERR_INVALID_PARAM, c)
             else
               (let c = (client_reset_session c)\<lparr>cl_rejected := False\<rparr>;
                    c = c\<lparr>cl_sock := rel4u_net_socket_create_udp sys (is_AF_INET6 (na_addr (cl_server_addr c)))\<rparr>
                in if cl_sock c = REL4U_INVALID_SOCKET then (REL4U_ERR_SOCKET, c)
                   else
                     (case rel4u_wakeup_pipe_create sys (cl_wakeup_pipe c) of
                        (pr, pipe) \<Rightarrow>
                          let c = c\<lparr>cl_wakeup_pipe := pipe\<rparr>
                          in if pr \<noteq> 0 then (REL4U_ERR_SYSTEM, c\<lparr>cl_sock := REL4U_INVALID_SOCKET\<rparr>)
                             else
                               (let c = c\<lparr>cl_state := REL4U_STATE_CONNECTING, cl_running := True\<rparr>
                                in if sys_thread_create sys \<noteq> 0 then
                                     (REL4U_ERR_SYSTEM,
                                      c\<lparr>cl_running := False, cl_state := REL4U_STATE_DISCONNECTED,
                                        cl_wakeup_pipe := rel4u_wakeup_pipe_close (cl_wakeup_pipe c),
                                        cl_sock := REL4U_INVALID_SOCKET\<rparr>)
                                   else (REL4U_OK, c\<lparr>cl_worker_started := True\<rparr>)))))"

text \<open>One look at the connection: the code to return, or \<open>None\<close> to go on waiting.\<close>

definition connect_check :: "env \<Rightarrow> u64 \<Rightarrow> client_world \<Rightarrow> int option \<times> world" where
  "connect_check e start_ms = (\<lambda>(c, w).
     let failure = (if cl_rejected c then REL4U_ERR_SERVER_FULL else REL4U_ERR_NOT_CONNECTED)
     in if \<not> cl_running c then (Some failure, w)
        else if cl_state c = REL4U_STATE_CONNECTED then (Some REL4U_OK, w)
        else if cl_state c = REL4U_STATE_DISCONNECTED then (Some failure, w)
        else
          (case rel4u_time_now_ms e w of
             (now_ms, w) \<Rightarrow>
               (if now_ms - start_ms \<ge> ucast (cc_connect_timeout_ms (cl_config c)) then Some REL4U_ERR_TIMEOUT
                else None, w)))"

text \<open>The waiting loop. A call still waiting when \<open>naps\<close> is used up has no result yet.\<close>

fun connect_wait ::
  "env \<Rightarrow> u64 \<Rightarrow> (client_world \<Rightarrow> client_world option) list \<Rightarrow> client_world \<Rightarrow> (int option \<times> client_world) option" where
  "connect_wait e start_ms naps (c, w) =
     (case connect_check e start_ms (c, w) of
        (Some r, w) \<Rightarrow> Some (Some r, c, w)
      | (None, w) \<Rightarrow>
          (case naps of
             [] \<Rightarrow> Some (None, c, w)
           | nap # naps \<Rightarrow> Option.bind (nap (c, w)) (connect_wait e start_ms naps)))"

declare connect_wait.simps [simp del]

definition rel4u_client_connect ::
  "env \<Rightarrow> sys \<Rightarrow> (client_world \<Rightarrow> client_world option) \<Rightarrow> (client_world \<Rightarrow> client_world option) list \<Rightarrow>
   client_world \<Rightarrow> (int option \<times> client_world) option" where
  "rel4u_client_connect e sys join naps = (\<lambda>(c, w).
     if cl_state c = REL4U_STATE_CONNECTED then Some (Some REL4U_OK, c, w)
     else do {
       (_, c, w) \<leftarrow> rel4u_client_disconnect e join (c, w);
       case client_open sys c of
         (r, c) \<Rightarrow>
           if r \<noteq> REL4U_OK then Some (Some r, c, w)
           else
             (case rel4u_time_now_ms e w of
                (start_ms, w) \<Rightarrow> do {
                  (res, c, w) \<leftarrow> connect_wait e start_ms naps (c, w);
                  if res = None \<or> res = Some REL4U_OK then Some (res, c, w)
                  else do {
                    (_, c, w) \<leftarrow> rel4u_client_disconnect e join (c, w);
                    Some (res, c, w)
                  }
                })
     })"

definition rel4u_client_destroy ::
  "env \<Rightarrow> (client_world \<Rightarrow> client_world option) \<Rightarrow> client_world \<Rightarrow> client_world option" where
  "rel4u_client_destroy e join cw = do {
     (_, c, w) \<leftarrow> rel4u_client_disconnect e join cw;
     Some (c\<lparr>cl_send_queue := rel4u_mpmc_destroy (cl_send_queue c), cl_recv_queue := rel4u_mpmc_destroy (cl_recv_queue c),
             cl_send_win := rel4u_send_window_destroy (cl_send_win c),
             cl_recv_win := rel4u_recv_window_destroy (cl_recv_win c)\<rparr>, w)
   }"

subsection \<open>Sending, receiving and statistics\<close>

definition rel4u_client_send ::
  "env \<Rightarrow> u8 \<Rightarrow> u8 list option \<Rightarrow> size_t \<Rightarrow> client_world \<Rightarrow> (int \<times> client_world) option" where
  "rel4u_client_send e mode data len = (\<lambda>(c, w).
     case data of
       None \<Rightarrow> Some (REL4U_ERR_INVALID_PARAM, c, w)
     | Some bytes \<Rightarrow>
         if unat len > REL4U_MAX_PAYLOAD (cc_mtu (cl_config c)) then Some (REL4U_ERR_MSG_TOO_LARGE, c, w)
         else if \<not> cl_running c then Some (REL4U_ERR_NOT_CONNECTED, c, w)
         else if cl_state c \<noteq> REL4U_STATE_CONNECTED \<and>
                 (cc_disable_auto_reconnect (cl_config c) \<or> cl_state c \<noteq> REL4U_STATE_CONNECTING)
         then Some (REL4U_ERR_NOT_CONNECTED, c, w)
         else do {
           item_data \<leftarrow> memcpy (it_data (env_item e)) bytes (unat len);
           let item = (env_item e)\<lparr>it_client_id := 0, it_mode := mode, it_len := ucast len, it_data := item_data\<rparr>;
           let (pushed, q) = rel4u_mpmc_try_push (env_alloc e (wd_pushes w)) (cl_send_queue c) (Some item);
           let c = c\<lparr>cl_send_queue := q\<rparr>;
           let w = w\<lparr>wd_pushes := wd_pushes w + 1\<rparr>;
           if \<not> pushed then
             Some (REL4U_ERR_QUEUE_FULL,
                   c\<lparr>cl_stats := (cl_stats c)\<lparr>packets_dropped_queue_full :=
                        dropped_total (cl_send_queue c) (cl_recv_queue c)\<rparr>\<rparr>, w)
           else Some (REL4U_OK, c, w)
         })"

text \<open>
  The result code, the client, the buffer and the stored length. \<open>wakes\<close> is as in
  \<open>rel4u_mpmc_pop_wait\<close>; the outer \<open>None\<close> is a fault, the inner one a caller that still waits.
\<close>

definition rel4u_client_recv ::
  "env \<Rightarrow> (bool \<times> rel4u_mpmc_queue) list \<Rightarrow> u8 list option \<Rightarrow> size_t \<Rightarrow> int \<Rightarrow> rel4u_client \<Rightarrow>
   (int \<times> rel4u_client \<times> u8 list option \<times> size_t option) option option" where
  "rel4u_client_recv e wakes buffer buffer_size timeout_ms c =
     (case buffer of
        None \<Rightarrow> Some (Some (REL4U_ERR_INVALID_PARAM, c, buffer, None))
      | Some buf \<Rightarrow>
          if buffer_size = 0 then Some (Some (REL4U_ERR_INVALID_PARAM, c, buffer, None))
          else
            (case rel4u_mpmc_pop_wait wakes (cl_recv_queue c) (Some (env_item e)) timeout_ms of
               None \<Rightarrow> Some None
             | Some (ok, q, item) \<Rightarrow>
                 let c = c\<lparr>cl_recv_queue := q\<rparr>
                 in if \<not> ok then
                      Some (Some (if timeout_ms = 0 then REL4U_ERR_QUEUE_EMPTY else REL4U_ERR_TIMEOUT, c, buffer, None))
                    else
                      (let copy_len = (if ucast (it_len (the item)) \<le> buffer_size then ucast (it_len (the item)) else buffer_size)
                       in map_option (\<lambda>buf. Some (REL4U_OK, c, Some buf, Some copy_len))
                            (memcpy buf (it_data (the item)) (unat copy_len)))))"

definition rel4u_client_get_state :: "rel4u_client option \<Rightarrow> rel4u_conn_state" where
  "rel4u_client_get_state c = (case c of None \<Rightarrow> REL4U_STATE_DISCONNECTED | Some c \<Rightarrow> cl_state c)"

definition rel4u_client_get_stats :: "rel4u_client \<Rightarrow> rel4u_stats option \<Rightarrow> int \<times> rel4u_stats option" where
  "rel4u_client_get_stats c out_stats =
     (case out_stats of
        None \<Rightarrow> (REL4U_ERR_INVALID_PARAM, None)
      | Some _ \<Rightarrow>
          (REL4U_OK,
           Some ((cl_stats c)\<lparr>packets_dropped_queue_full := dropped_total (cl_send_queue c) (cl_recv_queue c),
                              send_queue_occupancy := ucast (rel4u_mpmc_size (Some (cl_send_queue c))),
                              recv_queue_occupancy := ucast (rel4u_mpmc_size (Some (cl_recv_queue c))),
                              send_queue_bytes := rel4u_mpmc_bytes (Some (cl_send_queue c)),
                              recv_queue_bytes := rel4u_mpmc_bytes (Some (cl_recv_queue c)),
                              current_rto_ms := rel4u_rtt_get_rto (Some (cl_rtt c))\<rparr>)))"

subsection \<open>The worker\<close>

definition client_send_packet ::
  "env \<Rightarrow> u8 \<Rightarrow> u8 \<Rightarrow> u32 \<Rightarrow> u8 list option \<Rightarrow> size_t \<Rightarrow> client_world \<Rightarrow> client_world option" where
  "client_send_packet e type mode seq payload len = (\<lambda>(c, w). do {
     (hdr_len, bytes) \<leftarrow> build_datagram e (cl_recv_win c) (cl_session_id c) type mode seq payload len;
     if hdr_len \<le> 0 then Some (c, w)
     else
       (case rel4u_net_sendto e (cl_sock c) bytes (cl_server_addr c) w of
          (sent, w) \<Rightarrow>
            if sent > 0 then
              (case rel4u_time_now_ns e w of
                 (now_ns, w) \<Rightarrow>
                   Some (c\<lparr>cl_stats := (cl_stats c)\<lparr>packets_sent := packets_sent (cl_stats c) + 1,
                                                    bytes_sent := bytes_sent (cl_stats c) + of_int sent\<rparr>,
                           cl_last_ack_sent_ns := now_ns, cl_ack_pending := False\<rparr>, w))
            else Some (c, w))
   })"

text \<open>A packet without payload.\<close>

abbreviation client_send_control :: "env \<Rightarrow> u8 \<Rightarrow> client_world \<Rightarrow> client_world option" where
  "client_send_control e type \<equiv> client_send_packet e type REL4U_MODE_UNRELIABLE_UNORDERED 0 None 0"

definition client_trigger_reconnect :: "env \<Rightarrow> client_world \<Rightarrow> client_world option" where
  "client_trigger_reconnect e = (\<lambda>(c, w).
     if cc_disable_auto_reconnect (cl_config c) then Some (c\<lparr>cl_state := REL4U_STATE_DISCONNECTED\<rparr>, w)
     else do {
       (_, q) \<leftarrow> rel4u_send_window_reclaim_unacked (env_alloc e (wd_pushes w)) (cl_send_win c) (Some (cl_send_queue c));
       let c = client_reset_session (c\<lparr>cl_send_queue := the q\<rparr>);
       let (now_ns, w) = rel4u_time_now_ns e (w\<lparr>wd_pushes := wd_pushes w + 1\<rparr>);
       Some (c\<lparr>cl_last_activity_ns := now_ns, cl_state := REL4U_STATE_CONNECTING\<rparr>, w)
     })"

text \<open>The first part of a round; \<open>last_connect_req_ns\<close> is a local variable of the thread.\<close>

definition client_handshake :: "env \<Rightarrow> rel4u_conn_state \<Rightarrow> u64 \<Rightarrow> u64 \<Rightarrow> client_world \<Rightarrow> (u64 \<times> client_world) option" where
  "client_handshake e state now_ns last_connect_req_ns = (\<lambda>(c, w).
     if state = REL4U_STATE_CONNECTING then
       (let iv = cc_reconnect_interval_ms (cl_config c);
            retry_ms = (if iv > 0 \<and> iv < 200 then iv else 200)
        in if now_ns - last_connect_req_ns \<ge> ucast retry_ms * 1000000 then
             map_option (Pair now_ns) (client_send_control e REL4U_PKT_CONNECT_REQ (c, w))
           else Some (last_connect_req_ns, c, w))
     else Some (last_connect_req_ns, c, w))"

text \<open>Which packets the worker looks at: from the server, well formed, and belonging to the handshake or session.\<close>

definition client_accepts :: "rel4u_conn_state \<Rightarrow> rel4u_client \<Rightarrow> rel4u_header \<Rightarrow> bool" where
  "client_accepts state c hdr \<longleftrightarrow>
     (if packet_type hdr = REL4U_PKT_REJECT then state = REL4U_STATE_CONNECTING
      else if packet_type hdr = REL4U_PKT_CONNECT_RESP then state = REL4U_STATE_CONNECTING \<and> session_id hdr \<noteq> 0
      else state = REL4U_STATE_CONNECTED \<and> session_id hdr = cl_session_id c)"

text \<open>A packet of the established session: acknowledgements, then heartbeats and data.\<close>

definition client_on_session_packet ::
  "env \<Rightarrow> u64 \<Rightarrow> rel4u_header \<Rightarrow> u8 list \<Rightarrow> client_world \<Rightarrow> client_world option" where
  "client_on_session_packet e now_ns hdr bytes = (\<lambda>(c, w). do {
     (win, rtt, stats) \<leftarrow> rel4u_send_window_on_ack (cl_send_win c) (ack_num hdr) (sack_mask hdr) now_ns
                            (Some (cl_rtt c)) (Some (cl_stats c));
     let c = c\<lparr>cl_send_win := win, cl_rtt := the rtt, cl_stats := the stats\<rparr>;
     (c, w) \<leftarrow> (if packet_type hdr = REL4U_PKT_HEARTBEAT
                 then client_send_control e REL4U_PKT_HEARTBEAT_ACK (c, w) else Some (c, w));
     if packet_type hdr = REL4U_PKT_DATA then do {
       (win, slots, (q, w), ack) \<leftarrow> on_data e 0 (cl_recv_win c) (cl_ready_slots c) hdr
                                      (drop REL4U_HEADER_LEN bytes) (cl_recv_queue c, w);
       Some (c\<lparr>cl_recv_win := win, cl_ready_slots := slots, cl_recv_queue := q,
               cl_ack_pending := (if ack then True else cl_ack_pending c)\<rparr>, w)
     }
     else Some (c, w)
   })"

text \<open>
  An accepted packet, from the reading of the clock on: whether the receiving loop ends, the
  worker's copy of the state, and the client.
\<close>

definition client_on_packet ::
  "env \<Rightarrow> rel4u_conn_state \<Rightarrow> rel4u_header \<Rightarrow> u8 list \<Rightarrow> client_world \<Rightarrow>
   (bool \<times> rel4u_conn_state \<times> client_world) option" where
  "client_on_packet e state hdr bytes = (\<lambda>(c, w).
     case rel4u_time_now_ns e w of
       (now_ns, w) \<Rightarrow>
         let c = c\<lparr>cl_last_activity_ns := now_ns,
                   cl_stats := (cl_stats c)\<lparr>packets_recv := packets_recv (cl_stats c) + 1,
                                            bytes_recv := bytes_recv (cl_stats c) + of_nat (length bytes)\<rparr>\<rparr>
         in if packet_type hdr = REL4U_PKT_CONNECT_RESP \<and> state = REL4U_STATE_CONNECTING then do {
              (c, w) \<leftarrow> client_send_control e REL4U_PKT_CONNECT_ACK
                         (c\<lparr>cl_session_id := session_id hdr, cl_state := REL4U_STATE_CONNECTED\<rparr>, w);
              Some (False, REL4U_STATE_CONNECTED,
                    c\<lparr>cl_last_activity_ns := now_ns, cl_last_heartbeat_sent_ns := now_ns\<rparr>, w)
            }
            else if packet_type hdr = REL4U_PKT_RESET then do {
              (c, w) \<leftarrow> client_trigger_reconnect e (c, w);
              Some (False, cl_state c, c, w)
            }
            else if packet_type hdr = REL4U_PKT_REJECT then
              Some (True, state, c\<lparr>cl_rejected := True, cl_state := REL4U_STATE_DISCONNECTED, cl_running := False\<rparr>, w)
            else if packet_type hdr = REL4U_PKT_DISCONNECT then
              Some (True, state, c\<lparr>cl_state := REL4U_STATE_DISCONNECTED, cl_running := False\<rparr>, w)
            else map_option (\<lambda>cw. (False, state, cw)) (client_on_session_packet e now_ns hdr bytes (c, w)))"

definition client_on_datagram ::
  "env \<Rightarrow> rel4u_conn_state \<Rightarrow> u8 list \<times> rel4u_net_addr \<Rightarrow> client_world \<Rightarrow>
   (bool \<times> rel4u_conn_state \<times> client_world) option" where
  "client_on_datagram e state dg = (\<lambda>(c, w).
     case dg of (bytes, src) \<Rightarrow>
       if \<not> rel4u_net_addr_equal (Some src) (Some (cl_server_addr c)) then Some (False, state, c, w)
       else
         (case rel4u_packet_decode_header (Some bytes) (of_nat (length bytes)) (Some zero_header) of
            (r, hdr) \<Rightarrow>
              if r \<noteq> 0 \<or> \<not> client_accepts state c (the hdr) then Some (False, state, c, w)
              else client_on_packet e state (the hdr) bytes (c, w)))"

text \<open>The receiving loop over the datagrams that have arrived; an empty one ends it too.\<close>

primrec client_receive ::
  "env \<Rightarrow> (u8 list \<times> rel4u_net_addr) list \<Rightarrow> rel4u_conn_state \<Rightarrow> client_world \<Rightarrow>
   (rel4u_conn_state \<times> client_world) option" where
  "client_receive e [] state cw = Some (state, cw)"
| "client_receive e (dg # dgs) state cw =
     (case rel4u_net_recvfrom (Some dg) (cl_sock (fst cw)) (REL4U_MAX_PAYLOAD_SIZE + REL4U_HEADER_LEN) of
        (bytes_read, got) \<Rightarrow>
          if bytes_read > 0 then do {
            (stop, state, cw) \<leftarrow> client_on_datagram e state (the got) cw;
            if stop then Some (state, cw) else client_receive e dgs state cw
          }
          else Some (state, cw))"

lemma client_send_packet_keeps:
  assumes "client_send_packet e type mode seq payload len (c, w) = Some (c', w')"
  shows "\<exists>st t a. c' = c\<lparr>cl_stats := st, cl_last_ack_sent_ns := t, cl_ack_pending := a\<rparr>"
proof -
  obtain h bs where d: "build_datagram e (cl_recv_win c) (cl_session_id c) type mode seq payload len = Some (h, bs)"
    using assms by (cases "build_datagram e (cl_recv_win c) (cl_session_id c) type mode seq payload len")
      (auto simp: client_send_packet_def)
  have same: "\<exists>st t a. c = c\<lparr>cl_stats := st, cl_last_ack_sent_ns := t, cl_ack_pending := a\<rparr>"
    by (intro exI [of _ "cl_stats c"] exI [of _ "cl_last_ack_sent_ns c"] exI [of _ "cl_ack_pending c"]) simp
  obtain s w1 where s: "rel4u_net_sendto e (cl_sock c) bs (cl_server_addr c) w = (s, w1)" by (metis prod.exhaust)
  obtain t w2 where t: "rel4u_time_now_ns e w1 = (t, w2)" by (metis prod.exhaust)
  show ?thesis
  proof (cases "h \<le> 0 \<or> \<not> s > 0")
    case True
    then have "c' = c" using assms by (auto simp: client_send_packet_def d s split: if_splits)
    with same show ?thesis by simp
  next
    case False
    then have "c' = c\<lparr>cl_stats := (cl_stats c)\<lparr>packets_sent := packets_sent (cl_stats c) + 1,
        bytes_sent := bytes_sent (cl_stats c) + of_int s\<rparr>, cl_last_ack_sent_ns := t, cl_ack_pending := False\<rparr>"
      using assms by (auto simp: client_send_packet_def d s t split: if_splits)
    then show ?thesis by blast
  qed
qed

lemma client_send_packet_queue:
  assumes "client_send_packet e type mode seq payload len (c, w) = Some (c', w')"
  shows "cl_send_queue c' = cl_send_queue c" "cl_send_win c' = cl_send_win c"
  using client_send_packet_keeps [OF assms] by auto

text \<open>One message into the window, and onto the wire unless the window refuses it.\<close>

definition client_transmit :: "env \<Rightarrow> rel4u_mpmc_item \<Rightarrow> client_world \<Rightarrow> client_world option" where
  "client_transmit e item = (\<lambda>(c, w).
     case rel4u_time_now_ns e w of
       (now_ns, w) \<Rightarrow> do {
         (push_res, win, seq) \<leftarrow> rel4u_send_window_push (cl_send_win c) (it_mode item) (Some (it_data item))
                                   (ucast (it_len item)) now_ns;
         let c = c\<lparr>cl_send_win := win\<rparr>;
         let seq = (case seq of None \<Rightarrow> 0 | Some s \<Rightarrow> s);
         if push_res = 0 then
           client_send_packet e REL4U_PKT_DATA (it_mode item) seq (Some (it_data item)) (ucast (it_len item)) (c, w)
         else Some (c, w)
       })"

lemma client_transmit_queue:
  assumes "client_transmit e item (c, w) = Some (c', w')"
  shows "cl_send_queue c' = cl_send_queue c"
proof -
  obtain t w1 where t: "rel4u_time_now_ns e w = (t, w1)" by (metis prod.exhaust)
  obtain r win seq where p: "rel4u_send_window_push (cl_send_win c) (it_mode item) (Some (it_data item)) (ucast (it_len item)) t =
      Some (r, win, seq)"
    using assms by (cases "rel4u_send_window_push (cl_send_win c) (it_mode item) (Some (it_data item)) (ucast (it_len item)) t")
      (auto simp: client_transmit_def t)
  show ?thesis
  proof (cases "r = 0")
    case True
    with assms client_send_packet_queue(1) [of e REL4U_PKT_DATA "it_mode item" "case seq of None \<Rightarrow> 0 | Some s \<Rightarrow> s"
        "Some (it_data item)" "ucast (it_len item)" "c\<lparr>cl_send_win := win\<rparr>" w1 c' w']
    show ?thesis by (simp add: client_transmit_def t p)
  next
    case False
    with assms show ?thesis by (auto simp: client_transmit_def t p)
  qed
qed

text \<open>Every round takes a message out of the queue, so the loop ends.\<close>

function client_drain_loop :: "env \<Rightarrow> rel4u_mpmc_item \<Rightarrow> client_world \<Rightarrow> client_world option" where
  "client_drain_loop e item (c, w) =
     (if rel4u_send_window_can_send (cl_send_win c) then
        (case rel4u_mpmc_try_pop (cl_send_queue c) (Some item) of
           (popped, q, out) \<Rightarrow>
             if popped then
               (case client_transmit e (the out) (c\<lparr>cl_send_queue := q\<rparr>, w) of
                  None \<Rightarrow> None
                | Some cw \<Rightarrow> client_drain_loop e (the out) cw)
             else Some (c\<lparr>cl_send_queue := q\<rparr>, w))
      else Some (c, w))"
  by pat_completeness auto

termination client_drain_loop
proof (relation "measure (\<lambda>(e, item, c, w). unat (q_count (cl_send_queue c)))", simp)
  fix e :: env and item :: rel4u_mpmc_item and c :: rel4u_client and w :: world and cw :: client_world
    and x y q out
  assume a: "(x, y) = rel4u_mpmc_try_pop (cl_send_queue c) (Some item)" "(q, out) = y" x
    and t: "client_transmit e (the out) (c\<lparr>cl_send_queue := q\<rparr>, w) = Some cw"
  obtain c' w' where cw: "cw = (c', w')" by (cases cw)
  have "unat (q_count q) < unat (q_count (cl_send_queue c))"
    using try_pop_count [of "cl_send_queue c" item q out] a by simp
  moreover have "cl_send_queue c' = q" using client_transmit_queue [OF t [unfolded cw]] by simp
  ultimately show "((e, the out, cw), e, item, c, w) \<in> measure (\<lambda>(e, item, c, w). unat (q_count (cl_send_queue c)))"
    by (simp add: cw)
qed

declare client_drain_loop.simps [simp del]

definition client_drain :: "env \<Rightarrow> rel4u_conn_state \<Rightarrow> client_world \<Rightarrow> client_world option" where
  "client_drain e state cw =
     (if state = REL4U_STATE_CONNECTED then client_drain_loop e (env_item e) cw else Some cw)"

text \<open>The retransmission of the expired slots.\<close>

fun client_resend :: "env \<Rightarrow> u64 \<Rightarrow> nat list \<Rightarrow> client_world \<Rightarrow> client_world option" where
  "client_resend e now_ns [] cw = Some cw"
| "client_resend e now_ns (i # is) (c, w) = do {
     win \<leftarrow> mark_retransmit (cl_send_win c) i now_ns;
     slot \<leftarrow> deref (sw_slots win) i;
     cw \<leftarrow> client_send_packet e REL4U_PKT_DATA (ss_delivery_mode slot) (ss_seq_num slot) (Some (ss_payload slot))
            (ucast (ss_payload_len slot)) (c\<lparr>cl_send_win := win\<rparr>, w);
     client_resend e now_ns is cw
   }"

definition client_retransmit :: "env \<Rightarrow> u64 \<Rightarrow> client_world \<Rightarrow> client_world option" where
  "client_retransmit e now_ns = (\<lambda>(c, w). do {
     expired \<leftarrow> rel4u_send_window_get_expired (cl_send_win c) now_ns (rel4u_rtt_get_rto (Some (cl_rtt c))) 16;
     let exp_count = length expired;
     if exp_count > 0 then
       client_resend e now_ns expired
         (c\<lparr>cl_rtt := rel4u_rtt_on_timeout (cl_rtt c),
            cl_stats := (cl_stats c)\<lparr>packets_retransmitted := packets_retransmitted (cl_stats c) + of_nat exp_count,
                                     packets_lost := packets_lost (cl_stats c) + of_nat exp_count\<rparr>\<rparr>, w)
     else Some (c, w)
   })"

definition client_heartbeat :: "env \<Rightarrow> u64 \<Rightarrow> client_world \<Rightarrow> client_world option" where
  "client_heartbeat e now_ns = (\<lambda>(c, w).
     if now_ns - cl_last_heartbeat_sent_ns c \<ge> ucast (cc_heartbeat_interval_ms (cl_config c)) * 1000000 then
       map_option (\<lambda>(c, w). (c\<lparr>cl_last_heartbeat_sent_ns := now_ns\<rparr>, w)) (client_send_control e REL4U_PKT_HEARTBEAT (c, w))
     else Some (c, w))"

definition client_timers :: "env \<Rightarrow> rel4u_conn_state \<Rightarrow> client_world \<Rightarrow> client_world option" where
  "client_timers e state = (\<lambda>(c, w).
     if state = REL4U_STATE_CONNECTED then
       (case rel4u_time_now_ns e w of
          (now_ns, w) \<Rightarrow> do {
            (c, w) \<leftarrow> client_retransmit e now_ns (c, w);
            (c, w) \<leftarrow> (if cl_ack_pending c then client_send_control e REL4U_PKT_ACK (c, w) else Some (c, w));
            (c, w) \<leftarrow> client_heartbeat e now_ns (c, w);
            if now_ns - cl_last_activity_ns c \<ge> ucast (cc_inactivity_timeout_ms (cl_config c)) * 1000000 then
              if cc_disable_auto_reconnect (cl_config c) then Some (c\<lparr>cl_state := REL4U_STATE_DISCONNECTED\<rparr>, w)
              else client_trigger_reconnect e (c, w)
            else Some (c, w)
          })
     else Some (c, w))"

text \<open>
  A round of the worker. \<open>polled\<close> is what \<open>poll\<close> returns and \<open>dgs\<close> the datagrams \<open>recvfrom\<close> finds.
\<close>

definition client_round ::
  "env \<Rightarrow> (int \<times> bool list) \<times> (u8 list \<times> rel4u_net_addr) list \<Rightarrow> u64 \<times> client_world \<Rightarrow> (u64 \<times> client_world) option" where
  "client_round e inp = (\<lambda>(last_connect_req_ns, c, w).
     case inp of ((ret, revents), dgs) \<Rightarrow>
       case rel4u_time_now_ns e w of
         (now_ns, w) \<Rightarrow> do {
           let state = cl_state c;
           (last_connect_req_ns, c, w) \<leftarrow> client_handshake e state now_ns last_connect_req_ns (c, w);
           (state, cw) \<leftarrow>
             (case rel4u_net_poll (cl_sock c) (Some (cl_wakeup_pipe c)) ret revents of
                (_, sock_read, pipe_read) \<Rightarrow>
                  if sock_read then client_receive e dgs state (c, w) else Some (state, c, w));
           cw \<leftarrow> client_drain e state cw;
           cw \<leftarrow> client_timers e state cw;
           Some (last_connect_req_ns, cw)
         })"

fun client_rounds ::
  "env \<Rightarrow> ((int \<times> bool list) \<times> (u8 list \<times> rel4u_net_addr) list) list \<Rightarrow> u64 \<times> client_world \<Rightarrow> client_world option" where
  "client_rounds e [] (_, cw) = Some cw"
| "client_rounds e (inp # inps) (last_req, c, w) =
     (if cl_running c then Option.bind (client_round e inp (last_req, c, w)) (client_rounds e inps) else Some (c, w))"

definition client_worker_thread_func ::
  "env \<Rightarrow> ((int \<times> bool list) \<times> (u8 list \<times> rel4u_net_addr) list) list \<Rightarrow> client_world \<Rightarrow> client_world option" where
  "client_worker_thread_func e inps = (\<lambda>(c, w).
     case rel4u_time_now_ns e w of
       (t1, w) \<Rightarrow> (case rel4u_time_now_ns e w of
         (t2, w) \<Rightarrow> (case rel4u_time_now_ns e w of
           (t3, w) \<Rightarrow>
             client_rounds e inps
               (0, c\<lparr>cl_last_activity_ns := t1, cl_last_heartbeat_sent_ns := t2, cl_last_ack_sent_ns := t3\<rparr>, w))))"

end
