(* ===== verification/Client_Correct.thy ===== *)
theory Client_Correct
  imports Client Endpoint_Correct
begin

text \<open>
  The client's invariant, and what each operation does to it: well-formed windows and queues, a
  receive window with nothing ready left in it, a timeout in its range, and an MTU for which every
  message fits the buffers. For draining the send queue and for reconnecting, also what happens to the messages.
\<close>

subsection \<open>The invariant\<close>

definition client_inv :: "rel4u_client \<Rightarrow> bool" where
  "client_inv c \<longleftrightarrow>
     send_inv (cl_send_win c) \<and> receiving_ok (cl_recv_win c) (cl_ready_slots c) \<and>
     queue_inv (cl_send_queue c) \<and> queue_inv (cl_recv_queue c) \<and> rto_ok (cl_rtt c) \<and>
     unat (cc_mtu (cl_config c)) \<le> REL4U_MAX_PAYLOAD_SIZE + REL4U_HEADER_LEN"

lemma reset_session_windows:
  assumes "client_inv c"
  shows "send_inv (cl_send_win (client_reset_session c))" "sw_entries (cl_send_win (client_reset_session c)) = []"
    "sw_head_seq (cl_send_win (client_reset_session c)) = 1"
    "receiving_ok (cl_recv_win (client_reset_session c)) (cl_ready_slots c)"
    "rw_expected_seq (cl_recv_win (client_reset_session c)) = 1" "rw_buf (cl_recv_win (client_reset_session c)) = Map.empty"
proof -
  have s: "send_inv (cl_send_win c)" and r: "recv_inv (cl_recv_win c)" using assms by (auto simp: client_inv_def receiving_ok_def)
  from send_reset_inv [OF s, of 1] show "send_inv (cl_send_win (client_reset_session c))"
    "sw_entries (cl_send_win (client_reset_session c)) = []" "sw_head_seq (cl_send_win (client_reset_session c)) = 1"
    by (auto simp: client_reset_session_def)
  from recv_reset_inv [OF r, of 1] assms show "receiving_ok (cl_recv_win (client_reset_session c)) (cl_ready_slots c)"
    "rw_expected_seq (cl_recv_win (client_reset_session c)) = 1" "rw_buf (cl_recv_win (client_reset_session c)) = Map.empty"
    by (auto simp: client_reset_session_def client_inv_def receiving_ok_def)
qed

lemma reset_session_fields [simp]:
  "cl_config (client_reset_session c) = cl_config c" "cl_sock (client_reset_session c) = cl_sock c"
  "cl_server_addr (client_reset_session c) = cl_server_addr c" "cl_send_queue (client_reset_session c) = cl_send_queue c"
  "cl_recv_queue (client_reset_session c) = cl_recv_queue c" "cl_ready_slots (client_reset_session c) = cl_ready_slots c"
  "cl_rtt (client_reset_session c) = default_rtt" "cl_session_id (client_reset_session c) = 0"
  "cl_state (client_reset_session c) = cl_state c" "cl_running (client_reset_session c) = cl_running c"
  "cl_wakeup_pipe (client_reset_session c) = cl_wakeup_pipe c" "cl_worker_started (client_reset_session c) = cl_worker_started c"
  "cl_rejected (client_reset_session c) = cl_rejected c"
  by (simp_all add: client_reset_session_def)

lemma reset_session_inv: "client_inv c \<Longrightarrow> client_inv (client_reset_session c)"
  using reset_session_windows [of c] rto_ok_default by (simp add: client_inv_def del: REL4U_RTT_DEFAULT_RTO_MS_def REL4U_RTT_MIN_RTO_MS_def REL4U_RTT_MAX_RTO_MS_def)

lemma client_shutdown_inv: "client_inv c \<Longrightarrow> client_inv (fst (client_shutdown e (c, w)))"
  by (simp add: client_shutdown_defs client_inv_def queue_inv_wake_all Let_def)

lemma client_shutdown_steps_inv:
  "client_inv c \<Longrightarrow> client_inv (client_leave c)" "client_inv c \<Longrightarrow> client_inv (client_halt c)" "client_inv c \<Longrightarrow> client_inv (client_wake c)"
  "fst (client_fin e (c, w)) = c"
  by (simp_all add: client_shutdown_defs client_inv_def queue_inv_wake_all Let_def)

lemma client_teardown_inv: "client_inv c \<Longrightarrow> client_inv (client_teardown c)"
  unfolding client_teardown_def by (rule reset_session_inv) (simp add: client_inv_def)

lemma client_open_inv:
  assumes "client_inv c"
  shows "client_inv (snd (client_open sys c))"
proof -
  have "client_inv (client_reset_session (c\<lparr>cl_server_addr := a\<rparr>))" for a
    by (rule reset_session_inv) (use assms in \<open>simp add: client_inv_def\<close>)
  with assms show ?thesis by (auto simp: client_open_def client_inv_def Let_def split: prod.splits)
qed

subsection \<open>The worker's steps\<close>

lemma client_send_packet_law:
  assumes env: "env_ok e" and inv: "client_inv c" and p: "payload_given payload len"
  obtains bs c' w' where "build_datagram e (cl_recv_win c) (cl_session_id c) type mode seq payload len = Some (24, bs)"
    "client_send_packet e type mode seq payload len (c, w) = Some (c', w')"
    "wd_sent w' = (if cl_sock c = -1 then wd_sent w else wd_sent w @ [(cl_server_addr c, bs)])"
    "\<exists>st t a. c' = c\<lparr>cl_stats := st, cl_last_ack_sent_ns := t, cl_ack_pending := a\<rparr>" "client_inv c'"
proof -
  from build_datagram_law [OF env _ p, of "cl_recv_win c" "cl_session_id c" type mode seq] inv
  obtain bs where b: "build_datagram e (cl_recv_win c) (cl_session_id c) type mode seq payload len = Some (24, bs)"
    by (auto simp: client_inv_def receiving_ok_def)
  have "\<exists>c' w'. client_send_packet e type mode seq payload len (c, w) = Some (c', w') \<and>
      wd_sent w' = (if cl_sock c = -1 then wd_sent w else wd_sent w @ [(cl_server_addr c, bs)])"
    by (auto simp: client_send_packet_def b rel4u_net_sendto_def rel4u_time_now_ns_def Let_def)
  then obtain c' w' where cw: "client_send_packet e type mode seq payload len (c, w) = Some (c', w')"
    "wd_sent w' = (if cl_sock c = -1 then wd_sent w else wd_sent w @ [(cl_server_addr c, bs)])" by blast
  note k = client_send_packet_keeps [OF cw(1)]
  then have "client_inv c'" using inv by (auto simp: client_inv_def)
  from that [OF b cw k this] show ?thesis .
qed

lemma client_send_packet_safe:
  assumes "env_ok e" "client_inv c" "payload_given payload len"
  obtains c' w' where "client_send_packet e type mode seq payload len (c, w) = Some (c', w')" "client_inv c'"
    "cl_send_win c' = cl_send_win c" "cl_config c' = cl_config c"
proof (rule client_send_packet_law [OF assms, of type mode seq w])
  fix bs c' w'
  assume c': "client_send_packet e type mode seq payload len (c, w) = Some (c', w')" "client_inv c'"
    "\<exists>st t a. c' = c\<lparr>cl_stats := st, cl_last_ack_sent_ns := t, cl_ack_pending := a\<rparr>"
  from c'(3) have "cl_send_win c' = cl_send_win c" "cl_config c' = cl_config c" by auto
  from that [OF c'(1,2) this] show thesis .
qed

text \<open>The send queue with the unacknowledged messages put back in front.\<close>

definition requeued :: "env \<Rightarrow> rel4u_client \<Rightarrow> world \<Rightarrow> rel4u_mpmc_queue" where
  "requeued e c w = snd (requeue rel4u_mpmc_push_front (env_alloc e (wd_pushes w))
     (map entry_item (unacked (sw_entries (cl_send_win c)))) (0, cl_send_queue c))"

lemma client_reconnect_law:
  assumes env: "env_ok e" and inv: "client_inv c" and on: "\<not> cc_disable_auto_reconnect (cl_config c)"
  shows "\<exists>t w'. client_trigger_reconnect e (c, w) =
      Some ((client_reset_session (c\<lparr>cl_send_queue := requeued e c w\<rparr>))
        \<lparr>cl_last_activity_ns := t, cl_state := REL4U_STATE_CONNECTING\<rparr>, w') \<and>
    wd_sent w' = wd_sent w \<and> queue_inv (requeued e c w)"
proof -
  have s: "send_inv (cl_send_win c)" and queue: "queue_inv (cl_send_queue c)" using inv by (auto simp: client_inv_def)
  have items: "\<forall>i \<in> set (map entry_item (unacked (sw_entries (cl_send_win c)))). valid_item i"
    using entry_items(2) [OF s] by (auto simp: unacked_def)
  have alloc: "fresh_alloc (env_alloc e (wd_pushes w))" using env by (simp add: env_ok_def)
  have "queue_inv (requeued e c w)" unfolding requeued_def using notify_queue.requeue_invar [OF alloc _ items, of "(0, cl_send_queue c)"] queue by simp
  then show ?thesis using send_reclaim_law [OF s, of "env_alloc e (wd_pushes w)" "cl_send_queue c"] on
    by (auto simp: client_trigger_reconnect_def rel4u_time_now_ns_def Let_def requeued_def map_prod_def case_prod_beta)
qed

lemma client_reconnect_safe:
  assumes "env_ok e" "client_inv c"
  obtains c' w' where "client_trigger_reconnect e (c, w) = Some (c', w')" "client_inv c'"
proof (cases "cc_disable_auto_reconnect (cl_config c)")
  case True
  then have "client_trigger_reconnect e (c, w) = Some (c\<lparr>cl_state := REL4U_STATE_DISCONNECTED\<rparr>, w)"
    by (simp add: client_trigger_reconnect_def)
  moreover have "client_inv (c\<lparr>cl_state := REL4U_STATE_DISCONNECTED\<rparr>)" using assms(2) by (simp add: client_inv_def)
  ultimately show thesis by (rule that)
next
  case False
  from client_reconnect_law [OF assms False, of w] obtain t w' where
    r: "client_trigger_reconnect e (c, w) = Some ((client_reset_session (c\<lparr>cl_send_queue := requeued e c w\<rparr>))
        \<lparr>cl_last_activity_ns := t, cl_state := REL4U_STATE_CONNECTING\<rparr>, w')" and q: "queue_inv (requeued e c w)" by blast
  have "client_inv (c\<lparr>cl_send_queue := requeued e c w\<rparr>)" using assms(2) q by (simp add: client_inv_def)
  from reset_session_inv [OF this]
  have "client_inv ((client_reset_session (c\<lparr>cl_send_queue := requeued e c w\<rparr>))\<lparr>cl_last_activity_ns := t, cl_state := REL4U_STATE_CONNECTING\<rparr>)"
    by (simp add: client_inv_def)
  with r show thesis by (rule that)
qed

text \<open>A step of the worker that returns a client in the invariant.\<close>

definition client_stays :: "client_world option \<Rightarrow> bool" where
  "client_stays r \<longleftrightarrow> (\<exists>c w. r = Some (c, w) \<and> client_inv c)"

lemma client_staysI: "r = Some (c, w) \<Longrightarrow> client_inv c \<Longrightarrow> client_stays r"
  by (auto simp: client_stays_def)

lemma client_staysE:
  assumes "client_stays r"
  obtains c w where "r = Some (c, w)" "client_inv c"
  using assms by (auto simp: client_stays_def)

lemma client_send_stays:
  "env_ok e \<Longrightarrow> client_inv c \<Longrightarrow> payload_given payload len \<Longrightarrow>
   client_stays (client_send_packet e type mode seq payload len (c, w))"
  by (rule client_send_packet_safe [of e c payload len type mode seq w]) (auto intro: client_staysI)

lemma client_handshake_safe:
  assumes "env_ok e" "client_inv c"
  shows "\<exists>l c' w'. client_handshake e state now last_req (c, w) = Some (l, c', w') \<and> client_inv c'"
proof -
  obtain c' w' where "client_send_control e REL4U_PKT_CONNECT_REQ (c, w) = Some (c', w')" "client_inv c'"
    using client_send_stays [OF assms control_given] by (rule client_staysE)
  with assms(2) show ?thesis by (auto simp: client_handshake_def Let_def)
qed

text \<open>
  Sending one message of the queue: it goes onto the wire, and a reliable one into the window. The
  client id of a message is of no interest here.
\<close>

definition same_endpoint :: "rel4u_client \<Rightarrow> rel4u_client \<Rightarrow> bool" where
  "same_endpoint c c' \<longleftrightarrow> cl_sock c' = cl_sock c \<and> cl_server_addr c' = cl_server_addr c \<and> cl_config c' = cl_config c \<and>
     cl_session_id c' = cl_session_id c \<and> cl_state c' = cl_state c"

lemma client_transmit_law:
  assumes env: "env_ok e" and inv: "client_inv c" and room: "sw_len (cl_send_win c) < unat (sw_capacity (cl_send_win c))"
    and item: "valid_item item"
  obtains c' w' bs where "client_transmit e item (c, w) = Some (c', w')" "client_inv c'" "same_endpoint c c'"
    "cl_send_queue c' = cl_send_queue c" "sw_capacity (cl_send_win c') = sw_capacity (cl_send_win c)"
    "map slot_load (sw_entries (cl_send_win c')) =
       map slot_load (sw_entries (cl_send_win c)) @ (if reliable (it_mode item) then [snd (item_msg item)] else [])"
    "wd_sent w' = wd_sent w @ (if cl_sock c = -1 then [] else [(cl_server_addr c, bs)])"
    "drop 24 bs = snd (snd (item_msg item))"
proof -
  obtain t w1 where t: "rel4u_time_now_ns e w = (t, w1)" "wd_sent w1 = wd_sent w" by (simp add: rel4u_time_now_ns_def Let_def)
  have s: "send_inv (cl_send_win c)" using inv by (simp add: client_inv_def)
  obtain win seq where p: "rel4u_send_window_push (cl_send_win c) (it_mode item) (Some (it_data item))
      (ucast (it_len item)) t = Some (0, win, Some seq)" "send_inv win" "sw_capacity win = sw_capacity (cl_send_win c)"
      "map slot_load (sw_entries win) =
        map slot_load (sw_entries (cl_send_win c)) @ (if reliable (it_mode item) then [snd (item_msg item)] else [])"
    by (rule push_load [OF s room item])
  have inv1: "client_inv (c\<lparr>cl_send_win := win\<rparr>)" using inv p(2) by (simp add: client_inv_def)
  note given = item_payload_given [OF item]
  show thesis
  proof (rule client_send_packet_law [OF env inv1 given, of REL4U_PKT_DATA "it_mode item" seq w1])
    fix bs c' w'
    assume b: "build_datagram e (cl_recv_win (c\<lparr>cl_send_win := win\<rparr>)) (cl_session_id (c\<lparr>cl_send_win := win\<rparr>)) REL4U_PKT_DATA
        (it_mode item) seq (Some (it_data item)) (ucast (it_len item)) = Some (24, bs)"
      and c': "client_send_packet e REL4U_PKT_DATA (it_mode item) seq (Some (it_data item)) (ucast (it_len item))
        (c\<lparr>cl_send_win := win\<rparr>, w1) = Some (c', w')" "client_inv c'"
        "\<exists>st t a. c' = c\<lparr>cl_send_win := win\<rparr>\<lparr>cl_stats := st, cl_last_ack_sent_ns := t, cl_ack_pending := a\<rparr>"
        "wd_sent w' = (if cl_sock (c\<lparr>cl_send_win := win\<rparr>) = -1 then wd_sent w1
          else wd_sent w1 @ [(cl_server_addr (c\<lparr>cl_send_win := win\<rparr>), bs)])"
    have "recv_inv (cl_recv_win c)" using inv by (simp add: client_inv_def receiving_ok_def)
    then have "drop 24 bs = snd (snd (item_msg item))" by (rule item_datagram [OF env _ item]) (use b in simp)
    moreover have "client_transmit e item (c, w) = Some (c', w')" using c'(1) by (simp add: client_transmit_def t p(1))
    moreover from c'(3) have "same_endpoint c c'" "cl_send_queue c' = cl_send_queue c" "cl_send_win c' = win"
      by (auto simp: same_endpoint_def)
    ultimately show thesis using that [of c' w' bs] c'(2,4) p(3,4) t(2) by simp
  qed
qed

text \<open>
  The whole drain: a first part of the queue is sent, in order, the reliable messages among it are
  now in the window, and it stopped because the queue is empty or the window full.
\<close>

definition drained_client :: "client_world \<Rightarrow> nat \<Rightarrow> client_world \<Rightarrow> bool" where
  "drained_client = (\<lambda>(c, w) k (c', w').
     client_inv c' \<and> same_endpoint c c' \<and> k \<le> length (queue_msgs (cl_send_queue c)) \<and>
     queue_msgs (cl_send_queue c') = drop k (queue_msgs (cl_send_queue c)) \<and>
     sw_capacity (cl_send_win c') = sw_capacity (cl_send_win c) \<and>
     map slot_load (sw_entries (cl_send_win c')) =
       map slot_load (sw_entries (cl_send_win c)) @ filter (\<lambda>m. reliable (fst m)) (map snd (take k (queue_msgs (cl_send_queue c)))) \<and>
     (queue_msgs (cl_send_queue c') = [] \<or> sw_len (cl_send_win c') = unat (sw_capacity (cl_send_win c'))) \<and>
     (\<exists>ds. wd_sent w' = wd_sent w @ ds \<and>
        (if cl_sock c = -1 then ds = []
         else map (map_prod id (drop 24)) ds =
           map (\<lambda>m. (cl_server_addr c, snd (snd m))) (take k (queue_msgs (cl_send_queue c))))))"

lemma drained_client_none:
  assumes "client_inv c" "queue_msgs (cl_send_queue c) = [] \<or> \<not> rel4u_send_window_can_send (cl_send_win c)"
  shows "drained_client (c, w) 0 (c, w)"
proof -
  have s: "send_inv (cl_send_win c)" using assms(1) by (simp add: client_inv_def)
  have "sw_len (cl_send_win c) = unat (sw_capacity (cl_send_win c))" if "\<not> rel4u_send_window_can_send (cl_send_win c)"
    using that send_can_send_iff [OF s] send_invD(5) [OF s] by simp
  with assms show ?thesis by (auto simp: drained_client_def same_endpoint_def)
qed

lemma drained_client_step:
  assumes "drained_client (c1, w1) k (c', w')" "queue_msgs (cl_send_queue c) = m # queue_msgs (cl_send_queue c1)"
    and "same_endpoint c c1" "sw_capacity (cl_send_win c1) = sw_capacity (cl_send_win c)"
    and "map slot_load (sw_entries (cl_send_win c1)) =
      map slot_load (sw_entries (cl_send_win c)) @ (if reliable (fst (snd m)) then [snd m] else [])"
    and "wd_sent w1 = wd_sent w @ (if cl_sock c = -1 then [] else [(cl_server_addr c, bs)])" "drop 24 bs = snd (snd m)"
  shows "drained_client (c, w) (Suc k) (c', w')"
  using assms by (auto simp: drained_client_def same_endpoint_def)

lemma client_drain_loop_law:
  "env_ok e \<Longrightarrow> client_inv (fst cw) \<Longrightarrow> out_room item \<Longrightarrow>
   \<exists>k cw'. client_drain_loop e item cw = Some cw' \<and> drained_client cw k cw'"
proof (induction e item cw rule: client_drain_loop.induct)
  case (1 e item c w)
  have inv: "client_inv c" "queue_inv (cl_send_queue c)" "send_inv (cl_send_win c)" using "1.prems" by (simp_all add: client_inv_def)
  show ?case
  proof (cases "rel4u_send_window_can_send (cl_send_win c) \<and> queue_msgs (cl_send_queue c) \<noteq> []")
    case True
    then obtain q i where q: "rel4u_mpmc_try_pop (cl_send_queue c) (Some item) = (True, q, Some i)" "queue_inv q" "valid_item i"
        "queue_msgs (cl_send_queue c) = item_msg i # queue_msgs q"
      using try_queue.pop_head_law [OF inv(2) _ "1.prems"(3)] by blast
    let ?c = "c\<lparr>cl_send_queue := q\<rparr>"
    have room: "client_inv ?c" "sw_len (cl_send_win ?c) < unat (sw_capacity (cl_send_win ?c))"
      using inv(1) q(2) True send_can_send_iff [OF inv(3)] by (simp_all add: client_inv_def)
    obtain c1 w1 bs where c1: "client_transmit e i (?c, w) = Some (c1, w1)" "client_inv c1" "same_endpoint ?c c1"
        "cl_send_queue c1 = cl_send_queue ?c" "sw_capacity (cl_send_win c1) = sw_capacity (cl_send_win ?c)"
        "map slot_load (sw_entries (cl_send_win c1)) =
           map slot_load (sw_entries (cl_send_win ?c)) @ (if reliable (it_mode i) then [snd (item_msg i)] else [])"
        "wd_sent w1 = wd_sent w @ (if cl_sock ?c = -1 then [] else [(cl_server_addr ?c, bs)])"
        "drop 24 bs = snd (snd (item_msg i))"
      by (rule client_transmit_law [OF "1.prems"(1) room q(3), of w]) blast
    have "\<exists>k cw'. client_drain_loop e i (c1, w1) = Some cw' \<and> drained_client (c1, w1) k cw'"
      using "1.IH" [of True "(q, Some i)" q "Some i" "(c1, w1)"] True q c1(1,2) "1.prems"(1)
      by (simp add: valid_item_def out_room_def)
    then obtain k c' w' where k: "client_drain_loop e i (c1, w1) = Some (c', w')" "drained_client (c1, w1) k (c', w')" by auto
    have "drained_client (c, w) (Suc k) (c', w')"
      by (rule drained_client_step [OF k(2), where m = "item_msg i" and bs = bs])
        (use c1 q(4) in \<open>simp_all add: same_endpoint_def item_msg_def\<close>)
    moreover have "client_drain_loop e item (c, w) = Some (c', w')"
      by (subst client_drain_loop.simps) (simp add: True q c1(1) k(1))
    ultimately show ?thesis by blast
  next
    case False
    then have "client_drain_loop e item (c, w) = Some (c, w)"
      using try_queue.pop_empty_law [OF inv(2), of item] by (subst client_drain_loop.simps) auto
    with drained_client_none [OF inv(1), of w] False show ?thesis by blast
  qed
qed

lemma client_drain_safe:
  assumes "env_ok e" "client_inv c"
  shows "client_stays (client_drain e state (c, w))"
  using client_drain_loop_law [of e "(c, w)" "env_item e"] assms
  by (auto simp: client_drain_def env_ok_def out_room_def client_stays_def drained_client_def)

lemma client_resend_safe:
  "env_ok e \<Longrightarrow> client_inv c \<Longrightarrow> \<forall>i \<in> set is. slot_sendable (cl_send_win c) i \<Longrightarrow>
   client_stays (client_resend e now is (c, w))"
proof (induction "is" arbitrary: c w)
  case Nil
  then show ?case by (simp add: client_stays_def)
next
  case (Cons i "is")
  have s: "send_inv (cl_send_win c)" using Cons.prems(2) by (simp add: client_inv_def)
  have i: "slot_sendable (cl_send_win c) i" using Cons.prems(3) by simp
  obtain win where m: "mark_retransmit (cl_send_win c) i now = Some win" "send_inv win"
      "deref (sw_slots win) i = Some (sw_slots win ! i)" and same: "\<And>j. slot_sendable win j = slot_sendable (cl_send_win c) j"
    by (rule mark_retransmit_safe [OF s i, of now]) blast
  let ?s = "sw_slots win ! i"
  have inv: "client_inv (c\<lparr>cl_send_win := win\<rparr>)" using Cons.prems(2) m(2) by (simp add: client_inv_def)
  have "payload_given (Some (ss_payload ?s)) (ucast (ss_payload_len ?s))" using same [of i] i by (simp add: slot_sendable_def)
  then obtain c' w' where c': "client_send_packet e REL4U_PKT_DATA (ss_delivery_mode ?s) (ss_seq_num ?s) (Some (ss_payload ?s))
      (ucast (ss_payload_len ?s)) (c\<lparr>cl_send_win := win\<rparr>, w) = Some (c', w')" "client_inv c'"
      "cl_send_win c' = cl_send_win (c\<lparr>cl_send_win := win\<rparr>)"
    by (rule client_send_packet_safe [OF Cons.prems(1) inv])
  have "client_stays (client_resend e now is (c', w'))"
    using Cons.IH [OF Cons.prems(1) c'(2)] Cons.prems(3) same c'(3) by simp
  with m(1,3) c'(1) show ?case by (simp del: deref_Some_iff)
qed

lemma client_retransmit_safe:
  assumes "env_ok e" "client_inv c"
  shows "client_stays (client_retransmit e now (c, w))"
proof -
  have s: "send_inv (cl_send_win c)" and r: "rto_ok (cl_rtt c)" using assms(2) by (simp_all add: client_inv_def)
  obtain idx where idx: "rel4u_send_window_get_expired (cl_send_win c) now (rel4u_rtt_get_rto (Some (cl_rtt c))) 16 = Some idx"
      "\<forall>i \<in> set idx. slot_sendable (cl_send_win c) i"
    by (rule expired_sendable [OF s, of 16]) simp_all
  let ?c = "c\<lparr>cl_rtt := rel4u_rtt_on_timeout (cl_rtt c),
    cl_stats := (cl_stats c)\<lparr>packets_retransmitted := packets_retransmitted (cl_stats c) + of_nat (length idx),
                             packets_lost := packets_lost (cl_stats c) + of_nat (length idx)\<rparr>\<rparr>"
  have "client_inv ?c" using assms(2) rto_ok_timeout [OF r] by (simp add: client_inv_def)
  from client_resend_safe [OF assms(1) this, of idx now w] idx assms(2)
  show ?thesis by (simp add: client_retransmit_def Let_def client_stays_def)
qed

lemma client_heartbeat_safe:
  assumes "env_ok e" "client_inv c"
  shows "client_stays (client_heartbeat e now (c, w))"
proof -
  obtain c' w' where c': "client_send_control e REL4U_PKT_HEARTBEAT (c, w) = Some (c', w')" "client_inv c'"
    using client_send_stays [OF assms control_given] by (rule client_staysE)
  then have "client_inv (c'\<lparr>cl_last_heartbeat_sent_ns := now\<rparr>)" by (simp add: client_inv_def)
  with c' assms(2) show ?thesis by (simp add: client_heartbeat_def client_stays_def)
qed

lemma client_timers_safe:
  assumes env: "env_ok e" and "client_inv c"
  shows "client_stays (client_timers e state (c, w))"
proof -
  obtain now w0 where t: "rel4u_time_now_ns e w = (now, w0)" by (metis prod.exhaust)
  obtain c1 w1 where 1: "client_retransmit e now (c, w0) = Some (c1, w1)" "client_inv c1"
    using client_retransmit_safe [OF assms] by (rule client_staysE)
  have "client_stays (if cl_ack_pending c1 then client_send_control e REL4U_PKT_ACK (c1, w1) else Some (c1, w1))"
    using client_send_stays [OF env 1(2) control_given] 1(2) by (auto simp: client_stays_def)
  then obtain c2 w2 where 2: "(if cl_ack_pending c1 then client_send_control e REL4U_PKT_ACK (c1, w1) else Some (c1, w1)) =
      Some (c2, w2)" "client_inv c2" by (rule client_staysE)
  obtain c3 w3 where 3: "client_heartbeat e now (c2, w2) = Some (c3, w3)" "client_inv c3"
    using client_heartbeat_safe [OF env 2(2)] by (rule client_staysE)
  obtain c4 w4 where 4: "client_trigger_reconnect e (c3, w3) = Some (c4, w4)" "client_inv c4"
    by (rule client_reconnect_safe [OF env 3(2)])
  have "client_inv (c3\<lparr>cl_state := REL4U_STATE_DISCONNECTED\<rparr>)" using 3(2) by (simp add: client_inv_def)
  with assms(2) 3 4 show ?thesis by (simp add: client_timers_def t 1(1) 2(1) client_stays_def)
qed

definition packet_stays :: "(bool \<times> rel4u_conn_state \<times> client_world) option \<Rightarrow> bool" where
  "packet_stays r \<longleftrightarrow> (\<exists>stop state c w. r = Some (stop, state, c, w) \<and> client_inv c)"

lemma packet_staysI: "r = Some (stop, state, c, w) \<Longrightarrow> client_inv c \<Longrightarrow> packet_stays r"
  by (auto simp: packet_stays_def)

lemma client_on_session_packet_safe:
  assumes env: "env_ok e" and inv: "client_inv c" and fits: "packet_fits hdr (drop REL4U_HEADER_LEN bytes)"
  shows "client_stays (client_on_session_packet e now hdr bytes (c, w))"
proof -
  have "send_inv (cl_send_win c)" "rto_ok (cl_rtt c)" using inv by (simp_all add: client_inv_def)
  then obtain win rtt st where a: "rel4u_send_window_on_ack (cl_send_win c) (ack_num hdr) (sack_mask hdr) now (Some (cl_rtt c))
      (Some (cl_stats c)) = Some (win, Some rtt, Some st)" "send_inv win" "rto_ok rtt" by (rule on_ack_safe)
  define c1 where "c1 = c\<lparr>cl_send_win := win, cl_rtt := rtt, cl_stats := st\<rparr>"
  have 1: "client_inv c1" using inv a by (simp add: client_inv_def c1_def)
  have "client_stays (if packet_type hdr = REL4U_PKT_HEARTBEAT then client_send_control e REL4U_PKT_HEARTBEAT_ACK (c1, w)
      else Some (c1, w))"
    using client_send_stays [OF env 1 control_given] 1 by (auto simp: client_stays_def)
  then obtain c2 w2 where 2: "(if packet_type hdr = REL4U_PKT_HEARTBEAT
      then client_send_control e REL4U_PKT_HEARTBEAT_ACK (c1, w) else Some (c1, w)) = Some (c2, w2)" "client_inv c2"
    by (rule client_staysE)
  from on_data_safe [OF env _ fits, of "cl_recv_win c2" "cl_ready_slots c2" "(cl_recv_queue c2, w2)" 0] 2(2)
  obtain rw slots q w3 ack where 3: "on_data e 0 (cl_recv_win c2) (cl_ready_slots c2) hdr (drop REL4U_HEADER_LEN bytes)
      (cl_recv_queue c2, w2) = Some (rw, slots, (q, w3), ack)" "receiving_ok rw slots" "queue_inv q"
    by (auto simp: client_inv_def)
  have "client_inv (c2\<lparr>cl_recv_win := rw, cl_ready_slots := slots, cl_recv_queue := q, cl_ack_pending := b\<rparr>)" for b
    using 2(2) 3 by (simp add: client_inv_def)
  moreover have "client_on_session_packet e now hdr bytes (c, w) =
      (if packet_type hdr = REL4U_PKT_DATA then Some (c2\<lparr>cl_recv_win := rw, cl_ready_slots := slots,
         cl_recv_queue := q, cl_ack_pending := (if ack then True else cl_ack_pending c2)\<rparr>, w3)
       else Some (c2, w2))"
    unfolding client_on_session_packet_def using 2(1) [unfolded c1_def] 3(1)
    by (simp only: a(1) case_prod_conv Let_def Option.bind.bind_lunit option.sel split: if_split)
  ultimately show ?thesis using 2(2) by (simp only: client_stays_def split: if_split) blast
qed

lemma client_on_packet_safe:
  assumes env: "env_ok e" and inv: "client_inv c" and fits: "packet_fits hdr (drop REL4U_HEADER_LEN bytes)"
    and acc: "client_accepts state c hdr"
  shows "packet_stays (client_on_packet e state hdr bytes (c, w))"
proof -
  obtain now w0 where t: "rel4u_time_now_ns e w = (now, w0)" by (metis prod.exhaust)
  define c0 where "c0 = c\<lparr>cl_last_activity_ns := now, cl_stats := (cl_stats c)\<lparr>packets_recv := packets_recv (cl_stats c) + 1,
      bytes_recv := bytes_recv (cl_stats c) + of_nat (length bytes)\<rparr>\<rparr>"
  have 0: "client_inv c0" using inv by (simp add: client_inv_def c0_def)
  consider (resp) "packet_type hdr = REL4U_PKT_CONNECT_RESP" | (reset) "packet_type hdr = REL4U_PKT_RESET"
    | (bye) "packet_type hdr = REL4U_PKT_REJECT \<or> packet_type hdr = REL4U_PKT_DISCONNECT"
    | (rest) "packet_type hdr \<notin> {REL4U_PKT_CONNECT_RESP, REL4U_PKT_RESET, REL4U_PKT_REJECT, REL4U_PKT_DISCONNECT}" by blast
  then show ?thesis
  proof cases
    case resp
    have "client_inv (c0\<lparr>cl_session_id := session_id hdr, cl_state := REL4U_STATE_CONNECTED\<rparr>)"
      using 0 by (simp add: client_inv_def)
    from client_send_stays [OF env this control_given] obtain c' w' where
      c': "client_send_control e REL4U_PKT_CONNECT_ACK
        (c0\<lparr>cl_session_id := session_id hdr, cl_state := REL4U_STATE_CONNECTED\<rparr>, w0) = Some (c', w')" "client_inv c'"
      by (rule client_staysE)
    have "client_inv (c'\<lparr>cl_last_activity_ns := now, cl_last_heartbeat_sent_ns := now\<rparr>)" using c'(2) by (simp add: client_inv_def)
    moreover have "state = REL4U_STATE_CONNECTING" using acc resp by (simp add: client_accepts_def)
    ultimately show ?thesis using resp c'(1)
      by (intro packet_staysI [where stop = False]) (simp_all add: client_on_packet_def t c0_def)
  next
    case reset
    obtain c' w' where "client_trigger_reconnect e (c0, w0) = Some (c', w')" "client_inv c'"
      by (rule client_reconnect_safe [OF env 0])
    then show ?thesis using reset
      by (intro packet_staysI [where stop = False]) (simp_all add: client_on_packet_def t c0_def)
  next
    case bye
    then show ?thesis using 0 by (auto simp: client_on_packet_def t c0_def packet_stays_def client_inv_def)
  next
    case rest
    from client_on_session_packet_safe [OF env 0 fits] obtain c' w' where
      "client_on_session_packet e now hdr bytes (c0, w0) = Some (c', w')" "client_inv c'" by (rule client_staysE)
    with rest show ?thesis
      by (intro packet_staysI [where stop = False]) (simp_all add: client_on_packet_def t c0_def)
  qed
qed

lemma client_on_datagram_safe:
  assumes "env_ok e" "client_inv c" "length bytes \<le> 9240"
  shows "packet_stays (client_on_datagram e state (bytes, src) (c, w))"
proof -
  obtain r h where d: "rel4u_packet_decode_header (Some bytes) (of_nat (length bytes)) (Some zero_header) = (r, h)"
    by (metis prod.exhaust)
  show ?thesis
  proof (cases "rel4u_net_addr_equal (Some src) (Some (cl_server_addr c)) \<and> r = 0 \<and> client_accepts state c (the h)")
    case True
    then obtain hdr where "h = Some hdr" "packet_fits hdr (drop REL4U_HEADER_LEN bytes)"
      using decoded_fits [OF _ assms(3)] d by blast
    with client_on_packet_safe [OF assms(1,2), of hdr bytes state w] True show ?thesis by (simp add: client_on_datagram_def d)
  next
    case False
    then show ?thesis using assms(2) by (auto simp: client_on_datagram_def d packet_stays_def)
  qed
qed

lemma client_receive_safe:
  "env_ok e \<Longrightarrow> client_inv c \<Longrightarrow> \<exists>s c' w'. client_receive e dgs state (c, w) = Some (s, c', w') \<and> client_inv c'"
proof (induction dgs arbitrary: state c w)
  case (Cons dg dgs)
  obtain bytes src where dg: "dg = (bytes, src)" by (cases dg)
  from client_on_datagram_safe [OF Cons.prems, of "take 9240 bytes" state src w] obtain stop s c1 w1 where
    1: "client_on_datagram e state (take 9240 bytes, src) (c, w) = Some (stop, s, c1, w1)" "client_inv c1"
    by (auto simp: packet_stays_def)
  from Cons.IH [OF Cons.prems(1) 1(2), of s w1] 1 Cons.prems(2) show ?case
    by (auto simp: dg rel4u_net_recvfrom_def)
qed simp

lemma client_round_safe:
  assumes "env_ok e" "client_inv c"
  shows "\<exists>l c' w'. client_round e inp (last_req, c, w) = Some (l, c', w') \<and> client_inv c'"
proof -
  obtain ret revents dgs where inp: "inp = ((ret, revents), dgs)" by (metis prod.exhaust)
  obtain now w0 where t: "rel4u_time_now_ns e w = (now, w0)" by (metis prod.exhaust)
  obtain l c1 w1 where 1: "client_handshake e (cl_state c) now last_req (c, w0) = Some (l, c1, w1)" "client_inv c1"
    using client_handshake_safe [OF assms] by blast
  obtain a sr pr where p: "rel4u_net_poll (cl_sock c1) (Some (cl_wakeup_pipe c1)) ret revents = (a, sr, pr)" by (metis prod.exhaust)
  obtain st c2 w2 where 2: "(if sr then client_receive e dgs (cl_state c) (c1, w1) else Some (cl_state c, c1, w1)) =
      Some (st, c2, w2)" "client_inv c2"
    using client_receive_safe [OF assms(1) 1(2), of dgs "cl_state c" w1] 1(2) by (cases sr) auto
  obtain c3 w3 where 3: "client_drain e st (c2, w2) = Some (c3, w3)" "client_inv c3"
    using client_drain_safe [OF assms(1) 2(2)] by (rule client_staysE)
  obtain c4 w4 where 4: "client_timers e st (c3, w3) = Some (c4, w4)" "client_inv c4"
    using client_timers_safe [OF assms(1) 3(2)] by (rule client_staysE)
  have "client_round e inp (last_req, c, w) = Some (l, c4, w4)"
    by (simp only: client_round_def inp case_prod_conv t Let_def 1(1) Option.bind.bind_lunit p 2(1) 3(1) 4(1))
  with 4(2) show ?thesis by blast
qed

subsection \<open>The application's calls\<close>

lemma client_send_safe:
  assumes env: "env_ok e" and inv: "client_inv c" and len: "\<forall>bytes. data = Some bytes \<longrightarrow> unat len \<le> length bytes"
  shows "\<exists>r c' w'. rel4u_client_send e mode data len (c, w) = Some (r, c', w') \<and> client_inv c'"
proof (cases "\<exists>bytes. data = Some bytes \<and> unat len \<le> REL4U_MAX_PAYLOAD (cc_mtu (cl_config c)) \<and> cl_running c \<and>
    \<not> (cl_state c \<noteq> REL4U_STATE_CONNECTED \<and>
       (cc_disable_auto_reconnect (cl_config c) \<or> cl_state c \<noteq> REL4U_STATE_CONNECTING))")
  case False
  then have "\<exists>r. rel4u_client_send e mode data len (c, w) = Some (r, c, w)"
    by (auto simp: rel4u_client_send_def split: option.splits)
  with inv show ?thesis by blast
next
  case True
  then obtain bytes where b: "data = Some bytes" "unat len \<le> REL4U_MAX_PAYLOAD (cc_mtu (cl_config c))" by blast
  have "unat len \<le> 9216" using b(2) inv by (simp add: REL4U_MAX_PAYLOAD_def client_inv_def split: if_splits)
  then obtain d where d: "memcpy (it_data (env_item e)) bytes (unat len) = Some d"
    using len b(1) env by (simp add: memcpy_def env_ok_def)
  define item where "item = (env_item e)\<lparr>it_client_id := 0, it_mode := mode, it_len := ucast len, it_data := d\<rparr>"
  have item: "valid_item item" unfolding item_def by (rule send_item_valid(1) [OF env d])
  obtain ok q where q: "rel4u_mpmc_try_push (env_alloc e (wd_pushes w)) (cl_send_queue c) (Some item) = (ok, q)"
    by (metis prod.exhaust)
  have "queue_inv q" using try_queue.push_law [OF _ _ item q] env inv by (simp add: env_ok_def client_inv_def)
  then have "client_inv (c\<lparr>cl_send_queue := q, cl_stats := st\<rparr>)" "client_inv (c\<lparr>cl_send_queue := q\<rparr>)" for st
    using inv by (simp_all add: client_inv_def)
  with True b(1) d q show ?thesis by (auto simp: rel4u_client_send_def item_def [symmetric] Let_def)
qed

lemma client_recv_safe:
  assumes env: "env_ok e" and inv: "client_inv c" and size: "\<forall>b. buffer = Some b \<longrightarrow> unat buffer_size \<le> length b"
  shows "\<exists>r c' b n. rel4u_client_recv e [] buffer buffer_size 0 c = Some (Some (r, c', b, n)) \<and> client_inv c'"
proof (cases "buffer = None \<or> buffer_size = 0")
  case True
  with inv show ?thesis by (cases buffer) (auto simp: rel4u_client_recv_def)
next
  case False
  then obtain buf where buf: "buffer = Some buf" "buffer_size \<noteq> 0" by auto
  have "queue_inv (cl_recv_queue c)" using inv by (simp add: client_inv_def)
  then obtain ok q' item where wait: "rel4u_mpmc_pop_wait [] (cl_recv_queue c) (Some (env_item e)) 0 = Some (ok, q', Some item)"
    "queue_inv q'" "ok \<longrightarrow> valid_item item" by (rule recv_pop_safe [OF env])
  have inv': "client_inv (c\<lparr>cl_recv_queue := q'\<rparr>)" using inv wait(2) by (simp add: client_inv_def)
  from recv_copy_safe [of item buffer_size buf] size buf wait(1,3) inv' show ?thesis
    by (cases ok) (auto simp: rel4u_client_recv_def Let_def)
qed

lemma client_defaults_fields:
  "cc_mtu (client_defaults cfg) = (if cc_mtu cfg = 0 then 1400 else cc_mtu cfg)"
  "cc_window_size (client_defaults cfg) = (if cc_window_size cfg < 8 then 64 else cc_window_size cfg)"
  "cc_max_send_memory_bytes (client_defaults cfg) \<in> {cc_max_send_memory_bytes cfg, 1024 * 1024}"
  "cc_max_recv_memory_bytes (client_defaults cfg) \<in> {cc_max_recv_memory_bytes cfg, 1024 * 1024}"
  by (simp_all add: client_defaults_def)

lemma client_create_inv:
  assumes create: "rel4u_client_create mem (Some cfg) = Some c"
    and rings: "\<And>xs. cm_send_ring mem = Some xs \<Longrightarrow> length xs = unat (cc_send_queue_capacity (client_defaults cfg))"
      "\<And>xs. cm_recv_ring mem = Some xs \<Longrightarrow> length xs = unat (cc_recv_queue_capacity (client_defaults cfg))"
    and cfg: "unat (cc_mtu cfg) \<le> 9240" "unat (cc_window_size cfg) < 2 ^ 31"
      "unat (cc_max_send_memory_bytes cfg) < 2 ^ 63" "unat (cc_max_recv_memory_bytes cfg) < 2 ^ 63"
  shows "client_inv c" "cl_config c = client_defaults cfg" "cl_state c = REL4U_STATE_DISCONNECTED"
    "\<not> cl_running c" "\<not> cl_worker_started c" "queue_msgs (cl_send_queue c) = []" "queue_msgs (cl_recv_queue c) = []"
proof -
  let ?cfg = "client_defaults cfg"
  define sq where "sq = rel4u_mpmc_init (cm_send_ring mem) (cc_memory_mode ?cfg) (cc_queue_full_policy ?cfg)
    (ucast (cc_send_queue_capacity ?cfg)) (cc_max_send_memory_bytes ?cfg)"
  define rq where "rq = rel4u_mpmc_init (cm_recv_ring mem) (cc_memory_mode ?cfg) (cc_queue_full_policy ?cfg)
    (ucast (cc_recv_queue_capacity ?cfg)) (cc_max_recv_memory_bytes ?cfg)"
  define sw where "sw = rel4u_send_window_init (cm_send_slots mem) zero_send_window (cc_window_size ?cfg) 1"
  define rw where "rw = rel4u_recv_window_init (cm_recv_slots mem) zero_recv_window (cc_window_size ?cfg) 1"
  have z: "cl_send_win (zero_client ?cfg) = zero_send_window" "cl_recv_win (zero_client ?cfg) = zero_recv_window"
    by (simp_all add: zero_client_def)
  have c: "c = (zero_client ?cfg)\<lparr>cl_sock := REL4U_INVALID_SOCKET, cl_state := REL4U_STATE_DISCONNECTED, cl_running := False,
       cl_send_queue := snd sq, cl_recv_queue := snd rq, cl_send_win := snd sw, cl_recv_win := snd rw, cl_rtt := default_rtt\<rparr>"
    and ok: "fst sq = 0" "fst rq = 0" "fst sw = 0" "fst rw = 0"
    using create unfolding rel4u_client_create_def Let_def option.case
    by (simp_all add: sq_def rq_def sw_def rw_def z split: if_splits)
  have q: "rel4u_mpmc_init (cm_send_ring mem) (cc_memory_mode ?cfg) (cc_queue_full_policy ?cfg)
      (ucast (cc_send_queue_capacity ?cfg)) (cc_max_send_memory_bytes ?cfg) = (0, snd sq)"
    "rel4u_mpmc_init (cm_recv_ring mem) (cc_memory_mode ?cfg) (cc_queue_full_policy ?cfg)
      (ucast (cc_recv_queue_capacity ?cfg)) (cc_max_recv_memory_bytes ?cfg) = (0, snd rq)"
    and win: "rel4u_send_window_init (cm_send_slots mem) zero_send_window (cc_window_size ?cfg) 1 = (0, snd sw)"
      "rel4u_recv_window_init (cm_recv_slots mem) zero_recv_window (cc_window_size ?cfg) 1 = (0, snd rw)"
    using ok by (simp_all add: sq_def rq_def sw_def rw_def prod_eq_iff)
  have size: "unat (cc_max_send_memory_bytes ?cfg) < 2 ^ 63" "unat (cc_max_recv_memory_bytes ?cfg) < 2 ^ 63"
    "unat (cc_window_size ?cfg) < 2 ^ 31" "unat (cc_mtu ?cfg) \<le> 9240"
    using client_defaults_fields [of cfg] cfg by auto
  have sq: "queue_inv (snd sq)" "queue_msgs (snd sq) = []" using init_queue [OF q(1) _ size(1)] rings(1) by (simp_all add: widen32)
  have rq: "queue_inv (snd rq)" "queue_msgs (snd rq) = []" using init_queue [OF q(2) _ size(2)] rings(2) by (simp_all add: widen32)
  have slots: "length (replicate 64 zero_recv_slot) = 64" "payloads_ok (replicate 64 zero_recv_slot)"
    using ex_slots_ok by (simp_all add: ex_slots_def)
  have "receiving_ok (snd rw) (replicate 64 zero_recv_slot)"
    using recv_init_inv [OF win(2) size(3)] slots by (simp add: receiving_ok_def)
  with sq rq size(4) send_init_inv [OF win(1) size(3)] rto_ok_default show "client_inv c"
    unfolding client_inv_def c by (simp add: zero_client_def)
  show "cl_config c = ?cfg" "cl_state c = REL4U_STATE_DISCONNECTED" "\<not> cl_running c" "\<not> cl_worker_started c"
    "queue_msgs (cl_send_queue c) = []" "queue_msgs (cl_recv_queue c) = []"
    using sq rq by (simp_all add: c zero_client_def)
qed

end
