(* ===== verification/Client_Runs.thy ===== *)
theory Client_Runs
  imports Client_Correct
begin

text \<open>
  Properties of the client: no sequence of calls of the application, rounds of the worker and
  datagrams from the network makes it leave its arrays; datagrams that do not belong to the
  connection change nothing, but that an empty one ends the reading of a round; a lost session
  loses no message that is not counted as dropped; connecting returns within its timeout.
\<close>

subsection \<open>Runs\<close>

text \<open>
  What can happen to a client, in any order and any number of times: calls of the application, and
  the phases of the worker's rounds, each with any copy of the state it may have read. A call
  that waits is the event of the moment it goes on. Disconnecting is one event as well as its steps one by one, between
  which the worker may run. A buffer handed to a call is as long as the
  call says.
\<close>

datatype client_event =
    Client_Open sys
  | Client_Shutdown
  | Client_Leave
  | Client_Fin
  | Client_Halt
  | Client_Wake
  | Client_Teardown
  | Client_Send u8 "u8 list option" size_t
  | Client_Recv "u8 list option" size_t
  | Client_Handshake rel4u_conn_state u64 u64
  | Client_Receive rel4u_conn_state "(u8 list \<times> rel4u_net_addr) list"
  | Client_Drain rel4u_conn_state
  | Client_Timers rel4u_conn_state
  | Client_Round "(int \<times> bool list) \<times> (u8 list \<times> rel4u_net_addr) list" u64

fun client_event_ok :: "client_event \<Rightarrow> bool" where
  "client_event_ok (Client_Send mode data len) \<longleftrightarrow> (\<forall>bytes. data = Some bytes \<longrightarrow> unat len \<le> length bytes)"
| "client_event_ok (Client_Recv buffer bsize) \<longleftrightarrow> (\<forall>b. buffer = Some b \<longrightarrow> unat bsize \<le> length b)"
| "client_event_ok _ \<longleftrightarrow> True"

fun client_step :: "env \<Rightarrow> client_event \<Rightarrow> client_world \<Rightarrow> client_world option" where
  "client_step e (Client_Open sys) (c, w) = Some (snd (client_open sys c), w)"
| "client_step e Client_Shutdown cw = Some (client_shutdown e cw)"
| "client_step e Client_Leave (c, w) = Some (client_leave c, w)"
| "client_step e Client_Fin cw = Some (client_fin e cw)"
| "client_step e Client_Halt (c, w) = Some (client_halt c, w)"
| "client_step e Client_Wake (c, w) = Some (client_wake c, w)"
| "client_step e Client_Teardown (c, w) = Some (client_teardown c, w)"
| "client_step e (Client_Send mode data len) cw = map_option snd (rel4u_client_send e mode data len cw)"
| "client_step e (Client_Recv buffer bsize) (c, w) =
     map_option (\<lambda>r. case r of None \<Rightarrow> (c, w) | Some (_, c, _, _) \<Rightarrow> (c, w)) (rel4u_client_recv e [] buffer bsize 0 c)"
| "client_step e (Client_Handshake state now last_req) cw = map_option snd (client_handshake e state now last_req cw)"
| "client_step e (Client_Receive state dgs) cw = map_option snd (client_receive e dgs state cw)"
| "client_step e (Client_Drain state) cw = client_drain e state cw"
| "client_step e (Client_Timers state) cw = client_timers e state cw"
| "client_step e (Client_Round inp last_req) cw = map_option snd (client_round e inp (last_req, cw))"

lemma client_step_safe:
  assumes env: "env_ok e" and inv: "client_inv c" and ok: "client_event_ok x"
  shows "\<exists>c' w'. client_step e x (c, w) = Some (c', w') \<and> client_inv c'"
proof (cases x)
  case Client_Shutdown
  obtain c' w' where "client_shutdown e (c, w) = (c', w')" by (metis prod.exhaust)
  with client_shutdown_inv [OF inv, of e w] Client_Shutdown show ?thesis by simp
next
  case Client_Fin
  with inv show ?thesis by (simp add: client_fin_def Let_def)
next
  case (Client_Send mode data len)
  with client_send_safe [OF env inv, of data len mode w] ok show ?thesis by auto
next
  case (Client_Recv buffer bsize)
  with client_recv_safe [OF env inv, of buffer bsize] ok show ?thesis by auto
next
  case (Client_Handshake state now last_req)
  with client_handshake_safe [OF env inv, of state now last_req w] show ?thesis by auto
next
  case (Client_Receive state dgs)
  with client_receive_safe [OF env inv, of dgs state w] show ?thesis by auto
next
  case (Client_Drain state)
  with client_drain_safe [OF env inv, of state w] show ?thesis by (simp add: client_stays_def)
next
  case (Client_Timers state)
  with client_timers_safe [OF env inv, of state w] show ?thesis by (simp add: client_stays_def)
next
  case (Client_Round inp last_req)
  with client_round_safe [OF env inv, of inp last_req w] show ?thesis by auto
qed (use inv in \<open>simp_all add: client_open_inv client_teardown_inv client_shutdown_steps_inv\<close>)

interpretation client_run: safe_events "client_step e" "\<lambda>(c, w). env_ok e \<and> client_inv c" client_event_ok for e
  by unfold_locales (auto dest!: client_step_safe)

text \<open>Memory as \<open>rel4u_client_create\<close> asks for it, and a configuration within the sizes of the buffers.\<close>

definition client_mem_ok :: "client_mem \<Rightarrow> rel4u_client_config \<Rightarrow> bool" where
  "client_mem_ok mem cfg \<longleftrightarrow>
     (\<forall>xs. cm_send_ring mem = Some xs \<longrightarrow> length xs = unat (cc_send_queue_capacity (client_defaults cfg))) \<and>
     (\<forall>xs. cm_recv_ring mem = Some xs \<longrightarrow> length xs = unat (cc_recv_queue_capacity (client_defaults cfg)))"

definition client_cfg_ok :: "rel4u_client_config \<Rightarrow> bool" where
  "client_cfg_ok cfg \<longleftrightarrow>
     unat (cc_mtu cfg) \<le> 9240 \<and> unat (cc_window_size cfg) < 2 ^ 31 \<and>
     unat (cc_max_send_memory_bytes cfg) < 2 ^ 63 \<and> unat (cc_max_recv_memory_bytes cfg) < 2 ^ 63"

subsection \<open>The peer\<close>

text \<open>Handling a packet changes neither the socket nor the address of the server.\<close>

lemma same_peer_send:
  assumes "client_send_packet e type mode seq payload len (c, w) = Some (c', w')"
  shows "cl_sock c' = cl_sock c" "cl_server_addr c' = cl_server_addr c"
  using client_send_packet_keeps [OF assms] by auto

lemma same_peer_reconnect:
  assumes "client_trigger_reconnect e (c, w) = Some (c', w')"
  shows "cl_sock c' = cl_sock c" "cl_server_addr c' = cl_server_addr c"
  using assms by (auto simp: client_trigger_reconnect_def rel4u_time_now_ns_def Let_def bind_eq_Some_conv split: if_splits)

lemma same_peer_session_packet:
  assumes "client_on_session_packet e now hdr bytes (c, w) = Some (c', w')"
  shows "cl_sock c' = cl_sock c \<and> cl_server_addr c' = cl_server_addr c"
proof -
  obtain win rtt st where a: "rel4u_send_window_on_ack (cl_send_win c) (ack_num hdr) (sack_mask hdr) now (Some (cl_rtt c))
      (Some (cl_stats c)) = Some (win, rtt, st)"
    using assms by (auto simp: client_on_session_packet_def bind_eq_Some_conv)
  let ?c = "c\<lparr>cl_send_win := win, cl_rtt := the rtt, cl_stats := the st\<rparr>"
  obtain c2 w2 where 2: "(if packet_type hdr = REL4U_PKT_HEARTBEAT then client_send_control e REL4U_PKT_HEARTBEAT_ACK (?c, w)
      else Some (?c, w)) = Some (c2, w2)"
    using assms unfolding client_on_session_packet_def
    by (cases "if packet_type hdr = REL4U_PKT_HEARTBEAT then client_send_control e REL4U_PKT_HEARTBEAT_ACK (?c, w)
      else Some (?c, w)") (auto simp: a)
  then have p: "cl_sock c2 = cl_sock c \<and> cl_server_addr c2 = cl_server_addr c"
    using same_peer_send [where c = ?c and c' = c2 and w' = w2] by (auto split: if_splits)
  show ?thesis
  proof (cases "packet_type hdr = REL4U_PKT_DATA")
    case True
    then obtain r slots q w3 ack where "on_data e 0 (cl_recv_win c2) (cl_ready_slots c2) hdr (drop REL4U_HEADER_LEN bytes)
        (cl_recv_queue c2, w2) = Some (r, slots, (q, w3), ack)"
      using assms 2 unfolding client_on_session_packet_def
      by (cases "on_data e 0 (cl_recv_win c2) (cl_ready_slots c2) hdr (drop REL4U_HEADER_LEN bytes) (cl_recv_queue c2, w2)") (auto simp: a)
    with assms 2 p True show ?thesis unfolding client_on_session_packet_def by (auto simp: a)
  next
    case False
    with assms 2 p show ?thesis unfolding client_on_session_packet_def by (auto simp: a)
  qed
qed

lemma same_peer_packet:
  assumes "client_on_packet e state hdr bytes (c, w) = Some (stop, state', c', w')"
  shows "cl_sock c' = cl_sock c \<and> cl_server_addr c' = cl_server_addr c"
proof -
  obtain now w0 where t: "rel4u_time_now_ns e w = (now, w0)" by (metis prod.exhaust)
  define c0 where "c0 = c\<lparr>cl_last_activity_ns := now, cl_stats := (cl_stats c)\<lparr>packets_recv := packets_recv (cl_stats c) + 1,
      bytes_recv := bytes_recv (cl_stats c) + of_nat (length bytes)\<rparr>\<rparr>"
  have 0: "cl_sock c0 = cl_sock c" "cl_server_addr c0 = cl_server_addr c" by (simp_all add: c0_def)
  consider (resp) "packet_type hdr = REL4U_PKT_CONNECT_RESP \<and> state = REL4U_STATE_CONNECTING"
    | (reset) "packet_type hdr = REL4U_PKT_RESET"
    | (bye) "packet_type hdr = REL4U_PKT_REJECT \<or> packet_type hdr = REL4U_PKT_DISCONNECT"
    | (rest) "\<not> (packet_type hdr = REL4U_PKT_CONNECT_RESP \<and> state = REL4U_STATE_CONNECTING)"
      "packet_type hdr \<notin> {REL4U_PKT_RESET, REL4U_PKT_REJECT, REL4U_PKT_DISCONNECT}" by blast
  then show ?thesis
  proof cases
    case resp
    let ?c = "c0\<lparr>cl_session_id := session_id hdr, cl_state := REL4U_STATE_CONNECTED\<rparr>"
    obtain c1 w1 where "client_send_control e REL4U_PKT_CONNECT_ACK (?c, w0) = Some (c1, w1)"
      using assms resp by (cases "client_send_control e REL4U_PKT_CONNECT_ACK (?c, w0)") (auto simp: client_on_packet_def t c0_def)
    with same_peer_send [OF this] assms resp 0 show ?thesis by (auto simp: client_on_packet_def t c0_def)
  next
    case reset
    obtain c1 w1 where "client_trigger_reconnect e (c0, w0) = Some (c1, w1)"
      using assms reset by (cases "client_trigger_reconnect e (c0, w0)") (auto simp: client_on_packet_def t c0_def)
    with same_peer_reconnect [OF this] assms reset 0 show ?thesis by (auto simp: client_on_packet_def t c0_def)
  next
    case bye
    with assms show ?thesis by (auto simp: client_on_packet_def t)
  next
    case rest
    then have "client_on_session_packet e now hdr bytes (c0, w0) = Some (c', w')"
      using assms by (auto simp: client_on_packet_def t c0_def)
    from same_peer_session_packet [OF this] 0 show ?thesis by simp
  qed
qed

definition from_peer :: "rel4u_net_addr \<Rightarrow> u8 list \<times> rel4u_net_addr \<Rightarrow> bool" where
  "from_peer a = (\<lambda>(bytes, src). rel4u_net_addr_equal (Some src) (Some a) \<and>
     fst (rel4u_packet_decode_header (Some bytes) (of_nat (length bytes)) (Some zero_header)) = 0)"

lemma not_from_peer:
  assumes "\<not> from_peer (cl_server_addr c) dg"
  shows "client_on_datagram e state dg (c, w) = Some (False, state, c, w)"
  using assms by (auto simp: from_peer_def client_on_datagram_def split: prod.splits)

lemma same_peer_datagram:
  assumes "client_on_datagram e state dg (c, w) = Some (stop, state', c', w')"
  shows "cl_sock c' = cl_sock c \<and> cl_server_addr c' = cl_server_addr c"
  using assms same_peer_packet by (auto simp: client_on_datagram_def split: prod.splits if_splits)

subsection \<open>Reconnecting\<close>

lemma requeued_msgs:
  assumes env: "env_ok e" and inv: "client_inv c" and mem: "total_alloc (env_alloc e (wd_pushes w))"
    and fits: "queue_fits (cl_send_queue c) (map entry_item (unacked (sw_entries (cl_send_win c))))"
  shows "queue_msgs (requeued e c w) = map slot_msg (unacked (sw_entries (cl_send_win c))) @ queue_msgs (cl_send_queue c)"
    "q_dropped_count (requeued e c w) = q_dropped_count (cl_send_queue c)"
proof -
  have s: "send_inv (cl_send_win c)" and q: "queue_inv (cl_send_queue c)" using inv by (simp_all add: client_inv_def)
  let ?es = "unacked (sw_entries (cl_send_win c))"
  have es: "set ?es \<subseteq> set (sw_entries (cl_send_win c))" by (auto simp: unacked_def)
  have valid: "\<forall>i \<in> set (map entry_item ?es). valid_item i" using entry_items(2) [OF s] es by auto
  have msg: "map item_msg (map entry_item ?es) = map slot_msg ?es" using entry_items(3) [OF s] es by auto
  have alloc: "fresh_alloc (env_alloc e (wd_pushes w))" using env by (simp add: env_ok_def)
  from notify_queue.requeue_msgs [OF alloc mem q valid fits, of 0] msg
  show "queue_msgs (requeued e c w) = map slot_msg ?es @ queue_msgs (cl_send_queue c)"
    "q_dropped_count (requeued e c w) = q_dropped_count (cl_send_queue c)"
    by (auto simp: requeued_def)
qed

lemma requeued_counted:
  assumes env: "env_ok e" and inv: "client_inv c"
  shows "\<exists>d. subseq (queue_msgs (requeued e c w)) (map slot_msg (unacked (sw_entries (cl_send_win c))) @ queue_msgs (cl_send_queue c)) \<and>
    length (queue_msgs (requeued e c w)) + d = length (unacked (sw_entries (cl_send_win c))) + length (queue_msgs (cl_send_queue c)) \<and>
    q_dropped_count (requeued e c w) = q_dropped_count (cl_send_queue c) + of_nat d"
proof -
  let ?es = "unacked (sw_entries (cl_send_win c))"
  have s: "send_inv (cl_send_win c)" and q: "queue_inv (cl_send_queue c)" using inv by (auto simp: client_inv_def)
  have items: "\<forall>i \<in> set (map entry_item ?es). valid_item i" "map (item_msg \<circ> entry_item) ?es = map slot_msg ?es"
    using entry_items(2,3) [OF s] by (auto simp: unacked_def)
  have "fresh_alloc (env_alloc e (wd_pushes w))" using env by (simp add: env_ok_def)
  from notify_queue.requeue_counted [OF this q items(1), of 0] show ?thesis by (simp add: requeued_def items(2))
qed

text \<open>
  A \<open>RESET\<close> of the current session. Without automatic reconnection the client is disconnected and nothing else changes; with it, the messages
  that are not acknowledged go back to the queue.
\<close>

lemma client_reset_law:
  assumes env: "env_ok e" and inv: "client_inv c"
    and "rel4u_net_addr_equal (Some src) (Some (cl_server_addr c))"
    and "rel4u_packet_decode_header (Some bytes) (of_nat (length bytes)) (Some zero_header) = (0, Some hdr)"
    and "packet_type hdr = REL4U_PKT_RESET" "session_id hdr = cl_session_id c"
  shows "\<exists>c' w'. client_on_datagram e REL4U_STATE_CONNECTED (bytes, src) (c, w) = Some (False, cl_state c', c', w') \<and> wd_sent w' = wd_sent w \<and>
    (if cc_disable_auto_reconnect (cl_config c)
     then cl_state c' = REL4U_STATE_DISCONNECTED \<and> cl_send_queue c' = cl_send_queue c \<and> cl_send_win c' = cl_send_win c
     else cl_state c' = REL4U_STATE_CONNECTING \<and> cl_send_queue c' = requeued e c w \<and> cl_session_id c' = 0 \<and>
       sw_entries (cl_send_win c') = [] \<and> sw_head_seq (cl_send_win c') = 1 \<and>
       rw_expected_seq (cl_recv_win c') = 1 \<and> rw_buf (cl_recv_win c') = Map.empty)"
proof -
  obtain now w0 where t: "rel4u_time_now_ns e w = (now, w0)" "wd_sent w0 = wd_sent w" "wd_pushes w0 = wd_pushes w"
    by (simp add: rel4u_time_now_ns_def Let_def)
  define c0 where "c0 = c\<lparr>cl_last_activity_ns := now, cl_stats := (cl_stats c)\<lparr>packets_recv := packets_recv (cl_stats c) + 1,
      bytes_recv := bytes_recv (cl_stats c) + of_nat (length bytes)\<rparr>\<rparr>"
  have 0: "client_inv c0" "cl_send_win c0 = cl_send_win c" "cl_send_queue c0 = cl_send_queue c" "cl_config c0 = cl_config c"
    using inv by (simp_all add: client_inv_def c0_def)
  have run: "client_on_datagram e REL4U_STATE_CONNECTED (bytes, src) (c, w) =
      Option.bind (client_trigger_reconnect e (c0, w0)) (\<lambda>(c, w). Some (False, cl_state c, c, w))"
    using assms(3-6) by (simp add: client_on_datagram_def client_on_packet_def client_accepts_def t(1) c0_def)
  show ?thesis
  proof (cases "cc_disable_auto_reconnect (cl_config c)")
    case True
    then have "client_trigger_reconnect e (c0, w0) = Some (c0\<lparr>cl_state := REL4U_STATE_DISCONNECTED\<rparr>, w0)"
      by (simp add: client_trigger_reconnect_def 0(4))
    with True 0 t(2) run show ?thesis by (simp add: exI [of _ "c0\<lparr>cl_state := REL4U_STATE_DISCONNECTED\<rparr>"])
  next
    case False
    from client_reconnect_law [OF env 0(1), of w0] False 0(4) obtain t' w' where
      r: "client_trigger_reconnect e (c0, w0) = Some ((client_reset_session (c0\<lparr>cl_send_queue := requeued e c0 w0\<rparr>))
          \<lparr>cl_last_activity_ns := t', cl_state := REL4U_STATE_CONNECTING\<rparr>, w')" "wd_sent w' = wd_sent w0" "queue_inv (requeued e c0 w0)"
      by auto
    have inv: "client_inv (c0\<lparr>cl_send_queue := requeued e c0 w0\<rparr>)" using 0(1) r(3) by (simp add: client_inv_def)
    have "requeued e c0 w0 = requeued e c w" by (simp add: requeued_def 0(2,3) t(3))
    with False run r reset_session_windows [OF inv] t(2) show ?thesis by simp
  qed
qed

subsection \<open>Connecting\<close>

text \<open>The clock in milliseconds at its \<open>n\<close>-th reading, and what the worker may do while a call waits for it.\<close>

definition clock_ms :: "env \<Rightarrow> nat \<Rightarrow> u64" where
  "clock_ms e n = (tv_sec (env_clock e n) * 1000000000 + tv_nsec (env_clock e n)) div 1000000"

definition meanwhile :: "(client_world \<Rightarrow> client_world option) \<Rightarrow> bool" where
  "meanwhile nap \<longleftrightarrow>
     (\<forall>c w. client_inv c \<longrightarrow> (\<exists>c' w'. nap (c, w) = Some (c', w') \<and> client_inv c' \<and> cl_config c' = cl_config c \<and>
        wd_clock w \<le> wd_clock w'))"

lemma meanwhileE:
  assumes "meanwhile nap" "client_inv c"
  obtains c' w' where "nap (c, w) = Some (c', w')" "client_inv c'" "cl_config c' = cl_config c" "wd_clock w \<le> wd_clock w'"
  using assms unfolding meanwhile_def by blast

lemma now_ms: "rel4u_time_now_ms e w = (clock_ms e (wd_clock w), w\<lparr>wd_clock := wd_clock w + 1\<rparr>)"
  by (simp add: rel4u_time_now_ms_def rel4u_time_now_ns_def clock_ms_def Let_def)

text \<open>
  A sleep of 10 ms, as long as the clock is below \<open>limit\<close>: the clock, when it is read next, is at least 10 ms past the reading before the sleep,
  or at the limit. (A clock of 64 bits cannot go on for ever.)
\<close>

definition sleeps :: "env \<Rightarrow> nat \<Rightarrow> (client_world \<Rightarrow> client_world option) \<Rightarrow> bool" where
  "sleeps e limit nap \<longleftrightarrow> meanwhile nap \<and>
     (\<forall>c w c' w'. nap (c, w) = Some (c', w') \<longrightarrow> 0 < wd_clock w \<longrightarrow>
        min limit (unat (clock_ms e (wd_clock w - 1)) + 10) \<le> unat (clock_ms e (wd_clock w')))"

lemma sleeps_until:
  assumes "sleeps e limit nap" "nap (c, w) = Some (c', w')" "0 < wd_clock w" "limit \<le> unat (clock_ms e (wd_clock w - 1)) + 10 + n"
  shows "limit \<le> unat (clock_ms e (wd_clock w')) + n"
proof -
  have "min limit (unat (clock_ms e (wd_clock w - 1)) + 10) \<le> unat (clock_ms e (wd_clock w'))"
    using assms(1-3) unfolding sleeps_def by blast
  with assms(4) show ?thesis by simp
qed

text \<open>The test against the timeout, on 64-bit words: a clock that went backwards ends the wait too.\<close>

lemma clock_ms_bound: "unat (clock_ms e n) < 2 ^ 63"
proof -
  have "unat (clock_ms e n) = unat (tv_sec (env_clock e n) * 1000000000 + tv_nsec (env_clock e n)) div 1000000"
    by (simp add: clock_ms_def unat_div)
  also have "\<dots> < 2 ^ 63" using unat_u64_lt [of "tv_sec (env_clock e n) * 1000000000 + tv_nsec (env_clock e n)"] by simp
  finally show ?thesis .
qed

lemma wait_on:
  fixes t :: u32
  assumes "\<not> ucast t \<le> clock_ms e n - clock_ms e m"
  shows "\<not> unat (clock_ms e n) < unat (clock_ms e m)"
proof
  assume less: "unat (clock_ms e n) < unat (clock_ms e m)"
  then have "unat (clock_ms e n - clock_ms e m) = unat (clock_ms e n) + 2 ^ 64 - unat (clock_ms e m)"
    by (simp add: unat_sub_if' word_le_nat_alt)
  then have "2 ^ 32 \<le> unat (clock_ms e n - clock_ms e m)" using clock_ms_bound [of e m] by simp
  with assms unat_u32_lt [of t] show False by (simp add: word_le_nat_alt widen32)
qed

lemma not_timed_out:
  fixes t :: u32
  assumes "\<not> ucast t \<le> clock_ms e n - clock_ms e m"
  shows "unat (clock_ms e n) < unat (clock_ms e m) + unat t"
proof -
  have "unat (clock_ms e m) \<le> unat (clock_ms e n)" using wait_on [OF assms] by simp
  then have "unat (clock_ms e n - clock_ms e m) = unat (clock_ms e n) - unat (clock_ms e m)"
    by (simp add: unat_sub_if' word_le_nat_alt)
  with assms show ?thesis by (simp add: word_le_nat_alt widen32)
qed

lemma connect_check_codes:
  assumes "connect_check e start (c, w) = (Some r, w')"
  shows "r \<in> {REL4U_OK, REL4U_ERR_SERVER_FULL, REL4U_ERR_NOT_CONNECTED, REL4U_ERR_TIMEOUT} \<and>
    (r = REL4U_OK \<longrightarrow> cl_running c \<and> cl_state c = REL4U_STATE_CONNECTED)"
  using assms by (auto simp: connect_check_def now_ms Let_def split: if_splits)

lemma connect_wait_returns:
  assumes "client_inv c" "\<forall>nap \<in> set naps. sleeps e (unat (clock_ms e m) + unat (cc_connect_timeout_ms (cl_config c))) nap"
    and "unat (clock_ms e (wd_clock w)) < unat (clock_ms e m) \<or>
      unat (clock_ms e m) + unat (cc_connect_timeout_ms (cl_config c)) \<le> unat (clock_ms e (wd_clock w)) + 10 * length naps"
  shows "\<exists>r c' w'. connect_wait e (clock_ms e m) naps (c, w) = Some (Some r, c', w') \<and> client_inv c' \<and>
    r \<in> {REL4U_OK, REL4U_ERR_SERVER_FULL, REL4U_ERR_NOT_CONNECTED, REL4U_ERR_TIMEOUT} \<and>
    (r = REL4U_OK \<longrightarrow> cl_running c' \<and> cl_state c' = REL4U_STATE_CONNECTED)"
  using assms
proof (induction naps arbitrary: c w)
  case Nil
  obtain res w1 where ch: "connect_check e (clock_ms e m) (c, w) = (res, w1)" by (metis prod.exhaust)
  show ?case
  proof (cases res)
    case None
    then have "\<not> ucast (cc_connect_timeout_ms (cl_config c)) \<le> clock_ms e (wd_clock w) - clock_ms e m"
      using ch by (auto simp: connect_check_def now_ms Let_def split: if_splits)
    from not_timed_out [OF this] wait_on [OF this] Nil(3) show ?thesis by simp
  next
    case (Some r)
    with ch connect_check_codes [OF ch [unfolded Some]] Nil(1) show ?thesis by (subst connect_wait.simps) auto
  qed
next
  case (Cons nap naps)
  obtain res w1 where ch: "connect_check e (clock_ms e m) (c, w) = (res, w1)" by (metis prod.exhaust)
  show ?case
  proof (cases res)
    case None
    then have late: "\<not> ucast (cc_connect_timeout_ms (cl_config c)) \<le> clock_ms e (wd_clock w) - clock_ms e m" and w1: "wd_clock w1 = wd_clock w + 1"
      using ch by (auto simp: connect_check_def now_ms Let_def split: if_splits)
    have nap: "sleeps e (unat (clock_ms e m) + unat (cc_connect_timeout_ms (cl_config c))) nap" using Cons.prems(2) by simp
    then have "meanwhile nap" by (simp add: sleeps_def)
    then obtain c2 w2 where 2: "nap (c, w1) = Some (c2, w2)" "client_inv c2" "cl_config c2 = cl_config c"
      by (rule meanwhileE [OF _ Cons.prems(1)])
    have "unat (clock_ms e m) + unat (cc_connect_timeout_ms (cl_config c2)) \<le> unat (clock_ms e (wd_clock w2)) + 10 * length naps"
      using sleeps_until [OF nap 2(1), of "10 * length naps"] Cons.prems(3) wait_on [OF late] w1 2(3) by simp
    with Cons.IH [OF 2(2), of w2] Cons.prems(2) 2(3) show ?thesis
      using None ch 2(1) by (subst connect_wait.simps) simp
  next
    case (Some r)
    with ch connect_check_codes [OF ch [unfolded Some]] Cons.prems(1) show ?thesis by (subst connect_wait.simps) auto
  qed
qed

definition client_down :: "rel4u_client \<Rightarrow> bool" where
  "client_down c \<longleftrightarrow> cl_state c = REL4U_STATE_DISCONNECTED \<and> \<not> cl_worker_started c \<and> cl_sock c = -1"

lemma client_disconnect_law:
  assumes "client_inv c" "meanwhile join"
  obtains c' w' where "rel4u_client_disconnect e join (c, w) = Some (REL4U_OK, c', w')" "client_inv c'" "client_down c'"
    "\<not> cl_worker_started c \<Longrightarrow> w' = w" "cl_config c' = cl_config c"
proof (cases "cl_worker_started c")
  case True
  obtain c1 w1 where 1: "client_shutdown e (c, w) = (c1, w1)" by (metis prod.exhaust)
  then have inv1: "client_inv c1" using client_shutdown_inv [OF assms(1), of e w] by simp
  have cfg: "cl_config c1 = cl_config c"
    using 1 by (auto simp: client_shutdown_defs Let_def split: prod.splits if_splits)
  obtain c2 w2 where 2: "join (c1, w1) = Some (c2, w2)" "client_inv c2" "cl_config c2 = cl_config c1"
    by (rule meanwhileE [OF assms(2) inv1])
  show thesis
  proof (rule that)
    show "rel4u_client_disconnect e join (c, w) = Some (REL4U_OK, client_teardown c2, w2)"
      using True 1 2(1) by (simp add: rel4u_client_disconnect_def)
    show "client_inv (client_teardown c2)" by (rule client_teardown_inv [OF 2(2)])
  qed (simp_all add: client_down_def client_teardown_def True 2(3) cfg)
next
  case False
  let ?c = "(if cl_sock c \<noteq> REL4U_INVALID_SOCKET then c\<lparr>cl_sock := REL4U_INVALID_SOCKET\<rparr> else c)\<lparr>cl_state := REL4U_STATE_DISCONNECTED\<rparr>"
  show thesis
  proof (rule that)
    show "rel4u_client_disconnect e join (c, w) = Some (REL4U_OK, ?c, w)"
      using False by (simp add: rel4u_client_disconnect_def)
    show "client_inv ?c" using assms(1) by (simp add: client_inv_def)
  qed (simp_all add: client_down_def False)
qed

lemma client_open_law:
  assumes "client_inv c" "client_down c"
  obtains r c' where "client_open sys c = (r, c')" "client_inv c'" "cl_config c' = cl_config c"
    "r \<in> {REL4U_OK, REL4U_ERR_INVALID_PARAM, REL4U_ERR_SOCKET, REL4U_ERR_SYSTEM}" "r \<noteq> REL4U_OK \<Longrightarrow> client_down c'"
proof -
  obtain r c' where o: "client_open sys c = (r, c')" by (metis prod.exhaust)
  have "cl_config c' = cl_config c \<and> r \<in> {REL4U_OK, REL4U_ERR_INVALID_PARAM, REL4U_ERR_SOCKET, REL4U_ERR_SYSTEM} \<and>
      (r \<noteq> REL4U_OK \<longrightarrow> client_down c')"
    using o assms(2) by (auto simp: client_open_def client_down_def Let_def split: prod.splits if_splits)
  with that [OF o] client_open_inv [OF assms(1), of sys] o show thesis by auto
qed

subsection \<open>Properties\<close>

definition ex_cfg :: rel4u_client_config where
  "ex_cfg = \<lparr>cc_server_address = Some ''srv'', cc_server_port = 9000, cc_bind_address = None, cc_bind_port = 0, cc_mtu = 0,
     cc_send_queue_capacity = 8, cc_recv_queue_capacity = 8, cc_window_size = 8, cc_heartbeat_interval_ms = 0,
     cc_inactivity_timeout_ms = 0, cc_connect_timeout_ms = 0, cc_disable_auto_reconnect = False,
     cc_reconnect_interval_ms = 0, cc_memory_mode = REL4U_MEM_FIXED, cc_queue_full_policy = REL4U_QUEUE_FULL_DROP_NEW,
     cc_max_send_memory_bytes = 0, cc_max_recv_memory_bytes = 0\<rparr>"

definition ex_mem :: client_mem where
  "ex_mem = \<lparr>cm_client = True, cm_send_ring = Some (replicate 8 (ex_item 0 [])), cm_recv_ring = Some (replicate 8 (ex_item 0 [])),
     cm_send_slots = True, cm_recv_slots = True\<rparr>"

definition ex_client :: rel4u_client where
  "ex_client = the (rel4u_client_create ex_mem (Some ex_cfg))"

lemma ex_client_create: "rel4u_client_create ex_mem (Some ex_cfg) = Some ex_client"
proof -
  have "rel4u_client_create ex_mem (Some ex_cfg) \<noteq> None"
    by (simp add: rel4u_client_create_def ex_mem_def ex_cfg_def client_defaults_def rel4u_mpmc_init_def
      rel4u_send_window_init_def rel4u_recv_window_init_def Let_def)
  then show ?thesis by (auto simp: ex_client_def)
qed

lemma ex_cfg_ok: "client_mem_ok ex_mem ex_cfg" "client_cfg_ok ex_cfg"
  by (simp_all add: client_mem_ok_def client_cfg_ok_def ex_mem_def ex_cfg_def client_defaults_def)

lemma client_created:
  assumes "rel4u_client_create mem (Some cfg) = Some c" "client_mem_ok mem cfg" "client_cfg_ok cfg"
  shows "client_inv c" "cl_config c = client_defaults cfg" "cl_state c = REL4U_STATE_DISCONNECTED"
    "\<not> cl_running c" "\<not> cl_worker_started c" "queue_msgs (cl_send_queue c) = []" "queue_msgs (cl_recv_queue c) = []"
  using client_create_inv [OF assms(1)] assms(2,3) by (simp_all add: client_mem_ok_def client_cfg_ok_def)

lemma ex_client_facts:
  "client_inv ex_client" "queue_inv (cl_send_queue ex_client)" "\<not> cl_worker_started ex_client"
  "cc_connect_timeout_ms (cl_config ex_client) = 3000" "\<not> cc_disable_auto_reconnect (cl_config ex_client)"
  "cl_session_id ex_client = 0" "q_mode (cl_send_queue ex_client) = REL4U_MEM_FIXED" "q_capacity (cl_send_queue ex_client) = 8"
  "queue_msgs (cl_send_queue ex_client) = []" "sw_len (cl_send_win ex_client) = 0" "sw_capacity (cl_send_win ex_client) = 8"
  "sw_entries (cl_send_win ex_client) = []" "sw_head_seq (cl_send_win ex_client) = 1"
proof -
  note c = client_created [OF ex_client_create ex_cfg_ok]
  show "client_inv ex_client" "queue_inv (cl_send_queue ex_client)" "\<not> cl_worker_started ex_client"
    "queue_msgs (cl_send_queue ex_client) = []" using c by (simp_all add: client_inv_def)
  show "cc_connect_timeout_ms (cl_config ex_client) = 3000" "\<not> cc_disable_auto_reconnect (cl_config ex_client)"
    using c(2) by (simp_all add: client_defaults_def ex_cfg_def)
  have e: "ex_client = the (rel4u_client_create ex_mem (Some ex_cfg))" by (simp add: ex_client_create)
  show "cl_session_id ex_client = 0" "q_mode (cl_send_queue ex_client) = REL4U_MEM_FIXED" "q_capacity (cl_send_queue ex_client) = 8"
    and len: "sw_len (cl_send_win ex_client) = 0" and "sw_capacity (cl_send_win ex_client) = 8" "sw_head_seq (cl_send_win ex_client) = 1"
    unfolding e by (simp_all add: rel4u_client_create_def ex_mem_def ex_cfg_def client_defaults_def rel4u_mpmc_init_def
      rel4u_send_window_init_def rel4u_recv_window_init_def Let_def zero_client_def zero_queue_def sw_len_def)
  from len show "sw_entries (cl_send_win ex_client) = []" by (simp add: sw_entries_def)
qed

text \<open>A window with one message.\<close>

lemma ex_client_window:
  obtains win where "send_inv win" "sw_head_seq win = 1" "length (sw_entries win) = 1" "length (unacked (sw_entries win)) = 1"
proof -
  have s: "send_inv (cl_send_win ex_client)" using ex_client_facts(1) by (simp add: client_inv_def)
  from send_push_reliable [OF s, of 1 "[5]" 3 0] ex_client_facts(10-13) obtain win x where
    "send_inv win" "sw_head_seq win = 1" "sw_entries win = [x]" "\<not> ss_acked x" by (auto simp: new_slot_def)
  then show thesis by (intro that [of win]) (simp_all del: length_sw_entries)
qed

definition ex_sys :: sys where
  "ex_sys = \<lparr>sys_getaddrinfo = (\<lambda>_ _. (0, Some (ex_addr 1))), sys_socket = (\<lambda>_. 3), sys_bind = (\<lambda>_ _. 0), sys_pipe = (0, 4, 5),
     sys_thread_create = 0\<rparr>"

text \<open>
  C4. A client never leaves its arrays: from \<open>rel4u_client_create\<close>, with an MTU of at most 9240, whatever the
  application calls, whatever arrives from the network, and however the rounds of the worker
  interleave with the calls, no operation faults, both windows and both queues stay well formed, the
  ready part of the receive window is always handed over completely, and the retransmission
  timeout stays between 20 and 2000 ms.
\<close>

theorem client_safe:
  assumes "rel4u_client_create mem (Some cfg) = Some c" "client_mem_ok mem cfg" "client_cfg_ok cfg"
    and "env_ok e" "\<forall>x \<in> set xs. client_event_ok x"
  shows "\<exists>c' w'. run_events (client_step e) xs (c, w) = Some (c', w') \<and> send_inv (cl_send_win c') \<and>
    recv_inv (cl_recv_win c') \<and> rw_buf (cl_recv_win c') 0 = None \<and> queue_inv (cl_send_queue c') \<and> queue_inv (cl_recv_queue c') \<and>
    20 \<le> rel4u_rtt_get_rto (Some (cl_rtt c')) \<and> rel4u_rtt_get_rto (Some (cl_rtt c')) \<le> 2000"
proof -
  from client_run.run_safe [of e "(c, w)" xs] assms(4,5) client_created(1) [OF assms(1-3)]
  obtain c' w' where "run_events (client_step e) xs (c, w) = Some (c', w')" "client_inv c'" by auto
  then show ?thesis by (auto simp: client_inv_def receiving_ok_def rto_ok_def rtt_inv_def rel4u_rtt_get_rto_def)
qed

lemma client_safe_witness:
  "\<exists>c' w'. run_events (client_step ex_env) [Client_Send 3 (Some [1, 2]) 2, Client_Receive REL4U_STATE_CONNECTED [([1, 2], zero_addr)],
       Client_Recv (Some [0]) 1, Client_Drain REL4U_STATE_CONNECTED, Client_Timers REL4U_STATE_CONNECTED, Client_Shutdown]
     (ex_client, ex_world) = Some (c', w') \<and> send_inv (cl_send_win c')"
  using client_safe [OF ex_client_create ex_cfg_ok ex_env_ok, of "[Client_Send 3 (Some [1, 2]) 2,
    Client_Receive REL4U_STATE_CONNECTED [([1, 2], zero_addr)], Client_Recv (Some [0]) 1, Client_Drain REL4U_STATE_CONNECTED,
    Client_Timers REL4U_STATE_CONNECTED, Client_Shutdown]" ex_world]
  by (auto simp del: run_events.simps)

text \<open>
  C13. Draining the send queue of a connected client, exactly: some number \<open>k\<close> of messages leaves the head of the queue; they
  are handed to \<open>sendto\<close> one datagram each, in the order of the queue, addressed to the server and with their bytes as payload;
  the reliable ones among them are appended to the send window in this order; and it went on until the queue was empty or
  the window full.
\<close>

theorem client_drain_exact:
  assumes "env_ok e" "client_inv c" "cl_sock c \<noteq> REL4U_INVALID_SOCKET"
  shows "\<exists>k c' w' ds. client_drain e REL4U_STATE_CONNECTED (c, w) = Some (c', w') \<and> client_inv c' \<and>
    k \<le> length (queue_msgs (cl_send_queue c)) \<and> queue_msgs (cl_send_queue c') = drop k (queue_msgs (cl_send_queue c)) \<and>
    map slot_load (sw_entries (cl_send_win c')) =
      map slot_load (sw_entries (cl_send_win c)) @ filter (\<lambda>m. reliable (fst m)) (map snd (take k (queue_msgs (cl_send_queue c)))) \<and>
    (queue_msgs (cl_send_queue c') = [] \<or> sw_len (cl_send_win c') = unat (sw_capacity (cl_send_win c))) \<and>
    wd_sent w' = wd_sent w @ ds \<and>
    map (map_prod id (drop REL4U_HEADER_LEN)) ds =
      map (\<lambda>m. (cl_server_addr c, snd (snd m))) (take k (queue_msgs (cl_send_queue c)))"
proof -
  have "out_room (env_item e)" using assms(1) by (simp add: env_ok_def out_room_def)
  with client_drain_loop_law [of e "(c, w)" "env_item e"] assms(1,2) obtain k c' w' where
    d: "client_drain_loop e (env_item e) (c, w) = Some (c', w')" "drained_client (c, w) k (c', w')" by auto
  then show ?thesis using assms(3)
    by (intro exI [of _ k] exI [of _ c'] exI [of _ w']) (auto simp: client_drain_def drained_client_def)
qed

lemma client_drain_exact_witness:
  "\<exists>c k c' w'. length (queue_msgs (cl_send_queue c)) = 1 \<and>
     client_drain ex_env REL4U_STATE_CONNECTED (c, ex_world) = Some (c', w') \<and> k \<le> 1 \<and>
     queue_msgs (cl_send_queue c') = drop k (queue_msgs (cl_send_queue c))"
proof -
  obtain q where q: "queue_inv q" "queue_msgs q = [item_msg (ex_item 0 [5])]" by (rule ex_queue_one)
  let ?c = "ex_client\<lparr>cl_send_queue := q, cl_sock := 3\<rparr>"
  have "client_inv ?c" using ex_client_facts(1) q(1) by (simp add: client_inv_def)
  from client_drain_exact [OF ex_env_ok this, of ex_world] q(2) show ?thesis
    by (intro exI [of _ ?c]) auto
qed

text \<open>
  The datagrams one run of the receiving loop reads: those before the first empty one, for which \<open>recvfrom\<close> returns 0 as if nothing
  were there, each cut to the size of the buffer.
\<close>

definition loop_reads :: "(u8 list \<times> rel4u_net_addr) list \<Rightarrow> (u8 list \<times> rel4u_net_addr) list" where
  "loop_reads dgs = map (map_prod (take (REL4U_MAX_PAYLOAD_SIZE + REL4U_HEADER_LEN)) id) (takeWhile (\<lambda>dg. fst dg \<noteq> []) dgs)"

text \<open>
  C16. Only the server can influence a client, except that anybody can cut its reading short. In any state of the connection, one run of the
  receiving loop over the datagrams that have arrived does exactly what it would do with the packets from the server's address alone,
  of those before the first empty datagram. Datagrams from other addresses and bytes that are no packet, wherever they stand between the
  server's packets, change nothing. An empty datagram, whoever sent it, ends the loop, and what stands behind it is left to the next round.
\<close>

theorem client_noninterference:
  "client_receive e dgs state (c, w) = client_receive e (filter (from_peer (cl_server_addr c)) (loop_reads dgs)) state (c, w)"
proof (induction dgs arbitrary: state c w)
  case (Cons dg dgs)
  obtain bytes src where dg: "dg = (bytes, src)" by (cases dg)
  define dg' where "dg' = (take 9240 bytes, src)"
  show ?case
  proof (cases "cl_sock c = -1 \<or> bytes = []")
    case True
    then have "client_receive e (dg # dgs) state (c, w) = Some (state, c, w)"
      by (auto simp: dg rel4u_net_recvfrom_def)
    moreover have "cl_sock c = -1 \<Longrightarrow> client_receive e xs state (c, w) = Some (state, c, w)" for xs
      by (cases xs) (simp_all add: rel4u_net_recvfrom_def)
    moreover have "bytes = [] \<Longrightarrow> loop_reads (dg # dgs) = []" by (simp add: loop_reads_def dg)
    ultimately show ?thesis using True by (cases "bytes = []") (simp_all del: client_receive.simps(2))
  next
    case False
    then have recv: "rel4u_net_recvfrom (Some dg) (cl_sock c) 9240 = (int (length (take 9240 bytes)), Some dg')"
        "rel4u_net_recvfrom (Some dg') (cl_sock c) 9240 = (int (length (take 9240 bytes)), Some dg')" "0 < length (take 9240 bytes)"
      by (simp_all add: dg dg'_def rel4u_net_recvfrom_def)
    have reads: "loop_reads (dg # dgs) = dg' # loop_reads dgs" using False by (simp add: loop_reads_def dg dg'_def)
    show ?thesis
    proof (cases "from_peer (cl_server_addr c) dg'")
      case peer: True
      show ?thesis
      proof (cases "client_on_datagram e state dg' (c, w)")
        case None
        with peer recv reads show ?thesis by simp
      next
        case (Some r)
        obtain stop s c1 w1 where r: "r = (stop, s, c1, w1)" by (metis prod.exhaust)
        have "cl_server_addr c1 = cl_server_addr c" using same_peer_datagram Some r by blast
        with Some r peer recv reads Cons show ?thesis by simp
      qed
    next
      case peer: False
      with not_from_peer [OF peer, of e state w] recv reads Cons show ?thesis by simp
    qed
  qed
qed (simp add: loop_reads_def)

text \<open>
  C19. \<open>rel4u_client_send\<close>, exactly. No data, a message above the MTU's payload, and a client that is not connected (nor
  reconnecting automatically) give their error codes and change nothing. A message the MTU allows but the 9216 bytes of a queue
  item do not hold overflows the item on the stack. Otherwise the message is queued last, or refused, with every
  message that was dropped for it counted.
\<close>

theorem client_send_exact:
  assumes env: "env_ok e" and q: "queue_inv (cl_send_queue c)" and len: "unat len \<le> length bytes"
  shows "rel4u_client_send e mode None len (c, w) = Some (REL4U_ERR_INVALID_PARAM, c, w) \<and>
    (if unat len > REL4U_MAX_PAYLOAD (cc_mtu (cl_config c)) then
       rel4u_client_send e mode (Some bytes) len (c, w) = Some (REL4U_ERR_MSG_TOO_LARGE, c, w)
     else if \<not> cl_running c \<or> cl_state c = REL4U_STATE_DISCONNECTED \<or> cl_state c = REL4U_STATE_DISCONNECTING \<or>
        cl_state c = REL4U_STATE_CONNECTING \<and> cc_disable_auto_reconnect (cl_config c) then
       rel4u_client_send e mode (Some bytes) len (c, w) = Some (REL4U_ERR_NOT_CONNECTED, c, w)
     else if unat len > REL4U_MAX_MSG_SIZE then
       rel4u_client_send e mode (Some bytes) len (c, w) = None
     else \<exists>r c' w' k. rel4u_client_send e mode (Some bytes) len (c, w) = Some (r, c', w') \<and> k \<le> length (queue_msgs (cl_send_queue c)) \<and>
       (r = REL4U_OK \<and> queue_msgs (cl_send_queue c') = drop k (queue_msgs (cl_send_queue c)) @ [(0, mode, take (unat len) bytes)] \<and>
          q_dropped_count (cl_send_queue c') = q_dropped_count (cl_send_queue c) + of_nat k \<or>
        r = REL4U_ERR_QUEUE_FULL \<and> queue_msgs (cl_send_queue c') = drop k (queue_msgs (cl_send_queue c)) \<and>
          q_dropped_count (cl_send_queue c') = q_dropped_count (cl_send_queue c) + of_nat k + 1))"
proof (cases "unat len > REL4U_MAX_PAYLOAD (cc_mtu (cl_config c)) \<or> \<not> cl_running c \<or> cl_state c = REL4U_STATE_DISCONNECTED \<or>
    cl_state c = REL4U_STATE_DISCONNECTING \<or> cl_state c = REL4U_STATE_CONNECTING \<and> cc_disable_auto_reconnect (cl_config c) \<or>
    unat len > REL4U_MAX_MSG_SIZE")
  case True
  have "unat len > 9216 \<Longrightarrow> memcpy (it_data (env_item e)) bytes (unat len) = None" using env by (simp add: memcpy_def env_ok_def)
  with True show ?thesis by (cases "cl_state c") (auto simp: rel4u_client_send_def)
next
  case False
  then have open_: "\<not> (cl_state c \<noteq> REL4U_STATE_CONNECTED \<and> (cc_disable_auto_reconnect (cl_config c) \<or> cl_state c \<noteq> REL4U_STATE_CONNECTING))"
    by (cases "cl_state c") auto
  from False obtain d where d: "memcpy (it_data (env_item e)) bytes (unat len) = Some d"
    using len env by (simp add: memcpy_def env_ok_def)
  define item where "item = (env_item e)\<lparr>it_client_id := 0, it_mode := mode, it_len := ucast len, it_data := d\<rparr>"
  have item: "valid_item item" "item_msg item = (0, mode, take (unat len) bytes)"
    unfolding item_def by (rule send_item_valid [OF env d])+
  obtain ok q' where p: "rel4u_mpmc_try_push (env_alloc e (wd_pushes w)) (cl_send_queue c) (Some item) = (ok, q')"
    by (metis prod.exhaust)
  have alloc: "fresh_alloc (env_alloc e (wd_pushes w))" using env by (simp add: env_ok_def)
  from try_queue.push_law [OF alloc q item(1) p] obtain k where
    k: "k \<le> length (queue_msgs (cl_send_queue c))" "if ok then queue_msgs q' = drop k (queue_msgs (cl_send_queue c)) @ [item_msg item] \<and>
        q_dropped_count q' = q_dropped_count (cl_send_queue c) + of_nat k
      else queue_msgs q' = drop k (queue_msgs (cl_send_queue c)) \<and>
        q_dropped_count q' = q_dropped_count (cl_send_queue c) + of_nat k + 1" by blast
  have "\<exists>c' w'. rel4u_client_send e mode (Some bytes) len (c, w) = Some (if ok then REL4U_OK else REL4U_ERR_QUEUE_FULL, c', w') \<and>
      cl_send_queue c' = q'"
    using False open_ d p by (simp add: rel4u_client_send_def item_def [symmetric] Let_def)
  then obtain c' w' where "rel4u_client_send e mode (Some bytes) len (c, w) = Some (if ok then REL4U_OK else REL4U_ERR_QUEUE_FULL, c', w')"
    "cl_send_queue c' = q'" by blast
  with False k item(2) show ?thesis
    by (cases ok) (auto simp: rel4u_client_send_def intro!: exI [of _ k])
qed

lemma client_send_exact_witness:
  "rel4u_client_send ex_env 3 (Some (replicate 9217 0)) 9217
     (ex_client\<lparr>cl_running := True, cl_state := REL4U_STATE_CONNECTED, cl_config := ex_cfg\<lparr>cc_mtu := 65535\<rparr>\<rparr>, ex_world) = None"
  using client_send_exact [OF ex_env_ok, of "ex_client\<lparr>cl_running := True, cl_state := REL4U_STATE_CONNECTED,
      cl_config := ex_cfg\<lparr>cc_mtu := 65535\<rparr>\<rparr>" 9217 "replicate 9217 0" 3 ex_world] ex_client_facts(2)
  by (simp add: REL4U_MAX_PAYLOAD_def)

text \<open>
  C17. \<open>rel4u_client_connect\<close> returns within its timeout, however the worker and the network behave: after at most so many
  sleeps of 10 ms as make up \<open>connect_timeout_ms\<close>, provided that the threads do end when they are joined and that a sleep of
  10 ms takes at least 10 ms. It returns \<open>REL4U_OK\<close> with a connected client, or an error code with a client that is disconnected, its worker ended and
  its socket closed. An earlier connection attempt that is still under way, or a worker that has ended by itself, is cleaned up first; the
  timeout counts from the end of that.
\<close>

theorem client_connect_returns:
  assumes "client_inv c" "meanwhile join"
    and cleanup: "rel4u_client_disconnect e join (c, w) = Some (r0, c0, w0)"
    and naps: "\<forall>nap \<in> set naps. sleeps e (unat (clock_ms e (wd_clock w0)) + unat (cc_connect_timeout_ms (cl_config c))) nap"
    and enough: "unat (cc_connect_timeout_ms (cl_config c)) \<le> 10 * length naps"
  shows "\<exists>r c' w'. rel4u_client_connect e sys join naps (c, w) = Some (Some r, c', w') \<and> client_inv c' \<and>
    (if r = REL4U_OK then cl_state c' = REL4U_STATE_CONNECTED
     else r \<in> {REL4U_ERR_INVALID_PARAM, REL4U_ERR_SOCKET, REL4U_ERR_SYSTEM, REL4U_ERR_SERVER_FULL, REL4U_ERR_NOT_CONNECTED,
         REL4U_ERR_TIMEOUT} \<and>
       cl_state c' = REL4U_STATE_DISCONNECTED \<and> \<not> cl_worker_started c' \<and> cl_sock c' = REL4U_INVALID_SOCKET)"
proof (cases "cl_state c = REL4U_STATE_CONNECTED")
  case True
  then show ?thesis using assms(1) by (simp add: rel4u_client_connect_def)
next
  case False
  have 1: "rel4u_client_disconnect e join (c, w) = Some (REL4U_OK, c0, w0)" "client_inv c0" "client_down c0" "cl_config c0 = cl_config c"
    using client_disconnect_law [OF assms(1,2), of e w] cleanup by (metis option.inject prod.inject)+
  obtain r c2 where 2: "client_open sys c0 = (r, c2)" "client_inv c2" "cl_config c2 = cl_config c0"
      "r \<in> {REL4U_OK, REL4U_ERR_INVALID_PARAM, REL4U_ERR_SOCKET, REL4U_ERR_SYSTEM}" "r \<noteq> REL4U_OK \<Longrightarrow> client_down c2"
    by (rule client_open_law [OF 1(2,3), of sys]) blast
  show ?thesis
  proof (cases "r = REL4U_OK")
    case False
    with \<open>cl_state c \<noteq> REL4U_STATE_CONNECTED\<close> 1(1) 2 show ?thesis
      by (simp add: rel4u_client_connect_def client_down_def) auto
  next
    case True
    from connect_wait_returns [OF 2(2), of naps e "wd_clock w0" "w0\<lparr>wd_clock := wd_clock w0 + 1\<rparr>"] naps enough 1(4) 2(3)
    obtain r' c3 w3 where 3: "connect_wait e (clock_ms e (wd_clock w0)) naps (c2, w0\<lparr>wd_clock := wd_clock w0 + 1\<rparr>) = Some (Some r', c3, w3)"
        "client_inv c3" "r' \<in> {REL4U_OK, REL4U_ERR_SERVER_FULL, REL4U_ERR_NOT_CONNECTED, REL4U_ERR_TIMEOUT}"
        "r' = REL4U_OK \<longrightarrow> cl_running c3 \<and> cl_state c3 = REL4U_STATE_CONNECTED" by fastforce
    obtain c4 w4 where 4: "rel4u_client_disconnect e join (c3, w3) = Some (REL4U_OK, c4, w4)" "client_inv c4" "client_down c4"
      by (rule client_disconnect_law [OF 3(2) assms(2), of e w3])
    show ?thesis
    proof (cases "r' = REL4U_OK")
      case ok: True
      with False True 1(1) 2(1) 3 show ?thesis by (simp add: rel4u_client_connect_def now_ms)
    next
      case fail: False
      have "rel4u_client_connect e sys join naps (c, w) = Some (Some r', c4, w4)"
        using fail False True 1(1) 2(1) 3(1) 4(1) by (simp add: rel4u_client_connect_def now_ms)
      with fail 3(3) 4(2,3) show ?thesis by (auto simp: client_down_def)
    qed
  qed
qed

text \<open>
  A client with a worker from an earlier attempt and a timeout of 30 ms, on a clock that shows 10 ms more at each reading: the second
  sleep brings the connection.
\<close>

definition ex_ticks :: env where
  "ex_ticks = ex_env\<lparr>env_clock := \<lambda>n. \<lparr>tv_sec = 0, tv_nsec = of_nat (min n 1000) * 10000000\<rparr>\<rparr>"

lemma ex_ticks_ms: "unat (clock_ms ex_ticks n) = 10 * min n 1000"
proof -
  have "unat (of_nat (min n 1000) * 10000000 :: u64) = min n 1000 * 10000000" by (simp add: unat_word_ariths unat_of_nat)
  then show ?thesis by (simp add: clock_ms_def ex_ticks_def unat_div)
qed

lemma ex_ticks_first: "clock_ms ex_ticks 0 = 0" "clock_ms ex_ticks (Suc 0) = 10" "clock_ms ex_ticks (Suc (Suc 0)) = 20"
  by (simp_all add: clock_ms_def ex_ticks_def)

definition ex_up :: "client_world \<Rightarrow> client_world option" where
  "ex_up = (\<lambda>(c, w). Some (c\<lparr>cl_state := REL4U_STATE_CONNECTED\<rparr>, w))"

lemma client_connect_returns_witness:
  "\<exists>c c' w'. cl_worker_started c \<and> unat (cc_connect_timeout_ms (cl_config c)) = 30 \<and>
     rel4u_client_connect ex_ticks ex_sys Some [Some, ex_up, Some] (c, ex_world) = Some (Some REL4U_OK, c', w') \<and>
     cl_state c' = REL4U_STATE_CONNECTED"
proof -
  let ?c = "ex_client\<lparr>cl_config := (cl_config ex_client)\<lparr>cc_connect_timeout_ms := 30\<rparr>, cl_worker_started := True, cl_running := True,
    cl_state := REL4U_STATE_CONNECTING\<rparr>"
  have c: "client_inv ?c" using ex_client_facts(1) by (simp add: client_inv_def)
  have nap: "meanwhile Some" "meanwhile ex_up" by (simp_all add: meanwhile_def ex_up_def client_inv_def)
  have clock: "wd_clock ex_world = 0" by (simp add: ex_world_def)
  obtain r0 c0 w0 where d: "rel4u_client_disconnect ex_ticks Some (?c, ex_world) = Some (r0, c0, w0)" "wd_clock w0 = 0"
    "cl_config c0 = cl_config ?c"
    by (auto simp: rel4u_client_disconnect_def client_shutdown_defs client_teardown_def client_reset_session_def rel4u_net_sendto_def clock Let_def)
  have sl: "sleeps ex_ticks 30 Some" "sleeps ex_ticks 30 ex_up" using nap by (auto simp: sleeps_def ex_ticks_ms ex_up_def)
  from client_connect_returns [OF c nap(1) d(1), of "[Some, ex_up, Some]" ex_sys] sl d(2) ex_ticks_ms obtain r c' w' where
    r: "rel4u_client_connect ex_ticks ex_sys Some [Some, ex_up, Some] (?c, ex_world) = Some (Some r, c', w')"
      "r = REL4U_OK \<Longrightarrow> cl_state c' = REL4U_STATE_CONNECTED" by auto
  obtain c2 where o: "client_open ex_sys c0 = (REL4U_OK, c2)" "cl_running c2" "cl_state c2 = REL4U_STATE_CONNECTING" "cl_config c2 = cl_config c0"
    by (auto simp: client_open_def ex_sys_def rel4u_net_addr_from_string_def rel4u_net_socket_create_udp_def rel4u_wakeup_pipe_create_def
      client_reset_session_def Let_def)
  have "\<exists>w'. connect_wait ex_ticks 0 [Some, ex_up, Some] (c2, w0\<lparr>wd_clock := 1\<rparr>) = Some (Some REL4U_OK, c2\<lparr>cl_state := REL4U_STATE_CONNECTED\<rparr>, w')"
    using o(2-4) d(3) by (simp add: connect_wait.simps connect_check_def now_ms ex_ticks_first ex_up_def Let_def)
  with d o(1) r(1) have "r = REL4U_OK" by (auto simp: rel4u_client_connect_def now_ms ex_ticks_first)
  with r show ?thesis by (intro exI [of _ ?c] exI [of _ c'] exI [of _ w']) simp
qed

end
