(* ===== verification/Client_Wire.thy ===== *)
theory Client_Wire
  imports Wire Client_Runs
begin

text \<open>
  What a client sends. Every step of the client keeps \<open>client_wire\<close>: only well-formed packets of the types a client may send, and only to
  addresses that were looked up for its configured server.
\<close>

subsection \<open>The invariant\<close>

definition client_packets :: "u8 set" where
  "client_packets = {REL4U_PKT_CONNECT_REQ, REL4U_PKT_CONNECT_ACK, REL4U_PKT_DATA, REL4U_PKT_ACK, REL4U_PKT_HEARTBEAT,
     REL4U_PKT_HEARTBEAT_ACK, REL4U_PKT_DISCONNECT}"

definition client_wire :: "rel4u_client_config \<Rightarrow> rel4u_net_addr set \<Rightarrow> client_world \<Rightarrow> bool" where
  "client_wire cfg addrs = (\<lambda>(c, w).
     wire_ok client_packets addrs w \<and> cl_config c = cfg \<and> (cl_sock c \<noteq> REL4U_INVALID_SOCKET \<longrightarrow> cl_server_addr c \<in> addrs))"

text \<open>The address an attempt to connect looks up.\<close>

definition peer_addr :: "rel4u_client_config \<Rightarrow> sys \<Rightarrow> rel4u_net_addr" where
  "peer_addr cfg sys = snd (rel4u_net_addr_from_string sys (the (cc_server_address cfg)) (cc_server_port cfg))"

text \<open>Only the socket, the address of the server and the configuration matter.\<close>

lemma client_wire_same:
  assumes "client_wire cfg addrs (c, w)" "cl_sock c' = cl_sock c" "cl_server_addr c' = cl_server_addr c" "cl_config c' = cl_config c"
    and "wire_ok client_packets addrs w \<Longrightarrow> wire_ok client_packets addrs w'"
  shows "client_wire cfg addrs (c', w')"
  using assms by (simp add: client_wire_def)

lemma client_wire_updates [simp]:
  "client_wire cfg addrs (c\<lparr>cl_send_win := x1\<rparr>, w) = client_wire cfg addrs (c, w)"
  "client_wire cfg addrs (c\<lparr>cl_send_queue := x2\<rparr>, w) = client_wire cfg addrs (c, w)"
  "client_wire cfg addrs (c\<lparr>cl_stats := x3\<rparr>, w) = client_wire cfg addrs (c, w)"
  "client_wire cfg addrs (c\<lparr>cl_rtt := x4\<rparr>, w) = client_wire cfg addrs (c, w)"
  "client_wire cfg addrs (c\<lparr>cl_last_ack_sent_ns := x5\<rparr>, w) = client_wire cfg addrs (c, w)"
  "client_wire cfg addrs (c\<lparr>cl_ack_pending := x6\<rparr>, w) = client_wire cfg addrs (c, w)"
  "client_wire cfg addrs (c\<lparr>cl_last_activity_ns := x7\<rparr>, w) = client_wire cfg addrs (c, w)"
  "client_wire cfg addrs (c\<lparr>cl_last_heartbeat_sent_ns := x8\<rparr>, w) = client_wire cfg addrs (c, w)"
  "client_wire cfg addrs (c\<lparr>cl_state := x9\<rparr>, w) = client_wire cfg addrs (c, w)"
  "client_wire cfg addrs (c\<lparr>cl_running := y1\<rparr>, w) = client_wire cfg addrs (c, w)"
  "client_wire cfg addrs (c\<lparr>cl_session_id := y2\<rparr>, w) = client_wire cfg addrs (c, w)"
  "client_wire cfg addrs (c\<lparr>cl_recv_win := y3\<rparr>, w) = client_wire cfg addrs (c, w)"
  "client_wire cfg addrs (c\<lparr>cl_ready_slots := y4\<rparr>, w) = client_wire cfg addrs (c, w)"
  "client_wire cfg addrs (c\<lparr>cl_recv_queue := y5\<rparr>, w) = client_wire cfg addrs (c, w)"
  "client_wire cfg addrs (c\<lparr>cl_rejected := y6\<rparr>, w) = client_wire cfg addrs (c, w)"
  "client_wire cfg addrs (client_reset_session c, w) = client_wire cfg addrs (c, w)"
  "client_wire cfg addrs (c, w\<lparr>wd_pushes := n\<rparr>) = client_wire cfg addrs (c, w)"
  by (simp_all add: client_wire_def)

lemma client_wire_clock: "rel4u_time_now_ns e w = (t, w') \<Longrightarrow> client_wire cfg addrs (c, w') = client_wire cfg addrs (c, w)"
  by (simp add: client_wire_def wire_ok_clock)

subsection \<open>The worker\<close>

lemma client_send_packet_wire:
  assumes env: "env_ok e" and r: "client_send_packet e type mode seq payload len (c, w) = Some cw'" and wire: "client_wire cfg addrs (c, w)"
    and type: "type \<in> client_packets" "type = REL4U_PKT_DATA \<or> len = 0"
  shows "client_wire cfg addrs cw'"
proof -
  obtain c' w' where cw': "cw' = (c', w')" by (cases cw')
  obtain n bs where b: "build_datagram e (cl_recv_win c) (cl_session_id c) type mode seq payload len = Some (n, bs)"
    using r by (cases "build_datagram e (cl_recv_win c) (cl_session_id c) type mode seq payload len") (auto simp: client_send_packet_def)
  note wf = built_well_formed [OF env b type]
  obtain k w1 where s: "rel4u_net_sendto e (cl_sock c) bs (cl_server_addr c) w = (k, w1)" by (metis prod.exhaust)
  have 1: "client_wire cfg addrs (c, w1)" using wire wire_ok_sendto [OF _ s _ wf] by (auto simp: client_wire_def)
  obtain t w2 where t: "rel4u_time_now_ns e w1 = (t, w2)" by (metis prod.exhaust)
  have 2: "client_wire cfg addrs (c, w2)" using 1 client_wire_clock [OF t] by simp
  show ?thesis using r wire 1 2 by (auto simp: client_send_packet_def b s t split: if_splits)
qed

lemma client_control_wire:
  "env_ok e \<Longrightarrow> client_send_control e type (c, w) = Some cw' \<Longrightarrow> client_wire cfg addrs (c, w) \<Longrightarrow> type \<in> client_packets \<Longrightarrow>
   client_wire cfg addrs cw'"
  using client_send_packet_wire [of e type 0 0 None 0 c w cw' cfg addrs] by simp

lemma client_data_wire:
  "env_ok e \<Longrightarrow> client_send_packet e REL4U_PKT_DATA mode seq payload len (c, w) = Some cw' \<Longrightarrow> client_wire cfg addrs (c, w) \<Longrightarrow>
   client_wire cfg addrs cw'"
  using client_send_packet_wire [of e REL4U_PKT_DATA mode seq payload len c w cw' cfg addrs] by (simp add: client_packets_def)

lemma client_reconnect_wire:
  "client_trigger_reconnect e (c, w) = Some cw' \<Longrightarrow> client_wire cfg addrs (c, w) \<Longrightarrow> client_wire cfg addrs cw'"
  by (auto simp: client_trigger_reconnect_def bind_eq_Some_conv rel4u_time_now_ns_def Let_def client_wire_def wire_ok_def split: if_splits)

lemma client_handshake_wire:
  "env_ok e \<Longrightarrow> client_handshake e state now l (c, w) = Some (l', cw') \<Longrightarrow> client_wire cfg addrs (c, w) \<Longrightarrow> client_wire cfg addrs cw'"
  by (auto simp: client_handshake_def Let_def client_packets_def split: if_splits dest: client_control_wire)

lemma client_transmit_wire:
  assumes env: "env_ok e" and r: "client_transmit e item (c, w) = Some cw'" and wire: "client_wire cfg addrs (c, w)"
  shows "client_wire cfg addrs cw'"
proof -
  obtain t w1 where t: "rel4u_time_now_ns e w = (t, w1)" by (metis prod.exhaust)
  have "client_wire cfg addrs (c\<lparr>cl_send_win := win\<rparr>, w1)" for win using wire client_wire_clock [OF t] by simp
  then show ?thesis using r
    by (auto simp: client_transmit_def t bind_eq_Some_conv Let_def split: if_splits dest!: client_data_wire [OF env, simplified])
qed

lemma client_drain_loop_wire:
  "env_ok e \<Longrightarrow> client_drain_loop e item cw = Some cw' \<Longrightarrow> client_wire cfg addrs cw \<Longrightarrow> client_wire cfg addrs cw'"
proof (induction e item cw rule: client_drain_loop.induct)
  case (1 e item c w)
  obtain ok q out where p: "rel4u_mpmc_try_pop (cl_send_queue c) (Some item) = (ok, q, out)" by (metis prod.exhaust)
  show ?case
  proof (cases "rel4u_send_window_can_send (cl_send_win c) \<and> ok")
    case True
    with "1.prems"(2) p obtain cw1 where cw1: "client_transmit e (the out) (c\<lparr>cl_send_queue := q\<rparr>, w) = Some cw1"
      "client_drain_loop e (the out) cw1 = Some cw'" by (subst (asm) client_drain_loop.simps) (auto split: option.splits)
    with client_transmit_wire [OF "1.prems"(1) cw1(1)] "1.prems" "1.IH" [OF _ p [symmetric] refl _ cw1(1)] True show ?thesis by simp
  next
    case False
    with "1.prems"(2,3) p show ?thesis by (subst (asm) client_drain_loop.simps) (auto split: if_splits)
  qed
qed

lemma client_resend_wire:
  "env_ok e \<Longrightarrow> client_resend e now is cw = Some cw' \<Longrightarrow> client_wire cfg addrs cw \<Longrightarrow> client_wire cfg addrs cw'"
proof (induction e now "is" cw rule: client_resend.induct)
  case (2 e now i "is" c w)
  from "2.prems"(2) obtain win slot cw1 where m: "mark_retransmit (cl_send_win c) i now = Some win" "deref (sw_slots win) i = Some slot"
      "client_send_packet e REL4U_PKT_DATA (ss_delivery_mode slot) (ss_seq_num slot) (Some (ss_payload slot)) (ucast (ss_payload_len slot))
         (c\<lparr>cl_send_win := win\<rparr>, w) = Some cw1" "client_resend e now is cw1 = Some cw'"
    by (auto simp: bind_eq_Some_conv simp del: deref_Some_iff REL4U_PKT_DATA_def)
  from "2.IH" [OF m(1,2,3) "2.prems"(1) m(4)] client_data_wire [OF "2.prems"(1) m(3)] "2.prems"(3) show ?case by simp
qed simp

lemma client_retransmit_wire:
  "env_ok e \<Longrightarrow> client_retransmit e now (c, w) = Some cw' \<Longrightarrow> client_wire cfg addrs (c, w) \<Longrightarrow> client_wire cfg addrs cw'"
  by (auto simp: client_retransmit_def bind_eq_Some_conv Let_def split: if_splits dest: client_resend_wire)

lemma client_heartbeat_wire:
  "env_ok e \<Longrightarrow> client_heartbeat e now (c, w) = Some cw' \<Longrightarrow> client_wire cfg addrs (c, w) \<Longrightarrow> client_wire cfg addrs cw'"
  by (auto simp: client_heartbeat_def client_packets_def split: if_splits dest: client_control_wire)

lemma client_timers_wire:
  assumes env: "env_ok e" and r: "client_timers e state (c, w) = Some cw'" and wire: "client_wire cfg addrs (c, w)"
  shows "client_wire cfg addrs cw'"
proof (cases "state = REL4U_STATE_CONNECTED")
  case True
  obtain now w0 where t: "rel4u_time_now_ns e w = (now, w0)" by (metis prod.exhaust)
  note b = r [unfolded client_timers_def case_prod_conv t eqTrueI [OF True] if_True]
  from b obtain c1 w1 where 1: "client_retransmit e now (c, w0) = Some (c1, w1)" by (rule bind_someE) auto
  note b = b [unfolded 1 Option.bind.bind_lunit case_prod_conv]
  from b obtain c2 w2 where
    2: "(if cl_ack_pending c1 then client_send_control e REL4U_PKT_ACK (c1, w1) else Some (c1, w1)) = Some (c2, w2)"
    by (rule bind_someE) auto
  note b = b [unfolded 2 Option.bind.bind_lunit case_prod_conv]
  from b obtain c3 w3 where 3: "client_heartbeat e now (c2, w2) = Some (c3, w3)" by (rule bind_someE) auto
  note b = b [unfolded 3 Option.bind.bind_lunit case_prod_conv]
  note s = 1 2 3
  have "client_wire cfg addrs (c, w0)" using wire client_wire_clock [OF t] by simp
  note 1 = client_retransmit_wire [OF env s(1) this]
  have 2: "client_wire cfg addrs (c2, w2)"
    using s(2) 1 client_control_wire [OF env _ 1, of REL4U_PKT_ACK "(c2, w2)"] by (auto simp: client_packets_def split: if_splits)
  note 3 = client_heartbeat_wire [OF env s(3) 2]
  show ?thesis using b 3 client_reconnect_wire [of e c3 w3 cw' cfg addrs] by (auto split: if_splits)
qed (use r wire in \<open>simp add: client_timers_def\<close>)

lemma client_on_session_packet_wire:
  assumes env: "env_ok e" and r: "client_on_session_packet e now hdr bytes (c, w) = Some cw'" and wire: "client_wire cfg addrs (c, w)"
  shows "client_wire cfg addrs cw'"
proof -
  obtain win rtt st where a: "rel4u_send_window_on_ack (cl_send_win c) (ack_num hdr) (sack_mask hdr) now (Some (cl_rtt c))
      (Some (cl_stats c)) = Some (win, rtt, st)" using r by (auto simp: client_on_session_packet_def bind_eq_Some_conv)
  let ?c = "c\<lparr>cl_send_win := win, cl_rtt := the rtt, cl_stats := the st\<rparr>"
  let ?m = "if packet_type hdr = REL4U_PKT_HEARTBEAT then client_send_control e REL4U_PKT_HEARTBEAT_ACK (?c, w) else Some (?c, w)"
  obtain c2 w2 where 2: "?m = Some (c2, w2)" using r by (cases ?m) (auto simp: client_on_session_packet_def a)
  have w2: "client_wire cfg addrs (c2, w2)"
    using 2 wire client_control_wire [OF env, of REL4U_PKT_HEARTBEAT_ACK ?c w "(c2, w2)" cfg addrs]
    by (auto simp: client_packets_def split: if_splits)
  let ?d = "on_data e 0 (cl_recv_win c2) (cl_ready_slots c2) hdr (drop REL4U_HEADER_LEN bytes) (cl_recv_queue c2, w2)"
  have rest: "(if packet_type hdr = REL4U_PKT_DATA then Option.bind ?d (\<lambda>(win, slots, (q, w), ack). Some (c2\<lparr>cl_recv_win := win,
      cl_ready_slots := slots, cl_recv_queue := q, cl_ack_pending := (if ack then True else cl_ack_pending c2)\<rparr>, w)) else Some (c2, w2)) = Some cw'"
    using r unfolding client_on_session_packet_def case_prod_conv a Option.bind.bind_lunit Let_def 2 .
  show ?thesis
  proof (cases "packet_type hdr = REL4U_PKT_DATA")
    case True
    with rest obtain rw slots q w3 ack where d: "?d = Some (rw, slots, (q, w3), ack)" "cw' = (c2\<lparr>cl_recv_win := rw, cl_ready_slots := slots,
        cl_recv_queue := q, cl_ack_pending := (if ack then True else cl_ack_pending c2)\<rparr>, w3)" by (auto simp: bind_eq_Some_conv)
    have "client_wire cfg addrs (c2, w3)" using on_data_silent [OF d(1)] w2 by (simp add: client_wire_def wire_ok_def)
    then show ?thesis by (simp add: d(2))
  qed (use rest w2 in simp)
qed

lemma client_on_packet_wire:
  assumes env: "env_ok e" and r: "client_on_packet e state hdr bytes (c, w) = Some (stop, state', cw')" and wire: "client_wire cfg addrs (c, w)"
  shows "client_wire cfg addrs cw'"
proof -
  obtain now w0 where t: "rel4u_time_now_ns e w = (now, w0)" by (metis prod.exhaust)
  let ?c = "c\<lparr>cl_last_activity_ns := now, cl_stats := (cl_stats c)\<lparr>packets_recv := packets_recv (cl_stats c) + 1,
      bytes_recv := bytes_recv (cl_stats c) + of_nat (length bytes)\<rparr>\<rparr>"
  have 0: "client_wire cfg addrs (?c, w0)" using wire client_wire_clock [OF t] by simp
  have 1: "client_wire cfg addrs (?c\<lparr>cl_session_id := session_id hdr, cl_state := REL4U_STATE_CONNECTED\<rparr>, w0)" using 0 by simp
  have ack: "REL4U_PKT_CONNECT_ACK \<in> client_packets" by (simp add: client_packets_def)
  have "client_wire cfg addrs (c1\<lparr>cl_last_activity_ns := now, cl_last_heartbeat_sent_ns := now\<rparr>, w1)"
    if "client_send_control e REL4U_PKT_CONNECT_ACK (?c\<lparr>cl_session_id := session_id hdr, cl_state := REL4U_STATE_CONNECTED\<rparr>, w0) =
      Some (c1, w1)" for c1 w1
    using client_control_wire [OF env that 1 ack] by simp
  then show ?thesis using r 0 unfolding client_on_packet_def case_prod_conv t Let_def
    by (auto simp: bind_eq_Some_conv simp del: REL4U_PKT_CONNECT_ACK_def split: if_splits
        dest: client_reconnect_wire [OF _ 0] client_on_session_packet_wire [OF env _ 0])
qed

lemma client_on_datagram_wire:
  assumes env: "env_ok e" and r: "client_on_datagram e state dg (c, w) = Some (stop, state', cw')" and wire: "client_wire cfg addrs (c, w)"
  shows "client_wire cfg addrs cw'"
proof -
  obtain bytes src where dg: "dg = (bytes, src)" by (cases dg)
  obtain k h where d: "rel4u_packet_decode_header (Some bytes) (of_nat (length bytes)) (Some zero_header) = (k, h)" by (metis prod.exhaust)
  from r have "cw' = (c, w) \<or> client_on_packet e state (the h) bytes (c, w) = Some (stop, state', cw')"
    unfolding client_on_datagram_def dg case_prod_conv d by (simp split: if_splits)
  then show ?thesis using client_on_packet_wire [OF env _ wire] wire by blast
qed

lemma client_receive_wire:
  "env_ok e \<Longrightarrow> client_receive e dgs state cw = Some (state', cw') \<Longrightarrow> client_wire cfg addrs cw \<Longrightarrow> client_wire cfg addrs cw'"
proof (induction dgs arbitrary: state cw)
  case (Cons dg dgs)
  obtain c w where cw: "cw = (c, w)" by (cases cw)
  obtain n got where g: "rel4u_net_recvfrom (Some dg) (cl_sock c) (REL4U_MAX_PAYLOAD_SIZE + REL4U_HEADER_LEN) = (n, got)" by (metis prod.exhaust)
  show ?case
  proof (cases "n > 0")
    case True
    with Cons.prems(2) g have b: "Option.bind (client_on_datagram e state (the got) (c, w))
        (\<lambda>(stop, state, cw). if stop then Some (state, cw) else client_receive e dgs state cw) = Some (state', cw')"
      by (simp only: client_receive.simps cw fst_conv case_prod_conv if_True)
    then obtain stop s1 cw1 where d: "client_on_datagram e state (the got) (c, w) = Some (stop, s1, cw1)"
        "(if stop then Some (s1, cw1) else client_receive e dgs s1 cw1) = Some (state', cw')"
      unfolding bind_eq_Some_conv by (elim exE conjE) (simp split: prod.splits)
    have "client_wire cfg addrs cw1" by (rule client_on_datagram_wire [OF Cons.prems(1) d(1)]) (use Cons.prems(3) cw in simp)
    with Cons.IH [OF Cons.prems(1), of s1 cw1] d(2) show ?thesis by (cases stop) simp_all
  next
    case False
    with Cons.prems(2,3) g show ?thesis by (simp only: client_receive.simps cw fst_conv case_prod_conv if_False) simp
  qed
qed simp

lemma client_round_wire:
  assumes env: "env_ok e" and r: "client_round e inp (l, c, w) = Some (l', cw')" and wire: "client_wire cfg addrs (c, w)"
  shows "client_wire cfg addrs cw'"
proof -
  obtain ret revents dgs where inp: "inp = ((ret, revents), dgs)" by (metis prod.exhaust)
  obtain now w0 where t: "rel4u_time_now_ns e w = (now, w0)" by (metis prod.exhaust)
  note b = r [unfolded client_round_def case_prod_conv inp t Let_def]
  from b obtain l1 c1 w1 where 1: "client_handshake e (cl_state c) now l (c, w0) = Some (l1, c1, w1)" by (rule bind_someE) auto
  note b = b [unfolded 1 Option.bind.bind_lunit case_prod_conv]
  obtain x sr pr where p: "rel4u_net_poll (cl_sock c1) (Some (cl_wakeup_pipe c1)) ret revents = (x, sr, pr)" by (metis prod.exhaust)
  note b = b [unfolded p case_prod_conv]
  from b obtain st cw2 where 2: "(if sr then client_receive e dgs (cl_state c) (c1, w1) else Some (cl_state c, c1, w1)) = Some (st, cw2)"
    by (rule bind_someE) auto
  note b = b [unfolded 2 Option.bind.bind_lunit case_prod_conv]
  from b obtain cw3 where 3: "client_drain e st cw2 = Some cw3" by (rule bind_someE) auto
  note b = b [unfolded 3 Option.bind.bind_lunit]
  from b obtain cw4 where 4: "client_timers e st cw3 = Some cw4" by (rule bind_someE) auto
  have "client_wire cfg addrs (c, w0)" using wire client_wire_clock [OF t] by simp
  note w1 = client_handshake_wire [OF env 1 this]
  have w2: "client_wire cfg addrs cw2" using 2 w1 client_receive_wire [OF env _ w1] by (auto split: if_splits)
  have w3: "client_wire cfg addrs cw3" using 3 w2 client_drain_loop_wire [OF env _ w2] by (auto simp: client_drain_def split: if_splits)
  have "client_wire cfg addrs cw4" using client_timers_wire [OF env, of st "fst cw3" "snd cw3" cw4] 4 w3 by simp
  moreover have "cw' = cw4" using b by (simp add: 4)
  ultimately show ?thesis by simp
qed

subsection \<open>Runs\<close>

lemma client_fin_wire:
  assumes "env_ok e" "client_wire cfg addrs (c, w)"
  shows "client_wire cfg addrs (client_fin e (c, w))"
proof -
  let ?bs = "control_datagram (take REL4U_HEADER_LEN (env_raw_buf e)) REL4U_PKT_DISCONNECT (cl_session_id c) 0"
  obtain n w1 where s: "rel4u_net_sendto e (cl_sock c) ?bs (cl_server_addr c) w = (n, w1)" by (metis prod.exhaust)
  have "well_formed client_packets ?bs" by (rule control_well_formed [OF assms(1)]) (simp add: client_packets_def)
  with assms(2) s have "client_wire cfg addrs (c, w1)" by (auto simp: client_wire_def intro: wire_ok_sendto)
  with s show ?thesis by (simp add: client_fin_def Let_def)
qed

lemma client_shutdown_steps_wire:
  assumes "client_wire cfg addrs (c, w)"
  shows "client_wire cfg addrs (client_leave c, w)" "client_wire cfg addrs (client_halt c, w)" "client_wire cfg addrs (client_wake c, w)"
  using assms by (simp_all add: client_wire_def client_leave_def client_halt_def client_wake_def)

lemma client_shutdown_wire:
  assumes "env_ok e" "client_wire cfg addrs (c, w)"
  shows "client_wire cfg addrs (client_shutdown e (c, w))"
proof -
  obtain c1 w1 where f: "client_fin e (client_leave c, w) = (c1, w1)" by (metis prod.exhaust)
  with client_fin_wire [OF assms(1) client_shutdown_steps_wire(1) [OF assms(2)]] have "client_wire cfg addrs (c1, w1)" by simp
  with f assms(2) show ?thesis by (simp add: client_shutdown_def client_shutdown_steps_wire)
qed

lemma client_open_wire:
  assumes "client_wire cfg addrs (c, w)" "peer_addr cfg sys \<in> addrs"
  shows "client_wire cfg addrs (snd (client_open sys c), w)"
  using assms by (auto simp: client_open_def client_wire_def peer_addr_def Let_def split: prod.splits)

lemma client_send_wire:
  assumes r: "rel4u_client_send e mode data len (c, w) = Some (k, cw')" and wire: "client_wire cfg addrs (c, w)"
  shows "client_wire cfg addrs cw'"
proof (cases "\<exists>bytes. data = Some bytes \<and> unat len \<le> REL4U_MAX_PAYLOAD (cc_mtu (cl_config c)) \<and> cl_running c \<and>
    \<not> (cl_state c \<noteq> REL4U_STATE_CONNECTED \<and>
       (cc_disable_auto_reconnect (cl_config c) \<or> cl_state c \<noteq> REL4U_STATE_CONNECTING))")
  case True
  then obtain bytes where g: "data = Some bytes" "\<not> REL4U_MAX_PAYLOAD (cc_mtu (cl_config c)) < unat len" "cl_running c"
    "\<not> (cl_state c \<noteq> REL4U_STATE_CONNECTED \<and> (cc_disable_auto_reconnect (cl_config c) \<or> cl_state c \<noteq> REL4U_STATE_CONNECTING))"
    by (auto simp: not_less)
  note b = r [unfolded rel4u_client_send_def case_prod_conv g(1) option.case]
  obtain q w1 where "cw' = (c\<lparr>cl_send_queue := q\<rparr>, w1) \<or> (\<exists>st. cw' = (c\<lparr>cl_send_queue := q, cl_stats := st\<rparr>, w1))" "wd_sent w1 = wd_sent w"
    using b g by (cases "memcpy (it_data (env_item e)) bytes (unat len)") (force simp: Let_def case_prod_beta split: if_splits)+
  with wire show ?thesis by (auto simp: client_wire_def wire_ok_def)
next
  case False
  then have "\<exists>k. rel4u_client_send e mode data len (c, w) = Some (k, c, w)"
    by (auto simp: rel4u_client_send_def split: option.splits)
  with r wire show ?thesis by auto
qed

lemma client_recv_wire:
  "rel4u_client_recv e wakes buffer bsize timeout c = Some (Some (r, c', b, n)) \<Longrightarrow> client_wire cfg addrs (c, w) \<Longrightarrow> client_wire cfg addrs (c', w)"
  by (auto simp: rel4u_client_recv_def Let_def split: option.splits if_splits prod.splits)

text \<open>An event that opens a connection looks up one of the addresses.\<close>

fun opens_within :: "rel4u_client_config \<Rightarrow> rel4u_net_addr set \<Rightarrow> client_event \<Rightarrow> bool" where
  "opens_within cfg addrs (Client_Open sys) \<longleftrightarrow> peer_addr cfg sys \<in> addrs"
| "opens_within cfg addrs _ \<longleftrightarrow> True"

lemma client_step_wire:
  assumes env: "env_ok e" and r: "client_step e x cw = Some cw'" and x: "opens_within cfg addrs x" and wire: "client_wire cfg addrs cw"
  shows "client_wire cfg addrs cw'"
proof -
  obtain c w where cw: "cw = (c, w)" by (cases cw)
  note wire = wire [unfolded cw] and r = r [unfolded cw]
  show ?thesis
  proof (cases x)
    case (Client_Open sys)
    with r x client_open_wire [OF wire, of sys] show ?thesis by auto
  next
    case Client_Shutdown
    with r client_shutdown_wire [OF env wire] show ?thesis by simp
  next
    case Client_Leave
    with r client_shutdown_steps_wire(1) [OF wire] show ?thesis by auto
  next
    case Client_Fin
    with r client_fin_wire [OF env wire] show ?thesis by simp
  next
    case Client_Halt
    with r client_shutdown_steps_wire(2) [OF wire] show ?thesis by auto
  next
    case Client_Wake
    with r client_shutdown_steps_wire(3) [OF wire] show ?thesis by auto
  next
    case Client_Teardown
    with r wire show ?thesis by (auto simp: client_teardown_def client_wire_def)
  next
    case (Client_Recv buffer bsize)
    from r [unfolded Client_Recv] obtain k where k: "rel4u_client_recv e [] buffer bsize 0 c = Some k"
      "cw' = (case k of None \<Rightarrow> (c, w) | Some (_, c, _, _) \<Rightarrow> (c, w))" by auto
    show ?thesis
    proof (cases k)
      case (Some l)
      obtain a c' b n where "l = (a, c', b, n)" by (cases l)
      with k Some client_recv_wire [of e "[]" buffer bsize 0 c a c' b n cfg addrs w] wire show ?thesis by simp
    qed (use k wire in simp)
  next
    case (Client_Send mode data len)
    with r client_send_wire [of e mode data len c w _ _ cfg addrs, OF _ wire] show ?thesis by auto
  next
    case (Client_Handshake state now l)
    with r client_handshake_wire [OF env _ wire, of state now l] show ?thesis by auto
  next
    case (Client_Receive state dgs)
    with r client_receive_wire [OF env _ wire, of dgs state] show ?thesis by auto
  next
    case (Client_Drain state)
    with r wire client_drain_loop_wire [OF env _ wire, of "env_item e"] show ?thesis by (auto simp: client_drain_def split: if_splits)
  next
    case (Client_Timers state)
    with r client_timers_wire [OF env _ wire, of state] show ?thesis by simp
  next
    case (Client_Round inp l)
    with r client_round_wire [OF env _ wire, of inp l] show ?thesis by auto
  qed
qed

interpretation client_sends: kept_by_events "client_step e" "\<lambda>cw. env_ok e \<and> client_wire cfg addrs cw" "opens_within cfg addrs" for e cfg addrs
  using client_step_wire by unfold_locales blast

lemma client_created_sock: "rel4u_client_create mem (Some cfg) = Some c \<Longrightarrow> cl_sock c = REL4U_INVALID_SOCKET"
  by (auto simp: rel4u_client_create_def Let_def split: if_splits)

text \<open>
  C10. A client sends nothing but well-formed packets, and only to its server. From \<open>rel4u_client_create\<close>, with an MTU of at
  most 9240, after any history of calls, worker rounds and datagrams, every
  datagram handed to \<open>sendto\<close> is one the decoder of the other side accepts, with a type a client may send and exactly as
  many bytes of payload as its header says, at most 9216 and none but in data packets; and its destination is an address
  that one of the calls to connect looked up for the configured server.
\<close>

theorem client_sends_packets:
  assumes "rel4u_client_create mem (Some cfg) = Some c" "client_mem_ok mem cfg" "client_cfg_ok cfg"
    and "env_ok e" "\<forall>x \<in> set xs. client_event_ok x" "wd_sent w = []"
  shows "\<exists>c' w'. run_events (client_step e) xs (c, w) = Some (c', w') \<and>
    (\<forall>(a, bs) \<in> set (wd_sent w'). well_formed client_packets bs \<and>
       (\<exists>sys. Client_Open sys \<in> set xs \<and> a = peer_addr (client_defaults cfg) sys))"
proof -
  let ?addrs = "{a. \<exists>sys. Client_Open sys \<in> set xs \<and> a = peer_addr (client_defaults cfg) sys}"
  note c = client_created [OF assms(1-3)]
  from client_run.run_safe [of e "(c, w)" xs] assms(4,5) c(1)
  obtain c' w' where r: "run_events (client_step e) xs (c, w) = Some (c', w')" by auto
  have "client_wire (client_defaults cfg) ?addrs (c, w)"
    using c(2) client_created_sock [OF assms(1)] assms(6) by (simp add: client_wire_def wire_ok_def)
  moreover have "\<forall>x \<in> set xs. opens_within (client_defaults cfg) ?addrs x"
  proof
    fix x assume "x \<in> set xs"
    then show "opens_within (client_defaults cfg) ?addrs x" by (cases x rule: client_event.exhaust) auto
  qed
  ultimately have "client_wire (client_defaults cfg) ?addrs (c', w')" using client_sends.run_kept [OF r] assms(4) by blast
  with r show ?thesis by (auto simp: client_wire_def wire_ok_def)
qed

lemma client_sends_packets_witness:
  "\<exists>c' w' bs. run_events (client_step ex_env) [Client_Open ex_sys, Client_Shutdown] (ex_client, ex_world) = Some (c', w') \<and>
     wd_sent w' = [(ex_addr 1, bs)] \<and> well_formed client_packets bs"
proof -
  let ?xs = "[Client_Open ex_sys, Client_Shutdown]"
  have s: "cl_sock (snd (client_open ex_sys c)) \<noteq> REL4U_INVALID_SOCKET \<and> cl_running (snd (client_open ex_sys c)) \<and>
      cl_server_addr (snd (client_open ex_sys c)) = ex_addr 1" for c
    by (simp add: client_open_def ex_sys_def rel4u_net_addr_from_string_def rel4u_net_socket_create_udp_def rel4u_wakeup_pipe_create_def Let_def)
  have "\<forall>x \<in> set ?xs. client_event_ok x" "wd_sent ex_world = []" by (simp_all add: ex_world_def)
  from client_sends_packets [OF ex_client_create ex_cfg_ok ex_env_ok this]
  obtain c' w' where r: "run_events (client_step ex_env) ?xs (ex_client, ex_world) = Some (c', w')"
    "\<forall>(a, bs) \<in> set (wd_sent w'). well_formed client_packets bs \<and>
       (\<exists>sys. Client_Open sys \<in> set ?xs \<and> a = peer_addr (client_defaults ex_cfg) sys)" by (elim exE conjE) (rule that)
  from r(1) s [of ex_client] have "\<exists>bs. wd_sent w' = [(ex_addr 1, bs)]"
    by (auto simp: client_shutdown_defs rel4u_net_sendto_def ex_world_def Let_def)
  then obtain bs where bs: "wd_sent w' = [(ex_addr 1, bs)]" by (elim exE)
  with r(2) have "well_formed client_packets bs" by simp
  with r(1) bs show ?thesis by (intro exI [of _ c'] exI [of _ w'] exI [of _ bs] conjI)
qed

end
