(* ===== verification/Server.thy ===== *)
theory Server
  imports Endpoint
begin

text \<open>
  The server, \<open>src/core/rel4u_server.c\<close>. The conventions are those of the client's model: the state is the C struct
  without the thread handle and the mutexes, an operation runs on the state as it finds it, \<open>join\<close> is what the worker
  does until its thread ends, and \<open>None\<close> is a memory fault. The table mutex makes the handling of one
  datagram, one step of the drain and one pass of the timers atomic, as they are here. A pointer to a
  session is its index in the table.
\<close>

subsection \<open>Data\<close>

record rel4u_server =
  sv_config :: rel4u_server_config
  sv_sock :: int
  sv_bind_addr :: rel4u_net_addr
  sv_wakeup_pipe :: rel4u_wakeup_pipe
  sv_running :: bool
  sv_send_queue :: rel4u_mpmc_queue
  sv_recv_queue :: rel4u_mpmc_queue
  sv_session_table :: rel4u_session_table
  sv_ready_slots :: "rel4u_recv_slot list"
  sv_stats :: rel4u_stats
  sv_pending_item :: rel4u_mpmc_item
  sv_has_pending_item :: bool

type_synonym server_world = "rel4u_server \<times> world"

definition sv_session :: "rel4u_server \<Rightarrow> nat \<Rightarrow> rel4u_client_session" where
  "sv_session s i = st_sessions (sv_session_table s) ! i"

definition set_session :: "nat \<Rightarrow> rel4u_client_session \<Rightarrow> rel4u_server \<Rightarrow> rel4u_server" where
  "set_session i x s =
     s\<lparr>sv_session_table := (sv_session_table s)\<lparr>st_sessions := (st_sessions (sv_session_table s))[i := x]\<rparr>\<rparr>"

subsection \<open>Creation\<close>

definition server_defaults :: "rel4u_server_config \<Rightarrow> rel4u_server_config" where
  "server_defaults cfg =
     cfg\<lparr>sc_max_clients := (if sc_max_clients cfg = 0 then 64 else sc_max_clients cfg),
         sc_mtu := (if sc_mtu cfg = 0 then REL4U_DEFAULT_MTU else sc_mtu cfg),
         sc_send_queue_capacity := (if sc_send_queue_capacity cfg < 8 then 256 else sc_send_queue_capacity cfg),
         sc_recv_queue_capacity := (if sc_recv_queue_capacity cfg < 8 then 256 else sc_recv_queue_capacity cfg),
         sc_window_size := (if sc_window_size cfg < 8 then 64 else sc_window_size cfg),
         sc_heartbeat_interval_ms := (if sc_heartbeat_interval_ms cfg = 0 then 1000 else sc_heartbeat_interval_ms cfg),
         sc_inactivity_timeout_ms := (if sc_inactivity_timeout_ms cfg = 0 then 5000 else sc_inactivity_timeout_ms cfg),
         sc_max_send_memory_bytes :=
           (if sc_memory_mode cfg = REL4U_MEM_DYNAMIC \<and> sc_max_send_memory_bytes cfg = 0 then 1024 * 1024
            else sc_max_send_memory_bytes cfg),
         sc_max_recv_memory_bytes :=
           (if sc_memory_mode cfg = REL4U_MEM_DYNAMIC \<and> sc_max_recv_memory_bytes cfg = 0 then 1024 * 1024
            else sc_max_recv_memory_bytes cfg)\<rparr>"

text \<open>The allocations of \<open>rel4u_server_create\<close>: the struct, the two rings, and those of the session table.\<close>

record server_mem =
  sm_server :: bool
  sm_send_ring :: "rel4u_mpmc_item list option"
  sm_recv_ring :: "rel4u_mpmc_item list option"
  sm_table :: "nat \<Rightarrow> bool"

definition zero_item :: rel4u_mpmc_item where
  "zero_item = \<lparr>it_client_id = 0, it_mode = 0, it_len = 0, it_data = replicate REL4U_MAX_MSG_SIZE 0\<rparr>"

definition zero_table :: rel4u_session_table where
  "zero_table = \<lparr>st_sessions = [], st_max_clients = 0, st_active_count = 0, st_full_policy = REL4U_MAX_CLIENTS_REJECT\<rparr>"

definition zero_server :: "rel4u_server_config \<Rightarrow> rel4u_server" where
  "zero_server cfg =
     \<lparr>sv_config = cfg, sv_sock = 0, sv_bind_addr = zero_addr, sv_wakeup_pipe = \<lparr>read_fd = 0, write_fd = 0\<rparr>, sv_running = False,
      sv_send_queue = zero_queue, sv_recv_queue = zero_queue, sv_session_table = zero_table,
      sv_ready_slots = replicate 64 zero_recv_slot, sv_stats = zero_stats, sv_pending_item = zero_item,
      sv_has_pending_item = False\<rparr>"

definition rel4u_server_create :: "server_mem \<Rightarrow> rel4u_server_config option \<Rightarrow> rel4u_server option" where
  "rel4u_server_create mem config =
     (case config of
        None \<Rightarrow> None
      | Some cfg \<Rightarrow>
          if sc_bind_port cfg = 0 then None
          else if \<not> sm_server mem then None
          else
            (let cfg = server_defaults cfg;
                 s = (zero_server cfg)\<lparr>sv_sock := REL4U_INVALID_SOCKET, sv_running := False\<rparr>;
                 sq = rel4u_mpmc_init (sm_send_ring mem) (sc_memory_mode cfg) (sc_queue_full_policy cfg)
                        (ucast (sc_send_queue_capacity cfg)) (sc_max_send_memory_bytes cfg);
                 rq = rel4u_mpmc_init (sm_recv_ring mem) (sc_memory_mode cfg) (sc_queue_full_policy cfg)
                        (ucast (sc_recv_queue_capacity cfg)) (sc_max_recv_memory_bytes cfg);
                 table = rel4u_session_table_init (sm_table mem) (sv_session_table s) (sc_max_clients cfg)
                           (sc_full_policy cfg) (sc_window_size cfg)
             in if fst sq \<noteq> 0 then None
                else if fst rq \<noteq> 0 then None
                else if fst table \<noteq> 0 then None
                else Some (s\<lparr>sv_send_queue := snd sq, sv_recv_queue := snd rq, sv_session_table := snd table\<rparr>)))"

subsection \<open>Starting and stopping\<close>

definition rel4u_server_start :: "sys \<Rightarrow> rel4u_server \<Rightarrow> int \<times> rel4u_server" where
  "rel4u_server_start sys s =
     (if sv_running s then (REL4U_OK, s)
      else
        (let bind_ip = (case sc_bind_address (sv_config s) of None \<Rightarrow> ''0.0.0.0'' | Some a \<Rightarrow> a)
         in case rel4u_net_addr_from_string sys bind_ip (sc_bind_port (sv_config s)) of
              (r, addr) \<Rightarrow>
                let s = s\<lparr>sv_bind_addr := addr\<rparr>
                in if r \<noteq> 0 then (REL4U_ERR_INVALID_PARAM, s)
                   else
                     (let s = s\<lparr>sv_sock := rel4u_net_socket_create_udp sys (is_AF_INET6 (na_addr (sv_bind_addr s)))\<rparr>
                      in if sv_sock s = REL4U_INVALID_SOCKET then (REL4U_ERR_SOCKET, s)
                         else if rel4u_net_socket_bind sys (sv_sock s) (Some (sv_bind_addr s)) \<noteq> 0 then
                           (REL4U_ERR_SOCKET, s\<lparr>sv_sock := REL4U_INVALID_SOCKET\<rparr>)
                         else
                           (case rel4u_wakeup_pipe_create sys (sv_wakeup_pipe s) of
                              (pr, pipe) \<Rightarrow>
                                let s = s\<lparr>sv_wakeup_pipe := pipe\<rparr>
                                in if pr \<noteq> 0 then (REL4U_ERR_SYSTEM, s\<lparr>sv_sock := REL4U_INVALID_SOCKET\<rparr>)
                                   else if sys_thread_create sys \<noteq> 0 then
                                     (REL4U_ERR_SYSTEM,
                                      s\<lparr>sv_running := False, sv_wakeup_pipe := rel4u_wakeup_pipe_close (sv_wakeup_pipe s),
                                        sv_sock := REL4U_INVALID_SOCKET\<rparr>)
                                   else (REL4U_OK, s\<lparr>sv_running := True\<rparr>)))))"

text \<open>The loop that empties a queue.\<close>

function clear_queue :: "rel4u_mpmc_item \<Rightarrow> rel4u_mpmc_queue \<Rightarrow> rel4u_mpmc_queue" where
  "clear_queue item q =
     (case rel4u_mpmc_try_pop q (Some item) of
        (popped, q', out) \<Rightarrow> if popped then clear_queue (the out) q' else q')"
  by pat_completeness auto

termination clear_queue
  by (relation "measure (\<lambda>(item, q). unat (q_count q))") (auto intro: try_pop_count [OF sym])

declare clear_queue.simps [simp del]

text \<open>Stopping, before and after the worker has ended.\<close>

definition server_shutdown :: "rel4u_server \<Rightarrow> rel4u_server" where
  "server_shutdown s = s\<lparr>sv_running := False, sv_recv_queue := rel4u_mpmc_wake_all (sv_recv_queue s)\<rparr>"

definition server_teardown :: "env \<Rightarrow> rel4u_server \<Rightarrow> rel4u_server" where
  "server_teardown e s =
     (let s = s\<lparr>sv_wakeup_pipe := rel4u_wakeup_pipe_close (sv_wakeup_pipe s), sv_sock := REL4U_INVALID_SOCKET\<rparr>;
          table = sv_session_table s
      in s\<lparr>sv_session_table := fold (\<lambda>i t. rel4u_session_free t (Some i)) [0..<unat (st_max_clients table)] table,
           sv_send_queue := clear_queue (env_item e) (sv_send_queue s),
           sv_recv_queue := clear_queue (env_item e) (sv_recv_queue s), sv_has_pending_item := False\<rparr>)"

definition rel4u_server_stop ::
  "env \<Rightarrow> (server_world \<Rightarrow> server_world option) \<Rightarrow> server_world \<Rightarrow> (int \<times> server_world) option" where
  "rel4u_server_stop e join = (\<lambda>(s, w).
     if \<not> sv_running s then Some (REL4U_OK, s, w)
     else do {
       (s, w) \<leftarrow> join (server_shutdown s, w);
       Some (REL4U_OK, server_teardown e s, w)
     })"

definition rel4u_server_destroy ::
  "env \<Rightarrow> (server_world \<Rightarrow> server_world option) \<Rightarrow> server_world \<Rightarrow> server_world option" where
  "rel4u_server_destroy e join sw = do {
     (_, s, w) \<leftarrow> rel4u_server_stop e join sw;
     Some (s\<lparr>sv_send_queue := rel4u_mpmc_destroy (sv_send_queue s), sv_recv_queue := rel4u_mpmc_destroy (sv_recv_queue s),
             sv_session_table := rel4u_session_table_destroy (sv_session_table s)\<rparr>, w)
   }"

subsection \<open>Sending, receiving, disconnecting and statistics\<close>

definition rel4u_server_send ::
  "env \<Rightarrow> u32 \<Rightarrow> u8 \<Rightarrow> u8 list option \<Rightarrow> size_t \<Rightarrow> server_world \<Rightarrow> (int \<times> server_world) option" where
  "rel4u_server_send e client_id mode data len = (\<lambda>(s, w).
     case data of
       None \<Rightarrow> Some (REL4U_ERR_INVALID_PARAM, s, w)
     | Some bytes \<Rightarrow>
         if unat len > REL4U_MAX_PAYLOAD (sc_mtu (sv_config s)) then Some (REL4U_ERR_MSG_TOO_LARGE, s, w)
         else if \<not> sv_running s then Some (REL4U_ERR_NOT_CONNECTED, s, w)
         else do {
           item_data \<leftarrow> memcpy (it_data (env_item e)) bytes (unat len);
           let item = (env_item e)\<lparr>it_client_id := client_id, it_mode := mode, it_len := ucast len, it_data := item_data\<rparr>;
           let (pushed, q) = rel4u_mpmc_try_push (env_alloc e (wd_pushes w)) (sv_send_queue s) (Some item);
           let s = s\<lparr>sv_send_queue := q\<rparr>;
           let w = w\<lparr>wd_pushes := wd_pushes w + 1\<rparr>;
           if \<not> pushed then
             Some (REL4U_ERR_QUEUE_FULL,
                   s\<lparr>sv_stats := (sv_stats s)\<lparr>packets_dropped_queue_full :=
                        dropped_total (sv_send_queue s) (sv_recv_queue s)\<rparr>\<rparr>, w)
           else Some (REL4U_OK, s, w)
         })"

text \<open>As for the client; the client id the message came from is returned too.\<close>

definition rel4u_server_recv ::
  "env \<Rightarrow> (bool \<times> rel4u_mpmc_queue) list \<Rightarrow> u8 list option \<Rightarrow> size_t \<Rightarrow> int \<Rightarrow> rel4u_server \<Rightarrow>
   (int \<times> rel4u_server \<times> u32 option \<times> u8 list option \<times> size_t option) option option" where
  "rel4u_server_recv e wakes buffer buffer_size timeout_ms s =
     (case buffer of
        None \<Rightarrow> Some (Some (REL4U_ERR_INVALID_PARAM, s, None, buffer, None))
      | Some buf \<Rightarrow>
          if buffer_size = 0 then Some (Some (REL4U_ERR_INVALID_PARAM, s, None, buffer, None))
          else
            (case rel4u_mpmc_pop_wait wakes (sv_recv_queue s) (Some (env_item e)) timeout_ms of
               None \<Rightarrow> Some None
             | Some (ok, q, item) \<Rightarrow>
                 let s = s\<lparr>sv_recv_queue := q\<rparr>
                 in if \<not> ok then
                      Some (Some (if timeout_ms = 0 then REL4U_ERR_QUEUE_EMPTY else REL4U_ERR_TIMEOUT, s, None, buffer, None))
                    else
                      (let copy_len = (if ucast (it_len (the item)) \<le> buffer_size then ucast (it_len (the item)) else buffer_size)
                       in map_option (\<lambda>buf. Some (REL4U_OK, s, Some (it_client_id (the item)), Some buf, Some copy_len))
                            (memcpy buf (it_data (the item)) (unat copy_len)))))"

definition rel4u_server_disconnect_client :: "env \<Rightarrow> u32 \<Rightarrow> server_world \<Rightarrow> int \<times> server_world" where
  "rel4u_server_disconnect_client e client_id = (\<lambda>(s, w).
     case rel4u_session_find_by_id (sv_session_table s) client_id of
       None \<Rightarrow> (REL4U_ERR_CLIENT_NOT_FOUND, s, w)
     | Some i \<Rightarrow>
         (let buf = control_datagram (take REL4U_HEADER_LEN (env_raw_buf e)) REL4U_PKT_DISCONNECT (cs_session_id (sv_session s i)) 0;
              (sent, w) = rel4u_net_sendto e (sv_sock s) buf (cs_addr (sv_session s i)) w
          in (REL4U_OK, s\<lparr>sv_session_table := rel4u_session_free (sv_session_table s) (Some i)\<rparr>, w)))"

definition rel4u_server_get_stats :: "rel4u_server \<Rightarrow> rel4u_stats option \<Rightarrow> int \<times> rel4u_stats option" where
  "rel4u_server_get_stats s out_stats =
     (case out_stats of
        None \<Rightarrow> (REL4U_ERR_INVALID_PARAM, None)
      | Some _ \<Rightarrow>
          (REL4U_OK,
           Some ((sv_stats s)\<lparr>packets_dropped_queue_full := dropped_total (sv_send_queue s) (sv_recv_queue s),
                              active_connections := st_active_count (sv_session_table s),
                              send_queue_occupancy := ucast (rel4u_mpmc_size (Some (sv_send_queue s))),
                              recv_queue_occupancy := ucast (rel4u_mpmc_size (Some (sv_recv_queue s))),
                              send_queue_bytes := rel4u_mpmc_bytes (Some (sv_send_queue s)),
                              recv_queue_bytes := rel4u_mpmc_bytes (Some (sv_recv_queue s))\<rparr>)))"

definition rel4u_server_get_client_stats :: "rel4u_server \<Rightarrow> u32 \<Rightarrow> rel4u_stats option \<Rightarrow> int \<times> rel4u_stats option" where
  "rel4u_server_get_client_stats s client_id out_stats =
     (case out_stats of
        None \<Rightarrow> (REL4U_ERR_INVALID_PARAM, None)
      | Some out \<Rightarrow>
          (case rel4u_session_find_by_id (sv_session_table s) client_id of
             None \<Rightarrow> (REL4U_ERR_CLIENT_NOT_FOUND, Some out)
           | Some i \<Rightarrow>
               (REL4U_OK, Some ((cs_stats (sv_session s i))\<lparr>current_rto_ms := rel4u_rtt_get_rto (Some (cs_rtt (sv_session s i)))\<rparr>))))"

subsection \<open>The worker\<close>

definition server_send_packet ::
  "env \<Rightarrow> nat \<Rightarrow> u8 \<Rightarrow> u8 \<Rightarrow> u32 \<Rightarrow> u8 list option \<Rightarrow> size_t \<Rightarrow> server_world \<Rightarrow> server_world option" where
  "server_send_packet e i type mode seq payload len = (\<lambda>(s, w). do {
     let x = sv_session s i;
     (hdr_len, bytes) \<leftarrow> build_datagram e (cs_recv_win x) (cs_session_id x) type mode seq payload len;
     if hdr_len \<le> 0 then Some (s, w)
     else
       (case rel4u_net_sendto e (sv_sock s) bytes (cs_addr x) w of
          (sent, w) \<Rightarrow>
            if sent > 0 then
              (case rel4u_time_now_ns e w of
                 (now_ns, w) \<Rightarrow>
                   Some ((set_session i
                            (x\<lparr>cs_stats := (cs_stats x)\<lparr>packets_sent := packets_sent (cs_stats x) + 1,
                                                        bytes_sent := bytes_sent (cs_stats x) + of_int sent\<rparr>,
                               cs_last_ack_sent_ns := now_ns, cs_ack_pending := False\<rparr>) s)
                           \<lparr>sv_stats := (sv_stats s)\<lparr>packets_sent := packets_sent (sv_stats s) + 1,
                                                    bytes_sent := bytes_sent (sv_stats s) + of_int sent\<rparr>\<rparr>, w))
            else Some (s, w))
   })"

abbreviation server_send_control :: "env \<Rightarrow> nat \<Rightarrow> u8 \<Rightarrow> server_world \<Rightarrow> server_world option" where
  "server_send_control e i type \<equiv> server_send_packet e i type REL4U_MODE_UNRELIABLE_UNORDERED 0 None 0"

text \<open>
  A connection request. A known address keeps its session as it is; an unknown one gets a new session,
  or a \<open>REJECT\<close> packet if there is none.
\<close>

definition new_session_id :: "env \<Rightarrow> u64 \<Rightarrow> u32" where
  "new_session_id e now_ns = (let sid = ucast (now_ns XOR env_src_ptr e) in if sid = 0 then 1 else sid)"

definition connect_session ::
  "env \<Rightarrow> u64 \<Rightarrow> rel4u_net_addr \<Rightarrow> server_world \<Rightarrow> (nat option \<times> rel4u_session_table) option" where
  "connect_session e now_ns src = (\<lambda>(s, w).
     case rel4u_session_find_by_addr (sv_session_table s) (Some src) of
       Some i \<Rightarrow> Some (Some i, sv_session_table s)
     | None \<Rightarrow>
         do {
           (session, table, was_evicted) \<leftarrow>
             rel4u_session_allocate (env_calloc e (wd_clock w)) (sv_session_table s) (Some src) (new_session_id e now_ns);
           Some (session, table)
         })"

definition server_on_connect_req :: "env \<Rightarrow> u64 \<Rightarrow> rel4u_net_addr \<Rightarrow> server_world \<Rightarrow> server_world option" where
  "server_on_connect_req e now_ns src = (\<lambda>(s, w).
     do {
       (session, table) \<leftarrow> connect_session e now_ns src (s, w);
       let s = s\<lparr>sv_session_table := table\<rparr>;
       (case session of
          None \<Rightarrow>
            (let buf = control_datagram (take REL4U_HEADER_LEN (env_raw_buf e)) REL4U_PKT_REJECT 0 0
             in Some (s, snd (rel4u_net_sendto e (sv_sock s) buf src w)))
        | Some i \<Rightarrow>
            server_send_control e i REL4U_PKT_CONNECT_RESP
              (set_session i ((sv_session s i)\<lparr>cs_last_activity_ns := now_ns, cs_last_heartbeat_sent_ns := now_ns\<rparr>) s, w))
     })"

text \<open>A packet that belongs to no session.\<close>

definition server_on_stray :: "env \<Rightarrow> rel4u_header \<Rightarrow> rel4u_net_addr \<Rightarrow> server_world \<Rightarrow> server_world" where
  "server_on_stray e hdr src = (\<lambda>(s, w).
     if packet_type hdr \<noteq> REL4U_PKT_RESET \<and> packet_type hdr \<noteq> REL4U_PKT_DISCONNECT \<and> packet_type hdr \<noteq> REL4U_PKT_REJECT then
       (let buf = control_datagram (take REL4U_HEADER_LEN (env_raw_buf e)) REL4U_PKT_RESET (session_id hdr) (seq_num hdr)
        in (s, snd (rel4u_net_sendto e (sv_sock s) buf src w)))
     else (s, w))"

text \<open>
  A packet of session \<open>i\<close>: the bookkeeping every packet gets, which promotes a connecting session, and the
  handling of acknowledgements, heartbeats and data.
\<close>

definition received_session :: "u8 list \<Rightarrow> rel4u_client_session \<Rightarrow> rel4u_client_session" where
  "received_session bytes x =
     x\<lparr>cs_stats := (cs_stats x)\<lparr>packets_recv := packets_recv (cs_stats x) + 1,
                                bytes_recv := bytes_recv (cs_stats x) + of_nat (length bytes)\<rparr>,
       cs_state := (if cs_state x = REL4U_STATE_CONNECTING then REL4U_STATE_CONNECTED else cs_state x)\<rparr>"

definition server_on_ack_data ::
  "env \<Rightarrow> u64 \<Rightarrow> rel4u_header \<Rightarrow> u8 list \<Rightarrow> nat \<Rightarrow> server_world \<Rightarrow> server_world option" where
  "server_on_ack_data e now_ns hdr bytes i = (\<lambda>(s, w). do {
     (win, rtt, stats) \<leftarrow> rel4u_send_window_on_ack (cs_send_win (sv_session s i)) (ack_num hdr) (sack_mask hdr) now_ns
                            (Some (cs_rtt (sv_session s i))) (Some (cs_stats (sv_session s i)));
     let s = set_session i ((sv_session s i)\<lparr>cs_send_win := win, cs_rtt := the rtt, cs_stats := the stats\<rparr>) s;
     (s, w) \<leftarrow> (if packet_type hdr = REL4U_PKT_HEARTBEAT
                 then server_send_control e i REL4U_PKT_HEARTBEAT_ACK (s, w) else Some (s, w));
     if packet_type hdr = REL4U_PKT_DATA then do {
       let x = sv_session s i;
       (win, slots, (q, w), ack) \<leftarrow> on_data e (cs_client_id x) (cs_recv_win x) (sv_ready_slots s) hdr
                                      (drop REL4U_HEADER_LEN bytes) (sv_recv_queue s, w);
       Some ((set_session i (x\<lparr>cs_recv_win := win, cs_ack_pending := (if ack then True else cs_ack_pending x)\<rparr>) s)
               \<lparr>sv_ready_slots := slots, sv_recv_queue := q\<rparr>, w)
     }
     else Some (s, w)
   })"

definition server_on_session_packet ::
  "env \<Rightarrow> u64 \<Rightarrow> rel4u_header \<Rightarrow> u8 list \<Rightarrow> nat \<Rightarrow> server_world \<Rightarrow> server_world option" where
  "server_on_session_packet e now_ns hdr bytes i = (\<lambda>(s, w).
     let s = s\<lparr>sv_session_table := rel4u_session_touch_lru (sv_session_table s) (Some i) now_ns\<rparr>;
         s = set_session i (received_session bytes (sv_session s i)) s
     in if packet_type hdr = REL4U_PKT_CONNECT_ACK then Some (s, w)
        else if packet_type hdr = REL4U_PKT_DISCONNECT then
          Some (s\<lparr>sv_session_table := rel4u_session_free (sv_session_table s) (Some i)\<rparr>, w)
        else server_on_ack_data e now_ns hdr bytes i (s, w))"

definition server_on_datagram ::
  "env \<Rightarrow> u8 list \<times> rel4u_net_addr \<Rightarrow> server_world \<Rightarrow> server_world option" where
  "server_on_datagram e dg = (\<lambda>(s, w).
     case dg of (bytes, src) \<Rightarrow>
       (case rel4u_packet_decode_header (Some bytes) (of_nat (length bytes)) (Some zero_header) of
          (r, hdr) \<Rightarrow>
            if r \<noteq> 0 then Some (s, w)
            else
              (case rel4u_time_now_ns e w of
                 (now_ns, w) \<Rightarrow>
                   let hdr = the hdr;
                       s = s\<lparr>sv_stats := (sv_stats s)\<lparr>packets_recv := packets_recv (sv_stats s) + 1,
                                                      bytes_recv := bytes_recv (sv_stats s) + of_nat (length bytes)\<rparr>\<rparr>
                   in if packet_type hdr = REL4U_PKT_CONNECT_REQ then server_on_connect_req e now_ns src (s, w)
                      else
                        (case rel4u_session_find_by_addr (sv_session_table s) (Some src) of
                           None \<Rightarrow> Some (server_on_stray e hdr src (s, w))
                         | Some i \<Rightarrow>
                             if cs_session_id (sv_session s i) \<noteq> session_id hdr then Some (server_on_stray e hdr src (s, w))
                             else server_on_session_packet e now_ns hdr bytes i (s, w)))))"

primrec server_receive :: "env \<Rightarrow> (u8 list \<times> rel4u_net_addr) list \<Rightarrow> server_world \<Rightarrow> server_world option" where
  "server_receive e [] sw = Some sw"
| "server_receive e (dg # dgs) sw =
     (case rel4u_net_recvfrom (Some dg) (sv_sock (fst sw)) (REL4U_MAX_PAYLOAD_SIZE + REL4U_HEADER_LEN) of
        (bytes_read, got) \<Rightarrow>
          if bytes_read > 0 then Option.bind (server_on_datagram e (the got) sw) (server_receive e dgs)
          else Some sw)"

text \<open>The message to send next: the one left over from before, or the first of the queue.\<close>

definition server_next_item :: "rel4u_server \<Rightarrow> bool \<times> rel4u_server" where
  "server_next_item s =
     (if sv_has_pending_item s then (True, s)
      else
        (case rel4u_mpmc_try_pop (sv_send_queue s) (Some (sv_pending_item s)) of
           (popped, q, out) \<Rightarrow>
             if popped then (True, s\<lparr>sv_send_queue := q, sv_pending_item := the out, sv_has_pending_item := True\<rparr>)
             else (False, s\<lparr>sv_send_queue := q, sv_pending_item := the out\<rparr>)))"

definition server_transmit :: "env \<Rightarrow> nat \<Rightarrow> server_world \<Rightarrow> server_world option" where
  "server_transmit e i = (\<lambda>(s, w).
     case rel4u_time_now_ns e w of
       (now_ns, w) \<Rightarrow> do {
         let item = sv_pending_item s;
         let x = sv_session s i;
         (push_res, win, seq) \<leftarrow> rel4u_send_window_push (cs_send_win x) (it_mode item) (Some (it_data item))
                                   (ucast (it_len item)) now_ns;
         let s = set_session i (x\<lparr>cs_send_win := win\<rparr>) s;
         let seq = (case seq of None \<Rightarrow> 0 | Some n \<Rightarrow> n);
         (s, w) \<leftarrow>
           (if push_res = 0 then
              server_send_packet e i REL4U_PKT_DATA (it_mode item) seq (Some (it_data item)) (ucast (it_len item)) (s, w)
            else Some (s, w));
         Some (s\<lparr>sv_has_pending_item := False\<rparr>, w)
       })"

text \<open>Sending and receiving change the sessions and the statistics, not the send queue.\<close>

lemma set_session_fields [simp]:
  "sv_send_queue (set_session i x s) = sv_send_queue s" "sv_recv_queue (set_session i x s) = sv_recv_queue s"
  "sv_sock (set_session i x s) = sv_sock s" "sv_config (set_session i x s) = sv_config s"
  "sv_ready_slots (set_session i x s) = sv_ready_slots s" "sv_pending_item (set_session i x s) = sv_pending_item s"
  "sv_has_pending_item (set_session i x s) = sv_has_pending_item s" "sv_running (set_session i x s) = sv_running s"
  "sv_stats (set_session i x s) = sv_stats s"
  by (simp_all add: set_session_def)

lemma server_send_packet_keeps:
  assumes "server_send_packet e i type mode seq payload len (s, w) = Some (s', w')"
  shows "s' = s \<or> (\<exists>st t st'. s' = (set_session i ((sv_session s i)\<lparr>cs_stats := st, cs_last_ack_sent_ns := t, cs_ack_pending := False\<rparr>) s)
    \<lparr>sv_stats := st'\<rparr>)"
proof -
  let ?b = "build_datagram e (cs_recv_win (sv_session s i)) (cs_session_id (sv_session s i)) type mode seq payload len"
  obtain h bs where d: "?b = Some (h, bs)"
    using assms by (cases ?b) (auto simp: server_send_packet_def)
  obtain n w1 where n: "rel4u_net_sendto e (sv_sock s) bs (cs_addr (sv_session s i)) w = (n, w1)" by (metis prod.exhaust)
  obtain t w2 where t: "rel4u_time_now_ns e w1 = (t, w2)" by (metis prod.exhaust)
  show ?thesis
  proof (cases "h \<le> 0 \<or> \<not> n > 0")
    case True
    then show ?thesis using assms by (auto simp: server_send_packet_def Let_def d n split: if_splits)
  next
    case False
    then show ?thesis using assms by (auto simp: server_send_packet_def Let_def d n t split: if_splits)
  qed
qed

lemma server_send_packet_queue:
  assumes "server_send_packet e i type mode seq payload len (s, w) = Some (s', w')"
  shows "sv_send_queue s' = sv_send_queue s"
  using server_send_packet_keeps [OF assms] by auto

lemma server_transmit_queue:
  assumes "server_transmit e i (s, w) = Some (s', w')"
  shows "sv_send_queue s' = sv_send_queue s" "\<not> sv_has_pending_item s'"
proof -
  obtain t w1 where t: "rel4u_time_now_ns e w = (t, w1)" by (metis prod.exhaust)
  let ?item = "sv_pending_item s" and ?x = "sv_session s i"
  let ?p = "rel4u_send_window_push (cs_send_win ?x) (it_mode ?item) (Some (it_data ?item)) (ucast (it_len ?item)) t"
  obtain r win seq where p: "?p = Some (r, win, seq)" using assms by (cases ?p) (auto simp: server_transmit_def Let_def t)
  let ?s = "set_session i (?x\<lparr>cs_send_win := win\<rparr>) s"
  let ?r = "if r = 0 then server_send_packet e i REL4U_PKT_DATA (it_mode ?item) (case seq of None \<Rightarrow> 0 | Some n \<Rightarrow> n)
    (Some (it_data ?item)) (ucast (it_len ?item)) (?s, w1) else Some (?s, w1)"
  obtain s1 w2 where s1: "?r = Some (s1, w2)" "s' = s1\<lparr>sv_has_pending_item := False\<rparr>"
    using assms by (cases ?r) (auto simp: server_transmit_def Let_def t p)
  then show "\<not> sv_has_pending_item s'" by simp
  have "sv_send_queue s1 = sv_send_queue s"
    using s1(1) server_send_packet_queue by (cases "r = 0") fastforce+
  with s1(2) show "sv_send_queue s' = sv_send_queue s" by simp
qed

definition drain_measure :: "rel4u_server \<Rightarrow> nat" where
  "drain_measure s = 2 * unat (q_count (sv_send_queue s)) + (if sv_has_pending_item s then 1 else 0)"

lemma server_next_item_measure:
  assumes "server_next_item s = (True, s1)"
  shows "sv_has_pending_item s1" "drain_measure s1 \<le> drain_measure s"
proof -
  obtain ok q out where p: "rel4u_mpmc_try_pop (sv_send_queue s) (Some (sv_pending_item s)) = (ok, q, out)" by (metis prod.exhaust)
  show "sv_has_pending_item s1" "drain_measure s1 \<le> drain_measure s"
    using assms p try_pop_count [of "sv_send_queue s" "sv_pending_item s" q out]
    by (auto simp: server_next_item_def drain_measure_def split: if_splits)
qed

text \<open>Every round settles the pending message, so the loop ends.\<close>

function server_drain :: "env \<Rightarrow> server_world \<Rightarrow> server_world option" where
  "server_drain e (s, w) =
     (case server_next_item s of
        (got, s) \<Rightarrow>
          if \<not> got then Some (s, w)
          else
            (case rel4u_session_find_by_id (sv_session_table s) (it_client_id (sv_pending_item s)) of
               None \<Rightarrow> server_drain e (s\<lparr>sv_has_pending_item := False\<rparr>, w)
             | Some i \<Rightarrow>
                 if cs_state (sv_session s i) = REL4U_STATE_CONNECTED then
                   if rel4u_send_window_can_send (cs_send_win (sv_session s i)) then
                     (case server_transmit e i (s, w) of
                        None \<Rightarrow> None
                      | Some sw \<Rightarrow> server_drain e sw)
                   else Some (s, w)
                 else server_drain e (s\<lparr>sv_has_pending_item := False\<rparr>, w)))"
  by pat_completeness auto

lemma drain_measure_settled:
  assumes "server_next_item s = (True, s1)" "sv_send_queue s2 = sv_send_queue s1" "\<not> sv_has_pending_item s2"
  shows "drain_measure s2 < drain_measure s"
  using server_next_item_measure [OF assms(1)] assms(2,3) by (simp add: drain_measure_def)

termination server_drain
proof (relation "measure (\<lambda>(e, s, w). drain_measure s)", simp, goal_cases)
  case (1 e s w x y)
  then show ?case using drain_measure_settled [of s y "y\<lparr>sv_has_pending_item := False\<rparr>"] by simp
next
  case (2 e s w x y i sw)
  then obtain s2 w2 where "sw = (s2, w2)" by (cases sw)
  with 2 drain_measure_settled [of s y s2] server_transmit_queue [of e i y w s2 w2] show ?case by simp
next
  case (3 e s w x y i)
  then show ?case using drain_measure_settled [of s y "y\<lparr>sv_has_pending_item := False\<rparr>"] by simp
qed

declare server_drain.simps [simp del]

fun server_resend :: "env \<Rightarrow> u64 \<Rightarrow> nat \<Rightarrow> nat list \<Rightarrow> server_world \<Rightarrow> server_world option" where
  "server_resend e now_ns i [] sw = Some sw"
| "server_resend e now_ns i (k # ks) (s, w) = do {
     win \<leftarrow> mark_retransmit (cs_send_win (sv_session s i)) k now_ns;
     slot \<leftarrow> deref (sw_slots win) k;
     sw \<leftarrow> server_send_packet e i REL4U_PKT_DATA (ss_delivery_mode slot) (ss_seq_num slot) (Some (ss_payload slot))
            (ucast (ss_payload_len slot)) (set_session i ((sv_session s i)\<lparr>cs_send_win := win\<rparr>) s, w);
     server_resend e now_ns i ks sw
   }"

definition server_retransmit :: "env \<Rightarrow> u64 \<Rightarrow> nat \<Rightarrow> server_world \<Rightarrow> server_world option" where
  "server_retransmit e now_ns i = (\<lambda>(s, w). do {
     let x = sv_session s i;
     expired \<leftarrow> rel4u_send_window_get_expired (cs_send_win x) now_ns (rel4u_rtt_get_rto (Some (cs_rtt x))) 16;
     let exp_count = length expired;
     if exp_count > 0 then
       server_resend e now_ns i expired
         (set_session i
            (x\<lparr>cs_rtt := rel4u_rtt_on_timeout (cs_rtt x),
               cs_stats := (cs_stats x)\<lparr>packets_retransmitted := packets_retransmitted (cs_stats x) + of_nat exp_count,
                                        packets_lost := packets_lost (cs_stats x) + of_nat exp_count\<rparr>\<rparr>) s, w)
     else Some (s, w)
   })"

definition server_heartbeat :: "env \<Rightarrow> u64 \<Rightarrow> nat \<Rightarrow> server_world \<Rightarrow> server_world option" where
  "server_heartbeat e now_ns i = (\<lambda>(s, w).
     if now_ns - cs_last_heartbeat_sent_ns (sv_session s i) \<ge> ucast (sc_heartbeat_interval_ms (sv_config s)) * 1000000 then
       map_option (\<lambda>(s, w). (set_session i ((sv_session s i)\<lparr>cs_last_heartbeat_sent_ns := now_ns\<rparr>) s, w))
         (server_send_control e i REL4U_PKT_HEARTBEAT (s, w))
     else Some (s, w))"

text \<open>One round of the loop over the sessions.\<close>

definition server_session_timers :: "env \<Rightarrow> u64 \<Rightarrow> nat \<Rightarrow> server_world \<Rightarrow> server_world option" where
  "server_session_timers e now_ns i = (\<lambda>(s, w).
     if cs_state (sv_session s i) = REL4U_STATE_DISCONNECTED then Some (s, w)
     else if now_ns - cs_last_activity_ns (sv_session s i) \<ge> ucast (sc_inactivity_timeout_ms (sv_config s)) * 1000000 then
       Some (s\<lparr>sv_session_table := rel4u_session_free (sv_session_table s) (Some i)\<rparr>, w)
     else if cs_state (sv_session s i) \<noteq> REL4U_STATE_CONNECTED then Some (s, w)
     else do {
       (s, w) \<leftarrow> server_retransmit e now_ns i (s, w);
       (s, w) \<leftarrow> (if cs_ack_pending (sv_session s i) then server_send_control e i REL4U_PKT_ACK (s, w) else Some (s, w));
       server_heartbeat e now_ns i (s, w)
     })"

fun server_timers_loop :: "env \<Rightarrow> u64 \<Rightarrow> nat list \<Rightarrow> server_world \<Rightarrow> server_world option" where
  "server_timers_loop e now_ns [] sw = Some sw"
| "server_timers_loop e now_ns (i # is) sw = Option.bind (server_session_timers e now_ns i sw) (server_timers_loop e now_ns is)"

definition server_timers :: "env \<Rightarrow> server_world \<Rightarrow> server_world option" where
  "server_timers e = (\<lambda>(s, w).
     case rel4u_time_now_ns e w of
       (now_ns, w) \<Rightarrow> server_timers_loop e now_ns [0..<unat (st_max_clients (sv_session_table s))] (s, w))"

definition server_round ::
  "env \<Rightarrow> (int \<times> bool list) \<times> (u8 list \<times> rel4u_net_addr) list \<Rightarrow> server_world \<Rightarrow> server_world option" where
  "server_round e inp = (\<lambda>(s, w).
     case inp of ((ret, revents), dgs) \<Rightarrow>
       case rel4u_time_now_ns e w of
         (_, w) \<Rightarrow> do {
           sw \<leftarrow>
             (case rel4u_net_poll (sv_sock s) (Some (sv_wakeup_pipe s)) ret revents of
                (_, sock_read, pipe_read) \<Rightarrow> if sock_read then server_receive e dgs (s, w) else Some (s, w));
           sw \<leftarrow> server_drain e sw;
           server_timers e sw
         })"

fun server_worker_thread_func ::
  "env \<Rightarrow> ((int \<times> bool list) \<times> (u8 list \<times> rel4u_net_addr) list) list \<Rightarrow> server_world \<Rightarrow> server_world option" where
  "server_worker_thread_func e [] sw = Some sw"
| "server_worker_thread_func e (inp # inps) (s, w) =
     (if sv_running s then Option.bind (server_round e inp (s, w)) (server_worker_thread_func e inps) else Some (s, w))"

end
