(* ===== verification/Server_Correct.thy ===== *)
theory Server_Correct
  imports Server Endpoint_Correct
begin

text \<open>
  The server's invariant, and that every operation keeps it: the session table is consistent, no two active
  sessions have the same peer, every session has well-formed windows with nothing ready left in the receive window
  and a timeout in its range, the queues are well formed, and a pending message fits a datagram.
\<close>

subsection \<open>Sessions\<close>

definition session_good :: "rel4u_client_session \<Rightarrow> bool" where
  "session_good x \<longleftrightarrow> session_ok x \<and> rw_buf (cs_recv_win x) 0 = None \<and> rto_ok (cs_rtt x)"

lemma session_goodD:
  assumes "session_good x"
  shows "send_inv (cs_send_win x)" "recv_inv (cs_recv_win x)" "rto_ok (cs_rtt x)" "rw_buf (cs_recv_win x) 0 = None"
  using assms by (simp_all add: session_good_def session_ok_def)

lemma session_goodI:
  "send_inv (cs_send_win x) \<Longrightarrow> recv_inv (cs_recv_win x) \<Longrightarrow> rto_ok (cs_rtt x) \<Longrightarrow> rw_buf (cs_recv_win x) 0 = None \<Longrightarrow> session_good x"
  by (simp add: session_good_def session_ok_def rto_ok_def)

text \<open>The table with \<open>n\<close> slots.\<close>

definition table_inv :: "nat \<Rightarrow> rel4u_session_table \<Rightarrow> bool" where
  "table_inv n t \<longleftrightarrow>
     session_inv t \<and> length (st_sessions t) = n \<and> addr_unique t \<and> (\<forall>x \<in> set (st_sessions t). session_good x)"

lemma table_invD:
  assumes "table_inv n t"
  shows "session_inv t" "length (st_sessions t) = n" "addr_unique t" "\<And>i. i < n \<Longrightarrow> session_good (st_sessions t ! i)"
    "unat (st_max_clients t) = n"
  using assms session_invD(2) [of t] by (auto simp: table_inv_def)

text \<open>A session may change in everything but its place, its peer and whether it is active.\<close>

definition same_session :: "rel4u_client_session \<Rightarrow> rel4u_client_session \<Rightarrow> bool" where
  "same_session x y \<longleftrightarrow> cs_client_id y = cs_client_id x \<and> cs_addr y = cs_addr x \<and> session_active y = session_active x"

lemma table_update:
  assumes "table_inv n t" "i < n" "session_good x" "same_session (st_sessions t ! i) x"
  shows "table_inv n (t\<lparr>st_sessions := (st_sessions t)[i := x]\<rparr>)"
proof -
  note t = table_invD [OF assms(1)]
  have i: "i < length (st_sessions t)" using assms(2) t(2) by simp
  have "session_inv (t\<lparr>st_sessions := (st_sessions t)[i := x]\<rparr>)"
    by (rule session_inv_update [OF t(1) i, of x]) (use assms(3,4) session_invD(4) [OF t(1) i] in \<open>simp_all add: same_session_def session_good_def\<close>)
  moreover have "addr_unique (t\<lparr>st_sessions := (st_sessions t)[i := x]\<rparr>)"
    using t(3) assms(4) i by (auto simp: addr_unique_def nth_list_update same_session_def)
  moreover have "\<forall>y \<in> set ((st_sessions t)[i := x]). session_good y"
    using assms(1,3) set_update_subset_insert [of "st_sessions t" i x] by (auto simp: table_inv_def)
  ultimately show ?thesis using t(2) by (simp add: table_inv_def)
qed

lemma table_free:
  assumes "table_inv n t" "i < n"
  shows "table_inv n (rel4u_session_free t (Some i))"
proof -
  note t = table_invD [OF assms(1)]
  have i: "i < length (st_sessions t)" using assms(2) t(2) by simp
  have f: "session_inv (rel4u_session_free t (Some i))" "length (st_sessions (rel4u_session_free t (Some i))) = n"
    using session_free_inv [OF t(1) i] t(2) by simp_all
  have ss: "st_sessions (rel4u_session_free t (Some i)) = st_sessions t \<or>
      st_sessions (rel4u_session_free t (Some i)) = (st_sessions t)[i := (st_sessions t ! i)\<lparr>cs_state := REL4U_STATE_DISCONNECTED, cs_session_id := 0\<rparr>]"
    by (simp add: rel4u_session_free_def)
  have good: "session_good ((st_sessions t ! i)\<lparr>cs_state := REL4U_STATE_DISCONNECTED, cs_session_id := 0\<rparr>)"
    using t(4) [OF assms(2)] by (simp add: session_good_def session_ok_def)
  have "addr_unique (rel4u_session_free t (Some i))"
    using ss t(3) i by (auto simp: addr_unique_def nth_list_update session_active_def split: if_splits)
  moreover have "\<forall>y \<in> set (st_sessions (rel4u_session_free t (Some i))). session_good y"
    using ss assms(1) good by (auto simp: table_inv_def dest!: subsetD [OF set_update_subset_insert])
  ultimately show ?thesis using f by (simp add: table_inv_def)
qed

lemma table_allocate:
  assumes "table_inv n t" "calloc_ok 0" "calloc_ok 1" "rel4u_session_find_by_addr t (Some a) = None"
    and "rel4u_session_allocate calloc_ok t (Some a) sid = Some (r, t', e)"
  shows "table_inv n t' \<and> (case r of None \<Rightarrow> t' = t | Some i \<Rightarrow> i < n \<and>
    (\<exists>x. session_fresh a sid x \<and> st_sessions t' = (st_sessions t)[i := x]))"
proof -
  note t = table_invD [OF assms(1)]
  note law = allocate_law [OF t(1) assms(2,3), of a sid, unfolded assms(5) option.case prod.case]
  show ?thesis
  proof (cases r)
    case None
    with law assms(1) show ?thesis by simp
  next
    case (Some i)
    then have l: "session_inv t'" "slot_taken t i" "session_fresh a sid (st_sessions t' ! i)"
      "st_sessions t' = (st_sessions t)[i := st_sessions t' ! i]" using law by simp_all
    have i: "i < n" using l(2) t(2) by (auto simp: slot_taken_def lru_at_def split: if_splits)
    have len: "length (st_sessions t') = n" using l(4) t(2) by (metis length_list_update)
    have "session_ok (st_sessions t' ! i)" using session_invD(5) [OF l(1)] i len by simp
    then have "session_good (st_sessions t' ! i)"
      using l(3) rto_ok_default by (simp add: session_good_def session_fresh_def)
    then have "\<forall>y \<in> set (st_sessions t'). session_good y"
      using l(4) assms(1) set_update_subset_insert [of "st_sessions t" i "st_sessions t' ! i"] by (metis (no_types, lifting) insert_iff subset_iff table_inv_def)
    moreover have "addr_unique t'"
      by (rule allocate_unique [OF t(1) assms(2,3) t(3) assms(4)]) (use assms(5) Some in simp)
    moreover have "\<exists>x. session_fresh a sid x \<and> st_sessions t' = (st_sessions t)[i := x]" using l(3,4) by blast
    ultimately show ?thesis using Some l(1) i len by (simp add: table_inv_def)
  qed
qed

lemma find_by_addr_less: "table_inv n t \<Longrightarrow> rel4u_session_find_by_addr t (Some a) = Some i \<Longrightarrow> i < n"
  using find_by_addr_law [of t a] table_invD(1,2) [of n t] by simp

lemma find_by_id_less: "table_inv n t \<Longrightarrow> rel4u_session_find_by_id t c = Some i \<Longrightarrow> i < n"
  using table_invD(5) [of n t] by (auto simp: rel4u_session_find_by_id_def word_less_nat_alt not_le split: if_splits)

subsection \<open>The invariant\<close>

definition server_inv :: "nat \<Rightarrow> rel4u_server \<Rightarrow> bool" where
  "server_inv n s \<longleftrightarrow>
     table_inv n (sv_session_table s) \<and> queue_inv (sv_send_queue s) \<and> queue_inv (sv_recv_queue s) \<and>
     payloads_ok (sv_ready_slots s) \<and> length (sv_ready_slots s) = 64 \<and> out_room (sv_pending_item s) \<and>
     (sv_has_pending_item s \<longrightarrow> valid_item (sv_pending_item s)) \<and>
     unat (sc_mtu (sv_config s)) \<le> REL4U_MAX_PAYLOAD_SIZE + REL4U_HEADER_LEN"

lemma server_session_good: "server_inv n s \<Longrightarrow> i < n \<Longrightarrow> session_good (sv_session s i)"
  using table_invD(4) [of n "sv_session_table s" i] by (simp add: server_inv_def sv_session_def)

lemma sv_session_set [simp]: "server_inv n s \<Longrightarrow> i < n \<Longrightarrow> sv_session (set_session i x s) i = x"
  using table_invD(2) [of n "sv_session_table s"] by (simp add: server_inv_def sv_session_def set_session_def)

lemma set_session_inv:
  assumes "server_inv n s" "i < n" "session_good x" "same_session (sv_session s i) x"
  shows "server_inv n (set_session i x s)"
  using assms table_update [of n "sv_session_table s" i x]
  by (simp add: server_inv_def set_session_def sv_session_def)

text \<open>The session of an address.\<close>

lemma session_found:
  assumes "server_inv n s" "rel4u_session_find_by_addr (sv_session_table s) (Some a) = Some i"
  shows "i < n" "session_active (sv_session s i)" "addr_eq (cs_addr (sv_session s i)) a"
proof -
  have t: "table_inv n (sv_session_table s)" using assms(1) by (simp add: server_inv_def)
  show "i < n" by (rule find_by_addr_less [OF t assms(2)])
  show "session_active (sv_session s i)" "addr_eq (cs_addr (sv_session s i)) a"
    using find_by_addr_law [OF table_invD(1) [OF t], of a] assms(2) by (simp_all add: sv_session_def)
qed

lemma session_finds:
  assumes "server_inv n s" "i < n" "session_active (sv_session s i)" "addr_eq (cs_addr (sv_session s i)) a"
  shows "rel4u_session_find_by_addr (sv_session_table s) (Some a) = Some i"
proof -
  have t: "table_inv n (sv_session_table s)" using assms(1) by (simp add: server_inv_def)
  show ?thesis using table_invD(1-3) [OF t] assms(2-4) by (intro addr_unique_find) (simp_all add: sv_session_def)
qed

lemma session_still_found:
  assumes "server_inv n s" "rel4u_session_find_by_addr (sv_session_table s) (Some a) = Some i" "server_inv n s'"
    "same_session (sv_session s i) (sv_session s' i)"
  shows "rel4u_session_find_by_addr (sv_session_table s') (Some a) = Some i"
  using session_found [OF assms(1,2)] assms(4) by (intro session_finds [OF assms(3)]) (simp_all add: same_session_def)

definition server_stays :: "nat \<Rightarrow> server_world option \<Rightarrow> bool" where
  "server_stays n r \<longleftrightarrow> (\<exists>s w. r = Some (s, w) \<and> server_inv n s)"

lemma server_staysI: "r = Some (s, w) \<Longrightarrow> server_inv n s \<Longrightarrow> server_stays n r"
  by (auto simp: server_stays_def)

lemma server_staysE:
  assumes "server_stays n r"
  obtains s w where "r = Some (s, w)" "server_inv n s"
  using assms by (auto simp: server_stays_def)

subsection \<open>Packets\<close>

lemma server_send_packet_law:
  assumes env: "env_ok e" and inv: "server_inv n s" and i: "i < n" and p: "payload_given payload len"
  obtains bs s' w' where
    "build_datagram e (cs_recv_win (sv_session s i)) (cs_session_id (sv_session s i)) type mode seq payload len = Some (24, bs)"
    "server_send_packet e i type mode seq payload len (s, w) = Some (s', w')"
    "wd_sent w' = (if sv_sock s = -1 then wd_sent w else wd_sent w @ [(cs_addr (sv_session s i), bs)])" "server_inv n s'"
    "cs_send_win (sv_session s' i) = cs_send_win (sv_session s i)" "cs_recv_win (sv_session s' i) = cs_recv_win (sv_session s i)"
    "cs_session_id (sv_session s' i) = cs_session_id (sv_session s i)" "same_session (sv_session s i) (sv_session s' i)"
    "cs_state (sv_session s' i) = cs_state (sv_session s i)"
    "sv_recv_queue s' = sv_recv_queue s" "sv_send_queue s' = sv_send_queue s" "sv_has_pending_item s' = sv_has_pending_item s"
    "sv_pending_item s' = sv_pending_item s" "sv_sock s' = sv_sock s"
proof -
  let ?x = "sv_session s i"
  have good: "session_good ?x" by (rule server_session_good [OF inv i])
  obtain bs where b: "build_datagram e (cs_recv_win ?x) (cs_session_id ?x) type mode seq payload len = Some (24, bs)"
    using build_datagram_law [OF env session_goodD(2) [OF good] p, of "cs_session_id ?x" type mode seq] by blast
  have "\<exists>s' w'. server_send_packet e i type mode seq payload len (s, w) = Some (s', w') \<and>
      wd_sent w' = (if sv_sock s = -1 then wd_sent w else wd_sent w @ [(cs_addr ?x, bs)])"
    by (auto simp: server_send_packet_def b rel4u_net_sendto_def rel4u_time_now_ns_def Let_def)
  then obtain s' w' where sw: "server_send_packet e i type mode seq payload len (s, w) = Some (s', w')"
    "wd_sent w' = (if sv_sock s = -1 then wd_sent w else wd_sent w @ [(cs_addr ?x, bs)])" by blast
  from server_send_packet_keeps [OF sw(1)] consider (same) "s' = s"
    | (sent) st t st' where "s' = (set_session i (?x\<lparr>cs_stats := st, cs_last_ack_sent_ns := t, cs_ack_pending := False\<rparr>) s)\<lparr>sv_stats := st'\<rparr>"
    by blast
  then show thesis
  proof cases
    case same
    show thesis by (rule that [OF b sw]) (use same inv in \<open>simp_all add: same_session_def\<close>)
  next
    case sent
    let ?y = "?x\<lparr>cs_stats := st, cs_last_ack_sent_ns := t, cs_ack_pending := False\<rparr>"
    have y: "session_good ?y" "same_session ?x ?y" using good by (simp_all add: session_good_def session_ok_def same_session_def session_active_def)
    have inv': "server_inv n s'" using set_session_inv [OF inv i y] by (simp add: sent server_inv_def)
    have "sv_session s' i = ?y" using sv_session_set [OF inv i] by (simp add: sent sv_session_def)
    then show thesis by (intro that [OF b sw inv']) (use y in \<open>simp_all add: sent\<close>)
  qed
qed

lemma server_send_stays:
  assumes "env_ok e" "server_inv n s" "i < n" "payload_given payload len"
  shows "server_stays n (server_send_packet e i type mode seq payload len (s, w))"
  by (rule server_send_packet_law [OF assms, of type mode seq w]) (auto intro: server_staysI)

definition calloc_total :: "env \<Rightarrow> bool" where
  "calloc_total e \<longleftrightarrow> (\<forall>n k. env_calloc e n k)"

text \<open>
  What handling a datagram from \<open>a\<close> may do: no fault, the invariant is kept, only the sessions in \<open>I\<close> change, the send
  queue does not, and at most one datagram is sent, a bare header back to \<open>a\<close>.
\<close>

definition answers :: "nat \<Rightarrow> nat set \<Rightarrow> rel4u_net_addr \<Rightarrow> server_world \<Rightarrow> server_world option \<Rightarrow> bool" where
  "answers n I a sw r \<longleftrightarrow>
     (\<exists>s' w' ds. r = Some (s', w') \<and> server_inv n s' \<and> (\<forall>j. j \<notin> I \<longrightarrow> sv_session s' j = sv_session (fst sw) j) \<and>
        sv_send_queue s' = sv_send_queue (fst sw) \<and> wd_sent w' = wd_sent (snd sw) @ ds \<and> length ds \<le> 1 \<and>
        (\<forall>d \<in> set ds. (fst d = a \<or> addr_eq (fst d) a) \<and> length (snd d) = REL4U_HEADER_LEN))"

lemma answers_stays: "answers n I a sw r \<Longrightarrow> server_stays n r"
  by (auto simp: answers_def server_stays_def)

lemma answersI:
  assumes "r = Some (s', w')" "server_inv n s'" "\<And>j. j \<notin> I \<Longrightarrow> sv_session s' j = sv_session s j" "sv_send_queue s' = sv_send_queue s"
    and "wd_sent w' = wd_sent w @ ds" "length ds \<le> 1" "\<forall>d \<in> set ds. (fst d = a \<or> addr_eq (fst d) a) \<and> length (snd d) = 24"
  shows "answers n I a (s, w) r"
  unfolding answers_def using assms by (intro exI [of _ s'] exI [of _ w'] exI [of _ ds]) simp

lemma answers_mono:
  assumes "answers n I a (s1, w1) r" "I \<subseteq> J" "\<And>j. j \<notin> J \<Longrightarrow> sv_session s1 j = sv_session s j"
    and "sv_send_queue s1 = sv_send_queue s" "wd_sent w1 = wd_sent w"
  shows "answers n J a (s, w) r"
proof -
  from assms(1) obtain s' w' ds where "r = Some (s', w')" "server_inv n s'" "\<forall>j. j \<notin> I \<longrightarrow> sv_session s' j = sv_session s1 j"
      "sv_send_queue s' = sv_send_queue s1" "wd_sent w' = wd_sent w1 @ ds" "length ds \<le> 1"
      "\<forall>d \<in> set ds. (fst d = a \<or> addr_eq (fst d) a) \<and> length (snd d) = 24"
    unfolding answers_def by auto
  with assms(2-5) show ?thesis by (intro answersI [where s' = s' and w' = w' and ds = ds]) auto
qed

lemma sv_session_other [simp]: "j \<noteq> i \<Longrightarrow> sv_session (set_session i x s) j = sv_session s j"
  by (simp add: sv_session_def set_session_def)

lemma server_control_answers:
  assumes "env_ok e" "server_inv n s" "i < n" "cs_addr (sv_session s i) = a \<or> addr_eq (cs_addr (sv_session s i)) a"
  shows "answers n {i} a (s, w) (server_send_control e i type (s, w))"
proof (rule server_send_packet_law [OF assms(1-3) control_given, of type REL4U_MODE_UNRELIABLE_UNORDERED 0 w])
  fix bs s' w'
  assume b: "build_datagram e (cs_recv_win (sv_session s i)) (cs_session_id (sv_session s i)) type REL4U_MODE_UNRELIABLE_UNORDERED 0 None 0 =
      Some (24, bs)" and s': "server_send_control e i type (s, w) = Some (s', w')"
      "wd_sent w' = (if sv_sock s = -1 then wd_sent w else wd_sent w @ [(cs_addr (sv_session s i), bs)])" "server_inv n s'"
      "sv_send_queue s' = sv_send_queue s"
  have "recv_inv (cs_recv_win (sv_session s i))" using session_goodD(2) [OF server_session_good [OF assms(2,3)]] .
  from build_datagram_law [OF assms(1) this control_given, of "cs_session_id (sv_session s i)" type REL4U_MODE_UNRELIABLE_UNORDERED 0] b
  have len: "length bs = 24" by (auto simp: payload_bytes_def)
  have "sv_session s' j = sv_session s j" if "j \<noteq> i" for j
    using server_send_packet_keeps [OF s'(1)] that by (auto simp: sv_session_def set_session_def)
  with s' len assms(4) show ?thesis
    by (intro answersI [where s' = s' and w' = w' and ds = "if sv_sock s = -1 then [] else [(cs_addr (sv_session s i), bs)]"]) auto
qed

text \<open>A bare header sent outside any session.\<close>

lemma sent_control:
  assumes "env_ok e" "server_inv n s" "server_inv n s1" "\<And>j. j \<notin> I \<Longrightarrow> sv_session s1 j = sv_session s j"
    "sv_send_queue s1 = sv_send_queue s"
  shows "answers n I a (s, w) (Some (s1, snd (rel4u_net_sendto e sock
    (control_datagram (take REL4U_HEADER_LEN (env_raw_buf e)) type sid seq) a w)))"
proof -
  have "length (control_datagram (take REL4U_HEADER_LEN (env_raw_buf e)) type sid seq) = 24"
    using assms(1) by (subst control_datagram_bytes) (simp_all add: env_ok_def)
  with assms show ?thesis
    by (intro answersI [where s' = s1 and w' = "snd (rel4u_net_sendto e sock (control_datagram (take REL4U_HEADER_LEN (env_raw_buf e)) type sid seq) a w)"
        and ds = "if sock = -1 then [] else [(a, control_datagram (take REL4U_HEADER_LEN (env_raw_buf e)) type sid seq)]"])
      (auto simp: rel4u_net_sendto_def)
qed

text \<open>
  The session a connection request from an unknown address takes away under the \<open>DROP_OLD\<close> policy: when every slot is in use,
  the least recently active one.
\<close>

definition evicted_by :: "rel4u_server \<Rightarrow> rel4u_net_addr \<Rightarrow> nat \<Rightarrow> bool" where
  "evicted_by s a j \<longleftrightarrow>
     rel4u_session_find_by_addr (sv_session_table s) (Some a) = None \<and>
     st_full_policy (sv_session_table s) = REL4U_MAX_CLIENTS_DROP_OLD \<and>
     (\<forall>x \<in> set (st_sessions (sv_session_table s)). session_active x) \<and>
     lru_at (st_sessions (sv_session_table s)) j \<and> cs_last_activity_ns (sv_session s j) \<noteq> -1"

text \<open>The sessions a packet from \<open>a\<close> may change; \<open>req\<close> says whether it is a connection request.\<close>

definition touchable :: "bool \<Rightarrow> rel4u_server \<Rightarrow> rel4u_net_addr \<Rightarrow> nat set" where
  "touchable req s a =
     {i. \<not> session_active (sv_session s i) \<or> addr_eq (cs_addr (sv_session s i)) a \<or> req \<and> evicted_by s a i}"

lemma connect_session_law:
  assumes env: "calloc_total e" and inv: "server_inv n s"
  shows "\<exists>r t'. connect_session e now src (s, w) = Some (r, t') \<and> table_inv n t' \<and>
    (\<forall>j. j \<notin> touchable True s src \<longrightarrow> st_sessions t' ! j = sv_session s j) \<and>
    (\<forall>i. r = Some i \<longrightarrow> i < n \<and> i \<in> touchable True s src \<and> (cs_addr (st_sessions t' ! i) = src \<or> addr_eq (cs_addr (st_sessions t' ! i)) src)) \<and>
    (\<forall>j. evicted_by s src j \<longrightarrow> r = Some j \<and> session_fresh src (new_session_id e now) (st_sessions t' ! j))"
proof (cases "rel4u_session_find_by_addr (sv_session_table s) (Some src)")
  case (Some i)
  have "i < n" "session_active (sv_session s i)" "addr_eq (cs_addr (sv_session s i)) src"
    using session_found [OF inv Some] by simp_all
  moreover have "table_inv n (sv_session_table s)" using inv by (simp add: server_inv_def)
  ultimately show ?thesis using Some by (simp add: connect_session_def touchable_def evicted_by_def sv_session_def)
next
  case None
  let ?t = "sv_session_table s"
  have t: "table_inv n ?t" using inv by (simp add: server_inv_def)
  have m: "env_calloc e (wd_clock w) 0" "env_calloc e (wd_clock w) 1" using env by (simp_all add: calloc_total_def)
  note law = allocate_law [where t = ?t and calloc_ok = "env_calloc e (wd_clock w)" and a = src and sid = "new_session_id e now",
      OF table_invD(1) [OF t] m]
  then obtain r t' ev where al: "rel4u_session_allocate (env_calloc e (wd_clock w)) ?t (Some src) (new_session_id e now) = Some (r, t', ev)"
    by (auto split: option.splits)
  note law = law [unfolded al option.case prod.case] and ta = table_allocate [OF t m None al]
  have run: "connect_session e now src (s, w) = Some (r, t')" using None al by (simp add: connect_session_def)
  show ?thesis
  proof (cases r)
    case r: None
    then have "\<not> evicted_by s src j" for j using law by (auto simp: evicted_by_def lru_at_def sv_session_def)
    with run r ta t show ?thesis by (auto simp: sv_session_def)
  next
    case (Some i)
    from ta Some obtain x where x: "table_inv n t'" "i < n" "session_fresh src (new_session_id e now) x" "st_sessions t' = (st_sessions ?t)[i := x]"
      by auto
    have taken: "slot_taken ?t i" "session_active (st_sessions ?t ! i) \<longrightarrow> st_full_policy ?t = REL4U_MAX_CLIENTS_DROP_OLD \<and>
        cs_last_activity_ns (st_sessions ?t ! i) \<noteq> -1" using law Some by auto
    have touch: "i \<in> touchable True s src"
    proof (cases "session_active (st_sessions ?t ! i)")
      case True
      with taken None show ?thesis by (auto simp: touchable_def evicted_by_def slot_taken_def sv_session_def in_set_conv_nth split: if_splits)
    qed (simp add: touchable_def sv_session_def)
    have "i = j" if "evicted_by s src j" for j
      using taken(1) that lru_at_unique by (auto simp: evicted_by_def slot_taken_def dest: nth_mem split: if_splits)
    moreover have "st_sessions t' ! i = x" using x(2,4) table_invD(2) [OF t] by simp
    moreover have "st_sessions t' ! j = sv_session s j" if "j \<notin> touchable True s src" for j
      using that touch x(4) by (cases "j = i") (simp_all add: sv_session_def)
    moreover have "cs_addr x = src" using x(3) by (simp add: session_fresh_def)
    ultimately show ?thesis using run Some x(1-3) touch by auto
  qed
qed

lemma server_on_connect_req_answers:
  assumes env: "env_ok e" and mem: "calloc_total e" and inv: "server_inv n s"
  shows "answers n (touchable True s src) src (s, w) (server_on_connect_req e now src (s, w))"
proof -
  from connect_session_law [OF mem inv, of now src w] obtain r t' where rt: "connect_session e now src (s, w) = Some (r, t')"
    "table_inv n t'" "\<forall>j. j \<notin> touchable True s src \<longrightarrow> st_sessions t' ! j = sv_session s j"
    "\<forall>i. r = Some i \<longrightarrow> i < n \<and> i \<in> touchable True s src \<and> (cs_addr (st_sessions t' ! i) = src \<or> addr_eq (cs_addr (st_sessions t' ! i)) src)"
    by blast
  let ?s = "s\<lparr>sv_session_table := t'\<rparr>"
  have r: "sv_session ?s j = st_sessions t' ! j" for j by (simp add: sv_session_def)
  have inv': "server_inv n ?s" using inv rt(2) by (simp add: server_inv_def)
  show ?thesis
  proof (cases r)
    case None
    then show ?thesis using rt(1,3) r sent_control [OF env inv inv', of "touchable True s src" src w]
      by (simp add: server_on_connect_req_def Let_def)
  next
    case (Some i)
    then have i: "i < n" "i \<in> touchable True s src" "cs_addr (sv_session ?s i) = src \<or> addr_eq (cs_addr (sv_session ?s i)) src"
      using rt(4) r by simp_all
    let ?x = "(sv_session ?s i)\<lparr>cs_last_activity_ns := now, cs_last_heartbeat_sent_ns := now\<rparr>"
    have x: "server_inv n (set_session i ?x ?s)"
      by (rule set_session_inv [OF inv' i(1)])
        (use server_session_good [OF inv' i(1)] in \<open>simp_all add: session_good_def session_ok_def same_session_def session_active_def\<close>)
    have same: "sv_session (set_session i ?x ?s) j = sv_session s j" if "j \<notin> touchable True s src" for j
      using that i(2) rt(3) r by (cases "j = i") simp_all
    have "answers n {i} src (set_session i ?x ?s, w) (server_send_control e i REL4U_PKT_CONNECT_RESP (set_session i ?x ?s, w))"
      by (rule server_control_answers [OF env x i(1)]) (use i(3) sv_session_set [OF inv' i(1)] in simp)
    from answers_mono [OF this _ same] i(2) Some rt(1) show ?thesis by (simp add: server_on_connect_req_def Let_def)
  qed
qed

lemma server_on_stray_answers:
  assumes "env_ok e" "server_inv n s"
  shows "answers n I src (s, w) (Some (server_on_stray e hdr src (s, w)))"
  using sent_control [OF assms assms(2), of I src w "sv_sock s" REL4U_PKT_RESET "session_id hdr" "seq_num hdr"]
    answersI [of "Some (s, w)" s w n I s w "[]" src] assms(2)
  by (simp add: server_on_stray_def Let_def)

text \<open>A session that has received a packet.\<close>

definition heard :: "u64 \<Rightarrow> u8 list \<Rightarrow> rel4u_client_session \<Rightarrow> rel4u_client_session" where
  "heard now bytes x = received_session bytes (x\<lparr>cs_last_activity_ns := now\<rparr>)"

lemma heard_good: "session_good x \<Longrightarrow> session_good (heard now bytes x)" "same_session x (heard now bytes x)"
  by (auto simp: session_good_def session_ok_def same_session_def session_active_def received_session_def heard_def)

lemma touched_session:
  fixes now :: u64
  assumes "server_inv n s" "i < n"
  defines "s1 \<equiv> s\<lparr>sv_session_table := rel4u_session_touch_lru (sv_session_table s) (Some i) now\<rparr>"
  shows "set_session i (received_session bytes (sv_session s1 i)) s1 = set_session i (heard now bytes (sv_session s i)) s"
  using assms(1,2) table_invD(2) [of n "sv_session_table s"]
  by (simp add: s1_def server_inv_def sv_session_def set_session_def rel4u_session_touch_lru_def heard_def)

lemma server_on_ack_data_answers:
  assumes env: "env_ok e" and inv: "server_inv n s" and i: "i < n" and fits: "packet_fits hdr (drop REL4U_HEADER_LEN bytes)"
    and addr: "addr_eq (cs_addr (sv_session s i)) src"
  shows "answers n {i} src (s, w) (server_on_ack_data e now hdr bytes i (s, w))"
proof -
  let ?x = "sv_session s i"
  have good: "session_good ?x" by (rule server_session_good [OF inv i])
  obtain win rtt st where a: "rel4u_send_window_on_ack (cs_send_win ?x) (ack_num hdr) (sack_mask hdr) now (Some (cs_rtt ?x))
      (Some (cs_stats ?x)) = Some (win, Some rtt, Some st)" "send_inv win" "rto_ok rtt"
    by (rule on_ack_safe [OF session_goodD(1,3) [OF good]])
  let ?y = "?x\<lparr>cs_send_win := win, cs_rtt := rtt, cs_stats := st\<rparr>"
  define s1 where "s1 = set_session i ?y s"
  have 1: "server_inv n s1" unfolding s1_def
    by (rule set_session_inv [OF inv i]) (use a session_goodD [OF good] in
      \<open>auto intro!: session_goodI simp: same_session_def session_active_def\<close>)
  have "answers n {i} src (s1, w) (if packet_type hdr = REL4U_PKT_HEARTBEAT then server_send_control e i REL4U_PKT_HEARTBEAT_ACK (s1, w)
      else Some (s1, w))"
    using server_control_answers [OF env 1 i, of src w] answersI [of "Some (s1, w)" s1 w n "{i}" s1 w "[]" src] 1 addr inv i
    by (simp add: s1_def)
  then have "answers n {i} src (s, w) (if packet_type hdr = REL4U_PKT_HEARTBEAT then server_send_control e i REL4U_PKT_HEARTBEAT_ACK (s1, w)
      else Some (s1, w))"
    by (rule answers_mono) (simp_all add: s1_def)
  then obtain s2 w2 ds where 2: "(if packet_type hdr = REL4U_PKT_HEARTBEAT
      then server_send_control e i REL4U_PKT_HEARTBEAT_ACK (s1, w) else Some (s1, w)) = Some (s2, w2)" "server_inv n s2"
    and fr: "\<And>j. j \<noteq> i \<Longrightarrow> sv_session s2 j = sv_session s j" "sv_send_queue s2 = sv_send_queue s" "wd_sent w2 = wd_sent w @ ds"
      "length ds \<le> 1" "\<forall>d \<in> set ds. (fst d = src \<or> addr_eq (fst d) src) \<and> length (snd d) = 24"
    unfolding answers_def by auto
  let ?z = "sv_session s2 i"
  have g2: "session_good ?z" by (rule server_session_good [OF 2(2) i])
  have rok: "receiving_ok (cs_recv_win ?z) (sv_ready_slots s2)" "queue_inv (fst (sv_recv_queue s2, w2))"
    using session_goodD(2,4) [OF g2] 2(2) by (simp_all add: receiving_ok_def server_inv_def)
  from on_data_safe [OF env rok(1) fits rok(2), of "cs_client_id ?z"]
  obtain rw slots q w3 ack where 3: "on_data e (cs_client_id ?z) (cs_recv_win ?z) (sv_ready_slots s2) hdr (drop REL4U_HEADER_LEN bytes)
      (sv_recv_queue s2, w2) = Some (rw, slots, (q, w3), ack)" "receiving_ok rw slots" "queue_inv q" "wd_sent w3 = wd_sent w2" by auto
  define s3 where "s3 = (set_session i (?z\<lparr>cs_recv_win := rw, cs_ack_pending := (if ack then True else cs_ack_pending ?z)\<rparr>) s2)
    \<lparr>sv_ready_slots := slots, sv_recv_queue := q\<rparr>"
  have "server_inv n (set_session i (?z\<lparr>cs_recv_win := rw, cs_ack_pending := b\<rparr>) s2)" for b
    by (rule set_session_inv [OF 2(2) i]) (use 3(2) session_goodD [OF g2] in
      \<open>auto intro!: session_goodI simp: same_session_def session_active_def receiving_ok_def\<close>)
  then have 4: "server_inv n s3" unfolding s3_def using 3(2,3) by (simp add: server_inv_def receiving_ok_def)
  have same: "sv_session s3 j = sv_session s j" if "j \<noteq> i" for j
    using fr(1) [OF that] sv_session_other [OF that] by (simp add: s3_def sv_session_def)
  have "server_on_ack_data e now hdr bytes i (s, w) = (if packet_type hdr = REL4U_PKT_DATA then Some (s3, w3) else Some (s2, w2))"
    unfolding server_on_ack_data_def s3_def using 2(1) [unfolded s1_def] 3(1)
    by (simp only: a(1) case_prod_conv Let_def Option.bind.bind_lunit option.sel split: if_split)
  moreover have "answers n {i} src (s, w) (Some (s3, w3))"
    by (rule answersI [OF refl 4, where ds = ds]) (use same fr 3(4) in \<open>auto simp: s3_def\<close>)
  moreover have "answers n {i} src (s, w) (Some (s2, w2))"
    by (rule answersI [OF refl 2(2), where ds = ds]) (use fr in auto)
  ultimately show ?thesis by simp
qed

lemma server_on_session_packet_answers:
  assumes env: "env_ok e" and inv: "server_inv n s" and i: "i < n" and fits: "packet_fits hdr (drop REL4U_HEADER_LEN bytes)"
    and addr: "addr_eq (cs_addr (sv_session s i)) src"
  shows "answers n {i} src (s, w) (server_on_session_packet e now hdr bytes i (s, w))"
proof -
  define s1 where "s1 = set_session i (heard now bytes (sv_session s i)) s"
  have 1: "server_inv n s1" unfolding s1_def
    by (rule set_session_inv [OF inv i]) (use heard_good server_session_good [OF inv i] in auto)
  have addr1: "addr_eq (cs_addr (sv_session s1 i)) src" using addr heard_good(2) inv i by (simp add: s1_def same_session_def)
  define s2 where "s2 = s1\<lparr>sv_session_table := rel4u_session_free (sv_session_table s1) (Some i)\<rparr>"
  have 2: "server_inv n s2" using 1 table_free [of n "sv_session_table s1" i] i by (simp add: server_inv_def s2_def)
  have same: "sv_session s2 j = sv_session s j" if "j \<noteq> i" for j
    using sv_session_other [OF that] that by (simp add: s2_def s1_def sv_session_def rel4u_session_free_def)
  have "answers n {i} src (s, w) (server_on_ack_data e now hdr bytes i (s1, w))"
    by (rule answers_mono [OF server_on_ack_data_answers [OF env 1 i fits addr1]]) (simp_all add: s1_def)
  moreover have "answers n {i} src (s, w) (Some (s1, w))" by (rule answersI [OF refl 1, where ds = "[]"]) (simp_all add: s1_def)
  moreover have "answers n {i} src (s, w) (Some (s2, w))"
    by (rule answersI [OF refl 2, where ds = "[]"]) (use same in \<open>simp_all add: s2_def s1_def\<close>)
  ultimately show ?thesis
    unfolding server_on_session_packet_def case_prod_conv Let_def touched_session [OF inv i] s1_def [symmetric] s2_def [symmetric]
    by simp
qed

definition is_connect_req :: "u8 list \<Rightarrow> bool" where
  "is_connect_req bytes \<longleftrightarrow>
     (case rel4u_packet_decode_header (Some bytes) (of_nat (length bytes)) (Some zero_header) of
        (r, Some hdr) \<Rightarrow> r = 0 \<and> packet_type hdr = REL4U_PKT_CONNECT_REQ
      | (r, None) \<Rightarrow> False)"

lemma sv_session_stats [simp]: "sv_session (s\<lparr>sv_stats := st\<rparr>) = sv_session s"
  by (simp add: sv_session_def fun_eq_iff)

lemma touchable_stats [simp]: "touchable req (s\<lparr>sv_stats := st\<rparr>) a = touchable req s a"
  by (simp add: touchable_def evicted_by_def sv_session_def)

lemma server_on_datagram_answers:
  assumes env: "env_ok e" and mem: "calloc_total e" and inv: "server_inv n s" and len: "length bytes \<le> 9240"
  shows "answers n (touchable (is_connect_req bytes) s src) src (s, w) (server_on_datagram e (bytes, src) (s, w))"
proof -
  let ?T = "touchable (is_connect_req bytes) s src"
  obtain r h where d: "rel4u_packet_decode_header (Some bytes) (of_nat (length bytes)) (Some zero_header) = (r, h)"
    by (metis prod.exhaust)
  obtain now w0 where t: "rel4u_time_now_ns e w = (now, w0)" "wd_sent w0 = wd_sent w" by (simp add: rel4u_time_now_ns_def Let_def)
  define s1 where "s1 = s\<lparr>sv_stats := (sv_stats s)\<lparr>packets_recv := packets_recv (sv_stats s) + 1,
    bytes_recv := bytes_recv (sv_stats s) + of_nat (length bytes)\<rparr>\<rparr>"
  have 1: "server_inv n s1" using inv by (simp add: server_inv_def s1_def)
  have up: "answers n ?T src (s, w) x" if "answers n I src (s1, w0) x" "I \<subseteq> ?T" for I x
    by (rule answers_mono [OF that]) (use t(2) in \<open>simp_all add: s1_def sv_session_def\<close>)
  show ?thesis
  proof (cases "r = 0")
    case False
    then show ?thesis using answersI [of "Some (s, w)" s w n ?T s w "[]" src] inv by (simp add: server_on_datagram_def d)
  next
    case True
    then obtain hdr where h: "h = Some hdr" "packet_fits hdr (drop REL4U_HEADER_LEN bytes)"
      using decoded_fits [OF _ len] d by blast
    have t1: "table_inv n (sv_session_table s1)" using 1 by (simp add: server_inv_def)
    have req: "is_connect_req bytes \<longleftrightarrow> packet_type hdr = REL4U_PKT_CONNECT_REQ" using d h(1) True by (simp add: is_connect_req_def)
    have run: "server_on_datagram e (bytes, src) (s, w) =
        (if packet_type hdr = REL4U_PKT_CONNECT_REQ then server_on_connect_req e now src (s1, w0)
         else case rel4u_session_find_by_addr (sv_session_table s1) (Some src) of
             None \<Rightarrow> Some (server_on_stray e hdr src (s1, w0))
           | Some i \<Rightarrow>
               if cs_session_id (sv_session s1 i) \<noteq> session_id hdr then Some (server_on_stray e hdr src (s1, w0))
               else server_on_session_packet e now hdr bytes i (s1, w0))"
      using True h(1) d t by (simp add: server_on_datagram_def s1_def Let_def split: option.split)
    note stray = up [OF server_on_stray_answers [OF env 1, of "{}" src w0 hdr] empty_subsetI]
    show ?thesis
    proof (cases "packet_type hdr = REL4U_PKT_CONNECT_REQ")
      case type: True
      have "answers n ?T src (s1, w0) (server_on_connect_req e now src (s1, w0))"
        using server_on_connect_req_answers [OF env mem 1, of src w0 now] req type by (simp add: s1_def)
      from up [OF this order_refl] type show ?thesis by (simp add: run)
    next
      case type: False
      show ?thesis
      proof (cases "rel4u_session_find_by_addr (sv_session_table s1) (Some src)")
        case None
        with stray type show ?thesis by (simp add: run)
      next
        case (Some i)
        have addr: "addr_eq (cs_addr (sv_session s1 i)) src"
          using session_found(3) [OF 1 Some] by simp
        then have "{i} \<subseteq> ?T" by (simp add: touchable_def s1_def sv_session_def)
        from up [OF server_on_session_packet_answers [OF env 1 find_by_addr_less [OF t1 Some] h(2) addr, of w0 now] this] Some stray type
        show ?thesis by (simp add: run)
      qed
    qed
  qed
qed

text \<open>After an eviction the slot holds a new session of the other address, with nothing of the old one in its windows.\<close>

lemma evicted_session:
  assumes env: "env_ok e" and mem: "calloc_total e" and inv: "server_inv n s"
    and req: "is_connect_req bytes" and ev: "evicted_by s src j" and run: "server_on_datagram e (bytes, src) (s, w) = Some (s', w')"
  shows "cs_addr (sv_session s' j) = src \<and> cs_state (sv_session s' j) = REL4U_STATE_CONNECTING \<and>
    sw_entries (cs_send_win (sv_session s' j)) = [] \<and> rw_buf (cs_recv_win (sv_session s' j)) = Map.empty"
proof -
  obtain hdr where d: "rel4u_packet_decode_header (Some bytes) (of_nat (length bytes)) (Some zero_header) = (0, Some hdr)"
    "packet_type hdr = REL4U_PKT_CONNECT_REQ" using req by (auto simp: is_connect_req_def split: prod.splits option.splits)
  obtain now w0 where t: "rel4u_time_now_ns e w = (now, w0)" by (metis prod.exhaust)
  define s1 where "s1 = s\<lparr>sv_stats := (sv_stats s)\<lparr>packets_recv := packets_recv (sv_stats s) + 1,
    bytes_recv := bytes_recv (sv_stats s) + of_nat (length bytes)\<rparr>\<rparr>"
  have 1: "server_inv n s1" "evicted_by s1 src j" using inv ev by (simp_all add: server_inv_def s1_def evicted_by_def sv_session_def)
  from connect_session_law [OF mem 1(1), of now src w0] 1(2) obtain t' where rt: "connect_session e now src (s1, w0) = Some (Some j, t')"
    "table_inv n t'" "j < n" "session_fresh src (new_session_id e now) (st_sessions t' ! j)" by auto
  let ?s = "s1\<lparr>sv_session_table := t'\<rparr>"
  let ?x = "(sv_session ?s j)\<lparr>cs_last_activity_ns := now, cs_last_heartbeat_sent_ns := now\<rparr>"
  have inv': "server_inv n ?s" using 1(1) rt(2) by (simp add: server_inv_def)
  have x: "server_inv n (set_session j ?x ?s)"
    by (rule set_session_inv [OF inv' rt(3)])
      (use server_session_good [OF inv' rt(3)] in \<open>simp_all add: session_good_def session_ok_def same_session_def session_active_def\<close>)
  have "server_send_control e j REL4U_PKT_CONNECT_RESP (set_session j ?x ?s, w0) = Some (s', w')"
    using run d rt(1) by (simp add: server_on_datagram_def t s1_def [symmetric] server_on_connect_req_def Let_def)
  from server_send_packet_keeps [OF this] obtain y where y: "sv_session s' j = y" "cs_addr y = cs_addr ?x" "cs_state y = cs_state ?x"
      "cs_send_win y = cs_send_win ?x" "cs_recv_win y = cs_recv_win ?x"
    using sv_session_set [OF inv' rt(3)] sv_session_set [OF x rt(3)] by force
  with rt(4) show ?thesis by (simp add: session_fresh_def sv_session_def)
qed

lemmas server_on_datagram_safe = answers_stays [OF server_on_datagram_answers]

lemma server_receive_safe:
  "env_ok e \<Longrightarrow> calloc_total e \<Longrightarrow> server_inv n s \<Longrightarrow> server_stays n (server_receive e dgs (s, w))"
proof (induction dgs arbitrary: s w)
  case (Cons dg dgs)
  obtain bytes src where dg: "dg = (bytes, src)" by (cases dg)
  from server_on_datagram_safe [OF Cons.prems, of "take 9240 bytes" src w] obtain s1 w1 where
    1: "server_on_datagram e (take 9240 bytes, src) (s, w) = Some (s1, w1)" "server_inv n s1"
    by (auto simp: server_stays_def)
  from Cons.IH [OF Cons.prems(1,2) 1(2), of w1] 1 Cons.prems(3) show ?case
    by (auto simp: dg rel4u_net_recvfrom_def server_stays_def)
qed (simp add: server_stays_def)

subsection \<open>The send queue\<close>

text \<open>
  The messages that wait to be sent, the pending one first; the session a message goes to, if its client is connected; and
  the messages in the send window of a session.
\<close>

definition sv_waiting :: "rel4u_server \<Rightarrow> (u32 \<times> u8 \<times> u8 list) list" where
  "sv_waiting s = (if sv_has_pending_item s then [item_msg (sv_pending_item s)] else []) @ queue_msgs (sv_send_queue s)"

definition sv_route :: "rel4u_server \<Rightarrow> u32 \<Rightarrow> nat option" where
  "sv_route s cid =
     (case rel4u_session_find_by_id (sv_session_table s) cid of
        None \<Rightarrow> None
      | Some i \<Rightarrow> if cs_state (sv_session s i) = REL4U_STATE_CONNECTED then Some i else None)"

definition sv_load :: "rel4u_server \<Rightarrow> nat \<Rightarrow> (u8 \<times> u8 list) list" where
  "sv_load s i = map slot_load (sw_entries (cs_send_win (sv_session s i)))"

lemma sv_route_less: "server_inv n s \<Longrightarrow> sv_route s cid = Some i \<Longrightarrow> i < n"
  by (auto simp: sv_route_def server_inv_def dest: find_by_id_less split: option.splits if_splits)

text \<open>Sending leaves the socket, and the clients' ids, addresses and states.\<close>

definition same_routes :: "nat \<Rightarrow> rel4u_server \<Rightarrow> rel4u_server \<Rightarrow> bool" where
  "same_routes n s s' \<longleftrightarrow> sv_sock s' = sv_sock s \<and>
     (\<forall>j < n. same_session (sv_session s j) (sv_session s' j) \<and> cs_state (sv_session s' j) = cs_state (sv_session s j))"

lemma same_routes_refl [simp]: "same_routes n s s"
  by (simp add: same_routes_def same_session_def)

lemma same_routes_trans: "same_routes n s s1 \<Longrightarrow> same_routes n s1 s2 \<Longrightarrow> same_routes n s s2"
  by (simp add: same_routes_def same_session_def)

lemma same_routes_route:
  assumes "server_inv n s" "server_inv n s'" "same_routes n s s'"
  shows "sv_route s' cid = sv_route s cid" "i < n \<Longrightarrow> cs_addr (sv_session s' i) = cs_addr (sv_session s i)" "sv_sock s' = sv_sock s"
proof -
  have t: "table_inv n (sv_session_table s)" "table_inv n (sv_session_table s')" using assms(1,2) by (simp_all add: server_inv_def)
  note m = table_invD(5) [OF t(1)] table_invD(5) [OF t(2)] session_invD(1) [OF table_invD(1) [OF t(1)]] session_invD(1) [OF table_invD(1) [OF t(2)]]
  have less: "cid < st_max_clients (sv_session_table s) \<longleftrightarrow> unat cid < n" "cid < st_max_clients (sv_session_table s') \<longleftrightarrow> unat cid < n"
    using m by (simp_all add: word_less_nat_alt)
  show "sv_route s' cid = sv_route s cid"
  proof (cases "unat cid < n")
    case True
    then have "same_session (sv_session s (unat cid)) (sv_session s' (unat cid))"
        "cs_state (sv_session s' (unat cid)) = cs_state (sv_session s (unat cid))" using assms(3) by (simp_all add: same_routes_def)
    with True less m(3,4) show ?thesis
      by (simp add: sv_route_def rel4u_session_find_by_id_def same_session_def not_le [symmetric] flip: sv_session_def)
  next
    case False
    with less m(3,4) show ?thesis by (simp add: sv_route_def rel4u_session_find_by_id_def not_less)
  qed
  show "i < n \<Longrightarrow> cs_addr (sv_session s' i) = cs_addr (sv_session s i)" "sv_sock s' = sv_sock s"
    using assms(3) by (simp_all add: same_routes_def same_session_def)
qed

lemma server_next_item_law:
  assumes "server_inv n s" "server_next_item s = (got, s1)"
  shows "server_inv n s1" "sv_session_table s1 = sv_session_table s" "sv_sock s1 = sv_sock s" "sv_waiting s1 = sv_waiting s"
    "got = sv_has_pending_item s1" "got \<Longrightarrow> valid_item (sv_pending_item s1)" "\<not> got \<Longrightarrow> sv_waiting s = []"
proof -
  have q: "queue_inv (sv_send_queue s)" "out_room (sv_pending_item s)" using assms(1) by (simp_all add: server_inv_def)
  have "server_inv n s1 \<and> sv_session_table s1 = sv_session_table s \<and> sv_sock s1 = sv_sock s \<and> sv_waiting s1 = sv_waiting s \<and>
    got = sv_has_pending_item s1 \<and> (got \<longrightarrow> valid_item (sv_pending_item s1)) \<and> (\<not> got \<longrightarrow> sv_waiting s = [])"
  proof (cases "queue_msgs (sv_send_queue s) = []")
    case True
    from try_queue.pop_empty_law [OF q(1) True, of "sv_pending_item s"] True show ?thesis
      using assms by (auto simp: server_next_item_def server_inv_def sv_waiting_def split: if_splits)
  next
    case False
    from try_queue.pop_head_law [OF q(1) False q(2)] obtain q' item where
      "rel4u_mpmc_try_pop (sv_send_queue s) (Some (sv_pending_item s)) = (True, q', Some item)" "queue_inv q'" "valid_item item"
      "queue_msgs (sv_send_queue s) = item_msg item # queue_msgs q'"
      by blast
    then show ?thesis using assms
      by (auto simp: server_next_item_def server_inv_def out_room_def valid_item_def sv_waiting_def split: if_splits)
  qed
  then show "server_inv n s1" "sv_session_table s1 = sv_session_table s" "sv_sock s1 = sv_sock s" "sv_waiting s1 = sv_waiting s"
    "got = sv_has_pending_item s1" "got \<Longrightarrow> valid_item (sv_pending_item s1)" "\<not> got \<Longrightarrow> sv_waiting s = []"
    by simp_all
qed

lemma server_transmit_law:
  assumes env: "env_ok e" and inv: "server_inv n s" and i: "i < n" and item: "valid_item (sv_pending_item s)"
    and room: "rel4u_send_window_can_send (cs_send_win (sv_session s i))"
  obtains s' w' bs where "server_transmit e i (s, w) = Some (s', w')" "server_inv n s'" "same_routes n s s'"
    "sv_waiting s' = queue_msgs (sv_send_queue s)"
    "\<And>j. j < n \<Longrightarrow> sv_load s' j = sv_load s j @ (if j = i \<and> reliable (it_mode (sv_pending_item s)) then [snd (item_msg (sv_pending_item s))] else [])"
    "wd_sent w' = wd_sent w @ (if sv_sock s = -1 then [] else [(cs_addr (sv_session s i), bs)])"
    "drop 24 bs = snd (snd (item_msg (sv_pending_item s)))"
proof -
  obtain t w1 where t: "rel4u_time_now_ns e w = (t, w1)" "wd_sent w1 = wd_sent w" by (simp add: rel4u_time_now_ns_def Let_def)
  let ?x = "sv_session s i" and ?it = "sv_pending_item s"
  have good: "session_good ?x" by (rule server_session_good [OF inv i])
  have "sw_len (cs_send_win ?x) < unat (sw_capacity (cs_send_win ?x))" using room send_can_send_iff [OF session_goodD(1) [OF good]] by simp
  then obtain win seq where p: "rel4u_send_window_push (cs_send_win ?x) (it_mode ?it) (Some (it_data ?it)) (ucast (it_len ?it)) t =
      Some (0, win, Some seq)" "send_inv win"
      "map slot_load (sw_entries win) = map slot_load (sw_entries (cs_send_win ?x)) @ (if reliable (it_mode ?it) then [snd (item_msg ?it)] else [])"
    by (rule push_load [OF session_goodD(1) [OF good] _ item])
  define s1 where "s1 = set_session i (?x\<lparr>cs_send_win := win\<rparr>) s"
  have 1: "server_inv n s1" unfolding s1_def
    by (rule set_session_inv [OF inv i]) (use p(2) session_goodD [OF good] in
      \<open>auto intro!: session_goodI simp: same_session_def session_active_def\<close>)
  have x1: "sv_session s1 i = ?x\<lparr>cs_send_win := win\<rparr>" using inv i by (simp add: s1_def)
  show thesis
  proof (rule server_send_packet_law [OF env 1 i item_payload_given [OF item], of REL4U_PKT_DATA "it_mode ?it" seq w1])
    fix bs s' w'
    assume b: "build_datagram e (cs_recv_win (sv_session s1 i)) (cs_session_id (sv_session s1 i)) REL4U_PKT_DATA (it_mode ?it) seq
        (Some (it_data ?it)) (ucast (it_len ?it)) = Some (24, bs)"
      and s': "server_send_packet e i REL4U_PKT_DATA (it_mode ?it) seq (Some (it_data ?it)) (ucast (it_len ?it)) (s1, w1) = Some (s', w')"
        "wd_sent w' = (if sv_sock s1 = -1 then wd_sent w1 else wd_sent w1 @ [(cs_addr (sv_session s1 i), bs)])" "server_inv n s'"
        "cs_send_win (sv_session s' i) = cs_send_win (sv_session s1 i)" "same_session (sv_session s1 i) (sv_session s' i)"
        "cs_state (sv_session s' i) = cs_state (sv_session s1 i)" "sv_send_queue s' = sv_send_queue s1" "sv_sock s' = sv_sock s1"
    have other: "sv_session s' j = sv_session s j" if "j \<noteq> i" for j
      using server_send_packet_keeps [OF s'(1)] that by (auto simp: s1_def sv_session_def set_session_def)
    have "recv_inv (cs_recv_win (sv_session s1 i))" using session_goodD(2) [OF good] by (simp add: x1)
    then have bytes: "drop 24 bs = snd (snd (item_msg ?it))" by (rule item_datagram [OF env _ item b])
    let ?s = "s'\<lparr>sv_has_pending_item := False\<rparr>"
    have sess: "sv_session ?s j = sv_session s' j" for j by (simp add: sv_session_def)
    have same: "same_session ?x (sv_session s' i)" "cs_state (sv_session s' i) = cs_state ?x" "cs_send_win (sv_session s' i) = win"
      using s'(4-6) by (simp_all add: x1 same_session_def session_active_def)
    show thesis
    proof (rule that [of ?s w' bs])
      show "server_transmit e i (s, w) = Some (?s, w')"
        using s'(1) by (simp add: server_transmit_def t(1) p(1) s1_def Let_def)
      show "server_inv n ?s" using s'(3) by (simp add: server_inv_def)
      show "same_routes n s ?s" unfolding same_routes_def sess
        using same s'(8) other by (auto simp: s1_def same_session_def) (metis+)
      show "sv_load ?s j = sv_load s j @ (if j = i \<and> reliable (it_mode ?it) then [snd (item_msg ?it)] else [])" for j
        using other [of j] same(3) p(3) by (cases "j = i") (simp_all add: sv_load_def sess)
    qed (use s'(2,7) bytes t(2) in \<open>simp_all add: sv_waiting_def s1_def x1 [unfolded s1_def]\<close>)
  qed
qed

text \<open>
  The whole drain: some number \<open>k\<close> of the waiting messages is settled, in their order. Those of connected clients go onto the wire,
  to the client's address, and the reliable ones among them into the client's window; the others are dropped. It stops when nothing
  waits, or at the first message whose client's window is full.
\<close>

definition drained_server :: "nat \<Rightarrow> server_world \<Rightarrow> nat \<Rightarrow> server_world \<Rightarrow> bool" where
  "drained_server n = (\<lambda>(s, w) k (s', w').
     server_inv n s' \<and> same_routes n s s' \<and> k \<le> length (sv_waiting s) \<and> sv_waiting s' = drop k (sv_waiting s) \<and>
     (sv_waiting s' \<noteq> [] \<longrightarrow>
        (\<exists>i. sv_route s (fst (hd (sv_waiting s'))) = Some i \<and> \<not> rel4u_send_window_can_send (cs_send_win (sv_session s' i)))) \<and>
     (\<forall>i < n. sv_load s' i = sv_load s i @
        filter (\<lambda>m. reliable (fst m)) (map snd (filter (\<lambda>m. sv_route s (fst m) = Some i) (take k (sv_waiting s))))) \<and>
     (\<exists>ds. wd_sent w' = wd_sent w @ ds \<and>
        (if sv_sock s = -1 then ds = []
         else map (map_prod id (drop 24)) ds =
           map (\<lambda>m. (cs_addr (sv_session s (the (sv_route s (fst m)))), snd (snd m)))
             (filter (\<lambda>m. sv_route s (fst m) \<noteq> None) (take k (sv_waiting s))))))"

lemma drained_server_step:
  assumes "drained_server n (s1, w1) k (s', w')" "sv_waiting s = m # sv_waiting s1" "server_inv n s" "server_inv n s1" "same_routes n s s1"
    and load: "\<And>j. j < n \<Longrightarrow> sv_load s1 j = sv_load s j @
      (if sv_route s (fst m) = Some j \<and> reliable (fst (snd m)) then [snd m] else [])"
    and sent: "wd_sent w1 = wd_sent w @
      (case sv_route s (fst m) of None \<Rightarrow> [] | Some i \<Rightarrow> if sv_sock s = -1 then [] else [(cs_addr (sv_session s i), bs)])"
      "drop 24 bs = snd (snd m)"
  shows "drained_server n (s, w) (Suc k) (s', w')"
proof -
  note r = same_routes_route [OF assms(3-5)]
  have addr: "cs_addr (sv_session s1 (the (sv_route s c))) = cs_addr (sv_session s (the (sv_route s c)))" if "sv_route s c \<noteq> None" for c
    using that sv_route_less [OF assms(3), of c] by (auto intro: r(2))
  have d: "server_inv n s'" "same_routes n s1 s'" "k \<le> length (sv_waiting s1)" "sv_waiting s' = drop k (sv_waiting s1)"
    "sv_waiting s' \<noteq> [] \<Longrightarrow> \<exists>i. sv_route s (fst (hd (sv_waiting s'))) = Some i \<and> \<not> rel4u_send_window_can_send (cs_send_win (sv_session s' i))"
    "\<And>i. i < n \<Longrightarrow> sv_load s' i = sv_load s1 i @
       filter (\<lambda>m. reliable (fst m)) (map snd (filter (\<lambda>m. sv_route s (fst m) = Some i) (take k (sv_waiting s1))))"
    using assms(1) unfolding drained_server_def case_prod_conv r by (blast+)
  from assms(1) obtain ds where ds: "wd_sent w' = wd_sent w1 @ ds" "if sv_sock s = -1 then ds = []
     else map (map_prod id (drop 24)) ds = map (\<lambda>m. (cs_addr (sv_session s1 (the (sv_route s (fst m)))), snd (snd m)))
       (filter (\<lambda>m. sv_route s (fst m) \<noteq> None) (take k (sv_waiting s1)))"
    unfolding drained_server_def case_prod_conv r by blast
  let ?d = "case sv_route s (fst m) of None \<Rightarrow> [] | Some i \<Rightarrow> if sv_sock s = -1 then [] else [(cs_addr (sv_session s i), bs)]"
  have eq: "map (\<lambda>m. (cs_addr (sv_session s1 (the (sv_route s (fst m)))), snd (snd m))) (filter (\<lambda>m. sv_route s (fst m) \<noteq> None) ms) =
      map (\<lambda>m. (cs_addr (sv_session s (the (sv_route s (fst m)))), snd (snd m))) (filter (\<lambda>m. sv_route s (fst m) \<noteq> None) ms)" for ms
    using addr by (intro map_cong refl) auto
  from ds(2) [unfolded eq] sent(2) have "if sv_sock s = -1 then ?d @ ds = []
     else map (map_prod id (drop 24)) (?d @ ds) = map (\<lambda>m. (cs_addr (sv_session s (the (sv_route s (fst m)))), snd (snd m)))
       (filter (\<lambda>m. sv_route s (fst m) \<noteq> None) (take (Suc k) (sv_waiting s)))"
    by (auto simp: assms(2) split: option.splits)
  moreover have "wd_sent w' = wd_sent w @ ?d @ ds" using ds(1) sent(1) by simp
  moreover have "sv_load s' i = sv_load s i @
       filter (\<lambda>m. reliable (fst m)) (map snd (filter (\<lambda>m. sv_route s (fst m) = Some i) (take (Suc k) (sv_waiting s))))" if "i < n" for i
    using d(6) [OF that] load [OF that] by (simp add: assms(2))
  ultimately show ?thesis
    unfolding drained_server_def case_prod_conv using d(1,3,4,5) same_routes_trans [OF assms(5) d(2)] assms(2)
    by (intro conjI exI [of _ "?d @ ds"]) auto
qed

lemma settled_inv:
  assumes "server_inv n s1" "sv_has_pending_item s1"
  shows "server_inv n (s1\<lparr>sv_has_pending_item := False\<rparr>)" "sv_waiting s1 = item_msg (sv_pending_item s1) # sv_waiting (s1\<lparr>sv_has_pending_item := False\<rparr>)"
    "same_routes n s1 (s1\<lparr>sv_has_pending_item := False\<rparr>)" "sv_load (s1\<lparr>sv_has_pending_item := False\<rparr>) j = sv_load s1 j"
  using assms by (simp_all add: server_inv_def sv_waiting_def same_routes_def sv_session_def sv_load_def same_session_def)

lemma drained_server_same:
  assumes "drained_server n (s1, w) k sw'" "sv_session_table s1 = sv_session_table s" "sv_sock s1 = sv_sock s" "sv_waiting s1 = sv_waiting s"
  shows "drained_server n (s, w) k sw'"
proof -
  have "sv_session s1 = sv_session s" using assms(2) by (simp add: fun_eq_iff sv_session_def)
  then have "sv_session s1 = sv_session s" "sv_route s1 = sv_route s" "sv_load s1 = sv_load s" "same_routes n s1 = same_routes n s"
    using assms(2,3) by (simp_all add: fun_eq_iff sv_route_def sv_load_def same_routes_def cong: option.case_cong)
  with assms(1,3,4) show ?thesis by (auto simp: drained_server_def split: prod.splits)
qed

lemma server_drain_law:
  "env_ok e \<Longrightarrow> server_inv n (fst sw) \<Longrightarrow> \<exists>k sw'. server_drain e sw = Some sw' \<and> drained_server n sw k sw'"
proof (induction e sw rule: server_drain.induct)
  case (1 e s w)
  obtain got s1 where nx: "server_next_item s = (got, s1)" by (metis prod.exhaust)
  note s1 = server_next_item_law [OF _ nx, of n]
  have inv: "server_inv n s" "server_inv n s1" using "1.prems" s1(1) by simp_all
  have "\<exists>k sw'. server_drain e (s, w) = Some sw' \<and> drained_server n (s1, w) k sw'"
  proof (cases got)
    case False
    have "drained_server n (s1, w) 0 (s1, w)" using s1 inv False by (simp add: drained_server_def sv_waiting_def)
    moreover have "server_drain e (s, w) = Some (s1, w)" using nx False by (subst server_drain.simps) simp
    ultimately show ?thesis by blast
  next
    case got: True
    let ?m = "item_msg (sv_pending_item s1)" and ?s = "s1\<lparr>sv_has_pending_item := False\<rparr>"
    have pend: "sv_has_pending_item s1" "valid_item (sv_pending_item s1)" using got s1(5,6) inv by simp_all
    have cid: "fst ?m = it_client_id (sv_pending_item s1)" by (simp add: item_msg_def)
    let ?f = "rel4u_session_find_by_id (sv_session_table s1) (it_client_id (sv_pending_item s1))"
    show ?thesis
    proof (cases "sv_route s1 (fst ?m)")
      case None
      have "\<exists>k sw'. server_drain e (?s, w) = Some sw' \<and> drained_server n (?s, w) k sw'"
        using "1.IH"(1) [OF nx [symmetric]] "1.IH"(3) [OF nx [symmetric]] None got "1.prems"(1) settled_inv(1) [OF inv(2) pend(1)]
        by (cases ?f) (auto simp: sv_route_def cid split: if_splits)
      then obtain k s' w' where k: "server_drain e (?s, w) = Some (s', w')" "drained_server n (?s, w) k (s', w')" by auto
      have "drained_server n (s1, w) (Suc k) (s', w')"
        by (rule drained_server_step [OF k(2) settled_inv(2) [OF inv(2) pend(1)] inv(2) settled_inv(1,3) [OF inv(2) pend(1)],
              where bs = "replicate 24 0 @ snd (snd ?m)"])
          (use None settled_inv(4) [OF inv(2) pend(1)] in simp_all)
      moreover have "server_drain e (s, w) = Some (s', w')"
        using nx got None k(1) by (subst server_drain.simps) (auto simp: sv_route_def cid split: option.splits if_splits)
      ultimately show ?thesis by blast
    next
      case (Some i)
      then have f: "?f = Some i" "cs_state (sv_session s1 i) = REL4U_STATE_CONNECTED"
        by (auto simp: sv_route_def cid split: option.splits if_splits)
      show ?thesis
      proof (cases "rel4u_send_window_can_send (cs_send_win (sv_session s1 i))")
        case can: True
        obtain s2 w2 bs where 2: "server_transmit e i (s1, w) = Some (s2, w2)" "server_inv n s2" "same_routes n s1 s2"
            "sv_waiting s2 = queue_msgs (sv_send_queue s1)"
            "\<And>j. j < n \<Longrightarrow> sv_load s2 j = sv_load s1 j @ (if j = i \<and> reliable (it_mode (sv_pending_item s1)) then [snd ?m] else [])"
            "wd_sent w2 = wd_sent w @ (if sv_sock s1 = -1 then [] else [(cs_addr (sv_session s1 i), bs)])"
            "drop 24 bs = snd (snd ?m)"
          by (rule server_transmit_law [OF "1.prems"(1) inv(2) sv_route_less [OF inv(2) Some] pend(2) can, of w]) blast
        from "1.IH"(2) [OF nx [symmetric] _ f can 2(1)] got "1.prems"(1) 2(2) obtain k s' w' where
          k: "server_drain e (s2, w2) = Some (s', w')" "drained_server n (s2, w2) k (s', w')" by auto
        have "drained_server n (s1, w) (Suc k) (s', w')"
          by (rule drained_server_step [OF k(2) _ inv(2) 2(2,3), where bs = bs and m = ?m])
            (use 2 Some pend(1) in \<open>auto simp: sv_waiting_def item_msg_def\<close>)
        moreover have "server_drain e (s, w) = Some (s', w')" using nx got f can 2(1) k(1) by (subst server_drain.simps) simp
        ultimately show ?thesis by blast
      next
        case False
        have "drained_server n (s1, w) 0 (s1, w)" using inv(2) Some False pend(1) by (simp add: drained_server_def sv_waiting_def)
        moreover have "server_drain e (s, w) = Some (s1, w)" using nx got f False by (subst server_drain.simps) simp
        ultimately show ?thesis by blast
      qed
    qed
  qed
  with drained_server_same s1(2-4) [OF inv(1)] show ?case by blast
qed

lemma server_drain_safe: "env_ok e \<Longrightarrow> server_inv n (fst sw) \<Longrightarrow> server_stays n (server_drain e sw)"
  using server_drain_law [of e n sw] by (auto simp: drained_server_def server_stays_def split: prod.splits)

subsection \<open>Timers\<close>

lemma server_resend_safe:
  "env_ok e \<Longrightarrow> server_inv n s \<Longrightarrow> i < n \<Longrightarrow> \<forall>k \<in> set ks. slot_sendable (cs_send_win (sv_session s i)) k \<Longrightarrow>
   server_stays n (server_resend e now i ks (s, w))"
proof (induction ks arbitrary: s w)
  case Nil
  then show ?case by (simp add: server_stays_def)
next
  case (Cons k ks)
  let ?x = "sv_session s i"
  have good: "session_good ?x" by (rule server_session_good [OF Cons.prems(2,3)])
  have k: "slot_sendable (cs_send_win ?x) k" using Cons.prems(4) by simp
  obtain win where m: "mark_retransmit (cs_send_win ?x) k now = Some win" "send_inv win"
      "deref (sw_slots win) k = Some (sw_slots win ! k)" and same: "\<And>j. slot_sendable win j = slot_sendable (cs_send_win ?x) j"
    by (rule mark_retransmit_safe [OF session_goodD(1) [OF good] k, of now]) blast
  let ?s = "sw_slots win ! k" and ?y = "?x\<lparr>cs_send_win := win\<rparr>"
  have inv: "server_inv n (set_session i ?y s)"
    by (rule set_session_inv [OF Cons.prems(2,3)]) (use m(2) session_goodD [OF good] in
      \<open>auto intro!: session_goodI simp: same_session_def session_active_def\<close>)
  have given: "payload_given (Some (ss_payload ?s)) (ucast (ss_payload_len ?s))" using same [of k] k by (simp add: slot_sendable_def)
  show ?case
  proof (rule server_send_packet_law [OF Cons.prems(1) inv Cons.prems(3) given, of REL4U_PKT_DATA "ss_delivery_mode ?s" "ss_seq_num ?s" w])
    fix bs s' w'
    assume s': "server_send_packet e i REL4U_PKT_DATA (ss_delivery_mode ?s) (ss_seq_num ?s) (Some (ss_payload ?s))
        (ucast (ss_payload_len ?s)) (set_session i ?y s, w) = Some (s', w')" "server_inv n s'"
      "cs_send_win (sv_session s' i) = cs_send_win (sv_session (set_session i ?y s) i)"
    have "server_stays n (server_resend e now i ks (s', w'))"
      using Cons.IH [OF Cons.prems(1) s'(2) Cons.prems(3)] Cons.prems(2-4) same s'(3) by simp
    with m(1,3) s'(1) show ?thesis by (simp del: deref_Some_iff)
  qed
qed

lemma server_retransmit_safe:
  assumes "env_ok e" "server_inv n s" "i < n"
  shows "server_stays n (server_retransmit e now i (s, w))"
proof -
  let ?x = "sv_session s i"
  have good: "session_good ?x" by (rule server_session_good [OF assms(2,3)])
  obtain idx where idx: "rel4u_send_window_get_expired (cs_send_win ?x) now (rel4u_rtt_get_rto (Some (cs_rtt ?x))) 16 = Some idx"
      "\<forall>k \<in> set idx. slot_sendable (cs_send_win ?x) k"
    by (rule expired_sendable [OF session_goodD(1) [OF good], of 16]) simp_all
  let ?y = "?x\<lparr>cs_rtt := rel4u_rtt_on_timeout (cs_rtt ?x),
    cs_stats := (cs_stats ?x)\<lparr>packets_retransmitted := packets_retransmitted (cs_stats ?x) + of_nat (length idx),
                              packets_lost := packets_lost (cs_stats ?x) + of_nat (length idx)\<rparr>\<rparr>"
  have "server_inv n (set_session i ?y s)"
    by (rule set_session_inv [OF assms(2,3)]) (use rto_ok_timeout session_goodD [OF good] in
      \<open>auto intro!: session_goodI simp: same_session_def session_active_def\<close>)
  from server_resend_safe [OF assms(1) this assms(3), of idx now w] idx assms(2,3)
  show ?thesis by (simp add: server_retransmit_def Let_def server_stays_def)
qed

lemma server_heartbeat_safe:
  assumes "env_ok e" "server_inv n s" "i < n"
  shows "server_stays n (server_heartbeat e now i (s, w))"
proof -
  obtain s' w' where s': "server_send_control e i REL4U_PKT_HEARTBEAT (s, w) = Some (s', w')" "server_inv n s'"
    using server_send_stays [OF assms control_given] by (rule server_staysE)
  have "server_inv n (set_session i ((sv_session s' i)\<lparr>cs_last_heartbeat_sent_ns := now\<rparr>) s')"
    by (rule set_session_inv [OF s'(2) assms(3)]) (use session_goodD [OF server_session_good [OF s'(2) assms(3)]] in
      \<open>auto intro!: session_goodI simp: same_session_def session_active_def\<close>)
  with s' assms(2) show ?thesis by (simp add: server_heartbeat_def server_stays_def)
qed

lemma server_session_timers_safe:
  assumes "env_ok e" "server_inv n s" "i < n"
  shows "server_stays n (server_session_timers e now i (s, w))"
proof -
  obtain s1 w1 where 1: "server_retransmit e now i (s, w) = Some (s1, w1)" "server_inv n s1"
    using server_retransmit_safe [OF assms] by (rule server_staysE)
  have "server_stays n (if cs_ack_pending (sv_session s1 i) then server_send_control e i REL4U_PKT_ACK (s1, w1) else Some (s1, w1))"
    using server_send_stays [OF assms(1) 1(2) assms(3) control_given] 1(2) by (auto simp: server_stays_def)
  then obtain s2 w2 where 2: "(if cs_ack_pending (sv_session s1 i) then server_send_control e i REL4U_PKT_ACK (s1, w1)
      else Some (s1, w1)) = Some (s2, w2)" "server_inv n s2" by (rule server_staysE)
  have "server_inv n (s\<lparr>sv_session_table := rel4u_session_free (sv_session_table s) (Some i)\<rparr>)"
    using assms(2,3) table_free [of n "sv_session_table s" i] by (simp add: server_inv_def)
  with server_heartbeat_safe [OF assms(1) 2(2) assms(3), of now w2] assms(2) show ?thesis
    by (simp add: server_session_timers_def 1(1) 2(1) server_stays_def)
qed

lemma server_timers_loop_safe:
  "env_ok e \<Longrightarrow> server_inv n s \<Longrightarrow> \<forall>i \<in> set is. i < n \<Longrightarrow> server_stays n (server_timers_loop e now is (s, w))"
proof (induction "is" arbitrary: s w)
  case (Cons i "is")
  obtain s1 w1 where "server_session_timers e now i (s, w) = Some (s1, w1)" "server_inv n s1"
    using server_session_timers_safe [of e n s i now w] Cons.prems by (auto elim: server_staysE)
  with Cons show ?case by simp
qed (simp add: server_stays_def)

lemma server_timers_safe:
  assumes "env_ok e" "server_inv n s"
  shows "server_stays n (server_timers e (s, w))"
proof -
  have "unat (st_max_clients (sv_session_table s)) = n" using assms(2) table_invD(5) by (simp add: server_inv_def)
  with server_timers_loop_safe [OF assms] show ?thesis by (simp add: server_timers_def split: prod.split)
qed

lemma server_round_safe:
  assumes "env_ok e" "calloc_total e" "server_inv n s"
  shows "server_stays n (server_round e inp (s, w))"
proof -
  obtain ret revents dgs where inp: "inp = ((ret, revents), dgs)" by (metis prod.exhaust)
  obtain now w0 where t: "rel4u_time_now_ns e w = (now, w0)" by (metis prod.exhaust)
  obtain a sr pr where p: "rel4u_net_poll (sv_sock s) (Some (sv_wakeup_pipe s)) ret revents = (a, sr, pr)" by (metis prod.exhaust)
  have "server_stays n (if sr then server_receive e dgs (s, w0) else Some (s, w0))"
    using server_receive_safe [OF assms, of dgs w0] assms(3) by (simp add: server_stays_def)
  then obtain s1 w1 where 1: "(if sr then server_receive e dgs (s, w0) else Some (s, w0)) = Some (s1, w1)" "server_inv n s1"
    by (rule server_staysE)
  have "server_stays n (server_drain e (s1, w1))" using server_drain_safe [OF assms(1), of n "(s1, w1)"] 1(2) by simp
  then obtain s2 w2 where 2: "server_drain e (s1, w1) = Some (s2, w2)" "server_inv n s2" by (rule server_staysE)
  have "server_round e inp (s, w) = server_timers e (s2, w2)"
    by (simp only: server_round_def inp case_prod_conv t p 1(1) 2(1) Option.bind.bind_lunit)
  with server_timers_safe [OF assms(1) 2(2)] show ?thesis by simp
qed

end
