(* ===== verification/Server_Runs.thy ===== *)
theory Server_Runs
  imports Server_Correct
begin

text \<open>
  Properties of the server: no sequence of calls of the application, steps of the worker and datagrams makes it
  leave its arrays; a packet that belongs to no session is answered with a \<open>RESET\<close> and changes nothing; a packet
  of one client leaves the sessions of all others alone; a stopped server keeps nothing of the past run.
\<close>

subsection \<open>Creation\<close>

lemma server_defaults_fields:
  "sc_max_clients (server_defaults cfg) \<noteq> 0" "sc_max_clients (server_defaults cfg) \<in> {64, sc_max_clients cfg}" "sc_mtu (server_defaults cfg) \<in> {REL4U_DEFAULT_MTU, sc_mtu cfg}"
  "sc_window_size (server_defaults cfg) \<in> {64, sc_window_size cfg}"
  "sc_max_send_memory_bytes (server_defaults cfg) \<in> {1024 * 1024, sc_max_send_memory_bytes cfg}"
  "sc_max_recv_memory_bytes (server_defaults cfg) \<in> {1024 * 1024, sc_max_recv_memory_bytes cfg}"
  by (simp_all add: server_defaults_def)

text \<open>Memory as \<open>rel4u_server_create\<close> asks for it, and a configuration within the sizes of the buffers.\<close>

definition server_mem_ok :: "server_mem \<Rightarrow> rel4u_server_config \<Rightarrow> bool" where
  "server_mem_ok mem cfg \<longleftrightarrow>
     (\<forall>xs. sm_send_ring mem = Some xs \<longrightarrow> length xs = unat (sc_send_queue_capacity (server_defaults cfg))) \<and>
     (\<forall>xs. sm_recv_ring mem = Some xs \<longrightarrow> length xs = unat (sc_recv_queue_capacity (server_defaults cfg)))"

definition server_cfg_ok :: "rel4u_server_config \<Rightarrow> bool" where
  "server_cfg_ok cfg \<longleftrightarrow>
     unat (sc_mtu cfg) \<le> 9240 \<and> unat (sc_window_size cfg) < 2 ^ 31 \<and> unat (sc_max_clients cfg) \<le> 2 ^ 31 \<and>
     unat (sc_max_send_memory_bytes cfg) < 2 ^ 63 \<and> unat (sc_max_recv_memory_bytes cfg) < 2 ^ 63"

lemma blank_table:
  assumes "rel4u_session_table_init calloc_ok t0 max_clients policy window_size = (0, t)" "unat window_size < 2 ^ 31"
    and "unat max_clients \<le> 2 ^ 31"
  shows "table_inv (unat max_clients) t" "st_active_count t = 0" "st_full_policy t = policy"
proof -
  note t = session_table_init_inv [OF assms]
  then have len: "length (st_sessions t) = unat max_clients" using session_invD(2) by auto
  have "addr_unique t" using t len by (auto simp: addr_unique_def blank_session_def)
  moreover have "\<forall>x \<in> set (st_sessions t). session_good x"
    using t len rto_ok_default by (auto simp: in_set_conv_nth blank_session_def session_good_def)
  ultimately show "table_inv (unat max_clients) t" using t len by (simp add: table_inv_def)
  show "st_active_count t = 0" "st_full_policy t = policy" using t by simp_all
qed

lemma server_created:
  assumes create: "rel4u_server_create mem (Some cfg) = Some s" and mem: "server_mem_ok mem cfg" and cfg: "server_cfg_ok cfg"
  shows "server_inv (unat (sc_max_clients (server_defaults cfg))) s" "sv_config s = server_defaults cfg" "\<not> sv_running s"
    "queue_msgs (sv_send_queue s) = []" "queue_msgs (sv_recv_queue s) = []" "st_active_count (sv_session_table s) = 0"
    "sv_sock s = REL4U_INVALID_SOCKET" "\<not> sv_has_pending_item s"
    "st_full_policy (sv_session_table s) = sc_full_policy (server_defaults cfg)"
proof -
  let ?cfg = "server_defaults cfg"
  define sq where "sq = rel4u_mpmc_init (sm_send_ring mem) (sc_memory_mode ?cfg) (sc_queue_full_policy ?cfg)
    (ucast (sc_send_queue_capacity ?cfg)) (sc_max_send_memory_bytes ?cfg)"
  define rq where "rq = rel4u_mpmc_init (sm_recv_ring mem) (sc_memory_mode ?cfg) (sc_queue_full_policy ?cfg)
    (ucast (sc_recv_queue_capacity ?cfg)) (sc_max_recv_memory_bytes ?cfg)"
  define tb where "tb = rel4u_session_table_init (sm_table mem) zero_table (sc_max_clients ?cfg) (sc_full_policy ?cfg) (sc_window_size ?cfg)"
  have z: "sv_session_table (zero_server ?cfg) = zero_table" by (simp add: zero_server_def)
  have s: "s = (zero_server ?cfg)\<lparr>sv_sock := REL4U_INVALID_SOCKET, sv_running := False, sv_send_queue := snd sq,
      sv_recv_queue := snd rq, sv_session_table := snd tb\<rparr>" and ok: "fst sq = 0" "fst rq = 0" "fst tb = 0"
    using create unfolding rel4u_server_create_def Let_def option.case
    by (simp_all add: sq_def rq_def tb_def z split: if_splits)
  have size: "unat (sc_max_send_memory_bytes ?cfg) < 2 ^ 63" "unat (sc_max_recv_memory_bytes ?cfg) < 2 ^ 63"
    "unat (sc_window_size ?cfg) < 2 ^ 31" "unat (sc_mtu ?cfg) \<le> 9240" "unat (sc_max_clients ?cfg) \<le> 2 ^ 31"
    using server_defaults_fields [of cfg] cfg by (auto simp: server_cfg_ok_def)
  have sq: "queue_inv (snd sq)" "queue_msgs (snd sq) = []"
    using init_queue [OF _ _ size(1), of "sm_send_ring mem"] ok(1) mem by (simp_all add: sq_def prod_eq_iff widen32 server_mem_ok_def)
  have rq: "queue_inv (snd rq)" "queue_msgs (snd rq) = []"
    using init_queue [OF _ _ size(2), of "sm_recv_ring mem"] ok(2) mem by (simp_all add: rq_def prod_eq_iff widen32 server_mem_ok_def)
  have tb: "table_inv (unat (sc_max_clients ?cfg)) (snd tb)" "st_active_count (snd tb) = 0"
    "st_full_policy (snd tb) = sc_full_policy ?cfg"
    using blank_table [OF _ size(3,5)] ok(3) by (simp_all add: tb_def prod_eq_iff)
  have "payloads_ok (replicate 64 zero_recv_slot)" using ex_slots_ok by (simp add: ex_slots_def)
  with sq rq tb size(4) show "server_inv (unat (sc_max_clients ?cfg)) s"
    by (simp add: s server_inv_def zero_server_def zero_item_def out_room_def)
  show "sv_config s = ?cfg" "\<not> sv_running s" "queue_msgs (sv_send_queue s) = []" "queue_msgs (sv_recv_queue s) = []"
    "st_active_count (sv_session_table s) = 0" "sv_sock s = REL4U_INVALID_SOCKET" "\<not> sv_has_pending_item s"
    "st_full_policy (sv_session_table s) = sc_full_policy ?cfg"
    using sq rq tb by (simp_all add: s zero_server_def)
qed

subsection \<open>Calls of the application\<close>

lemma server_start_inv: "server_inv n s \<Longrightarrow> server_inv n (snd (rel4u_server_start sys s))"
  by (auto simp: rel4u_server_start_def server_inv_def Let_def split: prod.splits)

lemma clear_queue_law:
  "queue_inv q \<Longrightarrow> out_room item \<Longrightarrow> queue_inv (clear_queue item q) \<and> queue_msgs (clear_queue item q) = []"
proof (induction item q rule: clear_queue.induct)
  case (1 item q)
  show ?case
  proof (cases "queue_msgs q = []")
    case True
    with try_queue.pop_empty_law [OF "1.prems"(1) True, of item] "1.prems" show ?thesis by (subst (1 2) clear_queue.simps) simp
  next
    case False
    from try_queue.pop_head_law [OF "1.prems"(1) False "1.prems"(2)] obtain q' i where
      p: "rel4u_mpmc_try_pop q (Some item) = (True, q', Some i)" "queue_inv q'" "valid_item i" by blast
    then have "out_room i" by (simp add: valid_item_def out_room_def)
    with "1.IH" [OF p(1) [symmetric] refl] p(1,2) show ?thesis by (subst (1 2) clear_queue.simps) simp
  qed
qed

lemma server_shutdown_inv: "server_inv n s \<Longrightarrow> server_inv n (server_shutdown s)"
  by (simp add: server_shutdown_def server_inv_def queue_inv_wake_all)

text \<open>Releasing sessions one after the other.\<close>

lemma free_all:
  assumes "table_inv n t" "set is \<subseteq> {..<n}"
  shows "table_inv n (fold (\<lambda>i t. rel4u_session_free t (Some i)) is t) \<and>
    (\<forall>i \<in> set is. \<not> session_active (st_sessions (fold (\<lambda>i t. rel4u_session_free t (Some i)) is t) ! i)) \<and>
    (\<forall>i < n. \<not> session_active (st_sessions t ! i) \<longrightarrow>
       \<not> session_active (st_sessions (fold (\<lambda>i t. rel4u_session_free t (Some i)) is t) ! i))"
  using assms
proof (induction "is" arbitrary: t)
  case (Cons i "is")
  let ?t = "rel4u_session_free t (Some i)"
  have t: "table_inv n ?t" using table_free Cons.prems by simp
  have "\<forall>j < n. \<not> session_active (st_sessions t ! j) \<or> j = i \<longrightarrow> \<not> session_active (st_sessions ?t ! j)"
    using table_invD(2) [OF Cons.prems(1)]
    by (auto simp: rel4u_session_free_def session_active_def nth_list_update_eq) (metis nth_list_update_neq)
  with Cons.IH [OF t] Cons.prems show ?case by auto
qed simp

lemma server_teardown_law:
  assumes "env_ok e" "server_inv n s"
  shows "server_inv n (server_teardown e s)" "queue_msgs (sv_send_queue (server_teardown e s)) = []"
    "queue_msgs (sv_recv_queue (server_teardown e s)) = []" "\<not> sv_has_pending_item (server_teardown e s)"
    "\<And>i. i < n \<Longrightarrow> \<not> session_active (sv_session (server_teardown e s) i)"
    "sv_sock (server_teardown e s) = REL4U_INVALID_SOCKET" "sv_running (server_teardown e s) = sv_running s"
    "sv_config (server_teardown e s) = sv_config s"
proof -
  have inv: "table_inv n (sv_session_table s)" "queue_inv (sv_send_queue s)" "queue_inv (sv_recv_queue s)"
    using assms(2) by (simp_all add: server_inv_def)
  have out: "out_room (env_item e)" using assms(1) by (simp add: env_ok_def out_room_def)
  have n: "unat (st_max_clients (sv_session_table s)) = n" using table_invD(5) [OF inv(1)] .
  note q = clear_queue_law [OF inv(2) out] clear_queue_law [OF inv(3) out]
  note t = free_all [OF inv(1), of "[0..<n]", unfolded atLeast0LessThan [symmetric]]
  show "server_inv n (server_teardown e s)" using assms(2) q t by (simp add: server_teardown_def server_inv_def n Let_def)
  show "\<not> session_active (sv_session (server_teardown e s) i)" if "i < n" for i
    using t that by (simp add: server_teardown_def sv_session_def n Let_def)
qed (use clear_queue_law assms in \<open>simp_all add: server_teardown_def server_inv_def env_ok_def out_room_def Let_def\<close>)

lemma server_send_safe:
  assumes env: "env_ok e" and inv: "server_inv n s" and len: "\<forall>bytes. data = Some bytes \<longrightarrow> unat len \<le> length bytes"
  shows "\<exists>r s' w'. rel4u_server_send e cid mode data len (s, w) = Some (r, s', w') \<and> server_inv n s'"
proof (cases "\<exists>bytes. data = Some bytes \<and> unat len \<le> REL4U_MAX_PAYLOAD (sc_mtu (sv_config s)) \<and> sv_running s")
  case False
  then have "\<exists>r. rel4u_server_send e cid mode data len (s, w) = Some (r, s, w)"
    by (auto simp: rel4u_server_send_def split: option.splits)
  with inv show ?thesis by blast
next
  case True
  then obtain bytes where b: "data = Some bytes" "unat len \<le> REL4U_MAX_PAYLOAD (sc_mtu (sv_config s))" by blast
  have "unat len \<le> 9216" using b(2) inv by (simp add: REL4U_MAX_PAYLOAD_def server_inv_def split: if_splits)
  then obtain d where d: "memcpy (it_data (env_item e)) bytes (unat len) = Some d"
    using len b(1) env by (simp add: memcpy_def env_ok_def)
  define item where "item = (env_item e)\<lparr>it_client_id := cid, it_mode := mode, it_len := ucast len, it_data := d\<rparr>"
  have item: "valid_item item" unfolding item_def by (rule send_item_valid(1) [OF env d])
  obtain ok q where q: "rel4u_mpmc_try_push (env_alloc e (wd_pushes w)) (sv_send_queue s) (Some item) = (ok, q)"
    by (metis prod.exhaust)
  have "queue_inv q" using try_queue.push_law [OF _ _ item q] env inv by (simp add: env_ok_def server_inv_def)
  then have "server_inv n (s\<lparr>sv_send_queue := q, sv_stats := st\<rparr>)" "server_inv n (s\<lparr>sv_send_queue := q\<rparr>)" for st
    using inv by (simp_all add: server_inv_def)
  with True b(1) d q show ?thesis by (auto simp: rel4u_server_send_def item_def [symmetric] Let_def)
qed

lemma server_recv_safe:
  assumes env: "env_ok e" and inv: "server_inv n s" and size: "\<forall>b. buffer = Some b \<longrightarrow> unat buffer_size \<le> length b"
  shows "\<exists>r s' cid b k. rel4u_server_recv e [] buffer buffer_size 0 s = Some (Some (r, s', cid, b, k)) \<and> server_inv n s'"
proof (cases "buffer = None \<or> buffer_size = 0")
  case True
  with inv show ?thesis by (cases buffer) (auto simp: rel4u_server_recv_def)
next
  case False
  then obtain buf where buf: "buffer = Some buf" "buffer_size \<noteq> 0" by auto
  have "queue_inv (sv_recv_queue s)" using inv by (simp add: server_inv_def)
  then obtain ok q' item where wait: "rel4u_mpmc_pop_wait [] (sv_recv_queue s) (Some (env_item e)) 0 = Some (ok, q', Some item)"
    "queue_inv q'" "ok \<longrightarrow> valid_item item" by (rule recv_pop_safe [OF env])
  have inv': "server_inv n (s\<lparr>sv_recv_queue := q'\<rparr>)" using inv wait(2) by (simp add: server_inv_def)
  from recv_copy_safe [of item buffer_size buf] size buf wait(1,3) inv' show ?thesis
    by (cases ok) (auto simp: rel4u_server_recv_def Let_def)
qed

lemma server_disconnect_client_inv:
  assumes "server_inv n s"
  shows "server_inv n (fst (snd (rel4u_server_disconnect_client e cid (s, w))))"
proof (cases "rel4u_session_find_by_id (sv_session_table s) cid")
  case None
  with assms show ?thesis by (simp add: rel4u_server_disconnect_client_def)
next
  case (Some i)
  have t: "table_inv n (sv_session_table s)" using assms by (simp add: server_inv_def)
  from table_free [OF t find_by_id_less [OF t Some]] Some assms show ?thesis
    by (simp add: rel4u_server_disconnect_client_def server_inv_def Let_def split: prod.splits)
qed

text \<open>What the worker may do while a call waits for it to end.\<close>

definition server_meanwhile :: "nat \<Rightarrow> (server_world \<Rightarrow> server_world option) \<Rightarrow> bool" where
  "server_meanwhile n join \<longleftrightarrow>
     (\<forall>s w. server_inv n s \<longrightarrow> (\<exists>s' w'. join (s, w) = Some (s', w') \<and> server_inv n s' \<and> sv_running s' = sv_running s))"

text \<open>Nothing of the past: no message and no client.\<close>

definition nothing_left :: "rel4u_server \<Rightarrow> bool" where
  "nothing_left s \<longleftrightarrow> sv_waiting s = [] \<and> queue_msgs (sv_recv_queue s) = [] \<and> st_active_count (sv_session_table s) = 0 \<and>
     (\<forall>a. rel4u_session_find_by_addr (sv_session_table s) (Some a) = None)"

lemma server_shutdown_running: "\<not> sv_running (server_shutdown s)"
  by (simp add: server_shutdown_def)

lemma server_start_keeps:
  "sv_session_table (snd (rel4u_server_start sys s)) = sv_session_table s \<and>
   sv_waiting (snd (rel4u_server_start sys s)) = sv_waiting s \<and> sv_recv_queue (snd (rel4u_server_start sys s)) = sv_recv_queue s"
  by (auto simp: rel4u_server_start_def sv_waiting_def Let_def split: prod.splits)

subsection \<open>Runs\<close>

text \<open>
  What can happen to a server, in any order and any number of times: calls of the application, and the phases
  of the worker's rounds. A call that waits is the event of the moment it goes on, and a buffer handed to a call
  is as long as the call says.
\<close>

datatype server_event =
    Server_Start sys
  | Server_Shutdown
  | Server_Teardown
  | Server_Send u32 u8 "u8 list option" size_t
  | Server_Recv "u8 list option" size_t
  | Server_Disconnect_Client u32
  | Server_Receive "(u8 list \<times> rel4u_net_addr) list"
  | Server_Drain
  | Server_Timers
  | Server_Round "(int \<times> bool list) \<times> (u8 list \<times> rel4u_net_addr) list"

fun server_event_ok :: "server_event \<Rightarrow> bool" where
  "server_event_ok (Server_Send cid mode data len) \<longleftrightarrow> (\<forall>bytes. data = Some bytes \<longrightarrow> unat len \<le> length bytes)"
| "server_event_ok (Server_Recv buffer bsize) \<longleftrightarrow> (\<forall>b. buffer = Some b \<longrightarrow> unat bsize \<le> length b)"
| "server_event_ok _ \<longleftrightarrow> True"

fun server_step :: "env \<Rightarrow> server_event \<Rightarrow> server_world \<Rightarrow> server_world option" where
  "server_step e (Server_Start sys) (s, w) = Some (snd (rel4u_server_start sys s), w)"
| "server_step e Server_Shutdown (s, w) = Some (server_shutdown s, w)"
| "server_step e Server_Teardown (s, w) = Some (server_teardown e s, w)"
| "server_step e (Server_Send cid mode data len) sw = map_option snd (rel4u_server_send e cid mode data len sw)"
| "server_step e (Server_Recv buffer bsize) (s, w) =
     map_option (\<lambda>r. case r of None \<Rightarrow> (s, w) | Some (_, s, _, _, _) \<Rightarrow> (s, w)) (rel4u_server_recv e [] buffer bsize 0 s)"
| "server_step e (Server_Disconnect_Client cid) sw = Some (snd (rel4u_server_disconnect_client e cid sw))"
| "server_step e (Server_Receive dgs) sw = server_receive e dgs sw"
| "server_step e Server_Drain sw = server_drain e sw"
| "server_step e Server_Timers sw = server_timers e sw"
| "server_step e (Server_Round inp) sw = server_round e inp sw"

lemma server_step_safe:
  assumes env: "env_ok e" and mem: "calloc_total e" and inv: "server_inv n s" and ok: "server_event_ok x"
  shows "\<exists>s' w'. server_step e x (s, w) = Some (s', w') \<and> server_inv n s'"
proof (cases x)
  case (Server_Send cid mode data len)
  with server_send_safe [OF env inv, of data len cid mode w] ok show ?thesis by auto
next
  case (Server_Recv buffer bsize)
  with server_recv_safe [OF env inv, of buffer bsize] ok show ?thesis by auto
next
  case (Server_Disconnect_Client cid)
  with server_disconnect_client_inv [OF inv, of e cid w] show ?thesis
    by (cases "snd (rel4u_server_disconnect_client e cid (s, w))") simp
next
  case (Server_Receive dgs)
  with server_receive_safe [OF env mem inv, of dgs w] show ?thesis by (simp add: server_stays_def)
next
  case Server_Drain
  with server_drain_safe [OF env, of n "(s, w)"] inv show ?thesis by (simp add: server_stays_def)
next
  case Server_Timers
  with server_timers_safe [OF env inv, of w] show ?thesis by (simp add: server_stays_def)
next
  case (Server_Round inp)
  with server_round_safe [OF env mem inv, of inp w] show ?thesis by (simp add: server_stays_def)
qed (use inv env in \<open>simp_all add: server_start_inv server_shutdown_inv server_teardown_law\<close>)

interpretation server_run: safe_events "server_step e" "\<lambda>(s, w). env_ok e \<and> calloc_total e \<and> server_inv n s" server_event_ok for e n
  by unfold_locales (auto dest!: server_step_safe)

subsection \<open>Stray packets\<close>

text \<open>A packet from an address without a session, or with the id of another session.\<close>

lemma server_stray_law:
  assumes env: "env_ok e" and sock: "sv_sock s \<noteq> -1"
    and dec: "rel4u_packet_decode_header (Some bytes) (of_nat (length bytes)) (Some zero_header) = (0, Some hdr)"
    and type: "packet_type hdr \<noteq> REL4U_PKT_CONNECT_REQ"
    and stray: "\<forall>i. rel4u_session_find_by_addr (sv_session_table s) (Some src) = Some i \<longrightarrow> cs_session_id (sv_session s i) \<noteq> session_id hdr"
  shows "\<exists>w' st. server_on_datagram e (bytes, src) (s, w) = Some (s\<lparr>sv_stats := st\<rparr>, w') \<and>
    wd_sent w' = wd_sent w @
      (if packet_type hdr \<in> {REL4U_PKT_RESET, REL4U_PKT_DISCONNECT, REL4U_PKT_REJECT} then []
       else [(src, header_bytes (packet_header (session_id hdr) REL4U_PKT_RESET 0 (seq_num hdr) 0 0 0))])"
proof -
  obtain now w0 where t: "rel4u_time_now_ns e w = (now, w0)" "wd_sent w0 = wd_sent w" by (simp add: rel4u_time_now_ns_def Let_def)
  let ?s = "s\<lparr>sv_stats := (sv_stats s)\<lparr>packets_recv := packets_recv (sv_stats s) + 1,
    bytes_recv := bytes_recv (sv_stats s) + of_nat (length bytes)\<rparr>\<rparr>"
  have buf: "control_datagram (take 24 (env_raw_buf e)) type sid seq = header_bytes (packet_header sid type 0 seq 0 0 0)" for type sid seq
    using env by (intro control_datagram_bytes) (simp add: env_ok_def)
  have "server_on_datagram e (bytes, src) (s, w) = Some (server_on_stray e hdr src (?s, w0))"
    using dec type stray by (cases "rel4u_session_find_by_addr (sv_session_table s) (Some src)")
      (simp_all add: server_on_datagram_def t(1) sv_session_def Let_def)
  then show ?thesis using sock t(2)
    by (auto simp: server_on_stray_def buf rel4u_net_sendto_def Let_def)
qed

subsection \<open>Known peers\<close>

text \<open>A connection request from a known address: the session stays as it is, and is offered again.\<close>

lemma known_request:
  assumes env: "env_ok e" and inv: "server_inv n s" and known: "rel4u_session_find_by_addr (sv_session_table s) (Some a) = Some i"
    and dec: "rel4u_packet_decode_header (Some req) (of_nat (length req)) (Some zero_header) = (0, Some hr)"
    and type: "packet_type hr = REL4U_PKT_CONNECT_REQ"
  obtains s1 w1 bs where "server_on_datagram e (req, a) (s, w) = Some (s1, w1)" "server_inv n s1"
    "rel4u_session_find_by_addr (sv_session_table s1) (Some a) = Some i" "cs_recv_win (sv_session s1 i) = cs_recv_win (sv_session s i)"
    "cs_session_id (sv_session s1 i) = cs_session_id (sv_session s i)" "sv_recv_queue s1 = sv_recv_queue s"
    "wd_sent w1 = wd_sent w @ (if sv_sock s = -1 then [] else [(cs_addr (sv_session s i), bs)])"
    "\<exists>ack sack. rel4u_packet_decode_header (Some bs) (of_nat (length bs)) (Some zero_header) =
       (0, Some (packet_header (cs_session_id (sv_session s i)) REL4U_PKT_CONNECT_RESP 0 0 0 ack sack))"
proof -
  obtain now w0 where t: "rel4u_time_now_ns e w = (now, w0)" "wd_sent w0 = wd_sent w" by (simp add: rel4u_time_now_ns_def Let_def)
  note i = session_found [OF inv known]
  let ?x = "(sv_session s i)\<lparr>cs_last_activity_ns := now, cs_last_heartbeat_sent_ns := now\<rparr>"
  define s0 where "s0 = s\<lparr>sv_stats := (sv_stats s)\<lparr>packets_recv := packets_recv (sv_stats s) + 1,
    bytes_recv := bytes_recv (sv_stats s) + of_nat (length req)\<rparr>\<rparr>"
  have 0: "server_inv n s0" "sv_session s0 = sv_session s" using inv by (simp_all add: s0_def server_inv_def sv_session_def fun_eq_iff)
  define sx where "sx = set_session i ?x s0"
  have x: "server_inv n sx" unfolding sx_def
    by (rule set_session_inv [OF 0(1) i(1)])
      (use server_session_good [OF inv i(1)] 0(2) in \<open>simp_all add: session_good_def session_ok_def same_session_def session_active_def\<close>)
  have sess: "sv_session sx i = ?x" unfolding sx_def using 0(1) i(1) by simp
  show thesis
  proof (rule server_send_packet_law [OF env x i(1) control_given, of REL4U_PKT_CONNECT_RESP REL4U_MODE_UNRELIABLE_UNORDERED 0 w0])
    fix bs s1 w1
    assume b: "build_datagram e (cs_recv_win (sv_session sx i)) (cs_session_id (sv_session sx i)) REL4U_PKT_CONNECT_RESP
        REL4U_MODE_UNRELIABLE_UNORDERED 0 None 0 = Some (24, bs)"
      and s1: "server_send_control e i REL4U_PKT_CONNECT_RESP (sx, w0) = Some (s1, w1)"
        "wd_sent w1 = (if sv_sock sx = -1 then wd_sent w0 else wd_sent w0 @ [(cs_addr (sv_session sx i), bs)])" "server_inv n s1"
        "cs_recv_win (sv_session s1 i) = cs_recv_win (sv_session sx i)" "cs_session_id (sv_session s1 i) = cs_session_id (sv_session sx i)"
        "same_session (sv_session sx i) (sv_session s1 i)" "sv_recv_queue s1 = sv_recv_queue sx"
    have "recv_inv (cs_recv_win (sv_session sx i))" using session_goodD(2) [OF server_session_good [OF x i(1)]] .
    from sent_datagram [OF env this control_given b, of zero_header]
    have resp: "\<exists>ack sack. rel4u_packet_decode_header (Some bs) (of_nat (length bs)) (Some zero_header) =
       (0, Some (packet_header (cs_session_id (sv_session s i)) REL4U_PKT_CONNECT_RESP 0 0 0 ack sack))" by (auto simp: sess)
    have run: "server_on_datagram e (req, a) (s, w) = Some (s1, w1)"
      using dec type known s1(1) 0(2)
      by (simp add: server_on_datagram_def server_on_connect_req_def connect_session_def t(1) Let_def sx_def s0_def set_session_def sv_session_def)
    have found: "rel4u_session_find_by_addr (sv_session_table s1) (Some a) = Some i"
      by (rule session_still_found [OF inv known s1(3)]) (use s1(6) sess in \<open>simp add: same_session_def session_active_def\<close>)
    show thesis
      by (rule that [OF run s1(3) found _ _ _ _ resp]) (use s1 t(2) in \<open>simp_all add: sess\<close>, simp_all add: sx_def s0_def)
  qed
qed

text \<open>Reliable data the receive window has had: nothing is delivered, and it is acknowledged again.\<close>

lemma ack_data_refused:
  assumes env: "env_ok e" and inv: "server_inv n s" and i: "i < n" and fits: "packet_fits hdr (drop REL4U_HEADER_LEN bytes)"
    and hdr: "packet_type hdr = REL4U_PKT_DATA" "reliable (delivery_mode hdr)"
    and old: "reliable_verdict (cs_recv_win (sv_session s i)) (seq_num hdr) = 1"
  shows "\<exists>s'. server_on_ack_data e now hdr bytes i (s, w) = Some (s', w) \<and> server_inv n s' \<and> sv_recv_queue s' = sv_recv_queue s \<and>
    cs_recv_win (sv_session s' i) = cs_recv_win (sv_session s i) \<and> cs_ack_pending (sv_session s' i)"
proof -
  let ?x = "sv_session s i"
  note good = server_session_good [OF inv i]
  obtain win rtt st where a: "rel4u_send_window_on_ack (cs_send_win ?x) (ack_num hdr) (sack_mask hdr) now (Some (cs_rtt ?x))
      (Some (cs_stats ?x)) = Some (win, Some rtt, Some st)" "send_inv win" "rto_ok rtt"
    by (rule on_ack_safe [OF session_goodD(1,3) [OF good]])
  let ?y = "?x\<lparr>cs_send_win := win, cs_rtt := rtt, cs_stats := st\<rparr>"
  define s1 where "s1 = set_session i ?y s"
  have 1: "sv_session s1 i = ?y" "sv_ready_slots s1 = sv_ready_slots s" "sv_recv_queue s1 = sv_recv_queue s"
    unfolding s1_def using inv i by simp_all
  have inv1: "server_inv n s1" unfolding s1_def
    by (rule set_session_inv [OF inv i]) (use a session_goodD [OF good] in
      \<open>auto intro!: session_goodI simp: same_session_def session_active_def\<close>)
  have rok: "receiving_ok (cs_recv_win ?y) (sv_ready_slots s)"
    using session_goodD(2,4) [OF good] inv by (simp add: receiving_ok_def server_inv_def)
  have d: "on_data e (cs_client_id ?y) (cs_recv_win ?y) (sv_ready_slots s) hdr (drop REL4U_HEADER_LEN bytes) (sv_recv_queue s, w) =
      Some (cs_recv_win ?y, sv_ready_slots s, (sv_recv_queue s, w), True)"
    using on_data_reliable [OF env rok fits hdr(2), of "cs_client_id ?y" "(sv_recv_queue s, w)"] old by simp
  define s2 where "s2 = set_session i (?y\<lparr>cs_recv_win := cs_recv_win ?y, cs_ack_pending := True\<rparr>) s1"
  have 2: "server_inv n s2" unfolding s2_def
    by (rule set_session_inv [OF inv1 i]) (use a session_goodD [OF good] 1(1) in
      \<open>auto intro!: session_goodI simp: same_session_def session_active_def\<close>)
  have hb: "REL4U_PKT_DATA \<noteq> REL4U_PKT_HEARTBEAT" by simp
  have "server_on_ack_data e now hdr bytes i (s, w) =
      Some (s2\<lparr>sv_ready_slots := sv_ready_slots s, sv_recv_queue := sv_recv_queue s\<rparr>, w)"
    unfolding server_on_ack_data_def s2_def
    by (simp only: a(1) case_prod_conv Let_def Option.bind.bind_lunit option.sel s1_def [symmetric] hb hdr(1) if_False if_True simp_thms 1 d)
  moreover have "s2\<lparr>sv_ready_slots := sv_ready_slots s, sv_recv_queue := sv_recv_queue s\<rparr> = s2"
    by (simp add: s2_def s1_def set_session_def)
  moreover have "sv_session s2 i = ?y\<lparr>cs_recv_win := cs_recv_win ?y, cs_ack_pending := True\<rparr>" "sv_recv_queue s2 = sv_recv_queue s"
    unfolding s2_def using inv1 i 1(3) by simp_all
  ultimately show ?thesis using 2 by simp
qed

lemma refused_data:
  assumes env: "env_ok e" and inv: "server_inv n s" and known: "rel4u_session_find_by_addr (sv_session_table s) (Some a) = Some i"
    and dec: "rel4u_packet_decode_header (Some bytes) (of_nat (length bytes)) (Some zero_header) = (0, Some hdr)" and len: "length bytes \<le> 9240"
    and hdr: "packet_type hdr = REL4U_PKT_DATA" "session_id hdr = cs_session_id (sv_session s i)" "reliable (delivery_mode hdr)"
    and old: "reliable_verdict (cs_recv_win (sv_session s i)) (seq_num hdr) = 1"
  shows "\<exists>s' w'. server_on_datagram e (bytes, a) (s, w) = Some (s', w') \<and> server_inv n s' \<and> sv_recv_queue s' = sv_recv_queue s \<and>
    cs_recv_win (sv_session s' i) = cs_recv_win (sv_session s i) \<and> cs_ack_pending (sv_session s' i)"
proof -
  obtain now w0 where t: "rel4u_time_now_ns e w = (now, w0)" by (metis prod.exhaust)
  note i = session_found [OF inv known]
  have fits: "packet_fits hdr (drop REL4U_HEADER_LEN bytes)" using decoded_fits [OF dec len] by simp
  define s0 where "s0 = s\<lparr>sv_stats := (sv_stats s)\<lparr>packets_recv := packets_recv (sv_stats s) + 1,
    bytes_recv := bytes_recv (sv_stats s) + of_nat (length bytes)\<rparr>\<rparr>"
  have 0: "server_inv n s0" "sv_session s0 = sv_session s" "sv_recv_queue s0 = sv_recv_queue s" "sv_session_table s0 = sv_session_table s"
    using inv by (simp_all add: s0_def server_inv_def sv_session_def fun_eq_iff)
  let ?h = "heard now bytes (sv_session s i)"
  define s1 where "s1 = set_session i ?h s0"
  have 1: "server_inv n s1" unfolding s1_def
    by (rule set_session_inv [OF 0(1) i(1)]) (use heard_good server_session_good [OF inv i(1)] 0(2) in auto)
  have x1: "sv_session s1 i = ?h" "sv_recv_queue s1 = sv_recv_queue s" unfolding s1_def using 0 i(1) by simp_all
  have rw: "cs_recv_win ?h = cs_recv_win (sv_session s i)" by (simp add: heard_def received_session_def)
  from ack_data_refused [OF env 1 i(1) fits hdr(1,3), of now w0] old x1 rw obtain s' where
    s': "server_on_ack_data e now hdr bytes i (s1, w0) = Some (s', w0)" "server_inv n s'" "sv_recv_queue s' = sv_recv_queue s"
      "cs_recv_win (sv_session s' i) = cs_recv_win (sv_session s i)" "cs_ack_pending (sv_session s' i)" by auto
  have "server_on_datagram e (bytes, a) (s, w) = server_on_session_packet e now hdr bytes i (s0, w0)"
    using dec hdr known by (simp add: server_on_datagram_def t s0_def [symmetric] 0 Let_def)
  also have "\<dots> = server_on_ack_data e now hdr bytes i (s1, w0)"
    unfolding server_on_session_packet_def case_prod_conv Let_def touched_session [OF 0(1) i(1)] using hdr(1) by (simp add: s1_def 0(2))
  finally show ?thesis using s' by simp
qed

subsection \<open>Properties\<close>

definition ex_server_cfg :: rel4u_server_config where
  "ex_server_cfg = \<lparr>sc_bind_address = None, sc_bind_port = 9000, sc_max_clients = 2, sc_full_policy = REL4U_MAX_CLIENTS_REJECT, sc_mtu = 0,
     sc_send_queue_capacity = 8, sc_recv_queue_capacity = 8, sc_window_size = 8, sc_heartbeat_interval_ms = 0,
     sc_inactivity_timeout_ms = 0, sc_memory_mode = REL4U_MEM_FIXED, sc_queue_full_policy = REL4U_QUEUE_FULL_DROP_NEW,
     sc_max_send_memory_bytes = 0, sc_max_recv_memory_bytes = 0\<rparr>"

definition ex_server_mem :: server_mem where
  "ex_server_mem = \<lparr>sm_server = True, sm_send_ring = Some (replicate 8 (ex_item 0 [])), sm_recv_ring = Some (replicate 8 (ex_item 0 [])),
     sm_table = (\<lambda>_. True)\<rparr>"

definition ex_server :: rel4u_server where
  "ex_server = the (rel4u_server_create ex_server_mem (Some ex_server_cfg))"

lemma ex_server_create: "rel4u_server_create ex_server_mem (Some ex_server_cfg) = Some ex_server"
proof -
  have two: "[0..<2] = [0, Suc 0]" by (simp add: upt_rec)
  have "rel4u_server_create ex_server_mem (Some ex_server_cfg) \<noteq> None"
    by (simp add: rel4u_server_create_def ex_server_mem_def ex_server_cfg_def server_defaults_def rel4u_mpmc_init_def
      rel4u_session_table_init_def init_session_def rel4u_send_window_init_def rel4u_recv_window_init_def two Let_def)
  then show ?thesis by (auto simp: ex_server_def)
qed

lemma ex_server_ok: "server_mem_ok ex_server_mem ex_server_cfg" "server_cfg_ok ex_server_cfg"
  by (simp_all add: server_mem_ok_def server_cfg_ok_def ex_server_mem_def ex_server_cfg_def server_defaults_def)

lemma ex_server_facts:
  "server_inv 2 ex_server" "st_active_count (sv_session_table ex_server) = 0" "\<not> sv_running ex_server" "calloc_total ex_env"
  using server_created [OF ex_server_create ex_server_ok]
  by (simp_all add: ex_server_cfg_def server_defaults_def calloc_total_def ex_env_def)

lemma ex_server_idle:
  "i < 2 \<Longrightarrow> \<not> session_active (sv_session ex_server i)" "rel4u_session_find_by_addr (sv_session_table ex_server) (Some a) = None"
proof -
  have t: "table_inv 2 (sv_session_table ex_server)" using ex_server_facts(1) by (simp add: server_inv_def)
  have "filter session_active (st_sessions (sv_session_table ex_server)) = []"
    using session_invD(3) [OF table_invD(1) [OF t]] ex_server_facts(2) by simp
  then have idle: "\<not> session_active (sv_session ex_server i)" if "i < 2" for i
    using that table_invD(2) [OF t] by (auto simp: filter_empty_conv sv_session_def)
  then show "i < 2 \<Longrightarrow> \<not> session_active (sv_session ex_server i)" by simp
  show "rel4u_session_find_by_addr (sv_session_table ex_server) (Some a) = None"
    using session_found [OF ex_server_facts(1)] idle by (cases "rel4u_session_find_by_addr (sv_session_table ex_server) (Some a)") auto
qed

lemma allocate_policy:
  assumes "rel4u_session_allocate calloc_ok t (Some a) sid = Some (r, t', ev)"
  shows "st_full_policy t' = st_full_policy t"
proof -
  obtain k t1 e where c: "choose_slot t = (k, t1, e)" by (metis prod_cases3)
  then have "st_full_policy t1 = st_full_policy t" by (auto simp: choose_slot_def Let_def split: option.splits if_splits)
  with assms c show ?thesis by (auto simp: rel4u_session_allocate_def split: option.splits if_splits)
qed

text \<open>A server with one connected client, whose windows are in a given state.\<close>

lemma ex_server_session:
  assumes "recv_inv rw" "rw_buf rw 0 = None"
  obtains s where "server_inv 2 s" "session_active (sv_session s 0)" "cs_addr (sv_session s 0) = ex_addr 1" "cs_session_id (sv_session s 0) = 7"
    "cs_state (sv_session s 0) = REL4U_STATE_CONNECTED" "cs_recv_win (sv_session s 0) = rw"
    "st_full_policy (sv_session_table s) = REL4U_MAX_CLIENTS_REJECT" "sv_sock s = 3" "\<not> sv_has_pending_item s"
    "rel4u_session_find_by_addr (sv_session_table s) (Some (ex_addr 1)) = Some 0"
proof -
  let ?t = "sv_session_table ex_server"
  have t: "table_inv 2 ?t" using ex_server_facts(1) by (simp add: server_inv_def)
  note ti = table_invD [OF t]
  have idle: "\<not> session_active (st_sessions ?t ! i)" if "i < 2" for i using ex_server_idle(1) [OF that] by (simp add: sv_session_def)
  note none = ex_server_idle(2) [of "ex_addr 1"]
  obtain r t' ev where al: "rel4u_session_allocate (\<lambda>_. True) ?t (Some (ex_addr 1)) 7 = Some (r, t', ev)"
    using allocate_law [OF ti(1), of "\<lambda>_. True" "ex_addr 1" 7] by (auto split: option.splits)
  note law = allocate_law [OF ti(1), of "\<lambda>_. True" "ex_addr 1" 7, unfolded al option.case prod.case]
  have r: "r = Some 0"
  proof (cases r)
    case None
    with law ti(2) have "session_active (st_sessions ?t ! 0)" by auto
    with idle [of 0] show ?thesis by simp
  next
    case (Some i)
    with law have "slot_taken ?t i" by simp
    with idle ti(2) Some show ?thesis by (auto simp: slot_taken_def split: if_splits)
  qed
  from table_allocate [OF t _ _ none al] r obtain x where
    t': "table_inv 2 t'" "session_fresh (ex_addr 1) 7 x" "st_sessions t' = (st_sessions ?t)[0 := x]" by auto
  have pol: "st_full_policy t' = st_full_policy ?t"
    by (rule allocate_policy [OF al])
  have polr: "st_full_policy ?t = REL4U_MAX_CLIENTS_REJECT"
    using server_created(9) [OF ex_server_create ex_server_ok] by (simp add: ex_server_cfg_def server_defaults_def)
  let ?s = "ex_server\<lparr>sv_session_table := t', sv_sock := 3\<rparr>"
  have s: "server_inv 2 ?s" using ex_server_facts(1) t'(1) by (simp add: server_inv_def)
  have x: "sv_session ?s 0 = x" using t'(3) ti(2) by (simp add: sv_session_def)
  let ?y = "x\<lparr>cs_state := REL4U_STATE_CONNECTED, cs_recv_win := rw\<rparr>"
  have good: "session_good x" using server_session_good [OF s, of 0] x by simp
  have s': "server_inv 2 (set_session 0 ?y ?s)"
    by (rule set_session_inv [OF s]) (use assms session_goodD [OF good] t'(2) x in
      \<open>auto intro!: session_goodI simp: same_session_def session_active_def session_fresh_def\<close>)
  have y: "sv_session (set_session 0 ?y ?s) 0 = ?y" using s by simp
  have found: "rel4u_session_find_by_addr (sv_session_table (set_session 0 ?y ?s)) (Some (ex_addr 1)) = Some 0"
    by (rule session_finds [OF s']) (use y t'(2) addr_eq_refl [of "ex_addr 1"] in
      \<open>simp_all add: session_fresh_def session_active_def ex_addr_def\<close>)
  show thesis
    by (rule that [OF s' _ _ _ _ _ _ _ _ found])
      (use y t'(2) pol polr server_created(8) [OF ex_server_create ex_server_ok] in
        \<open>simp_all add: session_fresh_def session_active_def set_session_def\<close>)
qed

text \<open>
  C5. A server never leaves its arrays: from \<open>rel4u_server_create\<close>, with an MTU of at most 9240, at most $2^{31}$ clients and memory for the windows,
  whatever the application calls, whatever arrives from the network, and however the phases of the worker interleave with
  the calls, no operation faults; the number of active sessions is exact, no two of them have the same address, the windows of
  every session and both queues stay well formed, and every retransmission timeout stays between 20 and 2000 ms.
\<close>

theorem server_safe:
  assumes "rel4u_server_create mem (Some cfg) = Some s" "server_mem_ok mem cfg" "server_cfg_ok cfg"
    and "env_ok e" "calloc_total e" "\<forall>x \<in> set xs. server_event_ok x"
  shows "\<exists>s' w'. run_events (server_step e) xs (s, w) = Some (s', w') \<and>
    unat (st_active_count (sv_session_table s')) = length (filter session_active (st_sessions (sv_session_table s'))) \<and>
    addr_unique (sv_session_table s') \<and> queue_inv (sv_send_queue s') \<and> queue_inv (sv_recv_queue s') \<and>
    (\<forall>x \<in> set (st_sessions (sv_session_table s')). send_inv (cs_send_win x) \<and> recv_inv (cs_recv_win x) \<and>
       rw_buf (cs_recv_win x) 0 = None \<and> 20 \<le> rel4u_rtt_get_rto (Some (cs_rtt x)) \<and> rel4u_rtt_get_rto (Some (cs_rtt x)) \<le> 2000)"
proof -
  let ?n = "unat (sc_max_clients (server_defaults cfg))"
  from server_run.run_safe [of e ?n "(s, w)" xs] assms(4-6) server_created(1) [OF assms(1-3)]
  obtain s' w' where r: "run_events (server_step e) xs (s, w) = Some (s', w')" "server_inv ?n s'" by auto
  then have "table_inv ?n (sv_session_table s')" by (simp add: server_inv_def)
  then have "addr_unique (sv_session_table s')" "session_inv (sv_session_table s')"
      "\<forall>x \<in> set (st_sessions (sv_session_table s')). session_good x" by (simp_all add: table_inv_def)
  with r session_invD(3) show ?thesis
    by (auto simp: server_inv_def session_good_def session_ok_def rto_ok_def rtt_inv_def rel4u_rtt_get_rto_def)
qed

lemma server_safe_witness:
  "\<exists>s' w'. run_events (server_step ex_env) [Server_Send 0 3 (Some [1, 2]) 2, Server_Receive [([1, 2], zero_addr)], Server_Drain,
       Server_Timers, Server_Disconnect_Client 1, Server_Shutdown, Server_Teardown] (ex_server, ex_world) = Some (s', w') \<and>
     addr_unique (sv_session_table s')"
  using server_safe [OF ex_server_create ex_server_ok ex_env_ok ex_server_facts(4), of "[Server_Send 0 3 (Some [1, 2]) 2,
    Server_Receive [([1, 2], zero_addr)], Server_Drain, Server_Timers, Server_Disconnect_Client 1, Server_Shutdown, Server_Teardown]" ex_world]
  by (auto simp del: run_events.simps)

text \<open>A server whose only slot is in use, under the \<open>DROP_OLD\<close> policy.\<close>

lemma ex_server_full:
  obtains s where "server_inv 1 s" "session_active (sv_session s 0)" "cs_addr (sv_session s 0) = ex_addr 1"
    "rel4u_session_find_by_addr (sv_session_table s) (Some (ex_addr 2)) = None" "evicted_by s (ex_addr 2) 0"
proof -
  let ?cfg = "ex_server_cfg\<lparr>sc_max_clients := 1, sc_full_policy := REL4U_MAX_CLIENTS_DROP_OLD\<rparr>"
  let ?m = "unat (sc_max_clients (server_defaults ?cfg))"
  have cfg: "server_mem_ok ex_server_mem ?cfg" "server_cfg_ok ?cfg" "?m = 1" "sc_full_policy (server_defaults ?cfg) = REL4U_MAX_CLIENTS_DROP_OLD"
    by (simp_all add: server_mem_ok_def server_cfg_ok_def ex_server_mem_def ex_server_cfg_def server_defaults_def)
  have "rel4u_server_create ex_server_mem (Some ?cfg) \<noteq> None"
    by (simp add: rel4u_server_create_def ex_server_mem_def ex_server_cfg_def server_defaults_def rel4u_mpmc_init_def
      rel4u_session_table_init_def init_session_def rel4u_send_window_init_def rel4u_recv_window_init_def Let_def)
  then obtain s0 where s0: "rel4u_server_create ex_server_mem (Some ?cfg) = Some s0" by auto
  note c = server_created [OF s0 cfg(1,2), unfolded cfg(3,4)]
  let ?t = "sv_session_table s0"
  have t: "table_inv 1 ?t" using c(1) by (simp add: server_inv_def)
  note ti = table_invD [OF t]
  have "filter session_active (st_sessions ?t) = []" using session_invD(3) [OF ti(1)] c(6) by simp
  then have idle: "\<not> session_active (st_sessions ?t ! 0)" using ti(2) by (simp add: filter_empty_conv)
  have one: "rel4u_session_find_by_addr ?t (Some (ex_addr 1)) = None"
    using find_by_addr_law [OF ti(1), of "ex_addr 1"] idle ti(2) by (auto split: option.splits)
  obtain r t' ev where al0: "rel4u_session_allocate (\<lambda>_. True) ?t (Some (ex_addr 1)) 7 = Some (r, t', ev)"
    using allocate_law [OF ti(1), of "\<lambda>_. True" "ex_addr 1" 7] by (auto split: option.splits)
  with allocate_law [OF ti(1), of "\<lambda>_. True" "ex_addr 1" 7] idle ti(2) obtain i where r: "r = Some i" by (cases r) auto
  note al = al0 [unfolded r] allocate_policy [OF al0]
  from table_allocate [OF t _ _ one al(1)] obtain x where
    t': "table_inv 1 t'" "i = 0" "session_fresh (ex_addr 1) 7 x" "st_sessions t' = (st_sessions ?t)[0 := x]" by auto
  let ?s = "s0\<lparr>sv_session_table := t'\<rparr>" and ?y = "x\<lparr>cs_last_activity_ns := 5\<rparr>"
  have s: "server_inv 1 ?s" using c(1) t'(1) by (simp add: server_inv_def)
  have x: "sv_session ?s 0 = x" using t'(4) ti(2) by (simp add: sv_session_def)
  have s': "server_inv 1 (set_session 0 ?y ?s)"
    by (rule set_session_inv [OF s]) (use server_session_good [OF s, of 0] x in
      \<open>simp_all add: session_good_def session_ok_def same_session_def session_active_def\<close>)
  have y: "sv_session (set_session 0 ?y ?s) 0 = ?y" using s by simp
  have tab: "st_sessions (sv_session_table (set_session 0 ?y ?s)) = [?y]"
    using t'(4) ti(2) by (cases "st_sessions ?t") (simp_all add: set_session_def)
  have act: "session_active ?y" "cs_addr ?y = ex_addr 1" using t'(3) by (simp_all add: session_fresh_def session_active_def)
  have two: "rel4u_session_find_by_addr (sv_session_table (set_session 0 ?y ?s)) (Some (ex_addr 2)) = None"
    using session_found [OF s', of "ex_addr 2"] y act(2)
    by (cases "rel4u_session_find_by_addr (sv_session_table (set_session 0 ?y ?s)) (Some (ex_addr 2))")
      (auto simp: addr_eq_def ex_addr_def rel4u_net_addr_equal_def)
  have "evicted_by (set_session 0 ?y ?s) (ex_addr 2) 0"
    using two tab act(1) y al(2) c(9) by (simp add: evicted_by_def lru_at_def) (simp add: set_session_def)
  with that [OF s'] y act two show thesis by simp
qed

text \<open>
  C9. Clients are isolated from each other, but for eviction. Take any connected client, and any datagram of up to 9240 bytes from another address.
  Only if it is a connection request from an unknown address to a server that follows the \<open>DROP_OLD\<close> policy, has all its slots in use and finds
  that client to be the least recently active one, the client's slot is given away: it holds a new session of the
  sender, with empty windows. In every other case the client's session stays exactly as it was. Always, the queue of
  outgoing messages is left alone, and at most one datagram is sent, a bare header of 24 bytes to the sender: an evicted client is told nothing.
\<close>

theorem server_isolation:
  assumes "env_ok e" "calloc_total e" "server_inv n s" "length bytes \<le> 9240"
    and "session_active (sv_session s j)" "\<not> rel4u_net_addr_equal (Some (cs_addr (sv_session s j))) (Some src)"
  shows "\<exists>s' w' ds. server_on_datagram e (bytes, src) (s, w) = Some (s', w') \<and>
    (if is_connect_req bytes \<and> evicted_by s src j
     then cs_addr (sv_session s' j) = src \<and> cs_state (sv_session s' j) = REL4U_STATE_CONNECTING \<and>
       sw_entries (cs_send_win (sv_session s' j)) = [] \<and> rw_buf (cs_recv_win (sv_session s' j)) = Map.empty
     else sv_session s' j = sv_session s j) \<and>
    sv_send_queue s' = sv_send_queue s \<and> wd_sent w' = wd_sent w @ ds \<and> length ds \<le> 1 \<and>
    (\<forall>d \<in> set ds. (fst d = src \<or> rel4u_net_addr_equal (Some (fst d)) (Some src)) \<and> length (snd d) = REL4U_HEADER_LEN)"
proof -
  have touch: "j \<in> touchable (is_connect_req bytes) s src \<longleftrightarrow> is_connect_req bytes \<and> evicted_by s src j"
    using assms(5,6) by (auto simp: touchable_def addr_eq_def)
  from server_on_datagram_answers [OF assms(1-4), of src w] obtain s' w' ds where
    r: "server_on_datagram e (bytes, src) (s, w) = Some (s', w')"
      "\<forall>j. j \<notin> touchable (is_connect_req bytes) s src \<longrightarrow> sv_session s' j = sv_session s j"
      "sv_send_queue s' = sv_send_queue s" "wd_sent w' = wd_sent w @ ds" "length ds \<le> 1"
      "\<forall>d \<in> set ds. (fst d = src \<or> rel4u_net_addr_equal (Some (fst d)) (Some src)) \<and> length (snd d) = REL4U_HEADER_LEN"
    by (auto simp: answers_def addr_eq_def)
  from evicted_session [OF assms(1-3) _ _ r(1), of j] r touch show ?thesis by (intro exI [of _ s'] exI [of _ w'] exI [of _ ds]) auto
qed

lemma server_isolation_witness:
  "(\<exists>s s' w'. session_active (sv_session s 0) \<and>
      server_on_datagram ex_env ([1, 2], ex_addr 2) (s, ex_world) = Some (s', w') \<and> sv_session s' 0 = sv_session s 0) \<and>
   (\<exists>s s' w'. session_active (sv_session s 0) \<and> cs_addr (sv_session s 0) = ex_addr 1 \<and>
      server_on_datagram ex_env (header_bytes (packet_header 0 REL4U_PKT_CONNECT_REQ 0 0 0 0 0), ex_addr 2) (s, ex_world) = Some (s', w') \<and>
      cs_addr (sv_session s' 0) = ex_addr 2)"
proof -
  obtain s where s: "server_inv 1 s" "session_active (sv_session s 0)" "cs_addr (sv_session s 0) = ex_addr 1"
      "rel4u_session_find_by_addr (sv_session_table s) (Some (ex_addr 2)) = None" "evicted_by s (ex_addr 2) 0"
    by (rule ex_server_full)
  let ?req = "header_bytes (packet_header 0 REL4U_PKT_CONNECT_REQ 0 0 0 0 0)"
  have far: "\<not> rel4u_net_addr_equal (Some (cs_addr (sv_session s 0))) (Some (ex_addr 2))"
    using s(3) by (simp add: ex_addr_def rel4u_net_addr_equal_def)
  have req: "is_connect_req ?req"
    using decode_control [where sid = 0 and type = REL4U_PKT_CONNECT_REQ and seq = 0] by (simp add: is_connect_req_def)
  have junk: "\<not> is_connect_req [1, 2]"
    by (simp add: is_connect_req_def rel4u_packet_decode_header_def Let_def)
  note iso = server_isolation [OF ex_env_ok ex_server_facts(4) s(1) _ s(2) far, where w = ex_world]
  from iso [of "[1, 2]"] junk obtain s1 w1 where
    "server_on_datagram ex_env ([1, 2], ex_addr 2) (s, ex_world) = Some (s1, w1)" "sv_session s1 0 = sv_session s 0" by auto
  moreover from iso [of ?req] req s(5) obtain s2 w2 where
    "server_on_datagram ex_env (?req, ex_addr 2) (s, ex_world) = Some (s2, w2)" "cs_addr (sv_session s2 0) = ex_addr 2" by auto
  ultimately show ?thesis using s(2,3) by blast
qed

text \<open>
  C14. Draining the send queue of the server, exactly: some number \<open>k\<close> of the waiting messages is settled, in their order. Those of
  connected clients are handed to \<open>sendto\<close>, one datagram each, in this order, addressed to the client and with their bytes as payload, and
  the reliable ones are appended to the send window of their client; those of other clients are dropped. It goes on until nothing waits, or until the next
  message is for a client whose window is full, and then the messages behind it wait too, whatever client they are for.
\<close>

theorem server_drain_exact:
  assumes "env_ok e" "server_inv n s" "sv_sock s \<noteq> REL4U_INVALID_SOCKET"
  shows "\<exists>k s' w' ds. server_drain e (s, w) = Some (s', w') \<and> server_inv n s' \<and> k \<le> length (sv_waiting s) \<and>
    sv_waiting s' = drop k (sv_waiting s) \<and>
    (sv_waiting s' = [] \<or> (\<exists>i. sv_route s (fst (hd (sv_waiting s'))) = Some i \<and> \<not> rel4u_send_window_can_send (cs_send_win (sv_session s' i)))) \<and>
    (\<forall>i < n. sv_load s' i = sv_load s i @
       filter (\<lambda>m. reliable (fst m)) (map snd (filter (\<lambda>m. sv_route s (fst m) = Some i) (take k (sv_waiting s))))) \<and>
    wd_sent w' = wd_sent w @ ds \<and>
    map (map_prod id (drop REL4U_HEADER_LEN)) ds =
      map (\<lambda>m. (cs_addr (sv_session s (the (sv_route s (fst m)))), snd (snd m)))
        (filter (\<lambda>m. sv_route s (fst m) \<noteq> None) (take k (sv_waiting s)))"
proof -
  from server_drain_law [OF assms(1), of n "(s, w)"] assms(2) obtain k s' w' where
    d: "server_drain e (s, w) = Some (s', w')" "drained_server n (s, w) k (s', w')" by auto
  from d(2) assms(3) obtain ds where "wd_sent w' = wd_sent w @ ds" "map (map_prod id (drop 24)) ds =
      map (\<lambda>m. (cs_addr (sv_session s (the (sv_route s (fst m)))), snd (snd m)))
        (filter (\<lambda>m. sv_route s (fst m) \<noteq> None) (take k (sv_waiting s)))"
    unfolding drained_server_def case_prod_conv by auto
  with d [unfolded drained_server_def case_prod_conv] show ?thesis
    unfolding REL4U_HEADER_LEN_def by (intro exI [of _ k] exI [of _ s'] exI [of _ w'] exI [of _ ds] conjI) blast+
qed

lemma server_drain_exact_witness:
  "\<exists>s k s' w'. length (sv_waiting s) = 1 \<and> server_drain ex_env (s, ex_world) = Some (s', w') \<and> k \<le> 1 \<and>
     sv_waiting s' = drop k (sv_waiting s)"
proof -
  obtain s where s: "server_inv 2 s" "sv_sock s = 3" "\<not> sv_has_pending_item s"
    by (rule ex_server_session [of ex_recv]) (use ex_recv_facts in simp_all)
  obtain q where q: "queue_inv q" "queue_msgs q = [item_msg (ex_item 0 [5])]" by (rule ex_queue_one)
  let ?s = "s\<lparr>sv_send_queue := q\<rparr>"
  have inv: "server_inv 2 ?s" and sock: "sv_sock ?s \<noteq> REL4U_INVALID_SOCKET" and one: "length (sv_waiting ?s) = 1"
    using s q by (simp_all add: server_inv_def sv_waiting_def)
  from server_drain_exact [OF ex_env_ok inv sock, of ex_world] obtain k s' w' where
    "server_drain ex_env (?s, ex_world) = Some (s', w')" "k \<le> length (sv_waiting ?s)" "sv_waiting s' = drop k (sv_waiting ?s)"
    by (elim exE conjE) (rule that)
  with one show ?thesis by (intro exI [of _ ?s] exI [of _ k] exI [of _ s'] exI [of _ w']) simp
qed

text \<open>
  C18. A stopped server keeps nothing of its past run. Whatever the worker still does before it ends, \<open>rel4u_server_stop\<close> returns
  \<open>REL4U_OK\<close> with the socket closed, no message in either queue and none pending, and no active session: the active count is 0
  and no address is known. The next \<open>rel4u_server_start\<close> leaves it so.
\<close>

theorem server_stop_fresh:
  assumes "env_ok e" "server_inv n s" "sv_running s" "server_meanwhile n join"
  shows "\<exists>s' w'. rel4u_server_stop e join (s, w) = Some (REL4U_OK, s', w') \<and> sv_sock s' = REL4U_INVALID_SOCKET \<and> \<not> sv_running s' \<and>
    server_inv n s' \<and> nothing_left s' \<and> nothing_left (snd (rel4u_server_start sys s'))"
proof -
  have "server_inv n (server_shutdown s)" by (rule server_shutdown_inv [OF assms(2)])
  with assms(4) obtain s1 w1 where j: "join (server_shutdown s, w) = Some (s1, w1)" "server_inv n s1" "\<not> sv_running s1"
    unfolding server_meanwhile_def by (metis server_shutdown_running)
  let ?s = "server_teardown e s1"
  note td = server_teardown_law [OF assms(1) j(2)]
  have stop: "rel4u_server_stop e join (s, w) = Some (REL4U_OK, ?s, w1)" using assms(3) j(1) by (simp add: rel4u_server_stop_def)
  have table: "table_inv n (sv_session_table ?s)" using td(1) by (simp add: server_inv_def)
  have idle: "\<forall>x \<in> set (st_sessions (sv_session_table ?s)). \<not> session_active x"
    using td(5) table_invD(2) [OF table] by (auto simp: in_set_conv_nth sv_session_def)
  then have count: "st_active_count (sv_session_table ?s) = 0"
    using session_invD(3) [OF table_invD(1) [OF table]] by (simp add: unsigned_eq_0_iff filter_False)
  have none: "rel4u_session_find_by_addr (sv_session_table ?s) (Some a) = None" for a
    using find_by_addr_law [OF table_invD(1) [OF table], of a] idle by (auto split: option.splits)
  have left: "nothing_left ?s" using td count none by (simp add: nothing_left_def sv_waiting_def)
  then have "nothing_left (snd (rel4u_server_start sys ?s))" using server_start_keeps [of sys ?s] by (simp add: nothing_left_def)
  with stop td left j(3) show ?thesis by (intro exI [of _ ?s] exI [of _ w1]) simp
qed

lemma server_stop_fresh_witness:
  "\<exists>s s' w'. session_active (sv_session s 0) \<and> rel4u_server_stop ex_env Some (s, ex_world) = Some (REL4U_OK, s', w') \<and>
     nothing_left s'"
proof -
  obtain s where s: "server_inv 2 s" "session_active (sv_session s 0)"
    by (rule ex_server_session [of ex_recv]) (use ex_recv_facts in simp_all)
  let ?s = "s\<lparr>sv_running := True\<rparr>"
  have "server_inv 2 ?s" "sv_running ?s" "server_meanwhile 2 Some" using s(1) by (simp_all add: server_inv_def server_meanwhile_def)
  from server_stop_fresh [OF ex_env_ok this, of ex_world] obtain s' w' where
    "rel4u_server_stop ex_env Some (?s, ex_world) = Some (REL4U_OK, s', w')" "nothing_left s'"
    by blast
  with s(2) show ?thesis by (intro exI [of _ ?s] exI [of _ s'] exI [of _ w']) (simp add: sv_session_def)
qed

end
