(* ===== verification/Server_Wire.thy ===== *)
theory Server_Wire
  imports Wire Server_Runs
begin

text \<open>
  What a server sends. Every step of the server keeps \<open>server_wire\<close>: only well-formed packets of the types a server may send, and only to
  addresses from which a datagram has come.
\<close>

subsection \<open>The invariant\<close>

definition server_packets :: "u8 set" where
  "server_packets = {REL4U_PKT_CONNECT_RESP, REL4U_PKT_DATA, REL4U_PKT_ACK, REL4U_PKT_HEARTBEAT, REL4U_PKT_HEARTBEAT_ACK,
     REL4U_PKT_DISCONNECT, REL4U_PKT_REJECT, REL4U_PKT_RESET}"

text \<open>A table of \<open>n\<close> sessions, of which the active ones have addresses of the given set.\<close>

definition table_addrs :: "nat \<Rightarrow> rel4u_net_addr set \<Rightarrow> rel4u_session_table \<Rightarrow> bool" where
  "table_addrs n addrs t \<longleftrightarrow>
     length (st_sessions t) = n \<and> unat (st_max_clients t) = n \<and> (\<forall>x \<in> set (st_sessions t). session_active x \<longrightarrow> cs_addr x \<in> addrs)"

definition server_wire :: "nat \<Rightarrow> rel4u_net_addr set \<Rightarrow> server_world \<Rightarrow> bool" where
  "server_wire n addrs = (\<lambda>(s, w). wire_ok server_packets addrs w \<and> table_addrs n addrs (sv_session_table s))"

definition live :: "rel4u_session_table \<Rightarrow> nat \<Rightarrow> bool" where
  "live t i \<longleftrightarrow> i < length (st_sessions t) \<and> session_active (st_sessions t ! i)"

lemma server_wire_updates [simp]:
  "server_wire n addrs (s\<lparr>sv_stats := x1\<rparr>, w) = server_wire n addrs (s, w)"
  "server_wire n addrs (s\<lparr>sv_send_queue := x2\<rparr>, w) = server_wire n addrs (s, w)"
  "server_wire n addrs (s\<lparr>sv_recv_queue := x3\<rparr>, w) = server_wire n addrs (s, w)"
  "server_wire n addrs (s\<lparr>sv_ready_slots := x4\<rparr>, w) = server_wire n addrs (s, w)"
  "server_wire n addrs (s\<lparr>sv_pending_item := x5\<rparr>, w) = server_wire n addrs (s, w)"
  "server_wire n addrs (s\<lparr>sv_has_pending_item := x6\<rparr>, w) = server_wire n addrs (s, w)"
  "server_wire n addrs (s\<lparr>sv_running := x7\<rparr>, w) = server_wire n addrs (s, w)"
  "server_wire n addrs (s, w\<lparr>wd_pushes := x8\<rparr>) = server_wire n addrs (s, w)"
  by (simp_all add: server_wire_def)

lemma server_wire_clock: "rel4u_time_now_ns e w = (t, w') \<Longrightarrow> server_wire n addrs (s, w') = server_wire n addrs (s, w)"
  by (simp add: server_wire_def wire_ok_clock)

subsection \<open>The session table\<close>

lemma live_addr: "table_addrs n addrs t \<Longrightarrow> live t i \<Longrightarrow> cs_addr (st_sessions t ! i) \<in> addrs"
  by (simp add: table_addrs_def live_def)

lemma update_addrs:
  assumes "table_addrs n addrs t" "session_active x \<Longrightarrow> i < length (st_sessions t) \<Longrightarrow> cs_addr x \<in> addrs"
  shows "table_addrs n addrs (t\<lparr>st_sessions := (st_sessions t)[i := x]\<rparr>)"
proof (cases "i < length (st_sessions t)")
  case True
  with assms show ?thesis using set_update_subset_insert [of "st_sessions t" i x] by (auto simp: table_addrs_def)
next
  case False
  then have "(st_sessions t)[i := x] = st_sessions t" by (simp add: list_update_beyond)
  with assms(1) show ?thesis by (simp add: table_addrs_def)
qed

lemma active_count_addrs [simp]: "table_addrs n addrs (t\<lparr>st_active_count := k\<rparr>) = table_addrs n addrs t"
  by (simp add: table_addrs_def)

lemma find_live:
  assumes "table_addrs n addrs t"
  shows "rel4u_session_find_by_addr t a = Some i \<Longrightarrow> live t i" "rel4u_session_find_by_id t cid = Some i \<Longrightarrow> live t i"
  using assms
  by (auto simp: rel4u_session_find_by_addr_def rel4u_session_find_by_id_def live_def table_addrs_def find_Some_iff not_le word_less_nat_alt
      split: if_splits)

lemma free_addrs: "table_addrs n addrs t \<Longrightarrow> table_addrs n addrs (rel4u_session_free t (Some i))"
  using update_addrs [of n addrs t "(st_sessions t ! i)\<lparr>cs_state := REL4U_STATE_DISCONNECTED, cs_session_id := 0\<rparr>" i]
  by (simp add: rel4u_session_free_def session_active_def table_addrs_def)

lemma free_all_addrs: "table_addrs n addrs t \<Longrightarrow> table_addrs n addrs (fold (\<lambda>i t. rel4u_session_free t (Some i)) is t)"
  by (induction "is" arbitrary: t) (simp_all add: free_addrs)

lemma touch_addrs:
  assumes "table_addrs n addrs t" "live t i"
  shows "table_addrs n addrs (rel4u_session_touch_lru t (Some i) now)" "live (rel4u_session_touch_lru t (Some i) now) i"
  using assms live_addr [OF assms] update_addrs [OF assms(1), of "(st_sessions t ! i)\<lparr>cs_last_activity_ns := now\<rparr>" i]
  by (simp_all add: rel4u_session_touch_lru_def live_def session_active_def)

lemma choose_slot_keeps:
  "choose_slot t = (k, t', b) \<Longrightarrow> st_sessions t' = st_sessions t \<and> st_max_clients t' = st_max_clients t"
  by (auto simp: choose_slot_def Let_def split: if_splits option.splits)

lemma fresh_session_fields: "cs_addr (fresh_session a b addr sid x) = addr" "session_active (fresh_session a b addr sid x)"
  by (simp_all add: fresh_session_def session_active_def Let_def)

lemma allocate_addrs:
  assumes t: "table_addrs n addrs t" and a: "addr \<in> addrs" and r: "rel4u_session_allocate calloc_ok t (Some addr) sid = Some (r, t', b)"
  shows "table_addrs n addrs t'" "r = Some i \<Longrightarrow> live t' i"
proof -
  obtain k t1 ev where c: "choose_slot t = (k, t1, ev)" by (metis prod.exhaust)
  have t1: "table_addrs n addrs t1" using t choose_slot_keeps [OF c] by (simp add: table_addrs_def)
  let ?j = "nat k"
  let ?x = "fresh_session (calloc_ok 0) (calloc_ok 1) addr sid (st_sessions t1 ! ?j)"
  have "r = None \<and> (t' = t \<or> t' = t1) \<or> r = Some ?j \<and> ?j < length (st_sessions t1) \<and>
      t' = t1\<lparr>st_sessions := (st_sessions t1)[?j := ?x], st_active_count := st_active_count t1 + 1\<rparr>"
    using r c by (auto simp: rel4u_session_allocate_def split: if_splits option.splits)
  then have "table_addrs n addrs t' \<and> (r = Some i \<longrightarrow> live t' i)"
    using t t1 update_addrs [OF t1, of ?x ?j] a by (auto simp: fresh_session_fields live_def table_addrs_def)
  then show "table_addrs n addrs t'" "r = Some i \<Longrightarrow> live t' i" by simp_all
qed

subsection \<open>The worker\<close>

text \<open>The invariant, and that session \<open>i\<close> is in use.\<close>

definition wire_at :: "nat \<Rightarrow> rel4u_net_addr set \<Rightarrow> nat \<Rightarrow> server_world \<Rightarrow> bool" where
  "wire_at n addrs i = (\<lambda>(s, w). server_wire n addrs (s, w) \<and> live (sv_session_table s) i)"

lemma wire_atD: "wire_at n addrs i sw \<Longrightarrow> server_wire n addrs sw"
  by (cases sw) (simp add: wire_at_def)

lemma wire_at_active: "wire_at n addrs i (s, w) \<Longrightarrow> session_active (sv_session s i)"
  by (simp add: wire_at_def live_def sv_session_def)

lemma set_session_wire:
  assumes "wire_at n addrs i (s, w)" "cs_addr x = cs_addr (sv_session s i)" "session_active x"
  shows "wire_at n addrs i (set_session i x s, w)"
proof -
  have t: "table_addrs n addrs (sv_session_table s)" "live (sv_session_table s) i" "wire_ok server_packets addrs w"
    using assms(1) by (simp_all add: wire_at_def server_wire_def)
  have "cs_addr x \<in> addrs" using live_addr [OF t(1,2)] assms(2) by (simp add: sv_session_def)
  with t update_addrs [OF t(1)] assms(3) show ?thesis by (simp add: wire_at_def server_wire_def set_session_def live_def)
qed

lemma wire_at_updates [simp]:
  "wire_at n addrs i (s\<lparr>sv_stats := x1\<rparr>, w) = wire_at n addrs i (s, w)"
  "wire_at n addrs i (s\<lparr>sv_recv_queue := x2\<rparr>, w) = wire_at n addrs i (s, w)"
  "wire_at n addrs i (s\<lparr>sv_ready_slots := x3\<rparr>, w) = wire_at n addrs i (s, w)"
  by (simp_all add: wire_at_def)

lemma wire_at_clock: "rel4u_time_now_ns e w = (t, w') \<Longrightarrow> wire_at n addrs i (s, w') = wire_at n addrs i (s, w)"
  by (simp add: wire_at_def server_wire_clock)

lemma server_send_packet_wire:
  assumes env: "env_ok e" and r: "server_send_packet e i type mode seq payload len (s, w) = Some sw'" and wire: "wire_at n addrs i (s, w)"
    and type: "type \<in> server_packets" "type = REL4U_PKT_DATA \<or> len = 0"
  shows "wire_at n addrs i sw'"
proof -
  let ?x = "sv_session s i"
  let ?b = "build_datagram e (cs_recv_win ?x) (cs_session_id ?x) type mode seq payload len"
  obtain h bs where b: "?b = Some (h, bs)" using r by (cases ?b) (auto simp: server_send_packet_def Let_def)
  note wf = built_well_formed [OF env b type]
  obtain k w1 where s: "rel4u_net_sendto e (sv_sock s) bs (cs_addr ?x) w = (k, w1)" by (metis prod.exhaust)
  have "cs_addr ?x \<in> addrs" using wire live_addr [of n addrs "sv_session_table s" i] by (simp add: wire_at_def server_wire_def sv_session_def)
  then have 1: "wire_at n addrs i (s, w1)" using wire wire_ok_sendto [OF _ s _ wf] by (auto simp: wire_at_def server_wire_def)
  obtain t w2 where t: "rel4u_time_now_ns e w1 = (t, w2)" by (metis prod.exhaust)
  have "wire_at n addrs i (set_session i (?x\<lparr>cs_stats := st, cs_last_ack_sent_ns := t, cs_ack_pending := False\<rparr>) s, w2)" for st
    by (rule set_session_wire) (use 1 wire_at_clock [OF t] wire_at_active [OF 1] in \<open>simp_all add: session_active_def\<close>)
  then show ?thesis using r wire 1 by (auto simp: server_send_packet_def Let_def b s t split: if_splits)
qed

lemma server_control_wire:
  "env_ok e \<Longrightarrow> server_send_control e i type (s, w) = Some sw' \<Longrightarrow> wire_at n addrs i (s, w) \<Longrightarrow> type \<in> server_packets \<Longrightarrow>
   wire_at n addrs i sw'"
  using server_send_packet_wire [of e i type 0 0 None 0 s w sw' n addrs] by simp

lemma server_data_wire:
  "env_ok e \<Longrightarrow> server_send_packet e i REL4U_PKT_DATA mode seq payload len (s, w) = Some sw' \<Longrightarrow> wire_at n addrs i (s, w) \<Longrightarrow>
   wire_at n addrs i sw'"
  using server_send_packet_wire [of e i REL4U_PKT_DATA mode seq payload len s w sw' n addrs] by (simp add: server_packets_def)

lemma server_bare_wire:
  assumes "env_ok e" "server_wire n addrs (s, w)" "a \<in> addrs" "type \<in> server_packets"
  shows "server_wire n addrs (s, snd (rel4u_net_sendto e sock (control_datagram (take REL4U_HEADER_LEN (env_raw_buf e)) type sid seq) a w))"
proof -
  let ?bs = "control_datagram (take REL4U_HEADER_LEN (env_raw_buf e)) type sid seq"
  obtain h w1 where s: "rel4u_net_sendto e sock ?bs a w = (h, w1)" by (metis prod.exhaust)
  with assms control_well_formed [OF assms(1,4)] wire_ok_sendto [OF _ s] show ?thesis by (auto simp: server_wire_def)
qed

lemma server_on_stray_wire:
  "env_ok e \<Longrightarrow> server_wire n addrs (s, w) \<Longrightarrow> src \<in> addrs \<Longrightarrow> server_wire n addrs (server_on_stray e hdr src (s, w))"
  using server_bare_wire [of e n addrs s w src REL4U_PKT_RESET] by (simp add: server_on_stray_def server_packets_def Let_def)

lemma server_on_connect_req_wire:
  assumes env: "env_ok e" and r: "server_on_connect_req e now src (s, w) = Some sw'" and wire: "server_wire n addrs (s, w)" and src: "src \<in> addrs"
  shows "server_wire n addrs sw'"
proof -
  from r [unfolded server_on_connect_req_def case_prod_conv] obtain k t where p: "connect_session e now src (s, w) = Some (k, t)"
    by (rule bind_someE) auto
  let ?s = "s\<lparr>sv_session_table := t\<rparr>"
  have old: "table_addrs n addrs (sv_session_table s)" "wire_ok server_packets addrs w" using wire by (simp_all add: server_wire_def)
  have t: "table_addrs n addrs t" "\<And>i. k = Some i \<Longrightarrow> live t i"
    using p old find_live(1) [OF old(1)] allocate_addrs [OF old(1) src]
    by (auto simp: connect_session_def bind_eq_Some_conv split: option.splits)
  have b: "(case k of None \<Rightarrow>
        (let buf = control_datagram (take REL4U_HEADER_LEN (env_raw_buf e)) REL4U_PKT_REJECT 0 0
             in Some (?s, snd (rel4u_net_sendto e (sv_sock ?s) buf src w)))
      | Some i \<Rightarrow> server_send_control e i REL4U_PKT_CONNECT_RESP
          (set_session i ((sv_session ?s i)\<lparr>cs_last_activity_ns := now, cs_last_heartbeat_sent_ns := now\<rparr>) ?s, w)) = Some sw'"
    using r unfolding server_on_connect_req_def case_prod_conv p Option.bind.bind_lunit Let_def .
  show ?thesis
  proof (cases k)
    case None
    have "server_wire n addrs (?s, w)" using t(1) old(2) by (simp add: server_wire_def)
    from server_bare_wire [OF env this src, of REL4U_PKT_REJECT "sv_sock ?s" 0 0] b None show ?thesis
      by (auto simp: Let_def server_packets_def)
  next
    case (Some i)
    have "wire_at n addrs i (?s, w)" using t(1) t(2) [OF Some] old(2) by (simp add: wire_at_def server_wire_def)
    note this wire_at_active [OF this]
    then have "wire_at n addrs i (set_session i ((sv_session ?s i)\<lparr>cs_last_activity_ns := now, cs_last_heartbeat_sent_ns := now\<rparr>) ?s, w)"
      by (intro set_session_wire) (simp_all add: session_active_def)
    from server_control_wire [OF env _ this, of REL4U_PKT_CONNECT_RESP sw'] b Some show ?thesis
      by (auto simp: server_packets_def intro: wire_atD)
  qed
qed

lemma server_on_ack_data_wire:
  assumes env: "env_ok e" and r: "server_on_ack_data e now hdr bytes i (s, w) = Some sw'" and wire: "wire_at n addrs i (s, w)"
  shows "wire_at n addrs i sw'"
proof -
  note b = r [unfolded server_on_ack_data_def case_prod_conv Let_def]
  from b obtain win rtt st where a: "rel4u_send_window_on_ack (cs_send_win (sv_session s i)) (ack_num hdr) (sack_mask hdr) now
      (Some (cs_rtt (sv_session s i))) (Some (cs_stats (sv_session s i))) = Some (win, rtt, st)" by (rule bind_someE) auto
  note b = b [unfolded a Option.bind.bind_lunit case_prod_conv]
  let ?s = "set_session i ((sv_session s i)\<lparr>cs_send_win := win, cs_rtt := the rtt, cs_stats := the st\<rparr>) s"
  have 1: "wire_at n addrs i (?s, w)"
    by (rule set_session_wire [OF wire]) (use wire_at_active [OF wire] in \<open>simp_all add: session_active_def\<close>)
  from b obtain s2 w2 where 2: "(if packet_type hdr = REL4U_PKT_HEARTBEAT then server_send_control e i REL4U_PKT_HEARTBEAT_ACK (?s, w)
      else Some (?s, w)) = Some (s2, w2)" by (rule bind_someE) auto
  note b = b [unfolded 2 Option.bind.bind_lunit case_prod_conv]
  have w2: "wire_at n addrs i (s2, w2)"
    using 2 1 server_control_wire [OF env _ 1, of REL4U_PKT_HEARTBEAT_ACK "(s2, w2)"] by (auto simp: server_packets_def split: if_splits)
  let ?x = "sv_session s2 i"
  let ?d = "on_data e (cs_client_id ?x) (cs_recv_win ?x) (sv_ready_slots s2) hdr (drop REL4U_HEADER_LEN bytes) (sv_recv_queue s2, w2)"
  show ?thesis
  proof (cases "packet_type hdr = REL4U_PKT_DATA")
    case True
    note b = b [unfolded eqTrueI [OF True] if_True]
    from b obtain rw slots q w3 ack where d: "?d = Some (rw, slots, (q, w3), ack)" by (rule bind_someE) auto
    have "wire_at n addrs i (s2, w3)" using on_data_silent [OF d] w2 by (simp add: wire_at_def server_wire_def wire_ok_def)
    then have "wire_at n addrs i (set_session i (?x\<lparr>cs_recv_win := rw, cs_ack_pending := (if ack then True else cs_ack_pending ?x)\<rparr>) s2, w3)"
      by (rule set_session_wire) (use wire_at_active [OF w2] in \<open>simp_all add: session_active_def\<close>)
    with b [unfolded d Option.bind.bind_lunit case_prod_conv] show ?thesis by auto
  next
    case False
    with b w2 show ?thesis by simp
  qed
qed

lemma server_on_session_packet_wire:
  assumes env: "env_ok e" and r: "server_on_session_packet e now hdr bytes i (s, w) = Some sw'" and wire: "wire_at n addrs i (s, w)"
  shows "server_wire n addrs sw'"
proof -
  let ?s = "s\<lparr>sv_session_table := rel4u_session_touch_lru (sv_session_table s) (Some i) now\<rparr>"
  have 1: "wire_at n addrs i (?s, w)" using wire touch_addrs [of n addrs "sv_session_table s" i now] by (simp add: wire_at_def server_wire_def)
  define s2 where "s2 = set_session i (received_session bytes (sv_session ?s i)) ?s"
  have 2: "wire_at n addrs i (s2, w)" unfolding s2_def
    by (rule set_session_wire [OF 1]) (use wire_at_active [OF 1] in \<open>simp_all add: received_session_def session_active_def\<close>)
  have 3: "server_wire n addrs (s2\<lparr>sv_session_table := rel4u_session_free (sv_session_table s2) (Some i)\<rparr>, w)"
    using 2 free_addrs [of n addrs "sv_session_table s2" i] by (simp add: wire_at_def server_wire_def)
  have "sw' = (s2, w) \<or> sw' = (s2\<lparr>sv_session_table := rel4u_session_free (sv_session_table s2) (Some i)\<rparr>, w) \<or>
      server_on_ack_data e now hdr bytes i (s2, w) = Some sw'"
    using r unfolding server_on_session_packet_def case_prod_conv Let_def s2_def [symmetric] by (simp split: if_splits)
  then show ?thesis using wire_atD [OF 2] 3 server_on_ack_data_wire [OF env _ 2, of now hdr bytes sw'] wire_atD [of n addrs i sw'] by blast
qed

lemma server_on_datagram_wire:
  assumes env: "env_ok e" and r: "server_on_datagram e (bytes, src) (s, w) = Some sw'" and wire: "server_wire n addrs (s, w)" and src: "src \<in> addrs"
  shows "server_wire n addrs sw'"
proof -
  obtain k h where d: "rel4u_packet_decode_header (Some bytes) (of_nat (length bytes)) (Some zero_header) = (k, h)" by (metis prod.exhaust)
  obtain now w0 where t: "rel4u_time_now_ns e w = (now, w0)" by (metis prod.exhaust)
  define s0 where "s0 = s\<lparr>sv_stats := (sv_stats s)\<lparr>packets_recv := packets_recv (sv_stats s) + 1,
      bytes_recv := bytes_recv (sv_stats s) + of_nat (length bytes)\<rparr>\<rparr>"
  have 0: "server_wire n addrs (s0, w0)" using wire server_wire_clock [OF t] by (simp add: s0_def)
  note b = r [unfolded server_on_datagram_def case_prod_conv d t Let_def s0_def [symmetric]]
  show ?thesis
  proof (cases "k \<noteq> 0 \<or> packet_type (the h) = REL4U_PKT_CONNECT_REQ")
    case True
    with b have "sw' = (s, w) \<or> server_on_connect_req e now src (s0, w0) = Some sw'" by (simp split: if_splits)
    then show ?thesis using wire server_on_connect_req_wire [OF env _ 0 src] by blast
  next
    case False
    with b have c: "(case rel4u_session_find_by_addr (sv_session_table s0) (Some src) of
         None \<Rightarrow> Some (server_on_stray e (the h) src (s0, w0))
       | Some i \<Rightarrow> if cs_session_id (sv_session s0 i) \<noteq> session_id (the h) then Some (server_on_stray e (the h) src (s0, w0))
           else server_on_session_packet e now (the h) bytes i (s0, w0)) = Some sw'" by (simp only: de_Morgan_disj not_not if_False) simp
    note stray = server_on_stray_wire [OF env 0 src, of "the h"]
    show ?thesis
    proof (cases "rel4u_session_find_by_addr (sv_session_table s0) (Some src)")
      case None
      with c stray show ?thesis by simp
    next
      case (Some i)
      have "wire_at n addrs i (s0, w0)" using 0 find_live(1) [OF _ Some] by (auto simp: wire_at_def server_wire_def)
      from server_on_session_packet_wire [OF env _ this] c Some stray show ?thesis by (auto split: if_splits)
    qed
  qed
qed

lemma server_receive_wire:
  "env_ok e \<Longrightarrow> server_receive e dgs sw = Some sw' \<Longrightarrow> server_wire n addrs sw \<Longrightarrow> snd ` set dgs \<subseteq> addrs \<Longrightarrow> server_wire n addrs sw'"
proof (induction dgs arbitrary: sw)
  case (Cons dg dgs)
  obtain s w bytes src where dg: "sw = (s, w)" "dg = (bytes, src)" by (metis prod.exhaust)
  show ?case
  proof (cases "sv_sock s \<noteq> REL4U_INVALID_SOCKET \<and> bytes \<noteq> []")
    case True
    then have "Option.bind (server_on_datagram e (take 9240 bytes, src) (s, w)) (server_receive e dgs) = Some sw'"
      using Cons.prems(2) by (simp add: dg rel4u_net_recvfrom_def)
    then obtain sw1 where 1: "server_on_datagram e (take 9240 bytes, src) (s, w) = Some sw1" "server_receive e dgs sw1 = Some sw'"
      by (rule bind_someE)
    with Cons.IH [OF Cons.prems(1) 1(2)] server_on_datagram_wire [OF Cons.prems(1) 1(1)] Cons.prems(3,4) show ?thesis by (simp add: dg)
  next
    case False
    with Cons.prems(2) have "sw' = (s, w)" by (cases "sv_sock s = -1") (simp_all add: dg rel4u_net_recvfrom_def)
    with Cons.prems(3) show ?thesis by (simp add: dg)
  qed
qed simp

lemma server_transmit_wire:
  assumes env: "env_ok e" and r: "server_transmit e i (s, w) = Some sw'" and wire: "wire_at n addrs i (s, w)"
  shows "server_wire n addrs sw'"
proof -
  obtain t w1 where t: "rel4u_time_now_ns e w = (t, w1)" by (metis prod.exhaust)
  let ?item = "sv_pending_item s" and ?x = "sv_session s i"
  note b = r [unfolded server_transmit_def case_prod_conv t Let_def]
  from b obtain k win sq where p: "rel4u_send_window_push (cs_send_win ?x) (it_mode ?item) (Some (it_data ?item)) (ucast (it_len ?item)) t =
      Some (k, win, sq)" by (rule bind_someE) auto
  note b = b [unfolded p Option.bind.bind_lunit case_prod_conv]
  let ?s = "set_session i (?x\<lparr>cs_send_win := win\<rparr>) s"
  have 1: "wire_at n addrs i (?s, w1)"
    by (rule set_session_wire) (use wire wire_at_clock [OF t] wire_at_active [OF wire] in \<open>simp_all add: session_active_def\<close>)
  from b obtain s2 w2 where 2: "(if k = 0 then server_send_packet e i REL4U_PKT_DATA (it_mode ?item) (case sq of None \<Rightarrow> 0 | Some n \<Rightarrow> n)
      (Some (it_data ?item)) (ucast (it_len ?item)) (?s, w1) else Some (?s, w1)) = Some (s2, w2)" by (rule bind_someE) auto
  have "wire_at n addrs i (s2, w2)" using 2 1 server_data_wire [OF env _ 1] by (auto split: if_splits)
  with b 2 wire_atD [of n addrs i "(s2, w2)"] show ?thesis by auto
qed

lemma server_next_item_wire: "server_next_item s = (got, s') \<Longrightarrow> server_wire n addrs (s', w) = server_wire n addrs (s, w)"
  by (auto simp: server_next_item_def split: if_splits prod.splits)

lemma server_drain_wire:
  "env_ok e \<Longrightarrow> server_drain e sw = Some sw' \<Longrightarrow> server_wire n addrs sw \<Longrightarrow> server_wire n addrs sw'"
proof (induction e sw rule: server_drain.induct)
  case (1 e s w)
  obtain got s1 where g: "server_next_item s = (got, s1)" by (metis prod.exhaust)
  have w1: "server_wire n addrs (s1, w)" using "1.prems"(3) server_next_item_wire [OF g] by simp
  let ?i = "rel4u_session_find_by_id (sv_session_table s1) (it_client_id (sv_pending_item s1))"
  note b = "1.prems"(2) [unfolded server_drain.simps [of e s w] g case_prod_conv]
  show ?case
  proof (cases got)
    case got: True
    show ?thesis
    proof (cases ?i)
      case None
      with b got have "server_drain e (s1\<lparr>sv_has_pending_item := False\<rparr>, w) = Some sw'" by simp
      with "1.IH"(1) [OF g [symmetric] _ None "1.prems"(1)] got w1 show ?thesis by simp
    next
      case (Some i)
      have at: "wire_at n addrs i (s1, w)" using w1 find_live(2) [OF _ Some] by (auto simp: wire_at_def server_wire_def)
      show ?thesis
      proof (cases "cs_state (sv_session s1 i) = REL4U_STATE_CONNECTED")
        case con: True
        show ?thesis
        proof (cases "rel4u_send_window_can_send (cs_send_win (sv_session s1 i))")
          case True
          with b got Some con obtain sw1 where 1: "server_transmit e i (s1, w) = Some sw1" "server_drain e sw1 = Some sw'"
            by (auto split: option.splits)
          from "1.IH"(2) [OF g [symmetric] _ Some con True 1(1) "1.prems"(1) 1(2)] got server_transmit_wire [OF "1.prems"(1) 1(1) at]
          show ?thesis by simp
        next
          case False
          with b got Some con w1 show ?thesis by simp
        qed
      next
        case con: False
        with b got Some have "server_drain e (s1\<lparr>sv_has_pending_item := False\<rparr>, w) = Some sw'" by simp
        with "1.IH"(3) [OF g [symmetric] _ Some con "1.prems"(1)] got w1 show ?thesis by simp
      qed
    qed
  next
    case False
    with b w1 show ?thesis by simp
  qed
qed

lemma server_resend_wire:
  "env_ok e \<Longrightarrow> server_resend e now i ks sw = Some sw' \<Longrightarrow> wire_at n addrs i sw \<Longrightarrow> wire_at n addrs i sw'"
proof (induction e now i ks sw rule: server_resend.induct)
  case (2 e now i k ks s w)
  note b = "2.prems"(2) [unfolded server_resend.simps]
  from b obtain win where m: "mark_retransmit (cs_send_win (sv_session s i)) k now = Some win" by (rule bind_someE)
  note b = b [unfolded m Option.bind.bind_lunit]
  from b obtain x where x: "deref (sw_slots win) k = Some x" by (rule bind_someE)
  note b = b [unfolded x Option.bind.bind_lunit]
  let ?s = "set_session i ((sv_session s i)\<lparr>cs_send_win := win\<rparr>) s"
  from b obtain sw1 where p: "server_send_packet e i REL4U_PKT_DATA (ss_delivery_mode x) (ss_seq_num x) (Some (ss_payload x))
      (ucast (ss_payload_len x)) (?s, w) = Some sw1" "server_resend e now i ks sw1 = Some sw'" by (rule bind_someE)
  have "wire_at n addrs i (?s, w)"
    by (rule set_session_wire) (use "2.prems"(3) wire_at_active in \<open>simp_all add: session_active_def\<close>)
  from "2.IH" [OF m x p(1) "2.prems"(1) p(2) server_data_wire [OF "2.prems"(1) p(1) this]] show ?case .
qed simp

lemma server_retransmit_wire:
  assumes env: "env_ok e" and r: "server_retransmit e now i (s, w) = Some sw'" and wire: "wire_at n addrs i (s, w)"
  shows "wire_at n addrs i sw'"
proof -
  note b = r [unfolded server_retransmit_def case_prod_conv Let_def]
  from b obtain idx where x: "rel4u_send_window_get_expired (cs_send_win (sv_session s i)) now
      (rel4u_rtt_get_rto (Some (cs_rtt (sv_session s i)))) 16 = Some idx" by (rule bind_someE)
  note b = b [unfolded x Option.bind.bind_lunit]
  have "wire_at n addrs i (set_session i ((sv_session s i)\<lparr>cs_rtt := rtt, cs_stats := st\<rparr>) s, w)" for rtt st
    by (rule set_session_wire [OF wire]) (use wire_at_active [OF wire] in \<open>simp_all add: session_active_def\<close>)
  with b wire server_resend_wire [OF env] show ?thesis by (auto split: if_splits)
qed

lemma server_heartbeat_wire:
  assumes env: "env_ok e" and r: "server_heartbeat e now i (s, w) = Some sw'" and wire: "wire_at n addrs i (s, w)"
  shows "wire_at n addrs i sw'"
proof -
  have "wire_at n addrs i (set_session i ((sv_session s1 i)\<lparr>cs_last_heartbeat_sent_ns := now\<rparr>) s1, w1)"
    if "server_send_control e i REL4U_PKT_HEARTBEAT (s, w) = Some (s1, w1)" for s1 w1
  proof -
    have 1: "wire_at n addrs i (s1, w1)" by (rule server_control_wire [OF env that wire]) (simp add: server_packets_def)
    show ?thesis by (rule set_session_wire [OF 1]) (use wire_at_active [OF 1] in \<open>simp_all add: session_active_def\<close>)
  qed
  with r wire show ?thesis by (auto simp: server_heartbeat_def split: if_splits)
qed

lemma server_session_timers_wire:
  assumes env: "env_ok e" and r: "server_session_timers e now i (s, w) = Some sw'" and wire: "server_wire n addrs (s, w)" and i: "i < n"
  shows "server_wire n addrs sw'"
proof (cases "cs_state (sv_session s i) = REL4U_STATE_CONNECTED \<and>
    \<not> now - cs_last_activity_ns (sv_session s i) \<ge> ucast (sc_inactivity_timeout_ms (sv_config s)) * 1000000")
  case False
  have "server_wire n addrs (s\<lparr>sv_session_table := rel4u_session_free (sv_session_table s) (Some i)\<rparr>, w)"
    using wire free_addrs [of n addrs "sv_session_table s" i] by (simp add: server_wire_def)
  with False r wire show ?thesis by (auto simp: server_session_timers_def split: if_splits)
next
  case True
  have at: "wire_at n addrs i (s, w)"
    using True wire i by (auto simp: wire_at_def server_wire_def table_addrs_def live_def session_active_def sv_session_def)
  have b: "Option.bind (server_retransmit e now i (s, w)) (\<lambda>(s, w).
      Option.bind (if cs_ack_pending (sv_session s i) then server_send_control e i REL4U_PKT_ACK (s, w) else Some (s, w)) (\<lambda>(s, w).
        server_heartbeat e now i (s, w))) = Some sw'"
    using r True by (simp add: server_session_timers_def)
  from b obtain s1 w1 where 1: "server_retransmit e now i (s, w) = Some (s1, w1)" by (rule bind_someE) auto
  note b = b [unfolded 1 Option.bind.bind_lunit case_prod_conv]
  from b obtain s2 w2 where
    2: "(if cs_ack_pending (sv_session s1 i) then server_send_control e i REL4U_PKT_ACK (s1, w1) else Some (s1, w1)) = Some (s2, w2)"
    by (rule bind_someE) auto
  note b = b [unfolded 2 Option.bind.bind_lunit case_prod_conv]
  note w1 = server_retransmit_wire [OF env 1 at]
  have w2: "wire_at n addrs i (s2, w2)"
    using 2 w1 server_control_wire [OF env _ w1, of REL4U_PKT_ACK "(s2, w2)"] by (auto simp: server_packets_def split: if_splits)
  show ?thesis by (rule wire_atD [OF server_heartbeat_wire [OF env b w2]])
qed

lemma server_timers_loop_wire:
  "env_ok e \<Longrightarrow> server_timers_loop e now is sw = Some sw' \<Longrightarrow> server_wire n addrs sw \<Longrightarrow> \<forall>i \<in> set is. i < n \<Longrightarrow> server_wire n addrs sw'"
proof (induction e now "is" sw rule: server_timers_loop.induct)
  case (2 e now i "is" sw)
  from "2.prems"(2) obtain sw1 where 1: "server_session_timers e now i sw = Some sw1" "server_timers_loop e now is sw1 = Some sw'"
    unfolding server_timers_loop.simps by (rule bind_someE)
  have "server_wire n addrs sw1"
    using server_session_timers_wire [OF "2.prems"(1), of now i "fst sw" "snd sw" sw1 n addrs] 1(1) "2.prems"(3,4) by simp
  with "2.IH" [OF 1(1) "2.prems"(1) 1(2)] "2.prems"(4) show ?case by simp
qed simp

lemma server_timers_wire:
  assumes env: "env_ok e" and r: "server_timers e (s, w) = Some sw'" and wire: "server_wire n addrs (s, w)"
  shows "server_wire n addrs sw'"
proof -
  obtain t w1 where t: "rel4u_time_now_ns e w = (t, w1)" by (metis prod.exhaust)
  have "unat (st_max_clients (sv_session_table s)) = n" using wire by (simp add: server_wire_def table_addrs_def)
  with r server_timers_loop_wire [OF env, of t "[0..<n]" "(s, w1)" sw'] wire server_wire_clock [OF t] show ?thesis
    by (simp add: server_timers_def t)
qed

lemma server_round_wire:
  assumes env: "env_ok e" and r: "server_round e ((ret, revents), dgs) (s, w) = Some sw'" and wire: "server_wire n addrs (s, w)"
    and src: "snd ` set dgs \<subseteq> addrs"
  shows "server_wire n addrs sw'"
proof -
  obtain t w0 where t: "rel4u_time_now_ns e w = (t, w0)" by (metis prod.exhaust)
  obtain x sr pr where p: "rel4u_net_poll (sv_sock s) (Some (sv_wakeup_pipe s)) ret revents = (x, sr, pr)" by (metis prod.exhaust)
  note b = r [unfolded server_round_def case_prod_conv t p]
  from b obtain sw1 where 1: "(if sr then server_receive e dgs (s, w0) else Some (s, w0)) = Some sw1" by (rule bind_someE)
  note b = b [unfolded 1 Option.bind.bind_lunit]
  from b obtain sw2 where 2: "server_drain e sw1 = Some sw2" "server_timers e sw2 = Some sw'" by (rule bind_someE)
  have "server_wire n addrs (s, w0)" using wire server_wire_clock [OF t] by simp
  then have "server_wire n addrs sw1" using 1 server_receive_wire [OF env _ _ src] by (auto split: if_splits)
  note w2 = server_drain_wire [OF env 2(1) this]
  show ?thesis using server_timers_wire [OF env, of "fst sw2" "snd sw2" sw' n addrs] 2(2) w2 by simp
qed

subsection \<open>Runs\<close>

lemma server_send_wire:
  assumes r: "rel4u_server_send e cid mode data len (s, w) = Some (k, sw')" and wire: "server_wire n addrs (s, w)"
  shows "server_wire n addrs sw'"
proof (cases "\<exists>bytes. data = Some bytes \<and> unat len \<le> REL4U_MAX_PAYLOAD (sc_mtu (sv_config s)) \<and> sv_running s")
  case True
  then obtain bytes where g: "data = Some bytes" "\<not> REL4U_MAX_PAYLOAD (sc_mtu (sv_config s)) < unat len" "sv_running s"
    by (auto simp: not_less)
  note b = r [unfolded rel4u_server_send_def case_prod_conv g(1) option.case]
  obtain q w1 where "sw' = (s\<lparr>sv_send_queue := q\<rparr>, w1) \<or> (\<exists>st. sw' = (s\<lparr>sv_send_queue := q, sv_stats := st\<rparr>, w1))" "wd_sent w1 = wd_sent w"
    using b g by (cases "memcpy (it_data (env_item e)) bytes (unat len)") (force simp: Let_def case_prod_beta split: if_splits)+
  with wire show ?thesis by (auto simp: server_wire_def wire_ok_def)
next
  case False
  then have "\<exists>k. rel4u_server_send e cid mode data len (s, w) = Some (k, s, w)"
    by (auto simp: rel4u_server_send_def split: option.splits)
  with r wire show ?thesis by auto
qed

lemma server_recv_wire:
  "rel4u_server_recv e wakes buffer bsize timeout s = Some (Some (r, s', cid, b, k)) \<Longrightarrow> server_wire n addrs (s, w) \<Longrightarrow>
   server_wire n addrs (s', w)"
  by (auto simp: rel4u_server_recv_def Let_def split: option.splits if_splits prod.splits)

lemma server_disconnect_client_wire:
  assumes env: "env_ok e" and wire: "server_wire n addrs (s, w)"
  shows "server_wire n addrs (snd (rel4u_server_disconnect_client e cid (s, w)))"
proof (cases "rel4u_session_find_by_id (sv_session_table s) cid")
  case (Some i)
  have t: "table_addrs n addrs (sv_session_table s)" using wire by (simp add: server_wire_def)
  have "cs_addr (sv_session s i) \<in> addrs" using live_addr [OF t find_live(2) [OF t Some]] by (simp add: sv_session_def)
  from server_bare_wire [OF env wire this, of REL4U_PKT_DISCONNECT "sv_sock s" "cs_session_id (sv_session s i)" 0] free_addrs [OF t, of i] Some
  show ?thesis by (simp add: rel4u_server_disconnect_client_def server_wire_def server_packets_def Let_def case_prod_beta)
qed (use wire in \<open>simp add: rel4u_server_disconnect_client_def\<close>)

lemma server_start_wire: "server_wire n addrs (s, w) \<Longrightarrow> server_wire n addrs (snd (rel4u_server_start sys s), w)"
  by (auto simp: rel4u_server_start_def server_wire_def Let_def split: prod.splits)

lemma server_teardown_wire: "server_wire n addrs (s, w) \<Longrightarrow> server_wire n addrs (server_teardown e s, w)"
  by (simp add: server_teardown_def server_wire_def Let_def free_all_addrs)

text \<open>The addresses from which the datagrams of an event come.\<close>

fun event_sources :: "server_event \<Rightarrow> rel4u_net_addr set" where
  "event_sources (Server_Receive dgs) = snd ` set dgs"
| "event_sources (Server_Round (polled, dgs)) = snd ` set dgs"
| "event_sources _ = {}"

lemma server_step_wire:
  assumes env: "env_ok e" and r: "server_step e x sw = Some sw'" and x: "event_sources x \<subseteq> addrs" and wire: "server_wire n addrs sw"
  shows "server_wire n addrs sw'"
proof -
  obtain s w where sw: "sw = (s, w)" by (cases sw)
  note wire = wire [unfolded sw] and r = r [unfolded sw]
  show ?thesis
  proof (cases x)
    case (Server_Start sys)
    with r server_start_wire [OF wire, of sys] show ?thesis by auto
  next
    case Server_Shutdown
    with r wire show ?thesis by (auto simp: server_shutdown_def)
  next
    case Server_Teardown
    with r server_teardown_wire [OF wire, of e] show ?thesis by auto
  next
    case (Server_Send cid mode data len)
    with r server_send_wire [OF _ wire, of e cid mode data len] show ?thesis by auto
  next
    case (Server_Recv buffer bsize)
    from r [unfolded Server_Recv] obtain k where k: "rel4u_server_recv e [] buffer bsize 0 s = Some k"
      "sw' = (case k of None \<Rightarrow> (s, w) | Some (_, s, _, _, _) \<Rightarrow> (s, w))" by auto
    show ?thesis
    proof (cases k)
      case (Some l)
      obtain a s' c b m where "l = (a, s', c, b, m)" by (cases l)
      with k Some server_recv_wire [of e "[]" buffer bsize 0 s a s' c b m n addrs w] wire show ?thesis by simp
    qed (use k wire in simp)
  next
    case (Server_Disconnect_Client cid)
    with r server_disconnect_client_wire [OF env wire, of cid] show ?thesis by auto
  next
    case (Server_Receive dgs)
    with r x server_receive_wire [OF env _ wire, of dgs] show ?thesis by simp
  next
    case Server_Drain
    with r server_drain_wire [OF env _ wire] show ?thesis by simp
  next
    case Server_Timers
    with r server_timers_wire [OF env _ wire] show ?thesis by simp
  next
    case (Server_Round inp)
    obtain ret revents dgs where "inp = ((ret, revents), dgs)" by (metis prod.exhaust)
    with Server_Round r x server_round_wire [OF env _ wire, of ret revents dgs] show ?thesis by simp
  qed
qed

interpretation server_sends: kept_by_events "server_step e" "\<lambda>sw. env_ok e \<and> server_wire n addrs sw" "\<lambda>x. event_sources x \<subseteq> addrs" for e n addrs
  using server_step_wire by unfold_locales blast

text \<open>
  C11. A server sends nothing but well-formed packets, and only to those who have contacted it. From \<open>rel4u_server_create\<close>, with an MTU of at most 9240, at most $2^{31}$ clients and
  memory for the windows, after any history of calls, worker rounds and datagrams, every datagram handed to \<open>sendto\<close> is one the decoder of the other side accepts, with a type a server may send and
  exactly as many bytes of payload as its header says; and its destination is the source of a datagram the server has received.
\<close>

theorem server_sends_packets:
  assumes "rel4u_server_create mem (Some cfg) = Some s" "server_mem_ok mem cfg" "server_cfg_ok cfg"
    and "env_ok e" "calloc_total e" "\<forall>x \<in> set xs. server_event_ok x" "wd_sent w = []"
  shows "\<exists>s' w'. run_events (server_step e) xs (s, w) = Some (s', w') \<and>
    (\<forall>(a, bs) \<in> set (wd_sent w'). well_formed server_packets bs \<and> (\<exists>x \<in> set xs. a \<in> event_sources x))"
proof -
  let ?n = "unat (sc_max_clients (server_defaults cfg))" and ?addrs = "\<Union> (event_sources ` set xs)"
  note s = server_created [OF assms(1-3)]
  from server_run.run_safe [of e ?n "(s, w)" xs] assms(4-6) s(1)
  obtain s' w' where r: "run_events (server_step e) xs (s, w) = Some (s', w')" by auto
  have t: "session_inv (sv_session_table s)" "length (st_sessions (sv_session_table s)) = ?n"
    using s(1) by (simp_all add: server_inv_def table_inv_def)
  have "filter session_active (st_sessions (sv_session_table s)) = []"
    using session_invD(3) [OF t(1)] s(6) by simp
  then have "table_addrs ?n ?addrs (sv_session_table s)"
    using t session_invD(2) [OF t(1)] by (auto simp: table_addrs_def filter_empty_conv)
  then have "server_wire ?n ?addrs (s, w)" using assms(7) by (simp add: server_wire_def wire_ok_def)
  moreover have "\<forall>x \<in> set xs. event_sources x \<subseteq> ?addrs" by blast
  ultimately have "server_wire ?n ?addrs (s', w')" using server_sends.run_kept [OF r, of ?addrs ?n] assms(4) by blast
  with r show ?thesis by (auto simp: server_wire_def wire_ok_def)
qed

definition ex_host :: sys where
  "ex_host = \<lparr>sys_getaddrinfo = (\<lambda>_ _. (0, Some (ex_addr 1))), sys_socket = (\<lambda>_. 3), sys_bind = (\<lambda>_ _. 0), sys_pipe = (0, 4, 5),
     sys_thread_create = 0\<rparr>"

lemma server_sends_packets_witness:
  "\<exists>s' w' bs. run_events (server_step ex_env) [Server_Start ex_host, Server_Receive
       [(header_bytes (packet_header 7 REL4U_PKT_ACK 0 0 0 0 0), ex_addr 2)]] (ex_server, ex_world) = Some (s', w') \<and>
     wd_sent w' = [(ex_addr 2, bs)] \<and> well_formed server_packets bs"
proof -
  let ?h = "packet_header 7 REL4U_PKT_ACK 0 0 0 0 0" and ?s = "snd (rel4u_server_start ex_host ex_server)"
  let ?xs = "[Server_Start ex_host, Server_Receive [(header_bytes ?h, ex_addr 2)]]"
  have "\<forall>x \<in> set ?xs. server_event_ok x" "wd_sent ex_world = []" by (simp_all add: ex_world_def)
  from server_sends_packets [OF ex_server_create ex_server_ok ex_env_ok ex_server_facts(4) this]
  obtain s' w' where r: "run_events (server_step ex_env) ?xs (ex_server, ex_world) = Some (s', w')"
    "\<forall>(a, bs) \<in> set (wd_sent w'). well_formed server_packets bs \<and> (\<exists>x \<in> set ?xs. a \<in> event_sources x)" by (elim exE conjE) (rule that)
  have st: "sv_sock ?s = 3" "sv_session_table ?s = sv_session_table ex_server" using ex_server_facts(3)
    by (simp_all add: rel4u_server_start_def ex_host_def rel4u_net_addr_from_string_def rel4u_net_socket_create_udp_def rel4u_net_socket_bind_def
      rel4u_wakeup_pipe_create_def Let_def)
  have sock: "sv_sock ?s \<noteq> -1" and type: "packet_type ?h \<noteq> REL4U_PKT_CONNECT_REQ" using st by simp_all
  have "\<exists>w1 st. server_on_datagram ex_env (header_bytes ?h, ex_addr 2) (?s, ex_world) = Some (?s\<lparr>sv_stats := st\<rparr>, w1) \<and>
      (\<exists>bs. wd_sent w1 = [(ex_addr 2, bs)])"
    using server_stray_law [OF ex_env_ok sock decode_control type, of "ex_addr 2" ex_world] ex_server_idle(2) st(2) by (auto simp: ex_world_def)
  then obtain w1 st bs where d: "server_on_datagram ex_env (header_bytes ?h, ex_addr 2) (?s, ex_world) = Some (?s\<lparr>sv_stats := st\<rparr>, w1)"
      "wd_sent w1 = [(ex_addr 2, bs)]" by (elim exE conjE) (rule that)
  have "header_bytes ?h \<noteq> []" "length (header_bytes ?h) = 24" by (simp_all add: header_bytes_def be16_def be32_def)
  then have "run_events (server_step ex_env) ?xs (ex_server, ex_world) = Some (?s\<lparr>sv_stats := st\<rparr>, w1)"
    using st(1) d(1) by (simp add: rel4u_net_recvfrom_def)
  with r(1) have "w' = w1" by simp
  with r(2) d(2) have "well_formed server_packets bs" by simp
  with r(1) d(2) \<open>w' = w1\<close> show ?thesis by (intro exI [of _ s'] exI [of _ w'] exI [of _ bs] conjI) simp_all
qed

end
