(* ===== verification/Platform_Net.thy ===== *)
theory Platform_Net
  imports Platform
begin

unbundle bit_operations_syntax

text \<open>
  The rest of the POSIX branch of \<open>rel4u_net.c\<close>: numbers in text, as \<open>atoi\<close> and \<open>printf\<close> read and
  write them, the text form of an address, socket options, and the wake-up pipe with
  the bytes that are in it.

  \<^item> What \<open>fcntl\<close>, \<open>setsockopt\<close> and \<open>getnameinfo\<close> answer are arguments, as is the value of \<open>O_NONBLOCK\<close>.
  \<^item> A pipe holds a number of bytes, at most its capacity. Both ends are non-blocking: a
    write to a full pipe is refused, a read from an empty one fails.
  \<^item> \<open>atoi_decimal\<close> is the round trip of printed numbers; \<open>addr_to_string_port\<close> uses it for ports;
    \<open>wakeup_pending\<close> says when a poll of the pipe finds something to read.
\<close>

subsection \<open>Numbers in text\<close>

definition digit_char :: "nat \<Rightarrow> char" where
  "digit_char d = char_of (48 + d)"

fun decimal :: "nat \<Rightarrow> string" where
  "decimal n = (if n < 10 then [digit_char n] else decimal (n div 10) @ [digit_char (n mod 10)])"

declare decimal.simps [simp del]

definition zero_padded :: "nat \<Rightarrow> string \<Rightarrow> string" where
  "zero_padded width s = replicate (width - length s) (CHR ''0'') @ s"

definition is_digit :: "char \<Rightarrow> bool" where
  "is_digit c = (48 \<le> (of_char c :: nat) \<and> (of_char c :: nat) \<le> 57)"

definition is_blank :: "char \<Rightarrow> bool" where
  "is_blank c = ((of_char c :: nat) = 32 \<or> 9 \<le> (of_char c :: nat) \<and> (of_char c :: nat) \<le> 13)"

fun read_digits :: "int \<Rightarrow> string \<Rightarrow> int" where
  "read_digits acc [] = acc"
| "read_digits acc (c # s) = (if is_digit c then read_digits (acc * 10 + int (of_char c - 48)) s else acc)"

text \<open>\<open>None\<close>, where C leaves the result undefined: a number that is no \<open>int\<close>.\<close>

definition atoi :: "string \<Rightarrow> int option" where
  "atoi s =
     (let v = (case dropWhile is_blank s of
                 [] \<Rightarrow> 0
               | c # r \<Rightarrow>
                   if c = CHR ''-'' then - read_digits 0 r
                   else if c = CHR ''+'' then read_digits 0 r
                   else read_digits 0 (c # r))
      in if - (2 ^ 31) \<le> v \<and> v < 2 ^ 31 then Some v else None)"

lemma digit_char_facts:
  assumes "d < 10"
  shows "is_digit (digit_char d)" "of_char (digit_char d) - 48 = d" "\<not> is_blank (digit_char d)"
    "digit_char d \<noteq> CHR ''-''" "digit_char d \<noteq> CHR ''+''"
proof -
  have v: "(of_char (digit_char d) :: nat) = 48 + d" using assms by (simp add: digit_char_def)
  then show "is_digit (digit_char d)" "of_char (digit_char d) - 48 = d" "\<not> is_blank (digit_char d)"
    using assms by (simp_all add: is_digit_def is_blank_def)
  show "digit_char d \<noteq> CHR ''-''" "digit_char d \<noteq> CHR ''+''" using v by auto
qed

lemma read_digits_append:
  "\<forall>c \<in> set s. is_digit c \<Longrightarrow> read_digits acc (s @ t) = read_digits (read_digits acc s) t"
  by (induction s arbitrary: acc) auto

lemma decimal_digits: "\<forall>c \<in> set (decimal n). is_digit c"
proof (induction n rule: decimal.induct)
  case (1 n)
  show ?case
    using 1 digit_char_facts(1) [of n] digit_char_facts(1) [of "n mod 10"]
    by (subst decimal.simps) (auto split: if_splits)
qed

lemma read_decimal: "read_digits 0 (decimal n) = int n"
proof (induction n rule: decimal.induct)
  case (1 n)
  show ?case
  proof (cases "n < 10")
    case True
    then show ?thesis using digit_char_facts [of n] by (subst decimal.simps) simp
  next
    case False
    have "read_digits 0 (decimal n) = int (n div 10) * 10 + int (n mod 10)"
      using 1 [OF False] False digit_char_facts [of "n mod 10"]
      by (subst decimal.simps) (simp add: read_digits_append [OF decimal_digits])
    then show ?thesis using div_mult_mod_eq [of n 10] by (simp flip: of_nat_mult of_nat_add add: zdiv_int zmod_int)
  qed
qed

lemma decimal_not_Nil [simp]: "decimal n \<noteq> []"
  by (subst decimal.simps) simp

lemma atoi_digits:
  assumes "s \<noteq> []" "\<forall>c \<in> set s. is_digit c" "read_digits 0 s = int n" "n < 2 ^ 31"
  shows "atoi s = Some (int n)"
proof -
  obtain c r where s: "s = c # r" using assms(1) by (cases s) auto
  then have "48 \<le> (of_char c :: nat)" "(of_char c :: nat) \<le> 57" using assms(2) by (simp_all add: is_digit_def)
  then have "\<not> is_blank c" "c \<noteq> CHR ''-''" "c \<noteq> CHR ''+''" by (auto simp: is_blank_def)
  with s assms(3,4) show ?thesis by (simp add: atoi_def)
qed

lemma atoi_decimal: "n < 2 ^ 31 \<Longrightarrow> atoi (decimal n) = Some (int n)"
  by (simp add: atoi_digits decimal_digits read_decimal)

lemma read_zeros: "read_digits 0 (replicate k (CHR ''0'') @ s) = read_digits 0 s"
  by (induction k) (simp_all add: is_digit_def)

lemma atoi_zero_padded:
  assumes "n < 2 ^ 31"
  shows "atoi (zero_padded w (decimal n)) = Some (int n)"
proof (rule atoi_digits)
  show "\<forall>c \<in> set (zero_padded w (decimal n)). is_digit c"
    using decimal_digits [of n] by (auto simp: zero_padded_def is_digit_def)
qed (use assms in \<open>simp_all add: zero_padded_def read_zeros read_decimal\<close>)

subsection \<open>Addresses as text\<close>

text \<open>
  \<open>named\<close> is what \<open>getnameinfo\<close> answers: its error, the host and the service. The results are the
  return code and, where the code writes them, the string, cut to the buffer with its final zero, and the port; \<open>None\<close> if the service is no number of type \<open>int\<close>.
\<close>

definition rel4u_net_addr_to_string ::
  "(rel4u_net_addr \<Rightarrow> int \<times> string \<times> string) \<Rightarrow> rel4u_net_addr option \<Rightarrow> string option \<Rightarrow> size_t \<Rightarrow> u16 option \<Rightarrow>
   (int \<times> string option \<times> u16 option) option" where
  "rel4u_net_addr_to_string named addr out_str str_len out_port =
     (case (addr, out_str) of
        (Some a, Some _) \<Rightarrow>
          if str_len = 0 then Some (-1, out_str, out_port)
          else
            (case named a of
               (err, host_buf, serv_buf) \<Rightarrow>
                 if err \<noteq> 0 then Some (-1, out_str, out_port)
                 else
                   (let str = Some (take (unat str_len - 1) host_buf)
                    in case out_port of
                         None \<Rightarrow> Some (0, str, None)
                       | Some _ \<Rightarrow> map_option (\<lambda>port. (0, str, Some (of_int port))) (atoi serv_buf)))
      | _ \<Rightarrow> Some (-1, out_str, out_port))"

text \<open>The numeric service of an address gives back its port, and a host that fits is not cut.\<close>

lemma addr_to_string_port:
  assumes "named a = (0, host, decimal (unat (port :: u16)))" "length host < unat str_len"
  shows "rel4u_net_addr_to_string named (Some a) (Some s) str_len (Some p) = Some (0, Some host, Some port)"
proof -
  have "str_len \<noteq> 0" using assms(2) by auto
  moreover have "take (unat str_len - 1) host = host" using assms(2) by simp
  moreover have "unat port < 2 ^ 31" using unsigned_less [of port, where 'a = nat] by simp
  ultimately show ?thesis using assms(1) by (simp add: rel4u_net_addr_to_string_def atoi_decimal)
qed

subsection \<open>Socket options\<close>

definition rel4u_net_socket_set_nonblocking :: "int \<Rightarrow> int \<Rightarrow> (int \<Rightarrow> int) \<Rightarrow> bool \<Rightarrow> int" where
  "rel4u_net_socket_set_nonblocking o_nonblock getfl setfl nonblocking =
     (if getfl < 0 then -1
      else setfl (if nonblocking then getfl OR o_nonblock else getfl AND NOT o_nonblock))"

text \<open>The calls of \<open>setsockopt\<close> as option and value, in their order; the first result is the return code.\<close>

datatype sockopt = SO_REUSEADDR | SO_SNDBUF | SO_RCVBUF

definition rel4u_net_socket_set_reuseaddr :: "(sockopt \<Rightarrow> int \<Rightarrow> int) \<Rightarrow> bool \<Rightarrow> int \<times> (sockopt \<times> int) list" where
  "rel4u_net_socket_set_reuseaddr setopt reuse =
     (let val = (if reuse then 1 else 0) in (setopt SO_REUSEADDR val, [(SO_REUSEADDR, val)]))"

definition rel4u_net_socket_set_buffer_sizes :: "int \<Rightarrow> int \<Rightarrow> int \<times> (sockopt \<times> int) list" where
  "rel4u_net_socket_set_buffer_sizes send_size recv_size =
     (0, (if send_size > 0 then [(SO_SNDBUF, send_size)] else []) @ (if recv_size > 0 then [(SO_RCVBUF, recv_size)] else []))"

text \<open>Only the bit of \<open>O_NONBLOCK\<close> changes, and setting it and clearing it undo each other.\<close>

lemma set_nonblocking_bits:
  assumes "0 \<le> fl"
  shows "rel4u_net_socket_set_nonblocking (2 ^ b) fl id nb = (if nb then set_bit b fl else unset_bit b fl)"
  using assms by (auto simp: rel4u_net_socket_set_nonblocking_def set_bit_eq_or unset_bit_eq_and_not push_bit_eq_mult)

subsection \<open>The wake-up pipe\<close>

definition rel4u_wakeup_pipe_signal :: "nat \<Rightarrow> rel4u_wakeup_pipe \<Rightarrow> nat \<Rightarrow> nat" where
  "rel4u_wakeup_pipe_signal capacity p n =
     (if write_fd p \<noteq> -1 then (if n < capacity then n + 1 else n) else n)"

text \<open>One \<open>read\<close> takes at most the 64 bytes of the buffer, and the loop ends when it takes none.\<close>

fun read_loop :: "nat \<Rightarrow> nat" where
  "read_loop n = (let k = min 64 n in if k > 0 then read_loop (n - k) else n)"

declare read_loop.simps [simp del]

definition rel4u_wakeup_pipe_drain :: "rel4u_wakeup_pipe \<Rightarrow> nat \<Rightarrow> nat" where
  "rel4u_wakeup_pipe_drain p n = (if read_fd p \<noteq> -1 then read_loop n else n)"

lemma read_loop_empties: "read_loop n = 0"
proof (induction n rule: read_loop.induct)
  case (1 n)
  then show ?case by (subst read_loop.simps) (auto simp: Let_def)
qed

datatype pipe_op = Signal | Drain

definition pipe_step :: "nat \<Rightarrow> rel4u_wakeup_pipe \<Rightarrow> pipe_op \<Rightarrow> nat \<Rightarrow> nat" where
  "pipe_step capacity p x n =
     (case x of Signal \<Rightarrow> rel4u_wakeup_pipe_signal capacity p n | Drain \<Rightarrow> rel4u_wakeup_pipe_drain p n)"

text \<open>
  No wake-up is lost and none is left over: after any calls on an open pipe there is something to read
  exactly if there was a signal after the last drain, however many signals found the pipe full.
\<close>

lemma wakeup_pending:
  assumes "read_fd p \<noteq> -1" "write_fd p \<noteq> -1" "0 < capacity"
  shows "fold (pipe_step capacity p) ops 0 \<le> capacity \<and>
    (0 < fold (pipe_step capacity p) ops 0 \<longleftrightarrow> Signal \<in> set (takeWhile (\<lambda>x. x \<noteq> Drain) (rev ops)))"
proof (induction ops rule: rev_induct)
  case (snoc x ops)
  then show ?case using assms
    by (cases x) (auto simp: pipe_step_def rel4u_wakeup_pipe_signal_def rel4u_wakeup_pipe_drain_def read_loop_empties)
qed simp

end
