(* ===== verification/Platform_Windows.thy ===== *)
theory Platform_Windows
  imports Platform_Net
begin

text \<open>
  The Windows branches of \<open>rel4u_time.c\<close>, \<open>rel4u_net.c\<close> and \<open>rel4u_threads.c\<close>, where they do more than call one system function.

  \<^item> The performance counter is a 64-bit word, and its conversion to nanoseconds wraps as in C: \<open>win32_clock_exact\<close> gives
    the range in which the clock is right, \<open>win32_clock_back\<close> the reading at which it falls back.
  \<^item> \<open>win32_net\<close> is what the process holds: whether the socket library was started, how many of its starts are not
    undone, and the open sockets. What the socket calls answer are arguments.
  \<^item> The wake-up pipe is a pair of connected sockets: \<open>win32_pipe_no_leak\<close> says that a failure at any point leaves no
    socket open, and \<open>win32_poll_agrees\<close> and \<open>win32_drain_agrees\<close> that it behaves like the pipe of the POSIX branch.
\<close>

subsection \<open>Time\<close>

record win32_clock =
  g_perf_frequency :: u64
  g_perf_init :: bool

definition init_perf_counter :: "u64 \<Rightarrow> win32_clock \<Rightarrow> win32_clock" where
  "init_perf_counter frequency t =
     (if \<not> g_perf_init t then t\<lparr>g_perf_frequency := frequency, g_perf_init := True\<rparr> else t)"

definition rel4u_time_now_ns_win32 :: "u64 \<Rightarrow> u64 \<Rightarrow> win32_clock \<Rightarrow> u64 \<times> win32_clock" where
  "rel4u_time_now_ns_win32 frequency counter t =
     (let t = init_perf_counter frequency t
      in (counter * 1000000000 div g_perf_frequency t, t))"

definition rel4u_time_now_ms_win32 :: "u64 \<Rightarrow> u64 \<Rightarrow> win32_clock \<Rightarrow> u64 \<times> win32_clock" where
  "rel4u_time_now_ms_win32 frequency counter t =
     (case rel4u_time_now_ns_win32 frequency counter t of (ns, t) \<Rightarrow> (ns div 1000000, t))"

definition perf_frequency_ok :: "u64 \<Rightarrow> win32_clock \<Rightarrow> bool" where
  "perf_frequency_ok frequency t \<longleftrightarrow> (g_perf_init t \<longrightarrow> g_perf_frequency t = frequency)"

lemma win32_clock_exact:
  assumes "perf_frequency_ok frequency t" "unat counter * 1000000000 < 2 ^ 64"
  shows "unat (fst (rel4u_time_now_ns_win32 frequency counter t)) = unat counter * 1000000000 div unat frequency"
proof -
  have "g_perf_frequency (init_perf_counter frequency t) = frequency"
    using assms(1) by (auto simp: init_perf_counter_def perf_frequency_ok_def)
  moreover have "unat (counter * 1000000000) = unat counter * 1000000000" using assms(2) by (simp add: unat_word_ariths)
  ultimately show ?thesis by (simp add: rel4u_time_now_ns_win32_def Let_def unat_div)
qed

lemma win32_clock_wrapped:
  assumes "perf_frequency_ok frequency t"
  shows "unat (fst (rel4u_time_now_ns_win32 frequency 18446744074 t)) = 290448384 div unat frequency"
proof -
  have "g_perf_frequency (init_perf_counter frequency t) = frequency"
    using assms by (auto simp: init_perf_counter_def perf_frequency_ok_def)
  then show ?thesis by (simp add: rel4u_time_now_ns_win32_def Let_def unat_div)
qed

text \<open>
  C39. On Windows the clock of the library is not monotonic. The conversion of the performance counter to nanoseconds leaves 64 bits between
  the counter values 18446744073 and 18446744074, about half an hour after the counter started at its usual frequency of 10 MHz: there
  the clock falls back to almost zero, at every frequency up to 1 GHz.
\<close>

theorem win32_clock_back:
  assumes "perf_frequency_ok frequency t" "0 < unat frequency" "unat frequency \<le> 1000000000"
  shows "unat (fst (rel4u_time_now_ns_win32 frequency 18446744073 t)) = 18446744073000000000 div unat frequency \<and>
    unat (fst (rel4u_time_now_ns_win32 frequency 18446744074 t)) = 290448384 div unat frequency \<and>
    fst (rel4u_time_now_ns_win32 frequency 18446744074 t) < fst (rel4u_time_now_ns_win32 frequency 18446744073 t)"
proof -
  have before: "unat (fst (rel4u_time_now_ns_win32 frequency 18446744073 t)) = 18446744073000000000 div unat frequency"
    using win32_clock_exact [OF assms(1), of 18446744073] by simp
  note after = win32_clock_wrapped [OF assms(1)]
  have "290448384 div unat frequency \<le> 290448384" by (rule div_le_dividend)
  moreover have "18446744073 \<le> 18446744073000000000 div unat frequency"
    using div_le_mono2 [OF assms(2,3), of 18446744073000000000] by simp
  ultimately have "fst (rel4u_time_now_ns_win32 frequency 18446744074 t) < fst (rel4u_time_now_ns_win32 frequency 18446744073 t)"
    unfolding word_less_nat_alt after before by linarith
  with before after show ?thesis by simp
qed

lemma win32_clock_back_witness:
  "fst (rel4u_time_now_ns_win32 10000000 18446744074 \<lparr>g_perf_frequency = 0, g_perf_init = False\<rparr>) <
   fst (rel4u_time_now_ns_win32 10000000 18446744073 \<lparr>g_perf_frequency = 0, g_perf_init = False\<rparr>)"
  using win32_clock_back [of 10000000 "\<lparr>g_perf_frequency = 0, g_perf_init = False\<rparr>"] by (simp add: perf_frequency_ok_def)

subsection \<open>Starting the socket library\<close>

record win32_net =
  wn_initialized :: bool
  wn_starts :: nat
  wn_open :: "int list"

definition rel4u_net_init_win32 :: "int \<Rightarrow> win32_net \<Rightarrow> int \<times> win32_net" where
  "rel4u_net_init_win32 startup n =
     (if \<not> wn_initialized n then
        if startup \<noteq> 0 then (-1, n) else (0, n\<lparr>wn_starts := wn_starts n + 1, wn_initialized := True\<rparr>)
      else (0, n))"

definition rel4u_net_cleanup_win32 :: "win32_net \<Rightarrow> win32_net" where
  "rel4u_net_cleanup_win32 n =
     (if wn_initialized n then n\<lparr>wn_starts := wn_starts n - 1, wn_initialized := False\<rparr> else n)"

text \<open>Starts and their undoing are balanced: at most one start is in effect, exactly if the flag says so.\<close>

definition starts_ok :: "win32_net \<Rightarrow> bool" where
  "starts_ok n \<longleftrightarrow> wn_starts n = (if wn_initialized n then 1 else 0)"

lemma starts_balanced:
  "starts_ok n \<Longrightarrow> starts_ok (snd (rel4u_net_init_win32 startup n))"
  "starts_ok n \<Longrightarrow> starts_ok (rel4u_net_cleanup_win32 n)"
  "starts_ok n \<Longrightarrow> wn_starts (rel4u_net_cleanup_win32 n) = 0"
  by (simp_all add: starts_ok_def rel4u_net_init_win32_def rel4u_net_cleanup_win32_def)

subsection \<open>The wake-up pipe\<close>

record win32_pipe =
  recv_sock :: int
  send_sock :: int

record win32_sys =
  ws_startup :: int
  ws_listener :: int
  ws_bind :: int
  ws_getsockname :: int
  ws_sender :: int
  ws_connect :: int

definition open_socket :: "int \<Rightarrow> win32_net \<Rightarrow> win32_net" where
  "open_socket s n = (if s = REL4U_INVALID_SOCKET then n else n\<lparr>wn_open := s # wn_open n\<rparr>)"

definition closesocket :: "int \<Rightarrow> win32_net \<Rightarrow> win32_net" where
  "closesocket s n = n\<lparr>wn_open := remove1 s (wn_open n)\<rparr>"

definition rel4u_wakeup_pipe_create_win32 :: "win32_sys \<Rightarrow> win32_pipe \<Rightarrow> win32_net \<Rightarrow> int \<times> win32_pipe \<times> win32_net" where
  "rel4u_wakeup_pipe_create_win32 sys p n =
     (let n = snd (rel4u_net_init_win32 (ws_startup sys) n);
          listener = ws_listener sys;
          n = open_socket listener n
      in if listener = REL4U_INVALID_SOCKET then (-1, p, n)
         else if ws_bind sys \<noteq> 0 then (-1, p, closesocket listener n)
         else if ws_getsockname sys \<noteq> 0 then (-1, p, closesocket listener n)
         else
           (let sender = ws_sender sys;
                n = open_socket sender n
            in if sender = REL4U_INVALID_SOCKET then (-1, p, closesocket listener n)
               else if ws_connect sys \<noteq> 0 then (-1, p, closesocket listener (closesocket sender n))
               else (0, p\<lparr>recv_sock := listener, send_sock := sender\<rparr>, n)))"

definition rel4u_wakeup_pipe_close_win32 :: "win32_pipe \<Rightarrow> win32_net \<Rightarrow> win32_pipe \<times> win32_net" where
  "rel4u_wakeup_pipe_close_win32 p n =
     (let (p, n) = (if send_sock p \<noteq> REL4U_INVALID_SOCKET
                    then (p\<lparr>send_sock := REL4U_INVALID_SOCKET\<rparr>, closesocket (send_sock p) n) else (p, n))
      in if recv_sock p \<noteq> REL4U_INVALID_SOCKET
         then (p\<lparr>recv_sock := REL4U_INVALID_SOCKET\<rparr>, closesocket (recv_sock p) n) else (p, n))"

lemma win32_pipe_no_leak:
  assumes "rel4u_wakeup_pipe_create_win32 sys p n = (r, p', n')"
  shows "if r = 0 then wn_open n' = [send_sock p', recv_sock p'] @ wn_open n \<and> send_sock p' \<noteq> -1 \<and> recv_sock p' \<noteq> -1
    else p' = p \<and> wn_open n' = wn_open n"
  using assms
  by (auto simp: rel4u_wakeup_pipe_create_win32_def open_socket_def closesocket_def rel4u_net_init_win32_def Let_def split: if_splits)

lemma win32_pipe_close_undoes:
  assumes "rel4u_wakeup_pipe_create_win32 sys p n = (0, p', n')"
  shows "wn_open (snd (rel4u_wakeup_pipe_close_win32 p' n')) = wn_open n"
  using win32_pipe_no_leak [OF assms] by (auto simp: rel4u_wakeup_pipe_close_win32_def closesocket_def Let_def)

text \<open>
  A signal is a datagram of one byte, of which the system keeps at most \<open>capacity\<close>; every \<open>recv\<close> of the draining loop takes one.
\<close>

definition rel4u_wakeup_pipe_signal_win32 :: "nat \<Rightarrow> win32_pipe \<Rightarrow> nat \<Rightarrow> nat" where
  "rel4u_wakeup_pipe_signal_win32 capacity p n =
     (if send_sock p \<noteq> REL4U_INVALID_SOCKET then (if n < capacity then n + 1 else n) else n)"

fun recv_loop :: "nat \<Rightarrow> nat" where
  "recv_loop n = (if n > 0 then recv_loop (n - 1) else n)"

declare recv_loop.simps [simp del]

definition rel4u_wakeup_pipe_drain_win32 :: "win32_pipe \<Rightarrow> nat \<Rightarrow> nat" where
  "rel4u_wakeup_pipe_drain_win32 p n = (if recv_sock p \<noteq> REL4U_INVALID_SOCKET then recv_loop n else n)"

definition rel4u_net_poll_win32 :: "int \<Rightarrow> win32_pipe option \<Rightarrow> int \<Rightarrow> bool list \<Rightarrow> int \<times> bool \<times> bool" where
  "rel4u_net_poll_win32 sock pipe ret revents =
     (let s = sock \<noteq> REL4U_INVALID_SOCKET;
          p = (case pipe of None \<Rightarrow> False | Some q \<Rightarrow> recv_sock q \<noteq> REL4U_INVALID_SOCKET)
      in if \<not> s \<and> \<not> p then (0, False, False)
         else if ret > 0 then (ret, s \<and> revents ! 0, p \<and> revents ! (if s then 1 else 0))
         else (ret, False, False))"

text \<open>Seen as a pipe of the POSIX branch.\<close>

definition as_posix :: "win32_pipe \<Rightarrow> rel4u_wakeup_pipe" where
  "as_posix p = \<lparr>read_fd = recv_sock p, write_fd = send_sock p\<rparr>"

lemma recv_loop_empties: "recv_loop n = 0"
  by (induction n) (simp_all add: recv_loop.simps)

lemma win32_drain_agrees:
  "rel4u_wakeup_pipe_drain_win32 p n = rel4u_wakeup_pipe_drain (as_posix p) n"
  "rel4u_wakeup_pipe_signal_win32 c p n = rel4u_wakeup_pipe_signal c (as_posix p) n"
  by (simp_all add: rel4u_wakeup_pipe_drain_win32_def rel4u_wakeup_pipe_drain_def recv_loop_empties read_loop_empties
    rel4u_wakeup_pipe_signal_win32_def rel4u_wakeup_pipe_signal_def as_posix_def)

lemma win32_poll_agrees:
  "rel4u_net_poll_win32 sock pipe ret revents = rel4u_net_poll sock (map_option as_posix pipe) ret revents"
  by (cases pipe) (simp_all add: rel4u_net_poll_win32_def rel4u_net_poll_def as_posix_def)

subsection \<open>Threads\<close>

text \<open>
  The context a new thread gets is allocated by the creator and freed by the thread. The number is that of the contexts in existence;
  the arguments are whether \<open>malloc\<close> and \<open>CreateThread\<close> succeed.
\<close>

definition rel4u_thread_create_win32 :: "bool \<Rightarrow> bool \<Rightarrow> nat \<Rightarrow> int \<times> nat" where
  "rel4u_thread_create_win32 malloc_ok created contexts =
     (if \<not> malloc_ok then (-1, contexts)
      else
        (let contexts = contexts + 1
         in if \<not> created then (-1, contexts - 1) else (0, contexts)))"

definition rel4u_win32_thread_trampoline :: "nat \<Rightarrow> nat" where
  "rel4u_win32_thread_trampoline contexts = contexts - 1"

lemma win32_thread_context_freed:
  assumes "rel4u_thread_create_win32 malloc_ok created n = (r, n')"
  shows "if r = 0 then rel4u_win32_thread_trampoline n' = n else n' = n"
  using assms by (auto simp: rel4u_thread_create_win32_def rel4u_win32_thread_trampoline_def split: if_splits)

end
