(* ===== verification/Examples.thy ===== *)
theory Examples
  imports Platform_Net Client_Runs Server_Runs
begin

text \<open>
  The two programs of \<open>examples/\<close> over the models of the library: \<open>server_echo.c\<close> and \<open>client_bench.c\<close>.

  \<^item> Both loop around calls of the library while its worker runs. What the worker does between two calls, and during
    a sleep or a wait, is an argument: one function on the state per iteration. A loop that needs more
    iterations than it is given is not left yet, and the first component of the result says so.
  \<^item> \<open>g_keep_running\<close>, which the signal handler clears, is read anew for every test, as an argument.
  \<^item> A receiving call that waits is evaluated at the moment it goes on: with a message, or with its timeout.
  \<^item> Printing, and the statistics that are only printed, are left out.

  The lemmas show that the echo server never faults and echoes exactly what it receives, and when the retry loop of either
  program is never left.
\<close>

subsection \<open>The echo server\<close>

definition echo_config :: "u16 \<Rightarrow> rel4u_server_config" where
  "echo_config port = \<lparr>sc_bind_address = Some ''0.0.0.0'', sc_bind_port = port, sc_max_clients = 64,
     sc_full_policy = REL4U_MAX_CLIENTS_DROP_OLD, sc_mtu = REL4U_DEFAULT_MTU, sc_send_queue_capacity = 512,
     sc_recv_queue_capacity = 512, sc_window_size = 0, sc_heartbeat_interval_ms = 0, sc_inactivity_timeout_ms = 0,
     sc_memory_mode = REL4U_MEM_FIXED, sc_queue_full_policy = REL4U_QUEUE_FULL_DROP_NEW, sc_max_send_memory_bytes = 0,
     sc_max_recv_memory_bytes = 0\<rparr>"

text \<open>The variables of \<open>main\<close>, and what one iteration of its loop is given.\<close>

record echo_vars =
  ev_client_id :: u32
  ev_buffer :: "u8 list"
  ev_len :: size_t
  ev_echo_count :: u64

record echo_iteration =
  it_keep :: bool
  it_worker :: "server_world \<Rightarrow> server_world option"
  it_keep_reply :: bool
  it_naps :: "(server_world \<Rightarrow> (bool \<times> server_world) option) list"

primrec echo_reply ::
  "env \<Rightarrow> u32 \<Rightarrow> u8 list \<Rightarrow> size_t \<Rightarrow> (server_world \<Rightarrow> (bool \<times> server_world) option) list \<Rightarrow> bool \<Rightarrow> server_world \<Rightarrow>
   (bool \<times> server_world) option" where
  "echo_reply e client_id buffer len [] keep sw =
     (if \<not> keep then Some (True, sw)
      else map_option (\<lambda>(r, sw). (r = REL4U_OK, sw)) (rel4u_server_send e client_id REL4U_MODE_RELIABLE_ORDERED (Some buffer) len sw))"
| "echo_reply e client_id buffer len (nap # naps) keep sw =
     (if \<not> keep then Some (True, sw)
      else do {
        (r, sw) \<leftarrow> rel4u_server_send e client_id REL4U_MODE_RELIABLE_ORDERED (Some buffer) len sw;
        if r = REL4U_OK then Some (True, sw)
        else do {
          (keep, sw) \<leftarrow> nap sw;
          echo_reply e client_id buffer len naps keep sw
        }
      })"

definition echo_iterate :: "env \<Rightarrow> echo_iteration \<Rightarrow> echo_vars \<times> server_world \<Rightarrow> (bool \<times> echo_vars \<times> server_world) option" where
  "echo_iterate e it = (\<lambda>(v, sw). do {
     (s, w) \<leftarrow> it_worker it sw;
     res \<leftarrow> rel4u_server_recv e [(False, sv_recv_queue s)] (Some (ev_buffer v)) (ucast REL4U_DEFAULT_MTU) 100 s;
     case res of
       None \<Rightarrow> Some (False, v, s, w)
     | Some (r, s, cid, buf, len) \<Rightarrow>
         if r = REL4U_OK then do {
           let v = v\<lparr>ev_client_id := the cid, ev_buffer := the buf, ev_len := the len, ev_echo_count := ev_echo_count v + 1\<rparr>;
           (left, sw) \<leftarrow> echo_reply e (ev_client_id v) (ev_buffer v) (ev_len v) (it_naps it) (it_keep_reply it) (s, w);
           Some (left, v, sw)
         }
         else Some (True, v, s, w)
   })"

primrec echo_loop :: "env \<Rightarrow> echo_iteration list \<Rightarrow> echo_vars \<times> server_world \<Rightarrow> (bool \<times> echo_vars \<times> server_world) option" where
  "echo_loop e [] st = Some (False, st)"
| "echo_loop e (it # its) st =
     (if \<not> it_keep it then Some (True, st)
      else do {
        (left, st) \<leftarrow> echo_iterate e it st;
        if left then echo_loop e its st else Some (False, st)
      })"

definition argument_port :: "string option \<Rightarrow> u16 option" where
  "argument_port arg = (case arg of None \<Rightarrow> Some 9000 | Some a \<Rightarrow> map_option of_int (atoi a))"

text \<open>The end of \<open>main\<close>, with its exit code.\<close>

definition echo_end ::
  "env \<Rightarrow> (server_world \<Rightarrow> server_world option) \<Rightarrow> server_world \<Rightarrow> (int option \<times> rel4u_server option \<times> world) option" where
  "echo_end e join sw = map_option (\<lambda>(s, w). (Some 0, Some s, w)) (rel4u_server_destroy e join sw)"

text \<open>
  \<open>main\<close> with its first argument, if there is one; \<open>buffer\<close> is the content of the stack array. The result is the exit code,
  or none while the loop is running, and the server that is left, if one was created.
\<close>

definition echo_main ::
  "env \<Rightarrow> server_mem \<Rightarrow> sys \<Rightarrow> (server_world \<Rightarrow> server_world option) \<Rightarrow> echo_iteration list \<Rightarrow> u8 list \<Rightarrow> string option \<Rightarrow>
   world \<Rightarrow> (int option \<times> rel4u_server option \<times> world) option" where
  "echo_main e mem sys join its buffer arg w = do {
     port \<leftarrow> argument_port arg;
     case rel4u_server_create mem (Some (echo_config port)) of
       None \<Rightarrow> Some (Some 1, None, w)
     | Some s \<Rightarrow>
         let (r, s) = rel4u_server_start sys s
         in if r \<noteq> REL4U_OK then map_option (\<lambda>(s, w). (Some 1, Some s, w)) (rel4u_server_destroy e join (s, w))
            else do {
              (left, _, s, w) \<leftarrow> echo_loop e its (\<lparr>ev_client_id = 0, ev_buffer = buffer, ev_len = 0, ev_echo_count = 0\<rparr>, s, w);
              if left then echo_end e join (s, w) else Some (None, Some s, w)
            }
   }"

subsection \<open>The benchmark client\<close>

definition bench_config :: "string \<Rightarrow> u16 \<Rightarrow> rel4u_client_config" where
  "bench_config server_ip port = \<lparr>cc_server_address = Some server_ip, cc_server_port = port, cc_bind_address = None, cc_bind_port = 0,
     cc_mtu = REL4U_DEFAULT_MTU, cc_send_queue_capacity = 1024, cc_recv_queue_capacity = 1024, cc_window_size = 128,
     cc_heartbeat_interval_ms = 0, cc_inactivity_timeout_ms = 0, cc_connect_timeout_ms = 3000, cc_disable_auto_reconnect = False,
     cc_reconnect_interval_ms = 0, cc_memory_mode = REL4U_MEM_FIXED, cc_queue_full_policy = REL4U_QUEUE_FULL_DROP_NEW,
     cc_max_send_memory_bytes = 0, cc_max_recv_memory_bytes = 0\<rparr>"

text \<open>The text \<open>snprintf\<close> writes into the 128 bytes of \<open>send_buf\<close>, without its final zero.\<close>

definition bench_message :: "nat \<Rightarrow> u8 list" where
  "bench_message i = map of_char (take 127 (''BENCHMARK_MSG_'' @ zero_padded 6 (decimal i)))"

primrec bench_send ::
  "env \<Rightarrow> u8 list \<Rightarrow> (client_world \<Rightarrow> client_world option) list \<Rightarrow> client_world \<Rightarrow> (bool \<times> client_world) option" where
  "bench_send e msg [] cw =
     map_option (\<lambda>(r, cw). (r = REL4U_OK, cw)) (rel4u_client_send e REL4U_MODE_RELIABLE_ORDERED (Some msg) (of_nat (length msg)) cw)"
| "bench_send e msg (nap # naps) cw = do {
     (r, cw) \<leftarrow> rel4u_client_send e REL4U_MODE_RELIABLE_ORDERED (Some msg) (of_nat (length msg)) cw;
     if r = REL4U_OK then Some (True, cw)
     else do {
       cw \<leftarrow> nap cw;
       bench_send e msg naps cw
     }
   }"

text \<open>The receiving loops, over \<open>received_count\<close>, \<open>recv_buf\<close> and the client.\<close>

primrec bench_drain ::
  "env \<Rightarrow> (client_world \<Rightarrow> client_world option) list \<Rightarrow> int \<times> u8 list \<times> client_world \<Rightarrow> (bool \<times> int \<times> u8 list \<times> client_world) option" where
  "bench_drain e [] st = Some (False, st)"
| "bench_drain e (worker # workers) st = do {
     let (received, buf, cw) = st;
     (c, w) \<leftarrow> worker cw;
     res \<leftarrow> rel4u_client_recv e [] (Some buf) (ucast REL4U_DEFAULT_MTU) 0 c;
     case res of
       None \<Rightarrow> Some (False, received, buf, c, w)
     | Some (r, c, out, _) \<Rightarrow>
         if r = REL4U_OK then bench_drain e workers (received + 1, the out, c, w)
         else Some (True, received, buf, c, w)
   }"

primrec bench_wait ::
  "env \<Rightarrow> int \<Rightarrow> (client_world \<Rightarrow> client_world option) list \<Rightarrow> int \<times> u8 list \<times> client_world \<Rightarrow>
   (bool \<times> int \<times> u8 list \<times> client_world) option" where
  "bench_wait e num_messages [] st = Some (\<not> fst st < num_messages, st)"
| "bench_wait e num_messages (worker # workers) st = do {
     let (received, buf, cw) = st;
     if received < num_messages then do {
       (c, w) \<leftarrow> worker cw;
       res \<leftarrow> rel4u_client_recv e [(False, cl_recv_queue c)] (Some buf) (ucast REL4U_DEFAULT_MTU) 1000 c;
       case res of
         None \<Rightarrow> Some (False, received, buf, c, w)
       | Some (r, c, out, _) \<Rightarrow>
           if r = REL4U_OK then bench_wait e num_messages workers (received + 1, the out, c, w)
           else Some (True, received, buf, c, w)
     }
     else Some (True, received, buf, cw)
   }"

text \<open>The sending loop, from message \<open>i\<close> on; per message the sleeps of its sending and the iterations of its draining.\<close>

primrec bench_loop ::
  "env \<Rightarrow> int \<Rightarrow> ((client_world \<Rightarrow> client_world option) list \<times> (client_world \<Rightarrow> client_world option) list) list \<Rightarrow> nat \<Rightarrow>
   int \<times> u8 list \<times> client_world \<Rightarrow> (bool \<times> int \<times> u8 list \<times> client_world) option" where
  "bench_loop e num_messages [] i st = Some (\<not> int i \<le> num_messages, st)"
| "bench_loop e num_messages (it # its) i st =
     (if int i \<le> num_messages then do {
        let (received, buf, cw) = st;
        (sent, cw) \<leftarrow> bench_send e (bench_message i) (fst it) cw;
        if \<not> sent then Some (False, received, buf, cw)
        else do {
          (drained, st) \<leftarrow> bench_drain e (snd it) (received, buf, cw);
          if drained then bench_loop e num_messages its (Suc i) st else Some (False, st)
        }
      }
      else Some (True, st))"

text \<open>The part of \<open>main\<close> between connecting and the end: all messages, then the remaining echoes.\<close>

definition bench_run ::
  "env \<Rightarrow> int \<Rightarrow> ((client_world \<Rightarrow> client_world option) list \<times> (client_world \<Rightarrow> client_world option) list) list \<Rightarrow>
   (client_world \<Rightarrow> client_world option) list \<Rightarrow> int \<times> u8 list \<times> client_world \<Rightarrow> (bool \<times> int \<times> u8 list \<times> client_world) option" where
  "bench_run e num_messages its workers st = do {
     (sent, st) \<leftarrow> bench_loop e num_messages its 1 st;
     if sent then bench_wait e num_messages workers st else Some (False, st)
   }"

definition bench_end ::
  "env \<Rightarrow> (client_world \<Rightarrow> client_world option) \<Rightarrow> int \<Rightarrow> int \<Rightarrow> client_world \<Rightarrow> (int option \<times> rel4u_client option \<times> world) option" where
  "bench_end e join num_messages received cw =
     map_option (\<lambda>(c, w). (Some (if received = num_messages then 0 else 1), Some c, w)) (rel4u_client_destroy e join cw)"

definition bench_main ::
  "env \<Rightarrow> client_mem \<Rightarrow> sys \<Rightarrow> (client_world \<Rightarrow> client_world option) \<Rightarrow> (client_world \<Rightarrow> client_world option) list \<Rightarrow>
   ((client_world \<Rightarrow> client_world option) list \<times> (client_world \<Rightarrow> client_world option) list) list \<Rightarrow>
   (client_world \<Rightarrow> client_world option) list \<Rightarrow> u8 list \<Rightarrow> string option \<Rightarrow> string option \<Rightarrow> string option \<Rightarrow>
   world \<Rightarrow> (int option \<times> rel4u_client option \<times> world) option" where
  "bench_main e mem sys join naps its workers buf arg1 arg2 arg3 w =
     (let server_ip = (case arg1 of None \<Rightarrow> ''127.0.0.1'' | Some a \<Rightarrow> a)
      in do {
        port \<leftarrow> argument_port arg2;
        num_messages \<leftarrow> (case arg3 of None \<Rightarrow> Some 1000 | Some a \<Rightarrow> atoi a);
        case rel4u_client_create mem (Some (bench_config server_ip port)) of
          None \<Rightarrow> Some (Some 1, None, w)
        | Some c \<Rightarrow> do {
            (r, c, w) \<leftarrow> rel4u_client_connect e sys join naps (c, w);
            case r of
              None \<Rightarrow> Some (None, Some c, w)
            | Some r \<Rightarrow>
                if r \<noteq> REL4U_OK then map_option (\<lambda>(c, w). (Some 1, Some c, w)) (rel4u_client_destroy e join (c, w))
                else do {
                  (left, received, _, c, w) \<leftarrow> bench_run e num_messages its workers (0, buf, c, w);
                  if left then bench_end e join num_messages received (c, w) else Some (None, Some c, w)
                }
          }
      })"

subsection \<open>Waiting calls\<close>

text \<open>A wait that ends with its timeout takes what is there, like a call that does not wait.\<close>

lemma pop_wait_timeout:
  assumes "0 < timeout_ms"
  shows "rel4u_mpmc_pop_wait [(False, q)] q (Some out) timeout_ms = Some (rel4u_mpmc_try_pop q (Some out))"
proof -
  have "pop_wait_loop g timeout_ms [(False, q)] q out = Some (mpmc_pop_head_locked q out)" for g
    using assms by (subst pop_wait_loop.simps) (simp add: mpmc_pop_head_locked_def)
  then show ?thesis
    by (cases "mpmc_pop_head_locked q out") (simp add: rel4u_mpmc_pop_wait_def rel4u_mpmc_try_pop_def)
qed

lemma copied_length:
  fixes n :: u16 and size :: size_t
  shows "unat (if ucast n \<le> size then ucast n else size) = min (unat n) (unat size)"
  by (auto simp: word_le_nat_alt widen16 min_def)

text \<open>What the echo server gets: nothing, or the first message, cut to the buffer.\<close>

lemma echo_recv_law:
  assumes env: "env_ok e" and inv: "server_inv n s" and buf: "length buf = 1400"
  shows "if queue_msgs (sv_recv_queue s) = []
    then rel4u_server_recv e [(False, sv_recv_queue s)] (Some buf) 1400 100 s = Some (Some (REL4U_ERR_TIMEOUT, s, None, Some buf, None))
    else \<exists>q b cid mode bytes. rel4u_server_recv e [(False, sv_recv_queue s)] (Some buf) 1400 100 s =
        Some (Some (REL4U_OK, s\<lparr>sv_recv_queue := q\<rparr>, Some cid, Some b, Some (of_nat (min (length bytes) 1400)))) \<and>
      queue_inv q \<and> queue_msgs (sv_recv_queue s) = (cid, mode, bytes) # queue_msgs q \<and> length b = 1400 \<and>
      take (min (length bytes) 1400) b = take 1400 bytes"
proof (cases "queue_msgs (sv_recv_queue s) = []")
  case True
  have "queue_inv (sv_recv_queue s)" using inv by (simp add: server_inv_def)
  from try_queue.pop_empty_law [OF this True] True show ?thesis
    by (simp add: rel4u_server_recv_def pop_wait_timeout Let_def)
next
  case False
  have q: "queue_inv (sv_recv_queue s)" using inv by (simp add: server_inv_def)
  have "out_room (env_item e)" using env by (simp add: env_ok_def out_room_def)
  from try_queue.pop_head_law [OF q False this] obtain q' i where
    p: "rel4u_mpmc_try_pop (sv_recv_queue s) (Some (env_item e)) = (True, q', Some i)" "queue_inv q'"
      "queue_msgs (sv_recv_queue s) = item_msg i # queue_msgs q'" "valid_item i" by blast
  let ?k = "if ucast (it_len i) \<le> (1400 :: size_t) then ucast (it_len i) else 1400 :: size_t"
  have k: "unat ?k = min (unat (it_len i)) 1400" using copied_length [of "it_len i" 1400] by simp
  have i: "length (it_data i) = 9216" "unat (it_len i) \<le> 9216" using p(4) by (simp_all add: valid_item_def)
  then have "memcpy buf (it_data i) (unat ?k) \<noteq> None" using k buf by (simp add: memcpy_def)
  then obtain b where b: "memcpy buf (it_data i) (unat ?k) = Some b" by auto
  note m = memcpy_SomeD [OF b]
  have len: "length (snd (snd (item_msg i))) = unat (it_len i)" using i by (simp add: item_msg_def)
  have "of_nat (unat ?k) = ?k" by simp
  then have kk: "?k = of_nat (min (length (take (unat (it_len i)) (it_data i))) 1400)" using k i by (metis length_take min.absorb2)
  have copied: "take (min (length (take (unat (it_len i)) (it_data i))) 1400) b = take 1400 (take (unat (it_len i)) (it_data i))"
    using m(2) k i by (simp add: min.commute)
  have "rel4u_server_recv e [(False, sv_recv_queue s)] (Some buf) 1400 100 s =
      Some (Some (REL4U_OK, s\<lparr>sv_recv_queue := q'\<rparr>, Some (it_client_id i), Some b, Some ?k))"
    using p(1) b by (cases "ucast (it_len i) \<le> (1400 :: size_t)") (simp_all add: rel4u_server_recv_def pop_wait_timeout Let_def)
  with False p(2,3) m(1) buf copied show ?thesis unfolding kk item_msg_def by auto
qed

subsection \<open>The echo server is safe\<close>

definition echo_nap :: "nat \<Rightarrow> (server_world \<Rightarrow> (bool \<times> server_world) option) \<Rightarrow> bool" where
  "echo_nap n nap \<longleftrightarrow> (\<forall>s w. server_inv n s \<longrightarrow> (\<exists>k s' w'. nap (s, w) = Some (k, s', w') \<and> server_inv n s'))"

definition echo_iteration_ok :: "nat \<Rightarrow> echo_iteration \<Rightarrow> bool" where
  "echo_iteration_ok n it \<longleftrightarrow> server_meanwhile n (it_worker it) \<and> (\<forall>nap \<in> set (it_naps it). echo_nap n nap)"

lemma echo_reply_safe:
  assumes "env_ok e" "unat len \<le> length buffer" "server_inv n s" "\<forall>nap \<in> set naps. echo_nap n nap"
  shows "\<exists>l s' w'. echo_reply e cid buffer len naps keep (s, w) = Some (l, s', w') \<and> server_inv n s'"
  using assms(3,4)
proof (induction naps arbitrary: keep s w)
  case Nil
  from server_send_safe [OF assms(1) Nil(1), of "Some buffer" len cid 3 w] assms(2) Nil show ?case by auto
next
  case (Cons nap naps)
  from server_send_safe [OF assms(1) Cons.prems(1), of "Some buffer" len cid 3 w] assms(2) obtain r s1 w1 where
    1: "rel4u_server_send e cid 3 (Some buffer) len (s, w) = Some (r, s1, w1)" "server_inv n s1" by auto
  from Cons.prems(2) 1(2) obtain k s2 w2 where "nap (s1, w1) = Some (k, s2, w2)" "server_inv n s2"
    unfolding echo_nap_def by (metis list.set_intros(1))
  with 1 Cons.IH [of s2 k w2] Cons.prems show ?case by auto
qed

lemma echo_iterate_safe:
  assumes "env_ok e" "server_inv n s" "length (ev_buffer v) = 1400" "echo_iteration_ok n it"
  shows "\<exists>l v' s' w'. echo_iterate e it (v, s, w) = Some (l, v', s', w') \<and> server_inv n s' \<and> length (ev_buffer v') = 1400"
proof -
  from assms(2,4) obtain s1 w1 where 1: "it_worker it (s, w) = Some (s1, w1)" "server_inv n s1"
    unfolding echo_iteration_ok_def server_meanwhile_def by metis
  note r = echo_recv_law [OF assms(1) 1(2) assms(3)]
  show ?thesis
  proof (cases "queue_msgs (sv_recv_queue s1) = []")
    case True
    with r 1 assms(3) show ?thesis by (auto simp: echo_iterate_def)
  next
    case False
    from r [unfolded if_not_P [OF False]] obtain q b cid mode bytes where
      r: "rel4u_server_recv e [(False, sv_recv_queue s1)] (Some (ev_buffer v)) 1400 100 s1 =
          Some (Some (REL4U_OK, s1\<lparr>sv_recv_queue := q\<rparr>, Some cid, Some b, Some (of_nat (min (length bytes) 1400))))"
        "queue_inv q" "queue_msgs (sv_recv_queue s1) = (cid, mode, bytes) # queue_msgs q" "length b = 1400"
        "take (min (length bytes) 1400) b = take 1400 bytes"
      by (elim exE conjE) (rule that)
    have inv: "server_inv n (s1\<lparr>sv_recv_queue := q\<rparr>)" using 1(2) r(2) by (simp add: server_inv_def)
    have "unat (of_nat (min (length bytes) 1400) :: size_t) \<le> length b" using r(4) by (simp add: unat_of_nat)
    from echo_reply_safe [OF assms(1) this inv, of "it_naps it" cid "it_keep_reply it" w1] assms(4) r 1(1) show ?thesis
      by (auto simp: echo_iterate_def echo_iteration_ok_def Let_def)
  qed
qed

lemma echo_loop_safe:
  assumes "env_ok e" "server_inv n s" "length (ev_buffer v) = 1400" "\<forall>it \<in> set its. echo_iteration_ok n it"
  shows "\<exists>l v' s' w'. echo_loop e its (v, s, w) = Some (l, v', s', w') \<and> server_inv n s'"
  using assms(2-4)
proof (induction its arbitrary: v s w)
  case (Cons it its)
  from echo_iterate_safe [OF assms(1) Cons.prems(1,2), of it w] Cons.prems(3) obtain l v' s' w' where
    "echo_iterate e it (v, s, w) = Some (l, v', s', w')" "server_inv n s'" "length (ev_buffer v') = 1400" by auto
  with Cons.IH [of s' v' w'] Cons.prems show ?case by auto
qed auto

lemma server_destroy_safe:
  assumes "server_inv n s" "server_meanwhile n join"
  shows "rel4u_server_destroy e join (s, w) \<noteq> None"
proof -
  from assms server_shutdown_inv [OF assms(1)] obtain s1 w1 where "join (server_shutdown s, w) = Some (s1, w1)"
    unfolding server_meanwhile_def by metis
  then show ?thesis by (simp add: rel4u_server_destroy_def rel4u_server_stop_def)
qed

text \<open>
  The echo server, with a port that is a number of type \<open>int\<close>, never leaves its arrays, whatever the worker does between its calls; it
  ends only with the exit codes 0 and 1.
\<close>

theorem echo_main_safe:
  assumes "env_ok e" "server_mem_ok mem (echo_config port)" "length buffer = 1400" "server_meanwhile 64 join"
    and "\<forall>it \<in> set its. echo_iteration_ok 64 it" "argument_port arg = Some port"
  shows "\<exists>code s' w'. echo_main e mem sys join its buffer arg w = Some (code, s', w') \<and> code \<in> {None, Some 0, Some 1}"
proof (cases "rel4u_server_create mem (Some (echo_config port))")
  case None
  with assms(6) show ?thesis by (simp add: echo_main_def)
next
  case (Some s)
  have "server_cfg_ok (echo_config port)" "unat (sc_max_clients (server_defaults (echo_config port))) = 64"
    by (simp_all add: server_cfg_ok_def echo_config_def server_defaults_def)
  with server_created(1) [OF Some assms(2)] have "server_inv 64 s" by simp
  moreover obtain r s1 where st: "rel4u_server_start sys s = (r, s1)" by (metis prod.exhaust)
  ultimately have s1: "server_inv 64 s1" using server_start_inv [of 64 s sys] by simp
  let ?v = "\<lparr>ev_client_id = 0, ev_buffer = buffer, ev_len = 0, ev_echo_count = 0\<rparr>"
  from echo_loop_safe [OF assms(1) s1, of ?v its w] assms(3,5) obtain l v' s2 w2 where
    2: "echo_loop e its (?v, s1, w) = Some (l, v', s2, w2)" "server_inv 64 s2" by auto
  from server_destroy_safe [OF s1 assms(4), of e w] server_destroy_safe [OF 2(2) assms(4), of e w2] Some st 2(1) assms(6)
  show ?thesis by (auto simp: echo_main_def echo_end_def)
qed

subsection \<open>What the echo server echoes\<close>

text \<open>
  One iteration answers the first received message with a reliable ordered one to the same client and with the same
  bytes, at the end of the send queue, if the queue has room and the message fits the MTU of the server.
\<close>

lemma server_send_queued:
  assumes env: "env_ok e" and inv: "server_inv n s" and run: "sv_running s" and mode: "q_mode (sv_send_queue s) = REL4U_MEM_FIXED"
    and room: "length (queue_msgs (sv_send_queue s)) < unat (q_capacity (sv_send_queue s))"
    and len: "unat len \<le> length bytes" "unat len \<le> REL4U_MAX_PAYLOAD (sc_mtu (sv_config s))"
  shows "\<exists>s' w'. rel4u_server_send e cid m (Some bytes) len (s, w) = Some (REL4U_OK, s', w') \<and>
    queue_msgs (sv_send_queue s') = queue_msgs (sv_send_queue s) @ [(cid, m, take (unat len) bytes)] \<and>
    sv_recv_queue s' = sv_recv_queue s"
proof -
  have "unat len \<le> 9216" using len(2) inv by (simp add: REL4U_MAX_PAYLOAD_def server_inv_def split: if_splits)
  then obtain d where d: "memcpy (it_data (env_item e)) bytes (unat len) = Some d"
    using len(1) env by (simp add: memcpy_def env_ok_def)
  define item where "item = (env_item e)\<lparr>it_client_id := cid, it_mode := m, it_len := ucast len, it_data := d\<rparr>"
  have item: "valid_item item" "item_msg item = (cid, m, take (unat len) bytes)"
    unfolding item_def by (rule send_item_valid [OF env d])+
  obtain ok q where q: "rel4u_mpmc_try_push (env_alloc e (wd_pushes w)) (sv_send_queue s) (Some item) = (ok, q)"
    by (metis prod.exhaust)
  have "queue_inv (sv_send_queue s)" "fresh_alloc (env_alloc e (wd_pushes w))" using inv env by (simp_all add: server_inv_def env_ok_def)
  from push_back_effect [OF this(1) item(1) this(2)] q mode room
  have "ok" "queue_msgs q = queue_msgs (sv_send_queue s) @ [(cid, m, take (unat len) bytes)]"
    by (auto simp: push_effect_def admit_def rel4u_mpmc_try_push_def item(2) split: if_splits)
  with run len(2) d q show ?thesis by (simp add: rel4u_server_send_def item_def [symmetric] Let_def)
qed

theorem echo_echoes:
  assumes env: "env_ok e" and inv: "server_inv n s" and buf: "length (ev_buffer v) = 1400"
    and it: "it_worker it = Some" "it_keep_reply it"
    and run: "sv_running s" and mode: "q_mode (sv_send_queue s) = REL4U_MEM_FIXED"
    and room: "length (queue_msgs (sv_send_queue s)) < unat (q_capacity (sv_send_queue s))"
    and msg: "queue_msgs (sv_recv_queue s) = (cid, m, bytes) # ms" "length bytes \<le> REL4U_MAX_PAYLOAD (sc_mtu (sv_config s))" "length bytes \<le> 1400"
  shows "\<exists>v' s' w'. echo_iterate e it (v, s, w) = Some (True, v', s', w') \<and> ev_echo_count v' = ev_echo_count v + 1 \<and>
    queue_msgs (sv_send_queue s') = queue_msgs (sv_send_queue s) @ [(cid, REL4U_MODE_RELIABLE_ORDERED, bytes)] \<and>
    queue_msgs (sv_recv_queue s') = ms"
proof -
  have ne: "queue_msgs (sv_recv_queue s) \<noteq> []" using msg(1) by simp
  from echo_recv_law [OF env inv buf, unfolded if_not_P [OF ne]] obtain q b cid' mode' bytes' where
    r: "rel4u_server_recv e [(False, sv_recv_queue s)] (Some (ev_buffer v)) 1400 100 s =
        Some (Some (REL4U_OK, s\<lparr>sv_recv_queue := q\<rparr>, Some cid', Some b, Some (of_nat (min (length bytes') 1400))))"
      "queue_inv q" "queue_msgs (sv_recv_queue s) = (cid', mode', bytes') # queue_msgs q" "length b = 1400"
      "take (min (length bytes') 1400) b = take 1400 bytes'"
    by (elim exE conjE) (rule that)
  have same: "cid' = cid" "bytes' = bytes" "queue_msgs q = ms" using r(3) msg(1) by simp_all
  let ?s = "s\<lparr>sv_recv_queue := q\<rparr>" and ?len = "of_nat (length bytes) :: size_t"
  have inv': "server_inv n ?s" using inv r(2) by (simp add: server_inv_def)
  have len: "unat ?len = length bytes" using msg(3) by (simp add: unat_of_nat)
  have "take (unat ?len) b = bytes" using r(5) len msg(3) same by (simp add: min_def)
  with server_send_queued [OF env inv', of ?len b cid 3 w] run mode room len msg r(4) obtain s' w' where
    "rel4u_server_send e cid 3 (Some b) ?len (?s, w) = Some (REL4U_OK, s', w')"
    "queue_msgs (sv_send_queue s') = queue_msgs (sv_send_queue s) @ [(cid, 3, bytes)]" "sv_recv_queue s' = q" by auto
  with r(1) it same msg(3) show ?thesis
    by (cases "it_naps it") (auto simp: echo_iterate_def min_def Let_def)
qed

subsection \<open>Loops that are never left\<close>

text \<open>
  Sleeps after which the echo server goes on with the same configuration, and sleeps in which the worker of a client is not running.
\<close>

definition going_on :: "(server_world \<Rightarrow> (bool \<times> server_world) option) \<Rightarrow> bool" where
  "going_on nap \<longleftrightarrow> (\<forall>s w. \<exists>s' w'. nap (s, w) = Some (True, s', w') \<and> sv_config s' = sv_config s)"

definition worker_ended :: "(client_world \<Rightarrow> client_world option) \<Rightarrow> bool" where
  "worker_ended nap \<longleftrightarrow>
     (\<forall>c w. \<exists>c' w'. nap (c, w) = Some (c', w') \<and> cl_config c' = cl_config c \<and> cl_running c' = cl_running c)"

text \<open>
  C40. A message the echo server cannot send, longer than its own MTU allows, is retried for ever: the code does not look at the error. Clients with
  a larger MTU can send such messages, since the server receives them whatever its own MTU is.
\<close>

theorem echo_stuck:
  assumes "unat len > REL4U_MAX_PAYLOAD (sc_mtu (sv_config s))"
    and "\<forall>nap \<in> set naps. going_on nap"
  shows "\<exists>s' w'. echo_reply e cid buffer len naps True (s, w) = Some (False, s', w')"
  using assms
proof (induction naps arbitrary: s w)
  case Nil
  then show ?case by (simp add: rel4u_server_send_def)
next
  case (Cons nap naps)
  from Cons.prems(2) obtain s' w' where s': "nap (s, w) = Some (True, s', w')" "sv_config s' = sv_config s"
    unfolding going_on_def by (metis list.set_intros(1))
  have "\<exists>s2 w2. echo_reply e cid buffer len naps True (s', w') = Some (False, s2, w2)"
    by (rule Cons.IH) (use Cons.prems s'(2) in simp_all)
  with s'(1) Cons.prems(1) show ?case by (simp add: rel4u_server_send_def)
qed

lemma echo_stuck_witness:
  "\<exists>s' w'. echo_reply ex_env 1 (replicate 1400 0) 1400 [\<lambda>sw. Some (True, sw), \<lambda>sw. Some (True, sw)] True (ex_server, ex_world) =
     Some (False, s', w')"
proof (rule echo_stuck)
  have "sc_mtu (sv_config ex_server) = 1400"
    using server_created(2) [OF ex_server_create ex_server_ok] by (simp add: ex_server_cfg_def server_defaults_def)
  then show "unat (1400 :: size_t) > REL4U_MAX_PAYLOAD (sc_mtu (sv_config ex_server))" by (simp add: REL4U_MAX_PAYLOAD_def)
qed (simp add: going_on_def)

text \<open>
  The benchmark client retries for ever too, when the server has ended the connection: the worker has stopped, and nothing
  in the loop starts it again.
\<close>

theorem bench_stuck:
  assumes "unat (of_nat (length msg) :: size_t) \<le> REL4U_MAX_PAYLOAD (cc_mtu (cl_config c))" "\<not> cl_running c"
    and "\<forall>nap \<in> set naps. worker_ended nap"
  shows "\<exists>c' w'. bench_send e msg naps (c, w) = Some (False, c', w')"
  using assms
proof (induction naps arbitrary: c w)
  case Nil
  then show ?case by (simp add: rel4u_client_send_def)
next
  case (Cons nap naps)
  from Cons.prems(3) obtain c' w' where c': "nap (c, w) = Some (c', w')" "cl_config c' = cl_config c" "cl_running c' = cl_running c"
    unfolding worker_ended_def by (metis list.set_intros(1))
  have "\<exists>c2 w2. bench_send e msg naps (c', w') = Some (False, c2, w2)"
    by (rule Cons.IH) (use Cons.prems c'(2,3) in simp_all)
  with c'(1) Cons.prems(1,2) show ?case by (simp add: rel4u_client_send_def)
qed

subsection \<open>The benchmark client is safe\<close>

lemma unat_char: "unat (of_char c :: u8) = of_char c"
proof -
  have "unat (of_nat (of_char c) :: u8) = of_char c" by (subst unat_of_nat) simp
  then show ?thesis by (simp only: of_nat_of_char)
qed

lemma decimal_length: "n < 10 ^ Suc k \<Longrightarrow> length (decimal n) \<le> Suc k"
proof (induction k arbitrary: n)
  case 0
  then show ?case by (subst decimal.simps) simp
next
  case (Suc k)
  then have "n div 10 < 10 ^ Suc k" by (simp add: less_mult_imp_div_less mult.commute)
  from Suc.IH [OF this] show ?case by (subst decimal.simps) simp
qed

text \<open>Every message of a benchmark is whole in the buffer and can be read back, so no two messages are the same.\<close>

lemma bench_message_roundtrip:
  assumes "int i < 2 ^ 31"
  shows "length (bench_message i) \<le> 24" "atoi (map (\<lambda>b. char_of (unat b)) (drop 14 (bench_message i))) = Some (int i)"
proof -
  have "i < 10 ^ Suc 9" using assms by simp
  then have l: "length (decimal i) \<le> 10" using decimal_length [of i 9] by simp
  then have z: "length (zero_padded 6 (decimal i)) \<le> 10" by (simp add: zero_padded_def)
  then have m: "bench_message i = map of_char (''BENCHMARK_MSG_'' @ zero_padded 6 (decimal i))" by (simp add: bench_message_def)
  with z show "length (bench_message i) \<le> 24" by simp
  have "map (\<lambda>b. char_of (unat (b :: u8))) (map of_char s) = s" for s
    by (induction s) (simp_all add: unat_char)
  with m assms show "atoi (map (\<lambda>b. char_of (unat b)) (drop 14 (bench_message i))) = Some (int i)"
    by (simp add: atoi_zero_padded del: map_map)
qed

lemma bench_recv_safe:
  assumes env: "env_ok e" and inv: "client_inv c" and buf: "length buf = 1400"
    and call: "wakes = [] \<and> t = 0 \<or> wakes = [(False, cl_recv_queue c)] \<and> 0 < t"
  shows "\<exists>r c' out k. rel4u_client_recv e wakes (Some buf) 1400 t c = Some (Some (r, c', out, k)) \<and> client_inv c' \<and>
    (r = REL4U_OK \<longrightarrow> length (the out) = 1400)"
proof -
  have "queue_inv (cl_recv_queue c)" using inv by (simp add: client_inv_def)
  then obtain ok q' item where "rel4u_mpmc_pop_wait [] (cl_recv_queue c) (Some (env_item e)) 0 = Some (ok, q', Some item)"
    and q': "queue_inv q'" "ok \<longrightarrow> valid_item item" by (rule recv_pop_safe [OF env])
  then have pop: "rel4u_mpmc_pop_wait wakes (cl_recv_queue c) (Some (env_item e)) t = Some (ok, q', Some item)"
    using call by (auto simp: pop_wait_now pop_wait_timeout)
  have inv': "client_inv (c\<lparr>cl_recv_queue := q'\<rparr>)" using inv q'(1) by (simp add: client_inv_def)
  show ?thesis
  proof (cases ok)
    case True
    let ?k = "if ucast (it_len item) \<le> (1400 :: size_t) then ucast (it_len item) else (1400 :: size_t)"
    have "valid_item item" "unat (1400 :: size_t) \<le> length buf" using True q'(2) buf by simp_all
    from recv_copy_safe [OF this] obtain d where d: "memcpy buf (it_data item) (unat ?k) = Some d" by (elim exE) (rule that)
    with True pop inv' memcpy_SomeD(1) [OF d] buf show ?thesis
      by (cases "ucast (it_len item) \<le> (1400 :: size_t)") (simp_all add: rel4u_client_recv_def Let_def)
  next
    case False
    with pop inv' show ?thesis by (simp add: rel4u_client_recv_def Let_def)
  qed
qed

lemma bench_send_safe:
  assumes "env_ok e" "length msg < 2 ^ 63" "client_inv c" "\<forall>nap \<in> set naps. meanwhile nap"
  shows "\<exists>l c' w'. bench_send e msg naps (c, w) = Some (l, c', w') \<and> client_inv c'"
  using assms(3,4)
proof (induction naps arbitrary: c w)
  case Nil
  from client_send_safe [OF assms(1) Nil(1), of "Some msg" "of_nat (length msg)" 3 w] assms(2) show ?case
    by (auto simp: unat_of_nat)
next
  case (Cons nap naps)
  from client_send_safe [OF assms(1) Cons.prems(1), of "Some msg" "of_nat (length msg)" 3 w] assms(2) obtain r c1 w1 where
    1: "rel4u_client_send e 3 (Some msg) (of_nat (length msg)) (c, w) = Some (r, c1, w1)" "client_inv c1" by (auto simp: unat_of_nat)
  from Cons.prems(2) 1(2) obtain c2 w2 where "nap (c1, w1) = Some (c2, w2)" "client_inv c2"
    unfolding meanwhile_def by (metis list.set_intros(1))
  with 1 Cons.IH [of c2 w2] Cons.prems show ?case by auto
qed

text \<open>The receiving loops keep the buffer and the client; \<open>bench_ok\<close> says what they keep.\<close>

definition bench_ok :: "int \<times> u8 list \<times> client_world \<Rightarrow> bool" where
  "bench_ok st = (case st of (received, buf, c, w) \<Rightarrow> 0 \<le> received \<and> length buf = 1400 \<and> client_inv c)"

lemma bench_drain_safe:
  assumes "env_ok e" "bench_ok st" "\<forall>f \<in> set workers. meanwhile f"
  shows "\<exists>l st'. bench_drain e workers st = Some (l, st') \<and> bench_ok st'"
  using assms(2,3)
proof (induction workers arbitrary: st)
  case (Cons f fs)
  obtain received buf c w where st: "st = (received, buf, c, w)" by (cases st) auto
  from Cons.prems obtain c1 w1 where 1: "f (c, w) = Some (c1, w1)" "client_inv c1"
    unfolding meanwhile_def st bench_ok_def by (metis case_prod_conv list.set_intros(1))
  from bench_recv_safe [OF assms(1) 1(2), of buf "[]" 0] Cons.prems(1) obtain r c2 out k where
    2: "rel4u_client_recv e [] (Some buf) 1400 0 c1 = Some (Some (r, c2, out, k))" "client_inv c2"
      "r = REL4U_OK \<longrightarrow> length (the out) = 1400" by (auto simp: bench_ok_def st)
  with 1 Cons.prems Cons.IH [of "(received + 1, the out, c2, w1)"] show ?case by (auto simp: st bench_ok_def)
qed auto

lemma bench_wait_safe:
  assumes "env_ok e" "bench_ok st" "\<forall>f \<in> set workers. meanwhile f"
  shows "\<exists>l st'. bench_wait e num workers st = Some (l, st') \<and> bench_ok st'"
  using assms(2,3)
proof (induction workers arbitrary: st)
  case (Cons f fs)
  obtain received buf c w where st: "st = (received, buf, c, w)" by (cases st) auto
  from Cons.prems obtain c1 w1 where 1: "f (c, w) = Some (c1, w1)" "client_inv c1"
    unfolding meanwhile_def st bench_ok_def by (metis case_prod_conv list.set_intros(1))
  from bench_recv_safe [OF assms(1) 1(2), of buf "[(False, cl_recv_queue c1)]" 1000] Cons.prems(1) obtain r c2 out k where
    2: "rel4u_client_recv e [(False, cl_recv_queue c1)] (Some buf) 1400 1000 c1 = Some (Some (r, c2, out, k))" "client_inv c2"
      "r = REL4U_OK \<longrightarrow> length (the out) = 1400" by (auto simp: bench_ok_def st)
  with 1 Cons.prems Cons.IH [of "(received + 1, the out, c2, w1)"] show ?case by (auto simp: st bench_ok_def)
qed auto

lemma bench_loop_safe:
  assumes "env_ok e" "num < 2 ^ 31" "bench_ok st" "\<forall>(naps, workers) \<in> set its. \<forall>f \<in> set naps \<union> set workers. meanwhile f"
  shows "\<exists>l st'. bench_loop e num its i st = Some (l, st') \<and> bench_ok st'"
  using assms(3,4)
proof (induction its arbitrary: i st)
  case (Cons it its)
  obtain received buf c w where st: "st = (received, buf, c, w)" by (cases st) auto
  show ?case
  proof (cases "int i \<le> num")
    case True
    then have "length (bench_message i) < 2 ^ 63" using bench_message_roundtrip(1) [of i] assms(2) by simp
    from bench_send_safe [OF assms(1) this, of c "fst it" w] Cons.prems obtain l c1 w1 where
      1: "bench_send e (bench_message i) (fst it) (c, w) = Some (l, c1, w1)" "client_inv c1" by (auto simp: st bench_ok_def case_prod_unfold)
    then have ok: "bench_ok (received, buf, c1, w1)" using Cons.prems(1) by (simp add: bench_ok_def st)
    from bench_drain_safe [OF assms(1) this, of "snd it"] Cons.prems(2) obtain l2 st2 where
      2: "bench_drain e (snd it) (received, buf, c1, w1) = Some (l2, st2)" "bench_ok st2" by (auto simp: case_prod_unfold)
    with 1 ok Cons.IH [OF 2(2), of "Suc i"] Cons.prems(2) True show ?thesis by (cases l; cases l2; cases st2) (auto simp: st)
  qed (use Cons.prems in auto)
qed auto

text \<open>A benchmark never leaves its arrays, whatever the worker does between its calls.\<close>

theorem bench_run_safe:
  assumes "env_ok e" "num < 2 ^ 31" "client_inv c" "length buf = 1400"
    and "\<forall>(naps, workers) \<in> set its. \<forall>f \<in> set naps \<union> set workers. meanwhile f" "\<forall>f \<in> set workers. meanwhile f"
  shows "\<exists>l received buf' c' w'. bench_run e num its workers (0, buf, c, w) = Some (l, received, buf', c', w') \<and>
    0 \<le> received \<and> length buf' = 1400 \<and> client_inv c'"
proof -
  have "bench_ok (0, buf, c, w)" using assms(3,4) by (simp add: bench_ok_def)
  from bench_loop_safe [OF assms(1,2) this assms(5)] obtain l st where
    1: "bench_loop e num its 1 (0, buf, c, w) = Some (l, st)" "bench_ok st" by blast
  obtain l' st' where "bench_wait e num workers st = Some (l', st')" "bench_ok st'"
    using bench_wait_safe [OF assms(1) 1(2) assms(6)] by blast
  with 1 show ?thesis by (cases st; cases st') (auto simp: bench_run_def bench_ok_def)
qed

end
