(* ===== verification/Spec2Isabelle.thy ===== *)
theory Spec2Isabelle
  imports Mpmc_Reference Mpmc_Threads Packet Rtt Delivery_Correct Client_Wire Server_Wire Platform_Windows Examples
begin

text \<open>
  A verification development for rel4u, a C library for reliable messages over UDP: \<open>include/rel4u.h\<close>, \<open>src/core\<close>,
  \<open>src/platform\<close> and the programs of \<open>examples\<close>.

  \<^bold>\<open>The program.\<close> An application sends and receives messages through a client (\<open>rel4u_client.c\<close>) or a server
  (\<open>rel4u_server.c\<close>). Each has a worker thread and two message queues (\<open>rel4u_mpmc.c\<close>) between the worker and the
  application. The worker takes messages from the send queue, numbers the reliable ones in a send window
  (\<open>rel4u_window.c\<close>), and sends them as datagrams with a 24-byte header (\<open>rel4u_packet.c\<close>); it retransmits what is not
  acknowledged in time, with a timeout estimated from round trips (\<open>rel4u_rtt.c\<close>). Incoming data packets pass a receive window,
  which orders them and drops duplicates, into the receive queue. A server keeps one pair of windows per client in a session
  table (\<open>rel4u_session.c\<close>).

  \<^bold>\<open>Conventions.\<close>
  \<^item> \<open>uint8_t\<close> to \<open>uint64_t\<close> and \<open>size_t\<close> are words of that width, so that arithmetic wraps as in C; a C \<open>int\<close> is an \<open>int\<close>. A struct is a
    record with the fields of the source, an enumeration a datatype, a byte array a list of bytes.
  \<^item> A pointer the code compares with \<open>NULL\<close> is an option. A function that may leave an array returns an option, and \<open>None\<close> is
    the access outside it; that this never happens is proved, not assumed. Return codes are results.
  \<^item> What the system answers is a parameter: the records \<open>env\<close> (clock, allocator, results of \<open>sendto\<close>, contents of uninitialised
    buffers) and \<open>sys\<close> (address lookup, sockets, pipes, threads) of theory Platform. \<open>env_ok\<close> says of them only what C and POSIX
    promise: buffers have their declared sizes, and an allocation that succeeds is not already in use. The record \<open>world\<close> counts the clock readings and
    pushes and has the list of all datagrams sent.
  \<^item> A critical section is one step, which \<open>threads_linearizable\<close> justifies for the queues. Steps of the application's threads and of the worker interleave in any order: a history of a component is a
    list of events.

  \<^bold>\<open>Theories.\<close>
  \<^item> Rel4u_Prelude: types, byte buffers, words and rings, and the locales \<open>step_invariant\<close>, \<open>safe_events\<close> and \<open>kept_by_events\<close>, by which an invariant of one
    step holds in every reachable state and after every list of events. Rel4u_API: \<open>rel4u.h\<close>.
  \<^item> Packet: \<open>rel4u_packet_encode_header\<close> and \<open>rel4u_packet_decode_header\<close>, their round trip and exactly which bytes are accepted.
  \<^item> Rtt: the estimator refines the Jacobson-Karels recurrence on integers; its timeout stays in range.
  \<^item> Mpmc, Mpmc_Ring, Mpmc_List, Mpmc_Correct, Mpmc_Reference: the queue as a ring and as a linked list on a heap. The locales
    \<open>message_queue\<close> and \<open>requeue_queue\<close> are what its users rely on; they are interpreted on the calls of the code. Histories are
    first-in first-out with every loss counted, memory is bounded, nothing leaks, waiting returns, and both modes behave as one unbounded list.
  \<^item> Threads, Mpmc_Threads: mutexes and condition variables (\<open>rel4u_threads.c\<close>), and any number of threads on one queue, whose steps
    interleave between the calls of the thread library. Every schedule has the results of the calls one after the other, and no wake-up is lost.
  \<^item> Seq, Send_Window, Send_Window_Correct, Recv_Window, Recv_Window_Correct: serial numbers across their wrap-around, and both windows, read as a list of
    outstanding entries (\<open>sw_entries\<close>) and as a map from distances to payloads (\<open>rw_buf\<close>), with what each operation does to them.
  \<^item> Session, Session_Correct: the session table with its 32-bit signed slot index, its consistency, eviction and lookup.
  \<^item> Platform, Platform_Net, Platform_Windows: time, sockets, addresses and the wake-up pipe on POSIX and on Windows.
  \<^item> Endpoint, Endpoint_Correct: what the workers of client and server share: datagrams with their acknowledgement, the way of a
    data packet into the receive queue, and the round-trip samples of an acknowledgement.
  \<^item> Delivery, Delivery_Correct: a send window and a receive window over a network that loses, duplicates, delays and
    reorders datagrams, as a step relation; delivery exactly once, no message given up, and recovery.
  \<^item> Client, Client_Correct, Client_Runs: \<open>rel4u_client.c\<close>, every call and every phase of the worker; its invariant; and histories, in which the parts of
    \<open>rel4u_client_disconnect\<close> are separate events: no fault, exact draining and sending, indifference to foreign datagrams (but for empty ones, which end
    the reading of a round), connecting within as many sleeps of 10 ms as make up the timeout, and a count of what a lost session loses.
  \<^item> Server, Server_Correct, Server_Runs: the same for \<open>rel4u_server.c\<close>: no fault, isolation of clients up to the eviction of the
    least recently active one, exact draining, and a clean stop.
  \<^item> Wire, Client_Wire, Server_Wire: what goes onto the network. In every history both endpoints send only well-formed packets of their own
    types, the client only to its server, and the server only to addresses that have contacted it.
  \<^item> Examples: the programs \<open>server_echo.c\<close> and \<open>client_bench.c\<close> over the two models.
  \<^item> This theory: client and server together, when one of them has lost the session.

  \<^bold>\<open>Bounds.\<close> No definition has fuel. The loops of the code that end are recursive functions with termination proofs, by distances of sequence
  numbers or by the number of queued messages. The loops that run as long as a thread does take the inputs of each iteration as a list, and the
  theorems hold for all lists. Theorems on windows ask for a capacity below $2^{31}$, which serial numbers need, and those on whole endpoints
  for an MTU of at most 9240, beyond which \<open>client_send_exact\<close> shows an overflow, and (for the server) for at most $2^{31}$ clients, since the index of a slot
  is an \<open>int32_t\<close>, and for memory for the windows of new sessions,
  without which \<open>session_allocate_unchecked_windows\<close> shows a read outside the table. Delivery is stated for datagrams that arrive
  within $2^{31}$ messages of their sending.

  \<^bold>\<open>Not modelled.\<close> The memory model of C: a step reads and writes as a whole, so data races on the fields that client and server share
  outside the queues are not covered. A phase of the worker is one step,
  also draining the server's queue, which takes the table's mutex anew for each message. Functions that only pass their arguments to one system call, such as closing a socket or joining a thread. The
  multiplication of the size of an item with the capacity of a queue in \<open>rel4u_mpmc_init\<close>, which does not wrap for 32-bit capacities. Printing in the
  examples, whose numeric arguments are undefined (\<open>None\<close>) outside the range of \<open>int\<close>. The tests. On
  the delivery of messages, only one direction of one connection is a step relation; the timing of steps is arbitrary, so nothing is said on throughput.
\<close>

section \<open>Client and server\<close>

subsection \<open>A session the server has lost\<close>

text \<open>
  C8. What becomes of the messages of a session the server does not have (any more). When a client sends any packet of an established session,
  the server answers with a \<open>RESET\<close> and changes nothing but its statistics. With automatic reconnection, the client then starts again
  with empty windows at 1, and the messages it has no acknowledgement for go back in front of its send queue. There is
  a choice of what may be lost: if the queue has room and memory is allocated, nothing is, and the messages stand in the order of sending
  before all that were waiting; otherwise those that are left keep this order, and the drop counter of the queue says how many are missing. With automatic
  reconnection disabled, the client is disconnected, its queue and window untouched: nothing is sent again.
\<close>

theorem lost_session_recovers:
  assumes envs: "env_ok ec" "env_ok es" and inv: "client_inv c"
    and socks: "cl_sock c \<noteq> -1" "sv_sock s \<noteq> -1" and p: "payload_given payload len"
    and type: "type \<in> {REL4U_PKT_CONNECT_ACK, REL4U_PKT_DATA, REL4U_PKT_ACK, REL4U_PKT_HEARTBEAT, REL4U_PKT_HEARTBEAT_ACK}"
    and lost: "\<forall>i. rel4u_session_find_by_addr (sv_session_table s) (Some caddr) = Some i \<longrightarrow>
      cs_session_id (sv_session s i) \<noteq> cl_session_id c"
    and saddr: "rel4u_net_addr_equal (Some saddr) (Some (cl_server_addr c))"
  shows "\<exists>c1 w1 dg st sw' reset c2 w2.
    client_send_packet ec type mode seq payload len (c, w) = Some (c1, w1) \<and> wd_sent w1 = wd_sent w @ [(cl_server_addr c, dg)] \<and>
    server_on_datagram es (dg, caddr) (s, sw) = Some (s\<lparr>sv_stats := st\<rparr>, sw') \<and> wd_sent sw' = wd_sent sw @ [(caddr, reset)] \<and>
    client_on_datagram ec REL4U_STATE_CONNECTED (reset, saddr) (c1, w1) = Some (False, cl_state c2, c2, w2) \<and>
    (let pending = map slot_msg (unacked (sw_entries (cl_send_win c))); waiting = queue_msgs (cl_send_queue c);
         left = queue_msgs (cl_send_queue c2)
     in if cc_disable_auto_reconnect (cl_config c)
        then cl_state c2 = REL4U_STATE_DISCONNECTED \<and> cl_send_queue c2 = cl_send_queue c \<and> cl_send_win c2 = cl_send_win c
        else cl_state c2 = REL4U_STATE_CONNECTING \<and> sw_entries (cl_send_win c2) = [] \<and> sw_head_seq (cl_send_win c2) = 1 \<and>
          rw_expected_seq (cl_recv_win c2) = 1 \<and> rw_buf (cl_recv_win c2) = Map.empty \<and>
          (\<exists>d. subseq left (pending @ waiting) \<and> length left + d = length pending + length waiting \<and>
             q_dropped_count (cl_send_queue c2) = q_dropped_count (cl_send_queue c) + of_nat d) \<and>
          ((\<forall>k. total_alloc (env_alloc ec k)) \<and> queue_fits (cl_send_queue c) (map entry_item (unacked (sw_entries (cl_send_win c)))) \<longrightarrow>
             left = pending @ waiting \<and> q_dropped_count (cl_send_queue c2) = q_dropped_count (cl_send_queue c)))"
proof (rule client_send_packet_law [OF envs(1) inv p, of type mode seq w])
  fix dg c1 w1
  assume b: "build_datagram ec (cl_recv_win c) (cl_session_id c) type mode seq payload len = Some (24, dg)"
    and c1: "client_send_packet ec type mode seq payload len (c, w) = Some (c1, w1)"
      "wd_sent w1 = (if cl_sock c = -1 then wd_sent w else wd_sent w @ [(cl_server_addr c, dg)])"
      "\<exists>st t a. c1 = c\<lparr>cl_stats := st, cl_last_ack_sent_ns := t, cl_ack_pending := a\<rparr>" "client_inv c1"
  from c1(3) have same: "cl_config c1 = cl_config c" "cl_server_addr c1 = cl_server_addr c" "cl_session_id c1 = cl_session_id c"
      "cl_send_queue c1 = cl_send_queue c" "cl_send_win c1 = cl_send_win c" by auto
  have "recv_inv (cl_recv_win c)" using inv by (simp add: client_inv_def receiving_ok_def)
  from sent_datagram [OF envs(1) this p b] obtain sack where
    dec: "rel4u_packet_decode_header (Some dg) (of_nat (length dg)) (Some zero_header) =
      (0, Some (packet_header (cl_session_id c) type mode seq (ucast len) (rw_expected_seq (cl_recv_win c) - 1) sack))" by blast
  let ?hdr = "packet_header (cl_session_id c) REL4U_PKT_RESET 0 seq 0 0 0"
  from server_stray_law [OF envs(2) socks(2) dec, of caddr sw] type lost obtain sw' st where
    srv: "server_on_datagram es (dg, caddr) (s, sw) = Some (s\<lparr>sv_stats := st\<rparr>, sw')" "wd_sent sw' = wd_sent sw @ [(caddr, header_bytes ?hdr)]"
    by auto
  from client_reset_law [OF envs(1) c1(4), of saddr "header_bytes ?hdr" ?hdr w1] saddr decode_control same obtain c2 w2 where
    c2: "client_on_datagram ec REL4U_STATE_CONNECTED (header_bytes ?hdr, saddr) (c1, w1) = Some (False, cl_state c2, c2, w2)"
      "if cc_disable_auto_reconnect (cl_config c)
       then cl_state c2 = REL4U_STATE_DISCONNECTED \<and> cl_send_queue c2 = cl_send_queue c \<and> cl_send_win c2 = cl_send_win c
       else cl_state c2 = REL4U_STATE_CONNECTING \<and> cl_send_queue c2 = requeued ec c1 w1 \<and> cl_session_id c2 = 0 \<and>
         sw_entries (cl_send_win c2) = [] \<and> sw_head_seq (cl_send_win c2) = 1 \<and>
         rw_expected_seq (cl_recv_win c2) = 1 \<and> rw_buf (cl_recv_win c2) = Map.empty" by auto
  note counted = requeued_counted [OF envs(1) c1(4), of w1, unfolded same] and all = requeued_msgs [OF envs(1) c1(4), of w1, unfolded same]
  show ?thesis
  proof (cases "cc_disable_auto_reconnect (cl_config c)")
    case True
    show ?thesis
      by (intro exI [of _ c1] exI [of _ w1] exI [of _ dg] exI [of _ st] exI [of _ sw'] exI [of _ "header_bytes ?hdr"] exI [of _ c2] exI [of _ w2])
        (use True c1(1,2) socks(1) srv c2 in \<open>simp add: Let_def\<close>)
  next
    case False
    show ?thesis
      by (intro exI [of _ c1] exI [of _ w1] exI [of _ dg] exI [of _ st] exI [of _ sw'] exI [of _ "header_bytes ?hdr"] exI [of _ c2] exI [of _ w2])
        (use False c1(1,2) socks(1) srv c2 counted all in \<open>simp add: Let_def\<close>)
  qed
qed

lemma lost_session_recovers_witness:
  "\<exists>c c1 w1 dg st sw' reset c2 w2. length (unacked (sw_entries (cl_send_win c))) = 1 \<and>
     client_send_packet ex_env REL4U_PKT_HEARTBEAT 0 0 None 0 (c, ex_world) = Some (c1, w1) \<and>
     server_on_datagram ex_env (dg, ex_addr 2) (ex_server\<lparr>sv_sock := 3\<rparr>, ex_world) = Some (ex_server\<lparr>sv_sock := 3, sv_stats := st\<rparr>, sw') \<and>
     client_on_datagram ex_env REL4U_STATE_CONNECTED (reset, ex_addr 1) (c1, w1) = Some (False, REL4U_STATE_CONNECTING, c2, w2) \<and>
     length (queue_msgs (cl_send_queue c2)) = 1"
proof -
  obtain win where win: "send_inv win" "length (unacked (sw_entries win)) = 1" by (rule ex_client_window)
  let ?c = "ex_client\<lparr>cl_send_win := win, cl_server_addr := ex_addr 1, cl_sock := 3\<rparr>" and ?s = "ex_server\<lparr>sv_sock := 3\<rparr>"
  have c: "client_inv ?c" "cl_sock ?c \<noteq> -1" "sv_sock ?s \<noteq> -1" "\<not> cc_disable_auto_reconnect (cl_config ?c)"
    "queue_fits (cl_send_queue ?c) (map entry_item (unacked (sw_entries (cl_send_win ?c))))"
    using ex_client_facts win by (simp_all add: client_inv_def queue_fits_def)
  have lost: "\<forall>i. rel4u_session_find_by_addr (sv_session_table ?s) (Some (ex_addr 2)) = Some i \<longrightarrow> cs_session_id (sv_session ?s i) \<noteq> cl_session_id ?c"
    using ex_server_idle by simp
  have env: "rel4u_net_addr_equal (Some (ex_addr 1)) (Some (cl_server_addr ?c))" "\<forall>k. total_alloc (env_alloc ex_env k)"
    by (simp_all add: ex_env_def ex_addr_def rel4u_net_addr_equal_def)
  from lost_session_recovers [OF ex_env_ok ex_env_ok c(1-3) control_given, of REL4U_PKT_HEARTBEAT "ex_addr 2" "ex_addr 1" 0 0 ex_world ex_world]
    lost env(1)
  obtain c1 w1 dg st sw' reset c2 w2 where r:
    "client_send_packet ex_env REL4U_PKT_HEARTBEAT 0 0 None 0 (?c, ex_world) = Some (c1, w1)"
    "server_on_datagram ex_env (dg, ex_addr 2) (?s, ex_world) = Some (?s\<lparr>sv_stats := st\<rparr>, sw')"
    "client_on_datagram ex_env REL4U_STATE_CONNECTED (reset, ex_addr 1) (c1, w1) = Some (False, cl_state c2, c2, w2)"
    "cl_state c2 = REL4U_STATE_CONNECTING" "queue_msgs (cl_send_queue c2) = map slot_msg (unacked (sw_entries win)) @ queue_msgs (cl_send_queue ?c)"
    using c(4,5) env(2) by (auto simp: Let_def)
  have "length (queue_msgs (cl_send_queue c2)) = 1" using r(5) win(2) ex_client_facts(9) by simp
  with r(1-4) win(2) show ?thesis
    by (intro exI [of _ ?c] exI [of _ c1] exI [of _ w1] exI [of _ dg] exI [of _ st] exI [of _ sw'] exI [of _ reset] exI [of _ c2] exI [of _ w2]) simp
qed

subsection \<open>A session the client has lost\<close>

text \<open>
  C12. A client that has lost its session while the server has not (it was restarted, or gave up after silence from the server, and
  connects again from the same address) loses messages it marked as reliable. The connection request leaves the windows of the old
  session as they are and offers the old session again; the first reliable message of the client, which starts at sequence number 1, is taken for a
  duplicate: it is not delivered, but acknowledged, and on this acknowledgement the client removes it from its window.
  This holds whenever the old session had received between 1 and \<open>2 ^ 31 - 1\<close> reliable messages.
\<close>

theorem reconnect_loses_message:
  assumes "env_ok e" "server_inv n s" "rel4u_session_find_by_addr (sv_session_table s) (Some a) = Some i"
    and old: "1 < unat (rw_expected_seq (cs_recv_win (sv_session s i)))" "unat (rw_expected_seq (cs_recv_win (sv_session s i))) \<le> 2 ^ 31"
    and req: "rel4u_packet_decode_header (Some req) (of_nat (length req)) (Some zero_header) = (0, Some h0)"
      "packet_type h0 = REL4U_PKT_CONNECT_REQ"
    and dat: "rel4u_packet_decode_header (Some dat) (of_nat (length dat)) (Some zero_header) = (0, Some h1)" "length dat \<le> 9240"
      "packet_type h1 = REL4U_PKT_DATA" "session_id h1 = cs_session_id (sv_session s i)" "reliable (delivery_mode h1)" "seq_num h1 = 1"
    and win: "send_inv win" "sw_head_seq win = 1" "length (sw_entries win) = 1"
  shows "\<exists>s1 w1 s2 w2 ack sack win' rs. server_on_datagram e (req, a) (s, w) = Some (s1, w1) \<and>
    cs_session_id (sv_session s1 i) = cs_session_id (sv_session s i) \<and>
    server_on_datagram e (dat, a) (s1, w1) = Some (s2, w2) \<and> sv_recv_queue s2 = sv_recv_queue s \<and> cs_ack_pending (sv_session s2 i) \<and>
    rel4u_recv_window_get_ack_info (cs_recv_win (sv_session s2 i)) = Some (ack, sack) \<and>
    rel4u_send_window_on_ack win ack sack now rtt stats = Some (win', rs) \<and> sw_entries win' = []"
proof (rule known_request [OF assms(1-3) req, of w])
  fix s1 w1
  assume s1: "server_on_datagram e (req, a) (s, w) = Some (s1, w1)" "server_inv n s1"
    "rel4u_session_find_by_addr (sv_session_table s1) (Some a) = Some i" "cs_recv_win (sv_session s1 i) = cs_recv_win (sv_session s i)"
    "cs_session_id (sv_session s1 i) = cs_session_id (sv_session s i)" "sv_recv_queue s1 = sv_recv_queue s"
  let ?e = "rw_expected_seq (cs_recv_win (sv_session s i))"
  have "unat (1 - ?e) = 2 ^ 32 + 1 - unat ?e" using old(1) by (simp add: unat_sub_if' word_le_nat_alt)
  then have "2 ^ 31 \<le> unat (1 - ?e)" using old(2) by simp
  then have "reliable_verdict (cs_recv_win (sv_session s1 i)) (seq_num h1) = 1" using dat(6) by (simp add: reliable_verdict_def s1(4) Let_def)
  from refused_data [OF assms(1) s1(2,3) dat(1-3) _ dat(5) this, of w1] dat(4) s1(4-6) obtain s2 w2 where
    s2: "server_on_datagram e (dat, a) (s1, w1) = Some (s2, w2)" "server_inv n s2" "sv_recv_queue s2 = sv_recv_queue s"
      "cs_recv_win (sv_session s2 i) = cs_recv_win (sv_session s i)" "cs_ack_pending (sv_session s2 i)" by auto
  have "recv_inv (cs_recv_win (sv_session s i))"
    using session_goodD(2) [OF server_session_good [OF assms(2) session_found(1) [OF assms(2,3)]]] .
  from get_ack_info_law [OF this] obtain sack where
    ack: "rel4u_recv_window_get_ack_info (cs_recv_win (sv_session s2 i)) = Some (?e - 1, sack)" by (auto simp: s2(4))
  have "unat (?e - 1 - 1) \<le> 2 ^ 31" using old by (simp add: unat_sub_if' word_le_nat_alt)
  then have "ack_count (?e - 1) (sw_head_seq win) (sw_len win) = 1" using win(2,3) length_sw_entries [of win] by (simp add: ack_count_def)
  with send_on_ack_law [OF win(1), of "?e - 1" sack now rtt stats] win(3) obtain win' rs where
    "rel4u_send_window_on_ack win (?e - 1) sack now rtt stats = Some (win', rs)" "sw_entries win' = sack_mark (sack_set (?e - 1) sack) []" by auto
  then show ?thesis using s1(1,5) s2(1,3,5) ack by (auto simp: sack_mark_def)
qed

lemma reconnect_loses_message_witness:
  "\<exists>s s1 w1 s2 w2. unat (rw_expected_seq (cs_recv_win (sv_session s 0))) = 5 \<and>
     server_on_datagram ex_env (header_bytes (packet_header 0 REL4U_PKT_CONNECT_REQ 0 0 0 0 0), ex_addr 1) (s, ex_world) = Some (s1, w1) \<and>
     server_on_datagram ex_env (header_bytes (packet_header 7 REL4U_PKT_DATA 3 1 0 0 0), ex_addr 1) (s1, w1) = Some (s2, w2) \<and>
     sv_recv_queue s2 = sv_recv_queue s"
proof -
  define rw where "rw = snd (rel4u_recv_window_init True zero_recv_window 8 5)"
  have "rel4u_recv_window_init True zero_recv_window 8 5 = (0, rw)" by (simp add: rw_def rel4u_recv_window_init_def)
  from recv_init_inv [OF this] have rw: "recv_inv rw" "rw_buf rw 0 = None" "rw_expected_seq rw = 5" by simp_all
  obtain s where s: "server_inv 2 s" "cs_session_id (sv_session s 0) = 7" "cs_recv_win (sv_session s 0) = rw"
      "rel4u_session_find_by_addr (sv_session_table s) (Some (ex_addr 1)) = Some 0"
    by (rule ex_server_session [OF rw(1,2)])
  obtain win where win: "send_inv win" "sw_head_seq win = 1" "length (sw_entries win) = 1" by (rule ex_client_window)
  have dec: "rel4u_packet_decode_header (Some (header_bytes (packet_header 7 REL4U_PKT_DATA 3 1 0 0 0)))
      (of_nat (length (header_bytes (packet_header 7 REL4U_PKT_DATA 3 1 0 0 0)))) (Some zero_header) =
      (0, Some (packet_header 7 REL4U_PKT_DATA 3 1 0 0 0))"
    using decode_built [of None 0 7 REL4U_PKT_DATA 3 1 0 0 zero_header] by (simp add: payload_bytes_def)
  from reconnect_loses_message [OF ex_env_ok s(1,4) _ _ decode_control [where sid = 0 and type = REL4U_PKT_CONNECT_REQ and seq = 0] _ dec _ _ _ _ _ win,
      where w = ex_world and now = 0 and rtt = None and stats = None] s(2,3) rw(3)
  obtain s1 w1 s2 w2 where
    "server_on_datagram ex_env (header_bytes (packet_header 0 REL4U_PKT_CONNECT_REQ 0 0 0 0 0), ex_addr 1) (s, ex_world) = Some (s1, w1)"
    "server_on_datagram ex_env (header_bytes (packet_header 7 REL4U_PKT_DATA 3 1 0 0 0), ex_addr 1) (s1, w1) = Some (s2, w2)"
    "sv_recv_queue s2 = sv_recv_queue s" by (auto simp: reliable_def)
  with s(3) rw(3) show ?thesis by (intro exI [of _ s] exI [of _ s1] exI [of _ w1] exI [of _ s2] exI [of _ w2]) simp
qed

end
